(* ===== verification/Prelude.thy ===== *)
theory Prelude
  imports Main "HOL-Library.Word" "HOL-Library.Monad_Syntax"
begin

unbundle bit_operations_syntax

text \<open>
  What every component of the model shares: the machine integer types, byte buffers and the
  checked reads on them, copying into a buffer, big-endian fields, and the few functions of the C
  library that the parsers call. The collections \<open>buf_simps\<close> and \<open>read_simps\<close> gather the facts
  with which the component proofs are carried out.

  A C buffer with its length is a list of bytes. A read at an index is \<open>rd8\<close>, an \<open>option\<close> whose
  \<open>None\<close> means that the code has read outside the buffer, which C leaves undefined; "never reads
  out of bounds" is then the statement that a function of the model never returns \<open>None\<close>. Sizes
  and offsets (\<open>size_t\<close>, 32 bits on the target) are natural numbers: every buffer is shorter than
  the address space, so their sums do not wrap.
\<close>

section \<open>Types\<close>

type_synonym u8 = "8 word"
type_synonym u16 = "16 word"
type_synonym u32 = "32 word"
type_synonym u64 = "64 word"
type_synonym bytes = "8 word list"

named_theorems buf_simps \<open>lengths and contents of buffers after a copy\<close>
named_theorems read_simps \<open>when a checked read succeeds\<close>

lemma unat_u8 [simp]: "unat (w :: u8) < 256"
  using unsigned_less [of w] by simp

section \<open>Buffers\<close>

text \<open>\<open>blit xs off ys\<close> is \<open>memcpy(xs + off, ys, n)\<close> with all of \<open>ys\<close>.\<close>

definition blit :: "'a list \<Rightarrow> nat \<Rightarrow> 'a list \<Rightarrow> 'a list" where
  "blit xs off ys = take off xs @ ys @ drop (off + length ys) xs"

lemma length_blit [buf_simps]: "off + length ys \<le> length xs \<Longrightarrow> length (blit xs off ys) = length xs"
  by (simp add: blit_def)

lemma blit_Nil [buf_simps, simp]: "blit xs off [] = xs"
  by (simp add: blit_def)

lemma nth_blit [buf_simps]:
  assumes "off + length ys \<le> length xs" and "p < length xs"
  shows "blit xs off ys ! p = (if off \<le> p \<and> p < off + length ys then ys ! (p - off) else xs ! p)"
  using assms by (auto simp: blit_def nth_append min_def)

text \<open>A segment \<open>xs[off .. off + n)\<close>: what \<open>memcpy(out, xs + off, n)\<close> leaves in \<open>out\<close>.\<close>

definition segment :: "'a list \<Rightarrow> nat \<Rightarrow> nat \<Rightarrow> 'a list" where
  "segment xs off n = take n (drop off xs)"

lemma length_segment [buf_simps]: "off + n \<le> length xs \<Longrightarrow> length (segment xs off n) = n"
  by (simp add: segment_def)

lemma nth_segment [buf_simps]: "off + n \<le> length xs \<Longrightarrow> k < n \<Longrightarrow> segment xs off n ! k = xs ! (off + k)"
  by (simp add: segment_def)

lemma segment_0 [simp]: "segment xs off 0 = []"
  by (simp add: segment_def)

lemma segment_all [simp]: "segment xs 0 (length xs) = xs"
  by (simp add: segment_def)

lemma segment_append_segment: "segment xs off n @ segment xs (off + n) m = segment xs off (n + m)"
  by (simp add: segment_def take_add drop_drop add.commute [of off])

section \<open>Checked reads\<close>

definition rd8 :: "'a list \<Rightarrow> nat \<Rightarrow> 'a option" where
  "rd8 p i = (if i < length p then Some (p ! i) else None)"

lemma rd8_in [read_simps]: "i < length p \<Longrightarrow> rd8 p i = Some (p ! i)"
  by (simp add: rd8_def)

lemma rd8_Some_iff: "rd8 p i = Some b \<longleftrightarrow> i < length p \<and> p ! i = b"
  by (auto simp: rd8_def)

text \<open>Reading a run of bytes, as \<open>memcpy\<close> from or \<open>memcmp\<close> on the buffer does.\<close>

definition rd_run :: "'a list \<Rightarrow> nat \<Rightarrow> nat \<Rightarrow> 'a list option" where
  "rd_run p off n = (if off + n \<le> length p then Some (segment p off n) else None)"

lemma rd_run_in [read_simps]: "off + n \<le> length p \<Longrightarrow> rd_run p off n = Some (segment p off n)"
  by (simp add: rd_run_def)

section \<open>Comparing in constant time\<close>

lemma xor_cancel: "(a :: 'a::len word) XOR b = a XOR c \<Longrightarrow> b = c"
proof -
  assume "a XOR b = a XOR c"
  then have "(a XOR a) XOR b = (a XOR a) XOR c" by (simp only: xor.assoc)
  then show ?thesis by simp
qed

lemma fold_or_0: "fold (\<lambda>i d. d OR f i) xs (d :: u8) = 0 \<longleftrightarrow> d = 0 \<and> (\<forall>i \<in> set xs. f i = 0)"
  by (induction xs arbitrary: d) (auto simp: or_eq_0_iff)

lemma fold_xor_eq:
  assumes "n \<le> length a" and "n \<le> length b"
  shows "fold (\<lambda>i d. d OR ((a ! i) XOR (b ! i))) [0..<n] (0 :: u8) = 0 \<longleftrightarrow> take n a = take n b"
proof -
  have x: "(u XOR v = 0) = (u = v)" for u v :: u8 by (metis xor_cancel xor_self_eq)
  have "take n a = take n b \<longleftrightarrow> (\<forall>i < n. a ! i = b ! i)" using assms by (auto simp: list_eq_iff_nth_eq)
  then show ?thesis unfolding fold_or_0 by (auto simp: x)
qed

section \<open>Big-endian fields\<close>

definition be16 :: "u8 \<Rightarrow> u8 \<Rightarrow> u16" where
  "be16 a b = push_bit 8 (ucast a) OR ucast b"

definition be32 :: "u8 \<Rightarrow> u8 \<Rightarrow> u8 \<Rightarrow> u8 \<Rightarrow> u32" where
  "be32 a b c d = push_bit 24 (ucast a) OR push_bit 16 (ucast b) OR push_bit 8 (ucast c) OR ucast d"

definition put16 :: "u16 \<Rightarrow> bytes" where
  "put16 v = [ucast (drop_bit 8 v), ucast v]"

definition put32 :: "u32 \<Rightarrow> bytes" where
  "put32 v = [ucast (drop_bit 24 v), ucast (drop_bit 16 v), ucast (drop_bit 8 v), ucast v]"

lemma length_put16 [buf_simps, simp]: "length (put16 v) = 2"
  by (simp add: put16_def)

lemma length_put32 [buf_simps, simp]: "length (put32 v) = 4"
  by (simp add: put32_def)

lemma be16_put16: "be16 (ucast (drop_bit 8 v)) (ucast v) = v"
  unfolding be16_def by (rule bit_word_eqI) (auto simp: bit_simps)

lemma be32_put32:
  "be32 (ucast (drop_bit 24 v)) (ucast (drop_bit 16 v)) (ucast (drop_bit 8 v)) (ucast v) = v"
proof (rule bit_word_eqI)
  fix n
  assume "n < LENGTH(32)"
  then consider "n < 8" | "8 \<le> n \<and> n < 16" | "16 \<le> n \<and> n < 24" | "24 \<le> n \<and> n < 32" by force
  then show "bit (be32 (ucast (drop_bit 24 v)) (ucast (drop_bit 16 v)) (ucast (drop_bit 8 v)) (ucast v)) n
             = bit v n"
    by cases (auto simp: be32_def bit_simps dest: bit_imp_le_length)
qed

text \<open>The checked reads of a big-endian field.\<close>

definition rd16 :: "bytes \<Rightarrow> nat \<Rightarrow> u16 option" where
  "rd16 p i = do { a \<leftarrow> rd8 p i; b \<leftarrow> rd8 p (i + 1); Some (be16 a b) }"

definition rd32 :: "bytes \<Rightarrow> nat \<Rightarrow> u32 option" where
  "rd32 p i = do { a \<leftarrow> rd8 p i; b \<leftarrow> rd8 p (i + 1); c \<leftarrow> rd8 p (i + 2); d \<leftarrow> rd8 p (i + 3); Some (be32 a b c d) }"

lemma rd16_in [read_simps]: "i + 2 \<le> length p \<Longrightarrow> rd16 p i = Some (be16 (p ! i) (p ! (i + 1)))"
  by (simp add: rd16_def rd8_def)

lemma rd32_in [read_simps]:
  "i + 4 \<le> length p \<Longrightarrow> rd32 p i = Some (be32 (p ! i) (p ! (i + 1)) (p ! (i + 2)) (p ! (i + 3)))"
  by (simp add: rd32_def rd8_def)

lemma rd16_at: "length a = i \<Longrightarrow> rd16 (a @ put16 v @ b) i = Some v"
  by (auto simp: rd16_def rd8_def put16_def nth_append be16_put16)

lemma rd32_at: "length a = i \<Longrightarrow> rd32 (a @ put32 v @ b) i = Some v"
  by (auto simp: rd32_def rd8_def put32_def nth_append be32_put32)

text \<open>Enumerating the bit positions of a word: for equations that are decided bit by bit.\<close>

lemma numeral_upt:
  "[0..<numeral n] = 0 # [1..<numeral n]"
  "[1..<numeral n] = (if 1 < (numeral n :: nat) then 1 # [2..<numeral n] else [])"
  "[Suc 0..<numeral n] = (if 1 < (numeral n :: nat) then 1 # [2..<numeral n] else [])"
  by (simp_all add: upt_rec numeral_2_eq_2)

lemma bit_times2: "bit (w * 2 :: 'a::len word) n \<longleftrightarrow> 0 < n \<and> n < LENGTH('a) \<and> bit w (n - 1)"
proof -
  have "w * 2 = push_bit 1 w" by (simp add: push_bit_eq_mult)
  then show ?thesis by (simp only: bit_push_bit_iff) (auto simp: Suc_le_eq)
qed

lemma list_all_upt: "list_all P [a..<b] \<Longrightarrow> a \<le> n \<Longrightarrow> n < b \<Longrightarrow> P n"
  unfolding list_all_iff set_upt by simp

lemma be16_sum: "be16 a b = ucast a * 256 + ucast b"
proof -
  have "ucast a * 256 = (push_bit 8 (ucast a) :: u16)" by (simp add: push_bit_eq_mult)
  moreover have "(push_bit 8 (ucast a) :: u16) + ucast b = push_bit 8 (ucast a) OR ucast b"
    by (rule disjunctive_add) (auto simp: bit_simps dest: bit_imp_le_length)
  ultimately show ?thesis by (simp add: be16_def)
qed

lemma unat_be16: "unat (be16 a b) = unat a * 256 + unat b"
proof -
  have "unat a * 256 + unat b < 65536" using unat_u8 [of a] unat_u8 [of b] by linarith
  then have "unat (of_nat (unat a * 256 + unat b) :: u16) = unat a * 256 + unat b"
    by (simp add: unsigned_of_nat take_bit_nat_eq_self del: of_nat_add of_nat_mult)
  moreover have "be16 a b = of_nat (unat a * 256 + unat b)" by (simp add: be16_sum)
  ultimately show ?thesis by (simp only:)
qed

lemma unat_be16_nat: "n < 65536 \<Longrightarrow> unat (be16 (of_nat (n div 256)) (of_nat n)) = n"
  by (simp add: unat_be16 unsigned_of_nat take_bit_nat_def)

section \<open>C strings\<close>

text \<open>
  A C string is the list of its characters before the terminating zero. \<open>strtol(s, &end, 10)\<close>
  skips white space, takes a sign and the digits, and clamps to \<open>long\<close>, which has 32 bits on the
  target; without a digit it consumes nothing.
\<close>

definition c_isspace :: "char \<Rightarrow> bool" where
  "c_isspace c \<longleftrightarrow> c = CHR '' '' \<or> (9 \<le> (of_char c :: nat) \<and> (of_char c :: nat) \<le> 13)"

definition c_isdigit :: "char \<Rightarrow> bool" where
  "c_isdigit c \<longleftrightarrow> 48 \<le> (of_char c :: nat) \<and> (of_char c :: nat) \<le> 57"

definition digit_val :: "char \<Rightarrow> int" where
  "digit_val c = int (of_char c) - 48"

definition c_tolower :: "char \<Rightarrow> char" where
  "c_tolower c = (if 65 \<le> (of_char c :: nat) \<and> (of_char c :: nat) \<le> 90
                  then char_of (of_char c + 32 :: nat) else c)"

fun digits_val :: "int \<Rightarrow> string \<Rightarrow> int" where
  "digits_val acc [] = acc"
| "digits_val acc (c # cs) = digits_val (10 * acc + digit_val c) cs"

definition clamp_long :: "int \<Rightarrow> int" where
  "clamp_long v = (if v > 2147483647 then 2147483647 else if v < -2147483648 then -2147483648 else v)"

definition strtol :: "string \<Rightarrow> int \<times> string" where
  "strtol s =
     (let s1 = dropWhile c_isspace s;
          (neg, s2) = (case s1 of c # r \<Rightarrow> if c = CHR ''-'' then (True, r)
                                          else if c = CHR ''+'' then (False, r) else (False, s1)
                       | [] \<Rightarrow> (False, []));
          ds = takeWhile c_isdigit s2
      in if ds = [] then (0, s)
         else (clamp_long (if neg then - digits_val 0 ds else digits_val 0 ds), drop (length ds) s2))"

text \<open>\<open>printf("%d")\<close> of a number that is not negative.\<close>

fun show_nat :: "nat \<Rightarrow> string" where
  "show_nat n = (if n < 10 then [char_of (48 + n)] else show_nat (n div 10) @ [char_of (48 + n mod 10)])"

declare show_nat.simps [simp del]

lemma digits_val_append: "digits_val acc (xs @ [c]) = 10 * digits_val acc xs + digit_val c"
  by (induction xs arbitrary: acc) auto

lemma digit_char: "n < 10 \<Longrightarrow> c_isdigit (char_of (48 + n)) \<and> digit_val (char_of (48 + n)) = int n"
  by (simp add: c_isdigit_def digit_val_def of_char_of take_bit_eq_mod)

lemma show_nat_digits: "(\<forall>c \<in> set (show_nat n). c_isdigit c) \<and> show_nat n \<noteq> []"
proof (induction n rule: show_nat.induct)
  case (1 n)
  then show ?case
    by (subst (1 2) show_nat.simps) (auto simp: digit_char)
qed

lemma show_nat_val: "digits_val 0 (show_nat n) = int n"
proof (induction n rule: show_nat.induct)
  case (1 n)
  show ?case
  proof (cases "n < 10")
    case True
    then show ?thesis by (subst show_nat.simps) (simp add: digit_char)
  next
    case False
    then have "digits_val 0 (show_nat n) = 10 * int (n div 10) + int (n mod 10)"
      using "1" by (subst show_nat.simps) (simp add: digits_val_append digit_char)
    also have "\<dots> = int n" by presburger
    finally show ?thesis .
  qed
qed

lemma show_nat_digit: "n < 10 \<Longrightarrow> show_nat n = [char_of (48 + n)]"
  by (subst show_nat.simps) simp

lemma show_nat_length: "n < 10 ^ Suc k \<Longrightarrow> length (show_nat n) \<le> Suc k"
proof (induction k arbitrary: n)
  case (Suc k)
  show ?case
  proof (cases "n < 10")
    case False
    moreover have "n div 10 < 10 ^ Suc k" using Suc.prems by (simp add: less_mult_imp_div_less)
    ultimately show ?thesis using Suc.IH by (subst show_nat.simps) simp
  qed (simp add: show_nat_digit)
qed (simp add: show_nat_digit)

lemma digit_not_space: "c_isdigit c \<Longrightarrow> \<not> c_isspace c \<and> c \<noteq> CHR ''-'' \<and> c \<noteq> CHR ''+''"
  by (auto simp: c_isdigit_def c_isspace_def)

text \<open>Reading back what was printed; the text after the digits is left over.\<close>

lemma strtol_show_nat:
  assumes "int n \<le> 2147483647" and "rest = [] \<or> \<not> c_isdigit (hd rest)"
  shows "strtol (show_nat n @ rest) = (int n, rest)"
proof -
  obtain d ds where d: "show_nat n = d # ds" and dd: "c_isdigit d"
    using show_nat_digits [of n] by (cases "show_nat n") auto
  have all: "\<forall>c \<in> set (show_nat n). c_isdigit c" using show_nat_digits by blast
  have tw: "takeWhile c_isdigit (show_nat n @ rest) = show_nat n"
    using all assms(2) by (subst takeWhile_append2) (auto simp: takeWhile_eq_Nil_iff)
  have nsp: "dropWhile c_isspace (show_nat n @ rest) = show_nat n @ rest"
    using digit_not_space [OF dd] d by simp
  have val: "digits_val 0 (d # ds) = int n"
    using show_nat_val [of n] by (simp only: d)
  show ?thesis
    using tw nsp digit_not_space [OF dd] assms(1)
    unfolding strtol_def Let_def d by (simp add: val clamp_long_def del: digits_val.simps)
qed

lemma c_tolower_idem [simp]: "c_tolower (c_tolower c) = c_tolower c"
  by (auto simp: c_tolower_def of_char_of)

text \<open>\<open>strcasecmp(a, b) == 0\<close>.\<close>

definition c_strcaseeq :: "string \<Rightarrow> string \<Rightarrow> bool" where
  "c_strcaseeq a b \<longleftrightarrow> map c_tolower a = map c_tolower b"

section \<open>C arithmetic and loops\<close>

text \<open>Signed division, which truncates towards zero.\<close>

definition c_div :: "int \<Rightarrow> int \<Rightarrow> int" where
  "c_div a b = sgn a * sgn b * (\<bar>a\<bar> div \<bar>b\<bar>)"

text \<open>A loop of checked reads.\<close>

fun map_opt :: "('a \<Rightarrow> 'b option) \<Rightarrow> 'a list \<Rightarrow> 'b list option" where
  "map_opt f [] = Some []"
| "map_opt f (x # xs) =
     (case f x of None \<Rightarrow> None | Some y \<Rightarrow> (case map_opt f xs of None \<Rightarrow> None | Some ys \<Rightarrow> Some (y # ys)))"

lemma map_opt_Some: "(\<And>x. x \<in> set xs \<Longrightarrow> f x = Some (g x)) \<Longrightarrow> map_opt f xs = Some (map g xs)"
  by (induction xs) auto

lemma map_opt_total: "(\<And>x. x \<in> set xs \<Longrightarrow> f x \<noteq> None) \<Longrightarrow> map_opt f xs \<noteq> None"
  by (induction xs) (fastforce split: option.splits)+

lemma map_opt_length: "map_opt f xs = Some ys \<Longrightarrow> length ys = length xs"
  by (induction xs arbitrary: ys) (auto split: option.splits)

lemma map_opt_set: "map_opt f xs = Some ys \<Longrightarrow> y \<in> set ys \<Longrightarrow> \<exists>x \<in> set xs. f x = Some y"
  by (induction xs arbitrary: ys) (auto split: option.splits)

section \<open>Accepting once\<close>

text \<open>
  The contract of a duplicate check: a state with the keys it refuses, and an operation that says
  whether a key is new and notes it. The keys accepted in a run are then pairwise different.
\<close>

fun accepted_keys :: "('k \<Rightarrow> 's \<Rightarrow> bool \<times> 's) \<Rightarrow> 's \<Rightarrow> 'k list \<Rightarrow> 'k list" where
  "accepted_keys take_key s [] = []"
| "accepted_keys take_key s (k # ks) =
     (let (new, s1) = take_key k s in if new then k # accepted_keys take_key s1 ks else accepted_keys take_key s1 ks)"

locale accept_once =
  fixes ok :: "'s \<Rightarrow> bool"
    and take_key :: "'k \<Rightarrow> 's \<Rightarrow> bool \<times> 's"
    and refused :: "'s \<Rightarrow> 'k \<Rightarrow> bool"
  assumes keeps: "ok s \<Longrightarrow> take_key k s = (new, s') \<Longrightarrow> ok s'"
    and new_only: "ok s \<Longrightarrow> take_key k s = (True, s') \<Longrightarrow> \<not> refused s k"
    and still_refused: "ok s \<Longrightarrow> take_key k s = (new, s') \<Longrightarrow> refused s j \<Longrightarrow> refused s' j"
    and noted: "ok s \<Longrightarrow> take_key k s = (True, s') \<Longrightarrow> refused s' k"
begin

lemma accepted_new:
  "ok s \<Longrightarrow> distinct (accepted_keys take_key s ks) \<and> (\<forall>k \<in> set (accepted_keys take_key s ks). \<not> refused s k)"
proof (induction ks arbitrary: s)
  case (Cons k ks)
  obtain new s1 where t: "take_key k s = (new, s1)" by fastforce
  have IH: "distinct (accepted_keys take_key s1 ks)" "\<forall>j \<in> set (accepted_keys take_key s1 ks). \<not> refused s1 j"
    using Cons.IH [OF keeps [OF Cons.prems t]] by auto
  have old: "\<forall>j \<in> set (accepted_keys take_key s1 ks). \<not> refused s j"
    using IH(2) still_refused [OF Cons.prems t] by blast
  show ?case
  proof (cases new)
    case True
    then have "take_key k s = (True, s1)" using t by simp
    then have "\<not> refused s k" "refused s1 k" using new_only [OF Cons.prems] noted [OF Cons.prems] by blast+
    then show ?thesis using IH old t True by auto
  qed (use IH old t in simp)
qed simp

end

end
