(* ===== verification/Frame_Ring.thy ===== *)
theory Frame_Ring
  imports Prelude
begin

text \<open>
  components/kvm_record/frame_ring.c: encoded frames in a circular byte buffer, oldest first, with
  a circular table of where each one lies. The same ring is a recorder's queue (a full ring refuses)
  and the dashcam's memory (a full ring drops its oldest groups of pictures).

  The abstract view of a ring is the list of the frames it holds, bytes included. The invariant
  says that the frames lie one behind the other in the buffer, around its end; every operation
  keeps it, and acts on the abstract list as a queue does. The interface of a bounded queue is the
  locale \<open>frame_queue\<close>, which the ring interprets.
\<close>

section \<open>The ring\<close>

record frame_entry =
  e_off :: nat
  e_len :: nat
  e_at_us :: int
  e_key :: bool

record frame_ring =
  fr_buf :: bytes
  fr_cap :: nat
  fr_entries :: "frame_entry list"
  fr_max :: nat
  fr_head :: nat
  fr_count :: nat
  fr_used :: nat
  fr_wpos :: nat

definition frame_ring_init :: "bytes \<Rightarrow> nat \<Rightarrow> frame_entry list \<Rightarrow> nat \<Rightarrow> frame_ring" where
  "frame_ring_init buf cap entries max_entries =
     \<lparr>fr_buf = buf, fr_cap = cap, fr_entries = entries, fr_max = max_entries,
      fr_head = 0, fr_count = 0, fr_used = 0, fr_wpos = 0\<rparr>"

definition frame_ring_clear :: "frame_ring \<Rightarrow> frame_ring" where
  "frame_ring_clear r = r\<lparr>fr_head := 0, fr_count := 0, fr_used := 0, fr_wpos := 0\<rparr>"

definition ring_at :: "frame_ring \<Rightarrow> nat \<Rightarrow> frame_entry" where
  "ring_at r i = fr_entries r ! ((fr_head r + i) mod fr_max r)"

definition drop_oldest :: "frame_ring \<Rightarrow> frame_ring" where
  "drop_oldest r =
     (let r1 = r\<lparr>fr_used := fr_used r - e_len (ring_at r 0),
                 fr_head := (fr_head r + 1) mod fr_max r,
                 fr_count := fr_count r - 1\<rparr>
      in if fr_count r1 = 0 then r1\<lparr>fr_wpos := 0\<rparr> else r1)"

lemma drop_oldest_count [simp]: "fr_count (drop_oldest r) = fr_count r - 1"
  by (simp add: drop_oldest_def Let_def)

function drop_to_keyframe :: "frame_ring \<Rightarrow> frame_ring" where
  "drop_to_keyframe r =
     (if 0 < fr_count r \<and> \<not> e_key (ring_at r 0) then drop_to_keyframe (drop_oldest r) else r)"
  by pat_completeness auto
termination
  by (relation "measure fr_count") auto

declare drop_to_keyframe.simps [simp del]

definition drop_oldest_group :: "frame_ring \<Rightarrow> frame_ring" where
  "drop_oldest_group r = drop_to_keyframe (drop_oldest r)"

definition frame_ring_drop_group :: "frame_ring \<Rightarrow> frame_ring" where
  "frame_ring_drop_group r = (if 0 < fr_count r then drop_oldest_group r else r)"

definition copy_in :: "frame_ring \<Rightarrow> nat \<Rightarrow> bytes \<Rightarrow> frame_ring" where
  "copy_in r off data =
     (let first = (if off + length data \<le> fr_cap r then length data else fr_cap r - off);
          b1 = blit (fr_buf r) off (take first data);
          b2 = (if first < length data then blit b1 0 (drop first data) else b1)
      in r\<lparr>fr_buf := b2\<rparr>)"

text \<open>The eviction loop of \<open>frame_ring_push\<close>; \<open>False\<close> is the refusal of a full ring.\<close>

lemma drop_to_keyframe_count: "fr_count (drop_to_keyframe r) \<le> fr_count r"
proof (induction r rule: drop_to_keyframe.induct)
  case (1 r)
  then show ?case by (subst drop_to_keyframe.simps) force
qed

lemma drop_oldest_group_count: "0 < fr_count r \<Longrightarrow> fr_count (drop_oldest_group r) < fr_count r"
  using drop_to_keyframe_count [of "drop_oldest r"] by (simp add: drop_oldest_group_def)

function make_room :: "frame_ring \<Rightarrow> nat \<Rightarrow> bool \<Rightarrow> bool \<times> frame_ring" where
  "make_room r len evict =
     (if 0 < fr_count r \<and> (fr_used r + len > fr_cap r \<or> fr_count r = fr_max r)
      then (if \<not> evict then (False, r) else make_room (drop_oldest_group r) len evict)
      else (True, r))"
  by pat_completeness auto
termination
  by (relation "measure (\<lambda>(r, _, _). fr_count r)") (auto simp: drop_oldest_group_count)

declare make_room.simps [simp del]

text \<open>The end of \<open>frame_ring_push\<close>, once there is room: the entry, the bytes, the counters.\<close>

definition ring_store :: "frame_ring \<Rightarrow> bytes \<Rightarrow> int \<Rightarrow> bool \<Rightarrow> frame_ring" where
  "ring_store r data at_us keyframe =
     (let len = length data;
          idx = (fr_head r + fr_count r) mod fr_max r;
          r2 = r\<lparr>fr_entries := (fr_entries r)[idx :=
                   \<lparr>e_off = fr_wpos r, e_len = len, e_at_us = at_us, e_key = keyframe\<rparr>]\<rparr>;
          r3 = copy_in r2 (fr_wpos r2) data
      in r3\<lparr>fr_wpos := (fr_wpos r3 + len) mod fr_cap r3,
            fr_count := fr_count r3 + 1,
            fr_used := fr_used r3 + len\<rparr>)"

definition frame_ring_push ::
    "frame_ring \<Rightarrow> bytes \<Rightarrow> int \<Rightarrow> bool \<Rightarrow> bool \<Rightarrow> bool \<times> frame_ring" where
  "frame_ring_push r data at_us keyframe evict =
     (if length data = 0 \<or> length data > fr_cap r then (False, r)
      else (case make_room r (length data) evict of
              (ok, r1) \<Rightarrow>
                if \<not> ok then (False, r1)
                else if evict \<and> fr_count r1 = 0 \<and> \<not> keyframe then (False, r1)
                else (True, ring_store r1 data at_us keyframe)))"

definition frame_ring_peek :: "frame_ring \<Rightarrow> frame_entry option" where
  "frame_ring_peek r = (if fr_count r = 0 then None else Some (ring_at r 0))"

text \<open>The two copies of \<open>frame_ring_pop\<close>: what they leave in the caller's buffer.\<close>

definition copy_out :: "frame_ring \<Rightarrow> frame_entry \<Rightarrow> bytes" where
  "copy_out r e =
     (let first = (if e_off e + e_len e \<le> fr_cap r then e_len e else fr_cap r - e_off e)
      in segment (fr_buf r) (e_off e) first @
         (if first < e_len e then segment (fr_buf r) 0 (e_len e - first) else []))"

definition frame_ring_pop :: "frame_ring \<Rightarrow> nat \<Rightarrow> (bytes \<times> frame_entry) option \<times> frame_ring" where
  "frame_ring_pop r out_cap =
     (if fr_count r = 0 then (None, r)
      else let e = ring_at r 0 in
           if e_len e > out_cap then (None, drop_oldest r)
           else (Some (copy_out r e, e), drop_oldest r))"

definition frame_ring_span_us :: "frame_ring \<Rightarrow> int" where
  "frame_ring_span_us r =
     (if fr_count r < 2 then 0 else e_at_us (ring_at r (fr_count r - 1)) - e_at_us (ring_at r 0))"

section \<open>The abstract queue and the invariant\<close>

record frame =
  f_data :: bytes
  f_at :: int
  f_key :: bool

definition ring_len_upto :: "frame_ring \<Rightarrow> nat \<Rightarrow> nat" where
  "ring_len_upto r i = (\<Sum>j<i. e_len (ring_at r j))"

definition ring_start :: "frame_ring \<Rightarrow> nat" where
  "ring_start r = (if fr_count r = 0 then fr_wpos r else e_off (ring_at r 0))"

definition ring_inv :: "frame_ring \<Rightarrow> bool" where
  "ring_inv r \<longleftrightarrow>
     0 < fr_cap r \<and> length (fr_buf r) = fr_cap r \<and>
     0 < fr_max r \<and> length (fr_entries r) = fr_max r \<and>
     fr_head r < fr_max r \<and> fr_count r \<le> fr_max r \<and>
     fr_used r = ring_len_upto r (fr_count r) \<and> fr_used r \<le> fr_cap r \<and>
     ring_start r < fr_cap r \<and>
     (\<forall>i < fr_count r. 0 < e_len (ring_at r i) \<and>
        e_off (ring_at r i) = (ring_start r + ring_len_upto r i) mod fr_cap r) \<and>
     fr_wpos r = (ring_start r + fr_used r) mod fr_cap r"

definition entry_bytes :: "frame_ring \<Rightarrow> frame_entry \<Rightarrow> bytes" where
  "entry_bytes r e = map (\<lambda>k. fr_buf r ! ((e_off e + k) mod fr_cap r)) [0..<e_len e]"

definition entry_frame :: "frame_ring \<Rightarrow> frame_entry \<Rightarrow> frame" where
  "entry_frame r e = \<lparr>f_data = entry_bytes r e, f_at = e_at_us e, f_key = e_key e\<rparr>"

definition ring_frames :: "frame_ring \<Rightarrow> frame list" where
  "ring_frames r = map (\<lambda>i. entry_frame r (ring_at r i)) [0..<fr_count r]"

lemma length_ring_frames [simp]: "length (ring_frames r) = fr_count r"
  by (simp add: ring_frames_def)

lemma ring_frames_Nil: "ring_frames r = [] \<longleftrightarrow> fr_count r = 0"
  by (metis length_0_conv length_ring_frames)

lemma ring_frames_empty [simp]: "fr_count r = 0 \<Longrightarrow> ring_frames r = []"
  by (simp add: ring_frames_Nil)

lemma ring_len_upto_0 [simp]: "ring_len_upto r 0 = 0"
  by (simp add: ring_len_upto_def)

lemma ring_len_upto_Suc: "ring_len_upto r (Suc i) = ring_len_upto r i + e_len (ring_at r i)"
  by (simp add: ring_len_upto_def)

lemma ring_len_upto_mono: "i \<le> j \<Longrightarrow> ring_len_upto r i \<le> ring_len_upto r j"
  unfolding ring_len_upto_def by (rule sum_mono2) auto

lemma ring_len_upto_shift:
  "ring_len_upto r (Suc i) = e_len (ring_at r 0) + (\<Sum>j<i. e_len (ring_at r (Suc j)))"
  unfolding ring_len_upto_def by (rule sum.lessThan_Suc_shift)

section \<open>Starting and clearing\<close>

lemma ring_inv_init:
  "length buf = cap \<Longrightarrow> 0 < cap \<Longrightarrow> length es = n \<Longrightarrow> 0 < n \<Longrightarrow> ring_inv (frame_ring_init buf cap es n)"
  by (simp add: ring_inv_def frame_ring_init_def ring_start_def)

lemma ring_inv_clear: "ring_inv r \<Longrightarrow> ring_inv (frame_ring_clear r)"
  by (simp add: ring_inv_def frame_ring_clear_def ring_start_def)

lemma ring_frames_clear: "ring_frames (frame_ring_clear r) = []"
  by (simp add: frame_ring_clear_def)

section \<open>Dropping from the old end\<close>

lemma drop_oldest_fields [simp]:
  "fr_buf (drop_oldest r) = fr_buf r" "fr_cap (drop_oldest r) = fr_cap r"
  "fr_entries (drop_oldest r) = fr_entries r" "fr_max (drop_oldest r) = fr_max r"
  "fr_used (drop_oldest r) = fr_used r - e_len (ring_at r 0)"
  "fr_head (drop_oldest r) = (fr_head r + 1) mod fr_max r"
  "fr_wpos (drop_oldest r) = (if fr_count r \<le> 1 then 0 else fr_wpos r)"
  by (auto simp: drop_oldest_def Let_def)

lemma ring_at_drop_oldest [simp]: "ring_at (drop_oldest r) i = ring_at r (Suc i)"
  by (simp add: ring_at_def mod_add_left_eq)

lemma entry_frame_drop_oldest [simp]: "entry_frame (drop_oldest r) e = entry_frame r e"
  by (simp add: entry_frame_def entry_bytes_def)

lemma ring_frames_drop_oldest:
  assumes "0 < fr_count r"
  shows "ring_frames (drop_oldest r) = tl (ring_frames r)"
proof -
  obtain n where n: "fr_count r = Suc n" using assms by (cases "fr_count r") auto
  show ?thesis
    by (simp add: ring_frames_def n upt_conv_Cons map_Suc_upt [symmetric] o_def del: upt_Suc)
qed

lemma ring_inv_drop_oldest:
  assumes inv: "ring_inv r" and ne: "0 < fr_count r"
  shows "ring_inv (drop_oldest r)"
proof -
  obtain n where n: "fr_count r = Suc n" using ne by (cases "fr_count r") auto
  have shift: "ring_len_upto (drop_oldest r) i + e_len (ring_at r 0) = ring_len_upto r (Suc i)" for i
    unfolding ring_len_upto_shift by (simp add: ring_len_upto_def)
  have used: "fr_used r = ring_len_upto r (Suc n)" using inv n by (simp add: ring_inv_def)
  have off: "e_off (ring_at r i) = (ring_start r + ring_len_upto r i) mod fr_cap r" if "i < Suc n" for i
    using inv n that by (simp add: ring_inv_def)
  have start: "ring_start (drop_oldest r) = (if n = 0 then 0 else (ring_start r + e_len (ring_at r 0)) mod fr_cap r)"
    using off [of 1] by (auto simp: ring_start_def n ring_len_upto_def)
  have offs: "e_off (ring_at r (Suc i)) = (ring_start (drop_oldest r) + ring_len_upto (drop_oldest r) i) mod fr_cap r"
    if "i < n" for i
    using off [of "Suc i"] that shift [of i, symmetric]
    by (simp add: start mod_simps add_ac)
  have u: "fr_used r - e_len (ring_at r 0) = ring_len_upto (drop_oldest r) n"
    using used shift [of n] by simp
  have st: "ring_start (drop_oldest r) < fr_cap r"
    using start inv by (simp add: ring_inv_def)
  have wpos: "fr_wpos (drop_oldest r) = (ring_start (drop_oldest r) + ring_len_upto (drop_oldest r) n) mod fr_cap r"
  proof (cases "n = 0")
    case True
    then show ?thesis using start n by simp
  next
    case False
    then show ?thesis
      using inv used n shift [of n, symmetric] by (simp add: ring_inv_def start mod_simps add_ac)
  qed
  have le: "ring_len_upto (drop_oldest r) n \<le> fr_cap r"
    using inv u unfolding ring_inv_def by linarith
  have pos: "0 < e_len (ring_at r (Suc i))" if "i < n" for i
    using inv n that by (simp add: ring_inv_def)
  have rest: "0 < fr_cap r" "length (fr_buf r) = fr_cap r" "0 < fr_max r"
    "length (fr_entries r) = fr_max r" "n \<le> fr_max r"
    using inv n by (simp_all add: ring_inv_def)
  show ?thesis
    unfolding ring_inv_def
    using rest st wpos le pos offs by (simp add: n u del: drop_oldest_fields(7))
qed

lemma drop_oldest_group_induct:
  assumes P: "P r" and ne: "0 < fr_count r"
    and step: "\<And>r. P r \<Longrightarrow> 0 < fr_count r \<Longrightarrow> P (drop_oldest r)"
  shows "P (drop_oldest_group r)"
proof -
  have "P s \<Longrightarrow> P (drop_to_keyframe s)" for s
  proof (induction s rule: drop_to_keyframe.induct)
    case (1 s)
    then show ?case by (subst drop_to_keyframe.simps) (auto intro: step)
  qed
  then show ?thesis using P ne by (simp add: drop_oldest_group_def step)
qed


lemma ring_inv_drop_group: "ring_inv r \<Longrightarrow> 0 < fr_count r \<Longrightarrow> ring_inv (drop_oldest_group r)"
  by (rule drop_oldest_group_induct [where P = ring_inv]) (auto intro: ring_inv_drop_oldest)

text \<open>
  Dropping the oldest group on the abstract list: the first frame and every frame after it up to
  the next keyframe.
\<close>

definition drop_group :: "frame list \<Rightarrow> frame list" where
  "drop_group fs = dropWhile (\<lambda>f. \<not> f_key f) (tl fs)"

lemma f_key_hd_ring_frames: "0 < fr_count r \<Longrightarrow> f_key (hd (ring_frames r)) = e_key (ring_at r 0)"
  by (simp add: ring_frames_def hd_map entry_frame_def)

lemma ring_frames_drop_to_keyframe:
  "ring_frames (drop_to_keyframe r) = dropWhile (\<lambda>f. \<not> f_key f) (ring_frames r)"
proof (induction r rule: drop_to_keyframe.induct)
  case (1 r)
  show ?case
  proof (cases "fr_count r = 0")
    case True
    then have "ring_frames r = []" by (simp only: ring_frames_Nil)
    moreover have "drop_to_keyframe r = r" using True by (subst drop_to_keyframe.simps) simp
    ultimately show ?thesis by simp
  next
    case False
    then obtain f fs where fs: "ring_frames r = f # fs" by (cases "ring_frames r") (auto simp: ring_frames_Nil)
    have "f_key f = e_key (ring_at r 0)" using f_key_hd_ring_frames [of r] False fs by simp
    with "1" False fs show ?thesis
      by (subst drop_to_keyframe.simps) (simp add: ring_frames_drop_oldest)
  qed
qed

lemma ring_frames_drop_oldest_group:
  "0 < fr_count r \<Longrightarrow> ring_frames (drop_oldest_group r) = drop_group (ring_frames r)"
  by (simp add: drop_oldest_group_def ring_frames_drop_to_keyframe ring_frames_drop_oldest drop_group_def)

lemma drop_group_suffix: "\<exists>n. drop_group fs = drop n fs"
  by (metis drop_group_def dropWhile_eq_drop drop_Suc drop_drop tl_drop)

lemma drop_group_keyframe: "drop_group fs \<noteq> [] \<Longrightarrow> f_key (hd (drop_group fs))"
  unfolding drop_group_def using hd_dropWhile [of "\<lambda>f. \<not> f_key f" "tl fs"] by simp

section \<open>Adding a frame\<close>

lemma make_room_keeps:
  assumes "P r" and "\<And>r. P r \<Longrightarrow> 0 < fr_count r \<Longrightarrow> P (drop_oldest_group r)"
  shows "P (snd (make_room r len evict))"
  using assms(1)
proof (induction r len evict rule: make_room.induct)
  case (1 r len evict)
  then show ?case by (subst make_room.simps) (auto intro: assms(2))
qed

lemma make_room_no_evict: "snd (make_room r len False) = r"
  by (subst make_room.simps) simp

lemma make_room_evict: "fst (make_room r len True)"
proof (induction r len True rule: make_room.induct)
  case (1 r len)
  then show ?case by (subst make_room.simps) auto
qed

lemma make_room_fits:
  "ring_inv r \<Longrightarrow> len \<le> fr_cap r \<Longrightarrow> make_room r len evict = (True, r1) \<Longrightarrow>
   fr_cap r1 = fr_cap r \<and> fr_used r1 + len \<le> fr_cap r1 \<and> fr_count r1 < fr_max r1"
proof (induction r len evict rule: make_room.induct)
  case (1 r len evict)
  show ?case
  proof (cases "0 < fr_count r \<and> (fr_used r + len > fr_cap r \<or> fr_count r = fr_max r)")
    case True
    have cap: "fr_cap (drop_oldest_group r) = fr_cap r"
      by (rule drop_oldest_group_induct [where P = "\<lambda>s. fr_cap s = fr_cap r"]) (use True in auto)
    from True "1.prems"(3) have "evict" and "make_room (drop_oldest_group r) len evict = (True, r1)"
      by (auto simp: make_room.simps [of r] split: if_splits)
    then show ?thesis
      using True "1.IH" "1.prems"(1,2) cap ring_inv_drop_group [of r] by auto
  next
    case False
    then have "r1 = r" using "1.prems"(3) by (auto simp: make_room.simps [of r])
    with False "1.prems"(1,2) show ?thesis by (auto simp: ring_inv_def)
  qed
qed

text \<open>Where the bytes of \<open>copy_in\<close> end up: the \<open>j\<close>-th at \<open>off + j\<close>, around the end.\<close>

lemma copy_in_fields [simp]:
  "fr_cap (copy_in r off d) = fr_cap r" "fr_entries (copy_in r off d) = fr_entries r"
  "fr_max (copy_in r off d) = fr_max r" "fr_head (copy_in r off d) = fr_head r"
  "fr_count (copy_in r off d) = fr_count r" "fr_used (copy_in r off d) = fr_used r"
  "fr_wpos (copy_in r off d) = fr_wpos r"
  by (auto simp: copy_in_def Let_def)

lemma copy_in_buf:
  assumes len: "length (fr_buf r) = fr_cap r" and off: "off < fr_cap r" and d: "length d \<le> fr_cap r"
  shows "length (fr_buf (copy_in r off d)) = fr_cap r"
    and "p < fr_cap r \<Longrightarrow> fr_buf (copy_in r off d) ! p =
           (let j = (if off \<le> p then p - off else p + fr_cap r - off)
            in if j < length d then d ! j else fr_buf r ! p)"
proof -
  let ?c = "fr_cap r"
  let ?b1 = "blit (fr_buf r) off (take (?c - off) d)"
  have l1: "length ?b1 = ?c" using len off by (simp add: length_blit)
  have b1: "?b1 ! p = (if off \<le> p \<and> p < off + length d then d ! (p - off) else fr_buf r ! p)" if "p < ?c" for p
    using that len off by (subst nth_blit) auto
  show "length (fr_buf (copy_in r off d)) = ?c"
    using len off d l1 by (auto simp: copy_in_def Let_def length_blit)
  show "fr_buf (copy_in r off d) ! p =
           (let j = (if off \<le> p then p - off else p + ?c - off)
            in if j < length d then d ! j else fr_buf r ! p)" if p: "p < ?c"
  proof (cases "off + length d \<le> ?c")
    case True
    then show ?thesis using p b1 [OF p] by (auto simp: copy_in_def Let_def)
  next
    case False
    then have "fr_buf (copy_in r off d) = blit ?b1 0 (drop (?c - off) d)"
      using off by (auto simp: copy_in_def Let_def)
    then have "fr_buf (copy_in r off d) ! p = (if p < length d - (?c - off) then drop (?c - off) d ! p else ?b1 ! p)"
      using p l1 d by (simp add: nth_blit)
    then show ?thesis
      using False p off d b1 [OF p] by (auto simp: Let_def add.commute)
  qed
qed


lemma ring_store_fields [simp]:
  "fr_cap (ring_store r d t k) = fr_cap r" "fr_max (ring_store r d t k) = fr_max r"
  "fr_head (ring_store r d t k) = fr_head r" "fr_count (ring_store r d t k) = Suc (fr_count r)"
  "fr_used (ring_store r d t k) = fr_used r + length d"
  "fr_wpos (ring_store r d t k) = (fr_wpos r + length d) mod fr_cap r"
  by (auto simp: ring_store_def Let_def)

lemma mod_add_inj: "(h + i) mod m = (h + j) mod m \<Longrightarrow> i < m \<Longrightarrow> j < m \<Longrightarrow> i = (j::nat)"
proof -
  assume eq: "(h + i) mod m = (h + j) mod m" and lt: "i < m" "j < m"
  have red: "(h + k) mod m = (if h mod m + k < m then h mod m + k else h mod m + k - m)" if "k < m" for k
  proof -
    have "(a + k) mod m = (if a + k < m then a + k else a + k - m)" if "a < m" for a
      using that \<open>k < m\<close> by (simp add: le_mod_geq)
    from this [of "h mod m"] lt have
      "(h mod m + k) mod m = (if h mod m + k < m then h mod m + k else h mod m + k - m)" by simp
    then show ?thesis by (simp add: mod_add_left_eq)
  qed
  have "h mod m < m" using lt by simp
  then show "i = j" using eq lt by (auto simp: red split: if_splits)
qed

lemma ring_at_store:
  assumes "ring_inv r" and "fr_count r < fr_max r" and "i \<le> fr_count r"
  shows "ring_at (ring_store r d t k) i =
    (if i = fr_count r then \<lparr>e_off = fr_wpos r, e_len = length d, e_at_us = t, e_key = k\<rparr> else ring_at r i)"
proof -
  have m: "0 < fr_max r" "length (fr_entries r) = fr_max r" using assms(1) by (simp_all add: ring_inv_def)
  have "fr_entries (ring_store r d t k) =
    (fr_entries r)[(fr_head r + fr_count r) mod fr_max r :=
       \<lparr>e_off = fr_wpos r, e_len = length d, e_at_us = t, e_key = k\<rparr>]"
    by (simp add: ring_store_def Let_def)
  moreover have "i \<noteq> fr_count r \<Longrightarrow> (fr_head r + fr_count r) mod fr_max r \<noteq> (fr_head r + i) mod fr_max r"
    using mod_add_inj [of "fr_head r" "fr_count r" "fr_max r" i] assms by auto
  ultimately show ?thesis
    using m by (simp add: ring_at_def)
qed

text \<open>
  A position of the held bytes lies outside the stretch the new frame is written to: the heart of
  the ring's correctness.
\<close>

lemma store_buf:
  assumes inv: "ring_inv r" and room: "fr_used r + length d \<le> fr_cap r"
  shows "length (fr_buf (ring_store r d t k)) = fr_cap r"
    and "j < length d \<Longrightarrow> fr_buf (ring_store r d t k) ! ((fr_wpos r + j) mod fr_cap r) = d ! j"
    and "q < fr_used r \<Longrightarrow> fr_buf (ring_store r d t k) ! ((ring_start r + q) mod fr_cap r) =
           fr_buf r ! ((ring_start r + q) mod fr_cap r)"
proof -
  let ?c = "fr_cap r" and ?s = "ring_start r" and ?w = "fr_wpos r"
  have c: "0 < ?c" "length (fr_buf r) = ?c" "?s < ?c" "?w = (?s + fr_used r) mod ?c" "?w < ?c"
    using inv by (auto simp: ring_inv_def)
  define r2 where "r2 = r\<lparr>fr_entries := (fr_entries r)[(fr_head r + fr_count r) mod fr_max r :=
                   \<lparr>e_off = ?w, e_len = length d, e_at_us = t, e_key = k\<rparr>]\<rparr>"
  have buf: "fr_buf (ring_store r d t k) = fr_buf (copy_in r2 ?w d)"
    by (simp add: ring_store_def Let_def r2_def)
  have r2: "fr_cap r2 = ?c" "fr_buf r2 = fr_buf r" by (simp_all add: r2_def)
  have d: "length d \<le> ?c" using room by simp
  note cp = copy_in_buf [of r2 ?w d, unfolded r2, OF c(2,5) d]
  show "length (fr_buf (ring_store r d t k)) = ?c" using cp(1) buf by simp
  show "fr_buf (ring_store r d t k) ! ((?w + j) mod ?c) = d ! j" if "j < length d"
  proof -
    have "(?w + j) mod ?c = (if ?w + j < ?c then ?w + j else ?w + j - ?c)"
      using that d c(5) by (simp add: le_mod_geq)
    then show ?thesis
      using that d c(5) cp(2) [of "(?w + j) mod ?c"] c(1) by (auto simp: buf Let_def split: if_splits)
  qed
  show "fr_buf (ring_store r d t k) ! ((?s + q) mod ?c) = fr_buf r ! ((?s + q) mod ?c)" if q: "q < fr_used r"
  proof -
    have p: "(?s + q) mod ?c = (if ?s + q < ?c then ?s + q else ?s + q - ?c)"
      using q room c(3) by (simp add: le_mod_geq)
    have w: "?w = (if ?s + fr_used r < ?c then ?s + fr_used r else ?s + fr_used r - ?c)"
      using room c(3,4) by (simp add: le_mod_geq)
    have "\<not> (if ?w \<le> (?s + q) mod ?c then (?s + q) mod ?c - ?w else (?s + q) mod ?c + ?c - ?w) < length d"
      unfolding p w using q room c(3) by (auto split: if_splits)
    then show ?thesis
      using cp(2) [of "(?s + q) mod ?c"] c(1) by (simp add: buf Let_def)
  qed
qed


lemma ring_store_shape:
  assumes inv: "ring_inv r" and full: "fr_count r < fr_max r"
  shows "i \<le> fr_count r \<Longrightarrow> ring_len_upto (ring_store r d t k) i = ring_len_upto r i"
    and "ring_start (ring_store r d t k) = ring_start r"
  using ring_at_store [OF inv full]
  by (auto simp: ring_len_upto_def ring_start_def intro!: sum.cong)

lemma ring_inv_store:
  assumes inv: "ring_inv r" and full: "fr_count r < fr_max r"
    and room: "fr_used r + length d \<le> fr_cap r" and d: "0 < length d"
  shows "ring_inv (ring_store r d t k)"
proof -
  note shape = ring_store_shape [OF inv full]
  have len: "ring_len_upto (ring_store r d t k) (Suc (fr_count r)) = fr_used r + length d"
    using inv by (simp add: ring_len_upto_Suc shape ring_at_store [OF inv full] ring_inv_def)
  have e: "0 < e_len (ring_at (ring_store r d t k) i) \<and>
           e_off (ring_at (ring_store r d t k) i) = (ring_start r + ring_len_upto r i) mod fr_cap r"
    if "i < Suc (fr_count r)" for i
    using that inv d by (auto simp: ring_at_store [OF inv full] ring_inv_def less_Suc_eq)
  have es: "length (fr_entries (ring_store r d t k)) = fr_max r"
    using inv by (simp add: ring_store_def Let_def ring_inv_def)
  have w: "(fr_wpos r + length d) mod fr_cap r = (ring_start r + (fr_used r + length d)) mod fr_cap r"
    using inv by (simp add: ring_inv_def mod_simps add.assoc)
  show ?thesis
    unfolding ring_inv_def
    using inv full room store_buf(1) [OF inv room] len e es w
    by (simp add: shape) (simp add: ring_inv_def)
qed

lemma entry_bytes_nth:
  "j < e_len e \<Longrightarrow> entry_bytes r e ! j = fr_buf r ! ((e_off e + j) mod fr_cap r)"
  by (simp add: entry_bytes_def)

lemma ring_frames_store:
  assumes inv: "ring_inv r" and full: "fr_count r < fr_max r"
    and room: "fr_used r + length d \<le> fr_cap r"
  shows "ring_frames (ring_store r d t k) = ring_frames r @ [\<lparr>f_data = d, f_at = t, f_key = k\<rparr>]"
proof -
  let ?r = "ring_store r d t k"
  have new: "entry_bytes ?r (ring_at ?r (fr_count r)) = d"
    by (rule nth_equalityI)
      (auto simp: entry_bytes_def ring_at_store [OF inv full] store_buf(2) [OF inv room])
  have old: "entry_frame ?r (ring_at ?r i) = entry_frame r (ring_at r i)" if i: "i < fr_count r" for i
  proof -
    have off: "e_off (ring_at r i) = (ring_start r + ring_len_upto r i) mod fr_cap r"
      using inv i by (simp add: ring_inv_def)
    have le: "ring_len_upto r i + e_len (ring_at r i) \<le> fr_used r"
      using inv ring_len_upto_mono [of "Suc i" "fr_count r" r] i by (simp add: ring_len_upto_Suc ring_inv_def)
    have "fr_buf ?r ! ((e_off (ring_at r i) + j) mod fr_cap r) = fr_buf r ! ((e_off (ring_at r i) + j) mod fr_cap r)"
      if "j < e_len (ring_at r i)" for j
      using store_buf(3) [OF inv room, of "ring_len_upto r i + j"] that le
      by (simp add: off mod_simps add.assoc)
    then show ?thesis
      using i by (simp add: entry_frame_def entry_bytes_def ring_at_store [OF inv full])
  qed
  have "ring_at ?r (fr_count r) = \<lparr>e_off = fr_wpos r, e_len = length d, e_at_us = t, e_key = k\<rparr>"
    by (simp add: ring_at_store [OF inv full])
  with new have last: "entry_frame ?r (ring_at ?r (fr_count r)) = \<lparr>f_data = d, f_at = t, f_key = k\<rparr>"
    by (simp add: entry_frame_def)
  show ?thesis
    unfolding ring_frames_def by (simp add: last old)
qed

text \<open>All that \<open>frame_ring_push\<close> does, over the abstract list.\<close>

lemma push_spec:
  assumes inv: "ring_inv r" and push: "frame_ring_push r d t k evict = (ok, r')"
  shows "ring_inv r'"
    and "\<not> evict \<Longrightarrow> \<not> ok \<Longrightarrow> r' = r"
    and "\<not> evict \<Longrightarrow> ok \<Longrightarrow> ring_frames r' = ring_frames r @ [\<lparr>f_data = d, f_at = t, f_key = k\<rparr>]"
    and "\<exists>n. ring_frames r' = drop n (ring_frames r) @ (if ok then [\<lparr>f_data = d, f_at = t, f_key = k\<rparr>] else [])"
    and "evict \<Longrightarrow> (ring_frames r \<noteq> [] \<longrightarrow> f_key (hd (ring_frames r))) \<Longrightarrow>
         ring_frames r' \<noteq> [] \<Longrightarrow> f_key (hd (ring_frames r'))"
proof -
  let ?f = "\<lparr>f_data = d, f_at = t, f_key = k\<rparr>"
  obtain go r1 where mr: "make_room r (length d) evict = (go, r1)" by fastforce
  have inv1: "ring_inv r1"
    using make_room_keeps [where P = ring_inv and r = r, OF inv ring_inv_drop_group] mr by (metis snd_conv)
  have "\<exists>n. ring_frames (snd (make_room r (length d) evict)) = drop n (ring_frames r)"
    by (rule make_room_keeps [where P = "\<lambda>s. \<exists>n. ring_frames s = drop n (ring_frames r)"])
      (use drop_group_suffix in \<open>force intro: exI [of _ 0]\<close>,
       metis drop_drop drop_group_suffix ring_frames_drop_oldest_group)
  then obtain n where n: "ring_frames r1 = drop n (ring_frames r)" using mr by auto
  have key1: "evict \<Longrightarrow> (ring_frames r \<noteq> [] \<longrightarrow> f_key (hd (ring_frames r))) \<Longrightarrow>
      ring_frames r1 \<noteq> [] \<longrightarrow> f_key (hd (ring_frames r1))"
    using make_room_keeps [where P = "\<lambda>s. ring_frames s \<noteq> [] \<longrightarrow> f_key (hd (ring_frames s))" and r = r
        and len = "length d" and evict = evict] mr drop_group_keyframe
    by (metis ring_frames_drop_oldest_group snd_conv)
  have same: "\<not> evict \<Longrightarrow> r1 = r" using make_room_no_evict mr by (metis (full_types) snd_conv)
  have store: "ring_inv (ring_store r1 d t k)"
    "ring_frames (ring_store r1 d t k) = ring_frames r1 @ [?f]"
    if "0 < length d" "length d \<le> fr_cap r" "go"
    using that mr make_room_fits [OF inv that(2), of evict r1] inv1
    by (auto intro!: ring_inv_store ring_frames_store)
  have cases: "(ok = False \<and> (r' = r \<or> r' = r1)) \<or>
     (ok \<and> go \<and> 0 < length d \<and> length d \<le> fr_cap r \<and> r' = ring_store r1 d t k \<and>
      (evict \<longrightarrow> fr_count r1 = 0 \<longrightarrow> k))"
    using push mr by (auto simp: frame_ring_push_def split: if_splits)
  show "ring_inv r'" using cases inv inv1 store by auto
  show "\<not> evict \<Longrightarrow> \<not> ok \<Longrightarrow> r' = r" using cases same by auto
  show "\<not> evict \<Longrightarrow> ok \<Longrightarrow> ring_frames r' = ring_frames r @ [?f]" using cases same store by auto
  show "\<exists>n. ring_frames r' = drop n (ring_frames r) @ (if ok then [?f] else [])"
    using cases n store by (auto intro: exI [of _ 0] exI [of _ n])
  show "f_key (hd (ring_frames r'))"
    if ev: "evict" and k: "ring_frames r \<noteq> [] \<longrightarrow> f_key (hd (ring_frames r))" and ne: "ring_frames r' \<noteq> []"
  proof (cases "ring_frames r1 = []")
    case True
    then show ?thesis using cases k ne store(2) ev by (auto simp: ring_frames_Nil)
  next
    case False
    then show ?thesis using cases k ne store(2) key1 [OF ev k] by auto
  qed
qed


section \<open>Taking the oldest frame\<close>

lemma copy_out_entry:
  assumes inv: "ring_inv r" and ne: "0 < fr_count r"
  shows "copy_out r (ring_at r 0) = entry_bytes r (ring_at r 0)"
proof -
  let ?e = "ring_at r 0" and ?c = "fr_cap r"
  have "ring_start r < ?c" "length (fr_buf r) = ?c"
    using inv unfolding ring_inv_def by blast+
  then have b: "e_off ?e < ?c" "length (fr_buf r) = ?c"
    using ne by (simp_all add: ring_start_def)
  have l: "e_len ?e \<le> ?c"
    using inv ne ring_len_upto_mono [of 1 "fr_count r" r] by (simp add: ring_inv_def ring_len_upto_def)
  show ?thesis
  proof (cases "e_off ?e + e_len ?e \<le> ?c")
    case True
    then show ?thesis
      using b by (intro nth_equalityI) (auto simp: copy_out_def entry_bytes_def length_segment nth_segment)
  next
    case False
    have m: "(e_off ?e + j) mod ?c = (if e_off ?e + j < ?c then e_off ?e + j else e_off ?e + j - ?c)"
      if "j < e_len ?e" for j
      using that b l by (simp add: le_mod_geq)
    have f: "copy_out r ?e = segment (fr_buf r) (e_off ?e) (?c - e_off ?e) @ segment (fr_buf r) 0 (e_len ?e - (?c - e_off ?e))"
      using False b by (auto simp: copy_out_def Let_def)
    have ls: "length (segment (fr_buf r) (e_off ?e) (?c - e_off ?e)) = ?c - e_off ?e"
      "length (segment (fr_buf r) 0 (e_len ?e - (?c - e_off ?e))) = e_len ?e - (?c - e_off ?e)"
      using b l by (auto simp: length_segment)
    show ?thesis
    proof (rule nth_equalityI)
      show "length (copy_out r ?e) = length (entry_bytes r ?e)"
        unfolding f length_append ls using False b by (simp add: entry_bytes_def)
      fix j assume "j < length (copy_out r ?e)"
      then have j: "j < e_len ?e" unfolding f length_append ls using False b by simp
      show "copy_out r ?e ! j = entry_bytes r ?e ! j"
      proof (cases "j < ?c - e_off ?e")
        case True
        then show ?thesis
          using j b by (simp add: f nth_append ls nth_segment entry_bytes_def)
      next
        case wrap: False
        then have "\<not> e_off ?e + j < ?c" by linarith
        then have "(e_off ?e + j) mod ?c = j - (?c - e_off ?e)"
          using m [OF j] b(1) by (simp add: add.commute)
        then show ?thesis
          using j wrap b l False by (simp add: f nth_append ls nth_segment entry_bytes_def)
      qed
    qed
  qed
qed

lemma entry_fits: "ring_inv r \<Longrightarrow> 0 < fr_count r \<Longrightarrow> e_len (ring_at r 0) \<le> fr_cap r"
  using ring_len_upto_mono [of 1 "fr_count r" r] by (simp add: ring_inv_def ring_len_upto_def)

lemma pop_spec:
  assumes inv: "ring_inv r" and pop: "frame_ring_pop r out_cap = (got, r')"
  shows "ring_inv r'" and "ring_frames r' = tl (ring_frames r)"
    and "got = (case ring_frames r of [] \<Rightarrow> None
                | f # _ \<Rightarrow> if length (f_data f) \<le> out_cap then Some (f_data f, ring_at r 0) else None)"
proof -
  show "ring_inv r'"
    using pop inv ring_inv_drop_oldest [OF inv]
    by (auto simp: frame_ring_pop_def Let_def split: if_splits)
  show "ring_frames r' = tl (ring_frames r)"
    using pop by (auto simp: frame_ring_pop_def Let_def ring_frames_drop_oldest split: if_splits)
  show "got = (case ring_frames r of [] \<Rightarrow> None
                | f # _ \<Rightarrow> if length (f_data f) \<le> out_cap then Some (f_data f, ring_at r 0) else None)"
  proof (cases "fr_count r = 0")
    case True
    then show ?thesis using pop by (simp add: frame_ring_pop_def)
  next
    case False
    then have "ring_frames r = entry_frame r (ring_at r 0) # tl (ring_frames r)"
      by (simp add: ring_frames_def upt_conv_Cons)
    moreover have "f_data (entry_frame r (ring_at r 0)) = entry_bytes r (ring_at r 0)"
      by (simp add: entry_frame_def)
    ultimately show ?thesis
      using pop False copy_out_entry [OF inv] by (auto simp: frame_ring_pop_def Let_def entry_bytes_def split: list.splits if_splits)
  qed
qed

section \<open>The interface of a bounded queue\<close>

datatype 'f queue_op = Enqueue 'f | Dequeue

text \<open>What a sequence of calls accepted, in order, what it delivered, in order, and the queue after it.\<close>

fun run_queue :: "('f \<Rightarrow> 'q \<Rightarrow> bool \<times> 'q) \<Rightarrow> ('q \<Rightarrow> 'f option \<times> 'q) \<Rightarrow> 'f queue_op list \<Rightarrow> 'q
    \<Rightarrow> 'f list \<times> 'f list \<times> 'q" where
  "run_queue enq deq [] q = ([], [], q)"
| "run_queue enq deq (Enqueue f # ops) q =
     (let (ok, q1) = enq f q; (acc, out, q2) = run_queue enq deq ops q1
      in (if ok then f # acc else acc, out, q2))"
| "run_queue enq deq (Dequeue # ops) q =
     (let (got, q1) = deq q; (acc, out, q2) = run_queue enq deq ops q1
      in (acc, (case got of None \<Rightarrow> out | Some f \<Rightarrow> f # out), q2))"

locale frame_queue =
  fixes enq :: "'f \<Rightarrow> 'q \<Rightarrow> bool \<times> 'q"
    and deq :: "'q \<Rightarrow> 'f option \<times> 'q"
    and held :: "'q \<Rightarrow> 'f list"
    and wf :: "'q \<Rightarrow> bool"
  assumes wf_enq: "wf q \<Longrightarrow> wf (snd (enq f q))"
    and held_enq: "wf q \<Longrightarrow> held (snd (enq f q)) = (if fst (enq f q) then held q @ [f] else held q)"
    and wf_deq: "wf q \<Longrightarrow> wf (snd (deq q))"
    and fst_deq: "wf q \<Longrightarrow> fst (deq q) = (case held q of [] \<Rightarrow> None | f # _ \<Rightarrow> Some f)"
    and held_deq: "wf q \<Longrightarrow> held (snd (deq q)) = tl (held q)"
begin

lemma run_fifo:
  "wf q \<Longrightarrow> run_queue enq deq ops q = (acc, out, q') \<Longrightarrow> wf q' \<and> held q @ acc = out @ held q'"
proof (induction ops arbitrary: q acc out)
  case Nil
  then show ?case by simp
next
  case (Cons op ops)
  show ?case
  proof (cases op)
    case (Enqueue f)
    obtain ok q1 where e: "enq f q = (ok, q1)" by fastforce
    with Cons Enqueue show ?thesis
      using wf_enq [OF Cons.prems(1), of f] held_enq [OF Cons.prems(1), of f]
      by (fastforce split: prod.splits if_splits)
  next
    case Dequeue
    obtain got q1 where e: "deq q = (got, q1)" by fastforce
    with Cons Dequeue show ?thesis
      using wf_deq [OF Cons.prems(1)] held_deq [OF Cons.prems(1)] fst_deq [OF Cons.prems(1)]
      by (cases "held q") (fastforce split: prod.splits)+
  qed
qed

end

text \<open>The ring as the recorder's queue: frames are refused when it is full, and taken with room for any.\<close>

definition ring_enq :: "frame \<Rightarrow> frame_ring \<Rightarrow> bool \<times> frame_ring" where
  "ring_enq f r = frame_ring_push r (f_data f) (f_at f) (f_key f) False"

definition ring_deq :: "frame_ring \<Rightarrow> frame option \<times> frame_ring" where
  "ring_deq r = (case frame_ring_pop r (fr_cap r) of
     (None, r') \<Rightarrow> (None, r')
   | (Some (data, e), r') \<Rightarrow> (Some \<lparr>f_data = data, f_at = e_at_us e, f_key = e_key e\<rparr>, r'))"

lemma ring_deq_spec:
  assumes inv: "ring_inv r"
  shows "fst (ring_deq r) = (case ring_frames r of [] \<Rightarrow> None | f # _ \<Rightarrow> Some f)"
    and "snd (ring_deq r) = snd (frame_ring_pop r (fr_cap r))"
proof -
  obtain got r' where p: "frame_ring_pop r (fr_cap r) = (got, r')" by fastforce
  note g = pop_spec(3) [OF inv p]
  show "snd (ring_deq r) = snd (frame_ring_pop r (fr_cap r))"
    by (simp add: ring_deq_def p split: option.splits prod.splits)
  show "fst (ring_deq r) = (case ring_frames r of [] \<Rightarrow> None | f # _ \<Rightarrow> Some f)"
  proof (cases "fr_count r = 0")
    case True
    then show ?thesis using g by (simp add: ring_deq_def p)
  next
    case False
    then have hd: "ring_frames r = entry_frame r (ring_at r 0) # tl (ring_frames r)"
      by (simp add: ring_frames_def upt_conv_Cons)
    have "length (f_data (entry_frame r (ring_at r 0))) \<le> fr_cap r"
      using entry_fits [OF inv] False by (simp add: entry_frame_def entry_bytes_def)
    then have "got = Some (f_data (entry_frame r (ring_at r 0)), ring_at r 0)"
      using g by (subst (asm) hd) simp
    then show ?thesis by (subst hd) (simp add: ring_deq_def p entry_frame_def)
  qed
qed

interpretation recorder: frame_queue ring_enq ring_deq ring_frames ring_inv
proof unfold_locales
  fix q :: frame_ring and f :: frame
  assume inv: "ring_inv q"
  obtain ok q1 where e: "ring_enq f q = (ok, q1)" by fastforce
  note ps = push_spec [OF inv e [unfolded ring_enq_def]]
  show "ring_inv (snd (ring_enq f q))" using ps(1) e by simp
  show "ring_frames (snd (ring_enq f q)) = (if fst (ring_enq f q) then ring_frames q @ [f] else ring_frames q)"
    using ps(2,3) e by auto
  obtain got q2 where p: "frame_ring_pop q (fr_cap q) = (got, q2)" by fastforce
  note pp = pop_spec [OF inv p]
  show "ring_inv (snd (ring_deq q))" using pp(1) p ring_deq_spec(2) [OF inv] by simp
  show "ring_frames (snd (ring_deq q)) = tl (ring_frames q)" using pp(2) p ring_deq_spec(2) [OF inv] by simp
  show "fst (ring_deq q) = (case ring_frames q of [] \<Rightarrow> None | f # _ \<Rightarrow> Some f)"
    by (rule ring_deq_spec(1) [OF inv])
qed


section \<open>Properties\<close>

text \<open>
  The operations of the ring as a step on the ring: a push in either mode, a pop into a buffer of
  any size, dropping a group, clearing.
\<close>

datatype ring_op = Push frame bool | Pop nat | DropGroup | Clear

fun ring_step :: "ring_op \<Rightarrow> frame_ring \<Rightarrow> frame_ring" where
  "ring_step (Push f evict) r = snd (frame_ring_push r (f_data f) (f_at f) (f_key f) evict)"
| "ring_step (Pop out_cap) r = snd (frame_ring_pop r out_cap)"
| "ring_step DropGroup r = frame_ring_drop_group r"
| "ring_step Clear r = frame_ring_clear r"

lemma ring_inv_step: "ring_inv r \<Longrightarrow> ring_inv (ring_step op r)"
proof (cases op)
  case (Push f evict)
  assume "ring_inv r"
  then show ?thesis using push_spec(1) [of r "f_data f" "f_at f" "f_key f" evict] Push by (metis prod.collapse ring_step.simps(1))
next
  case (Pop c)
  assume "ring_inv r"
  then show ?thesis using pop_spec(1) [of r c] Pop by (metis prod.collapse ring_step.simps(2))
qed (auto simp: frame_ring_drop_group_def ring_inv_drop_group ring_inv_clear)

text \<open>A small ring for the witnesses: eight bytes, three entries.\<close>

definition small_ring :: frame_ring where
  "small_ring = frame_ring_init (replicate 8 0) 8
     (replicate 3 \<lparr>e_off = 0, e_len = 0, e_at_us = 0, e_key = False\<rparr>) 3"

lemma small_ring_inv: "ring_inv small_ring"
  by (simp add: small_ring_def ring_inv_init)

text \<open>
  The ring's invariant holds after every sequence of operations on a ring that
  satisfies it: the counters agree with the entries, no more bytes are held than the buffer has,
  and the frames lie one behind the other around the buffer.
\<close>

theorem ring_inv_run: "ring_inv r \<Longrightarrow> ring_inv (fold ring_step ops r)"
  by (induction ops arbitrary: r) (auto intro: ring_inv_step)

theorem ring_inv_run_witness:
  "ring_inv (fold ring_step [Push \<lparr>f_data = [1, 2, 3, 4, 5], f_at = 1, f_key = True\<rparr> True,
     Push \<lparr>f_data = [6, 7, 8, 9], f_at = 2, f_key = True\<rparr> True, Pop 2] small_ring)"
  by (rule ring_inv_run [OF small_ring_inv])

text \<open>
  C1. The recorder's ring is a first-in-first-out queue with its bytes: over any sequence of pushes
  (without eviction) and pops, the frames held before followed by those accepted are those
  delivered followed by those still held, byte for byte - whatever wrapped around the end of the
  buffer meanwhile.
\<close>

theorem frame_ring_fifo:
  assumes "ring_inv r" and "run_queue ring_enq ring_deq ops r = (accepted, delivered, r')"
  shows "ring_frames r @ accepted = delivered @ ring_frames r'"
  using recorder.run_fifo [OF assms] by simp

definition demo_queue_ops :: "frame queue_op list" where
  "demo_queue_ops =
     [Enqueue \<lparr>f_data = [1, 2, 3, 4, 5], f_at = 1, f_key = True\<rparr>, Dequeue,
      Enqueue \<lparr>f_data = [6, 7], f_at = 2, f_key = False\<rparr>,
      Enqueue \<lparr>f_data = [8, 9, 10, 11, 12], f_at = 3, f_key = False\<rparr>,
      Enqueue \<lparr>f_data = [13, 14], f_at = 4, f_key = False\<rparr>, Dequeue]"

theorem frame_ring_fifo_witness:
  "(case run_queue ring_enq ring_deq demo_queue_ops small_ring of (accepted, delivered, r') \<Rightarrow>
      ring_frames small_ring @ accepted = delivered @ ring_frames r' \<and>
      map f_at accepted = [1, 2, 3] \<and> map f_at delivered = [1, 2])"
proof -
  obtain acc out r' where e: "run_queue ring_enq ring_deq demo_queue_ops small_ring = (acc, out, r')"
    by (rule prod_cases3)
  have "(case run_queue ring_enq ring_deq demo_queue_ops small_ring of (acc, out, r') \<Rightarrow>
      map f_at acc = [1, 2, 3] \<and> map f_at out = [1, 2])"
    by code_simp
  with frame_ring_fifo [OF small_ring_inv e] show ?thesis by (simp add: e)
qed

text \<open>
  What the dashcam does to the ring but reading: it pushes with eviction, drops groups and clears.
  Beside the ring, the frames it accepted.
\<close>

fun dashcam_step :: "ring_op \<Rightarrow> frame_ring \<times> frame list \<Rightarrow> frame_ring \<times> frame list" where
  "dashcam_step (Push f _) (r, log) =
     (let (ok, r') = frame_ring_push r (f_data f) (f_at f) (f_key f) True
      in (r', if ok then log @ [f] else log))"
| "dashcam_step Clear (r, log) = (frame_ring_clear r, log)"
| "dashcam_step _ (r, log) = (frame_ring_drop_group r, log)"

definition starts_on_keyframe :: "frame_ring \<Rightarrow> bool" where
  "starts_on_keyframe r \<longleftrightarrow> (ring_frames r \<noteq> [] \<longrightarrow> f_key (hd (ring_frames r)))"

lemma dashcam_step_keeps:
  assumes "ring_inv r" and "starts_on_keyframe r" and "\<exists>n. ring_frames r = drop n log"
  shows "case dashcam_step op (r, log) of (r', log') \<Rightarrow>
    ring_inv r' \<and> starts_on_keyframe r' \<and> (\<exists>n. ring_frames r' = drop n log')"
proof -
  have group: "ring_inv (frame_ring_drop_group r) \<and> starts_on_keyframe (frame_ring_drop_group r) \<and>
      (\<exists>n. ring_frames (frame_ring_drop_group r) = drop n log)"
    using assms drop_group_suffix [of "ring_frames r"] drop_group_keyframe [of "ring_frames r"]
    by (auto simp: frame_ring_drop_group_def ring_inv_drop_group starts_on_keyframe_def
        ring_frames_drop_oldest_group)
  show ?thesis
  proof (cases op)
    case (Push f evict)
    obtain ok r' where p: "frame_ring_push r (f_data f) (f_at f) (f_key f) True = (ok, r')" by fastforce
    note ps = push_spec [OF assms(1) p]
    obtain n m where n: "ring_frames r = drop n log"
      and m: "ring_frames r' = drop m (ring_frames r) @ (if ok then [f] else [])"
      using assms(3) ps(4) by auto
    have "\<exists>k. ring_frames r' = drop k (if ok then log @ [f] else log)"
    proof (cases "m + n \<le> length log")
      case True
      then show ?thesis using n m by (auto intro!: exI [of _ "m + n"])
    next
      case False
      then show ?thesis using n m by (auto intro!: exI [of _ "length log"])
    qed
    then show ?thesis
      using ps(1) ps(5) assms(2) by (simp add: Push p starts_on_keyframe_def)
  qed (use group assms(1) in \<open>auto simp: ring_inv_clear ring_frames_clear starts_on_keyframe_def intro: exI [of _ "length log"]\<close>)
qed

text \<open>
  C2. The dashcam's memory always starts on a frame that decodes on its own: while frames are
  pushed with eviction, groups dropped and the ring cleared - everything the dashcam does to it but
  reading - a ring that is empty or starts on a keyframe stays so, and holds the newest of the
  frames, without a gap: what it holds is the end of what it held followed by what it accepted.
\<close>

theorem dashcam_starts_on_keyframe:
  assumes "ring_inv r" and "starts_on_keyframe r"
    and "fold dashcam_step ops (r, ring_frames r) = (r', log)"
  shows "starts_on_keyframe r' \<and> (\<exists>n. ring_frames r' = drop n log)"
proof -
  have "ring_inv r \<Longrightarrow> starts_on_keyframe r \<Longrightarrow> \<exists>n. ring_frames r = drop n lg \<Longrightarrow>
      fold dashcam_step ops (r, lg) = (r', log) \<Longrightarrow>
      starts_on_keyframe r' \<and> (\<exists>n. ring_frames r' = drop n log)" for r lg
  proof (induction ops arbitrary: r lg)
    case (Cons op ops)
    then show ?case
      using dashcam_step_keeps [OF Cons.prems(1-3), of op] by (cases "dashcam_step op (r, lg)") auto
  qed auto
  from this [OF assms(1,2) _ assms(3)] show ?thesis by (metis drop_0)
qed

definition demo_dashcam_ops :: "ring_op list" where
  "demo_dashcam_ops =
     [Push \<lparr>f_data = [1, 2, 3, 4, 5], f_at = 1, f_key = True\<rparr> True,
      Push \<lparr>f_data = [6, 7], f_at = 2, f_key = False\<rparr> True,
      Push \<lparr>f_data = [8, 9], f_at = 3, f_key = True\<rparr> True]"

theorem dashcam_starts_on_keyframe_witness:
  "(case fold dashcam_step demo_dashcam_ops (small_ring, ring_frames small_ring) of (r', log) \<Rightarrow>
      (starts_on_keyframe r' \<and> (\<exists>n. ring_frames r' = drop n log)) \<and>
      map f_at (ring_frames r') = [3] \<and> map f_at log = [1, 2, 3])"
proof -
  obtain r' log where e: "fold dashcam_step demo_dashcam_ops (small_ring, ring_frames small_ring) = (r', log)"
    by fastforce
  have k: "starts_on_keyframe small_ring"
    by (simp add: starts_on_keyframe_def small_ring_def frame_ring_init_def)
  have "(case fold dashcam_step demo_dashcam_ops (small_ring, ring_frames small_ring) of (r', log) \<Rightarrow>
      map f_at (ring_frames r') = [3] \<and> map f_at log = [1, 2, 3])"
    by code_simp
  with dashcam_starts_on_keyframe [OF small_ring_inv k e] show ?thesis by (simp add: e)
qed

end
