(* ===== verification/Cron.thy ===== *)
theory Cron
  imports Prelude
begin

text \<open>
  components/kvm_sched/sched_cron.c: the scheduler's cron expressions. Each of the five fields
  becomes a bit mask and matching is one bit test per field. The parser is modelled on character
  lists, with the C library's \<open>strtol\<close> of the prelude; its error messages are the constructors of
  \<open>cron_error\<close>. The specification is the language of cron items and the set of values each one
  means; the theorems say that the parser reads every printed item list as that set, and that a
  parsed schedule matches a time exactly when the meaning of its fields says so.
\<close>

section \<open>The parser\<close>

record cron_t =
  c_minute :: u64
  c_hour :: u32
  c_dom :: u32
  c_month :: u16
  c_dow :: u8
  c_dom_any :: bool
  c_dow_any :: bool

datatype cron_error = Schedule_Too_Long | Not_Five_Fields | Bad_Field string string

definition cron_split_step :: "string \<Rightarrow> nat \<Rightarrow> nat \<Rightarrow> (string \<times> nat) option" where
  "cron_split_step item lo hi =
     (case dropWhile (\<lambda>c. c \<noteq> CHR ''/'') item of
        [] \<Rightarrow> Some (item, 1)
      | _ # s \<Rightarrow>
          (case strtol s of (v, e) \<Rightarrow>
             if e \<noteq> [] \<or> s = [] \<or> v < 1 \<or> v > int hi - int lo + 1 then None
             else Some (takeWhile (\<lambda>c. c \<noteq> CHR ''/'') item, nat v)))"

definition cron_range :: "string \<Rightarrow> nat \<Rightarrow> nat \<Rightarrow> (int \<times> int) option" where
  "cron_range item lo hi =
     (if item = ''*'' then Some (int lo, int hi)
      else case dropWhile (\<lambda>c. c \<noteq> CHR ''-'') item of
        _ # s \<Rightarrow>
          (let i = takeWhile (\<lambda>c. c \<noteq> CHR ''-'') item;
               (a, e1) = strtol i; (b, e2) = strtol s
           in if e1 \<noteq> [] \<or> e2 \<noteq> [] \<or> i = [] \<or> s = [] then None else Some (a, b))
      | [] \<Rightarrow>
          (case strtol item of (v, e) \<Rightarrow>
             if e \<noteq> [] \<or> item = [] then None else Some (v, v)))"

text \<open>The loop over the values of an item; the step is at least 1.\<close>

function cron_fill :: "nat \<Rightarrow> nat \<Rightarrow> nat \<Rightarrow> u64 \<Rightarrow> u64" where
  "cron_fill v to step acc =
     (if v \<le> to \<and> 0 < step then cron_fill (v + step) to step (acc OR push_bit v 1) else acc)"
  by pat_completeness auto
termination
  by (relation "measure (\<lambda>(v, to, _, _). Suc to - v)") auto

declare cron_fill.simps [simp del]

definition cron_parse_item :: "string \<Rightarrow> nat \<Rightarrow> nat \<Rightarrow> u64 \<Rightarrow> u64 option" where
  "cron_parse_item item lo hi acc =
     (case cron_split_step item lo hi of
        None \<Rightarrow> None
      | Some (item', step) \<Rightarrow>
          (case cron_range item' lo hi of
             None \<Rightarrow> None
           | Some (from, to) \<Rightarrow>
               if from < int lo \<or> to > int hi \<or> from > to then None
               else Some (cron_fill (nat from) (nat to) step acc)))"

function cron_parse_items :: "string \<Rightarrow> nat \<Rightarrow> nat \<Rightarrow> u64 \<Rightarrow> u64 option" where
  "cron_parse_items cur lo hi acc =
     (let item = takeWhile (\<lambda>c. c \<noteq> CHR '','') cur in
      if item = [] then None
      else case cron_parse_item item lo hi acc of
             None \<Rightarrow> None
           | Some m \<Rightarrow>
               (case dropWhile (\<lambda>c. c \<noteq> CHR '','') cur of
                  [] \<Rightarrow> Some m
                | _ # nx \<Rightarrow> cron_parse_items nx lo hi m))"
  by pat_completeness auto
termination
proof (relation "measure (\<lambda>(cur, _, _, _). length cur)", goal_cases)
  case (2 cur lo hi acc item m c nx)
  then have "length (c # nx) \<le> length cur"
    by (metis length_dropWhile_le)
  then show ?case by simp
qed simp

declare cron_parse_items.simps [simp del]

definition cron_parse_field :: "string \<Rightarrow> nat \<Rightarrow> nat \<Rightarrow> u64 option" where
  "cron_parse_field field lo hi =
     (if field = [] \<or> 80 \<le> length field then None
      else case cron_parse_items field lo hi 0 of
             None \<Rightarrow> None
           | Some m \<Rightarrow> if m \<noteq> 0 then Some m else None)"

definition cron_blank :: "char \<Rightarrow> bool" where
  "cron_blank c \<longleftrightarrow> c = CHR '' '' \<or> c = CHR 0x09"

text \<open>The loop that cuts at most \<open>n\<close> fields off, and what is left of the text.\<close>

fun cron_fields :: "nat \<Rightarrow> string \<Rightarrow> string list \<times> string" where
  "cron_fields 0 p = ([], p)"
| "cron_fields (Suc n) p =
     (let p1 = dropWhile cron_blank p in
      if p1 = [] then ([], [])
      else let (fs, rest) = cron_fields n (tl (dropWhile (\<lambda>c. \<not> cron_blank c) p1))
           in (takeWhile (\<lambda>c. \<not> cron_blank c) p1 # fs, rest))"

definition cron_limits :: "(string \<times> nat \<times> nat) list" where
  "cron_limits = [(''minute'', 0, 59), (''hour'', 0, 23), (''day-of-month'', 1, 31),
                  (''month'', 1, 12), (''weekday'', 0, 7)]"

fun cron_parse_masks :: "string list \<Rightarrow> (string \<times> nat \<times> nat) list \<Rightarrow> cron_error + u64 list" where
  "cron_parse_masks (f # fs) ((name, lo, hi) # ls) =
     (case cron_parse_field f lo hi of
        None \<Rightarrow> Inl (Bad_Field name (take 20 f))
      | Some m \<Rightarrow> (case cron_parse_masks fs ls of Inl e \<Rightarrow> Inl e | Inr ms \<Rightarrow> Inr (m # ms)))"
| "cron_parse_masks _ _ = Inr []"

text \<open>The masks into the struct: narrowed to the width of each field, Sunday-as-7 folded onto 0.\<close>

definition cron_of_masks :: "string list \<Rightarrow> u64 list \<Rightarrow> cron_t" where
  "cron_of_masks f m =
     (let m4 = (if bit (m ! 4) 7 then m ! 4 OR 1 else m ! 4)
      in \<lparr>c_minute = m ! 0, c_hour = ucast (m ! 1), c_dom = ucast (m ! 2), c_month = ucast (m ! 3),
          c_dow = ucast (m4 AND 0x7f), c_dom_any = (f ! 2 = ''*''), c_dow_any = (f ! 4 = ''*'')\<rparr>)"

definition cron_parse :: "string \<Rightarrow> cron_error + cron_t" where
  "cron_parse spec =
     (if 128 \<le> length spec then Inl Schedule_Too_Long
      else let (f, p) = cron_fields 5 spec in
           if length f \<noteq> 5 \<or> dropWhile cron_blank p \<noteq> [] then Inl Not_Five_Fields
           else case cron_parse_masks f cron_limits of
                  Inl e \<Rightarrow> Inl e
                | Inr m \<Rightarrow> Inr (cron_of_masks f m))"

section \<open>Matching a time\<close>

text \<open>The fields of \<open>struct tm\<close> that the scheduler reads; months and weekdays count from 0.\<close>

record tm =
  tm_min :: nat
  tm_hour :: nat
  tm_mday :: nat
  tm_mon :: nat
  tm_wday :: nat

definition cron_match :: "cron_t \<Rightarrow> tm \<Rightarrow> bool" where
  "cron_match c t =
     (if \<not> bit (c_minute c) (tm_min t) then False
      else if \<not> bit (c_hour c) (tm_hour t) then False
      else if \<not> bit (c_month c) (tm_mon t + 1) then False
      else let dom_hit = bit (c_dom c) (tm_mday t);
               dow_hit = bit (c_dow c) (tm_wday t mod 7)
           in if \<not> c_dom_any c \<and> \<not> c_dow_any c then dom_hit \<or> dow_hit
              else dom_hit \<and> dow_hit)"

definition tm_ok :: "tm \<Rightarrow> bool" where
  "tm_ok t \<longleftrightarrow> tm_min t < 60 \<and> tm_hour t < 24 \<and> 1 \<le> tm_mday t \<and> tm_mday t \<le> 31 \<and>
              tm_mon t < 12 \<and> tm_wday t < 7"

section \<open>The masks\<close>

lemma bit_cron_fill:
  assumes "to < 64" and "0 < step"
  shows "bit (cron_fill v to step acc) x \<longleftrightarrow>
         bit acc x \<or> (v \<le> x \<and> x \<le> to \<and> (x - v) mod step = 0)"
  using assms
proof (induction v to step acc rule: cron_fill.induct)
  case (1 v to step acc)
  show ?case
  proof (cases "v \<le> to")
    case True
    have "bit (acc OR push_bit v (1 :: u64)) x \<longleftrightarrow> bit acc x \<or> x = v"
      using True "1.prems" by (auto simp: bit_simps)
    moreover have "v \<le> x \<and> x \<le> to \<and> (x - v) mod step = 0 \<longleftrightarrow>
        x = v \<and> x \<le> to \<or> (v + step \<le> x \<and> x \<le> to \<and> (x - (v + step)) mod step = 0)"
    proof (cases "v + step \<le> x")
      case a: True
      then have "x - v = (x - (v + step)) + step" by simp
      then have "(x - v) mod step = (x - (v + step)) mod step" by (metis mod_add_self2)
      with a "1.prems"(2) show ?thesis by auto
    next
      case False
      then show ?thesis using "1.prems"(2) by (auto simp: mod_less)
    qed
    ultimately show ?thesis
      using "1.IH" "1.prems" True by (subst cron_fill.simps) auto
  next
    case False
    then show ?thesis by (subst cron_fill.simps) auto
  qed
qed

lemma cron_split_step_pos: "cron_split_step item lo hi = Some (i, step) \<Longrightarrow> 0 < step"
  by (auto simp: cron_split_step_def split: list.splits prod.splits if_splits)

lemma cron_parse_item_bits:
  assumes "cron_parse_item item lo hi acc = Some m" and "hi < 64" and "bit m x"
  shows "bit acc x \<or> lo \<le> x \<and> x \<le> hi"
proof -
  obtain i step from' to' where s: "cron_split_step item lo hi = Some (i, step)"
    and b: "\<not> (from' < int lo \<or> to' > int hi \<or> from' > to')"
    and m: "m = cron_fill (nat from') (nat to') step acc"
    using assms(1) by (auto simp: cron_parse_item_def split: option.splits prod.splits if_splits)
  have "nat to' < 64" using b assms(2) by linarith
  then show ?thesis
    using assms(3) b cron_split_step_pos [OF s] by (auto simp: m bit_cron_fill)
qed

lemma cron_parse_items_bits:
  "cron_parse_items cur lo hi acc = Some m \<Longrightarrow> hi < 64 \<Longrightarrow> bit m x \<Longrightarrow> bit acc x \<or> lo \<le> x \<and> x \<le> hi"
proof (induction cur lo hi acc rule: cron_parse_items.induct)
  case (1 cur lo hi acc)
  from "1.prems"(1) obtain m1 where i: "cron_parse_item (takeWhile (\<lambda>c. c \<noteq> CHR '','') cur) lo hi acc = Some m1"
    and rest: "m = m1 \<or> (\<exists>c n. dropWhile (\<lambda>c. c \<noteq> CHR '','') cur = c # n \<and> cron_parse_items n lo hi m1 = Some m)"
    and ne: "takeWhile (\<lambda>c. c \<noteq> CHR '','') cur \<noteq> []"
    by (subst (asm) cron_parse_items.simps) (auto simp: Let_def split: if_splits option.splits list.splits)
  show ?case
    using rest "1.IH" [OF refl ne i] cron_parse_item_bits [OF i "1.prems"(2)] "1.prems"(2,3) by blast
qed

lemma cron_parse_field_bits:
  assumes "cron_parse_field f lo hi = Some m" and "hi < 64"
  shows "m \<noteq> 0" and "bit m x \<Longrightarrow> lo \<le> x \<and> x \<le> hi"
  using assms cron_parse_items_bits [of f lo hi 0 m x]
  by (auto simp: cron_parse_field_def split: if_splits option.splits)

section \<open>The language of a field\<close>

text \<open>
  An item as a user writes it: a star or a number or a range, with or without a step; and the set
  of values it means in a field whose values run from \<open>lo\<close> to \<open>hi\<close>.
\<close>

datatype cron_item = Star "nat option" | Range nat "nat option" "nat option"

definition show_opt :: "char \<Rightarrow> nat option \<Rightarrow> string" where
  "show_opt c n = (case n of None \<Rightarrow> [] | Some k \<Rightarrow> c # show_nat k)"

fun show_item :: "cron_item \<Rightarrow> string" where
  "show_item (Star s) = ''*'' @ show_opt (CHR ''/'') s"
| "show_item (Range a b s) = show_nat a @ show_opt (CHR ''-'') b @ show_opt (CHR ''/'') s"

fun show_items :: "cron_item list \<Rightarrow> string" where
  "show_items [] = []"
| "show_items [i] = show_item i"
| "show_items (i # is) = show_item i @ '','' @ show_items is"

definition opt_or :: "nat \<Rightarrow> nat option \<Rightarrow> nat" where
  "opt_or d n = (case n of None \<Rightarrow> d | Some k \<Rightarrow> k)"

fun item_ok :: "nat \<Rightarrow> nat \<Rightarrow> cron_item \<Rightarrow> bool" where
  "item_ok lo hi (Star s) \<longleftrightarrow> lo \<le> hi \<and> 1 \<le> opt_or 1 s \<and> opt_or 1 s \<le> hi - lo + 1"
| "item_ok lo hi (Range a b s) \<longleftrightarrow>
     lo \<le> a \<and> a \<le> opt_or a b \<and> opt_or a b \<le> hi \<and> 1 \<le> opt_or 1 s \<and> opt_or 1 s \<le> hi - lo + 1"

fun item_values :: "nat \<Rightarrow> nat \<Rightarrow> cron_item \<Rightarrow> nat set" where
  "item_values lo hi (Star s) = {x. lo \<le> x \<and> x \<le> hi \<and> (x - lo) mod opt_or 1 s = 0}"
| "item_values lo hi (Range a b s) = {x. a \<le> x \<and> x \<le> opt_or a b \<and> (x - a) mod opt_or 1 s = 0}"

definition items_values :: "nat \<Rightarrow> nat \<Rightarrow> cron_item list \<Rightarrow> nat set" where
  "items_values lo hi is = (\<Union>i \<in> set is. item_values lo hi i)"

subsection \<open>Reading an item back\<close>

lemma nat_digit_cases: "c_isdigit c \<Longrightarrow> c \<noteq> CHR ''/'' \<and> c \<noteq> CHR ''-'' \<and> c \<noteq> CHR '','' \<and> c \<noteq> CHR ''*'' \<and> \<not> cron_blank c"
  by (auto simp: c_isdigit_def cron_blank_def)

lemma show_nat_chars: "c \<in> set (show_nat n) \<Longrightarrow> c_isdigit c"
  using show_nat_digits by blast

lemma show_nat_ne [simp]: "show_nat n \<noteq> []" "[] \<noteq> show_nat n"
  using show_nat_digits by metis+

lemma show_nat_not_star [simp]: "show_nat n \<noteq> ''*''" "show_nat n @ x \<noteq> ''*''"
proof -
  obtain d ds where "show_nat n = d # ds" and "c_isdigit d"
    using show_nat_digits [of n] by (cases "show_nat n") auto
  then show "show_nat n \<noteq> ''*''" "show_nat n @ x \<noteq> ''*''" using nat_digit_cases by auto
qed

text \<open>Cutting a text at a separator that its first part does not contain.\<close>

lemma cut_at:
  assumes "\<forall>c \<in> set xs. c \<noteq> s"
  shows "takeWhile (\<lambda>c. c \<noteq> s) (xs @ s # ys) = xs" "dropWhile (\<lambda>c. c \<noteq> s) (xs @ s # ys) = s # ys"
    "takeWhile (\<lambda>c. c \<noteq> s) xs = xs" "dropWhile (\<lambda>c. c \<noteq> s) xs = []"
  using assms by (auto simp: takeWhile_append dropWhile_append takeWhile_eq_all_conv)

lemma strtol_shown: "int n \<le> 2147483647 \<Longrightarrow> strtol (show_nat n) = (int n, [])"
  using strtol_show_nat [of n "[]"] by simp

lemma split_step_shown:
  assumes "\<forall>c \<in> set base. c \<noteq> CHR ''/''" and "1 \<le> opt_or 1 s" and "opt_or 1 s \<le> hi - lo + 1" and "lo \<le> hi" "hi < 64"
  shows "cron_split_step (base @ show_opt (CHR ''/'') s) lo hi = Some (base, opt_or 1 s)"
proof (cases s)
  case None
  then show ?thesis using assms(1) by (simp add: cron_split_step_def show_opt_def cut_at opt_or_def)
next
  case (Some k)
  then show ?thesis
    using assms by (simp add: cron_split_step_def show_opt_def cut_at opt_or_def strtol_shown of_nat_diff)
qed

lemma range_shown:
  assumes "a < 64" "opt_or a b < 64"
  shows "cron_range (show_nat a @ show_opt (CHR ''-'') b) lo hi = Some (int a, int (opt_or a b))"
proof -
  have "\<forall>c \<in> set (show_nat a). c \<noteq> CHR ''-''" using show_nat_chars nat_digit_cases by blast
  note cut = cut_at [OF this]
  show ?thesis
    using assms by (cases b) (auto simp: cron_range_def show_opt_def cut opt_or_def strtol_shown Let_def)
qed

lemma parse_item_shown:
  assumes ok: "item_ok lo hi i" and hi: "hi < 64"
  shows "\<exists>m. cron_parse_item (show_item i) lo hi acc = Some m \<and>
             (\<forall>x. bit m x \<longleftrightarrow> bit acc x \<or> x \<in> item_values lo hi i)"
proof (cases i)
  case (Star s)
  have "cron_split_step (''*'' @ show_opt (CHR ''/'') s) lo hi = Some (''*'', opt_or 1 s)"
    by (rule split_step_shown) (use ok Star hi in auto)
  moreover have "cron_range ''*'' lo hi = Some (int lo, int hi)" by (simp add: cron_range_def)
  ultimately show ?thesis
    using Star ok hi by (auto simp: cron_parse_item_def bit_cron_fill simp del: append_Cons)
next
  case (Range a b s)
  let ?base = "show_nat a @ show_opt (CHR ''-'') b"
  have "\<forall>c \<in> set ?base. c \<noteq> CHR ''/''"
    using show_nat_chars nat_digit_cases by (fastforce simp: show_opt_def split: option.splits)
  then have "cron_split_step (?base @ show_opt (CHR ''/'') s) lo hi = Some (?base, opt_or 1 s)"
    by (rule split_step_shown) (use ok Range hi in auto)
  moreover have "cron_range ?base lo hi = Some (int a, int (opt_or a b))"
    by (rule range_shown) (use ok Range hi in auto)
  ultimately show ?thesis
    using Range ok hi by (auto simp: cron_parse_item_def bit_cron_fill)
qed

lemma show_item_chars: "c \<in> set (show_item i) \<Longrightarrow> c \<noteq> CHR '','' \<and> \<not> cron_blank c"
  using show_nat_chars nat_digit_cases
  by (cases i) (fastforce simp: show_opt_def cron_blank_def split: option.splits)+

lemma show_item_ne [simp]: "show_item i \<noteq> []"
  by (cases i) auto

lemma parse_items_shown:
  assumes "is \<noteq> []" and "\<forall>i \<in> set is. item_ok lo hi i" and hi: "hi < 64"
  shows "\<exists>m. cron_parse_items (show_items is) lo hi acc = Some m \<and>
             (\<forall>x. bit m x \<longleftrightarrow> bit acc x \<or> x \<in> items_values lo hi is)"
  using assms(1,2)
proof (induction "is" arbitrary: acc rule: show_items.induct)
  case (2 i)
  have c: "\<forall>c \<in> set (show_item i). c \<noteq> CHR '',''" using show_item_chars by blast
  from parse_item_shown [of lo hi i acc] 2 hi show ?case
    by (subst cron_parse_items.simps) (auto simp: cut_at [OF c] items_values_def Let_def)
next
  case (3 i j js)
  have c: "\<forall>c \<in> set (show_item i). c \<noteq> CHR '',''" using show_item_chars by blast
  from parse_item_shown [of lo hi i acc] 3 hi obtain m1 where
    m1: "cron_parse_item (show_item i) lo hi acc = Some m1"
      "\<forall>x. bit m1 x \<longleftrightarrow> bit acc x \<or> x \<in> item_values lo hi i" by auto
  from "3.IH" [of m1] "3.prems" obtain m2 where
    m2: "cron_parse_items (show_items (j # js)) lo hi m1 = Some m2"
      "\<forall>x. bit m2 x \<longleftrightarrow> bit m1 x \<or> x \<in> items_values lo hi (j # js)" by auto
  have "cron_parse_items (show_items (i # j # js)) lo hi acc = Some m2"
    using m1(1) m2(1) by (subst cron_parse_items.simps) (simp add: cut_at [OF c] Let_def)
  then show ?case
    using m1(2) m2(2) by (auto simp: items_values_def)
qed simp

lemma items_value_exists:
  assumes "is \<noteq> []" and "\<forall>i \<in> set is. item_ok lo hi i"
  shows "\<exists>x. x \<in> items_values lo hi is"
proof -
  obtain i where i: "i \<in> set is" using assms(1) by (cases "is") auto
  have "(case i of Star s \<Rightarrow> lo | Range a b s \<Rightarrow> a) \<in> item_values lo hi i"
    using assms(2) i by (cases i) auto
  with i show ?thesis by (auto simp: items_values_def)
qed

lemma show_items_ne: "is \<noteq> [] \<Longrightarrow> show_items is \<noteq> []"
  by (cases "is" rule: show_items.cases) auto

lemma parse_field_shown:
  assumes "is \<noteq> []" and "\<forall>i \<in> set is. item_ok lo hi i" and "hi < 64" and "length (show_items is) < 80"
  shows "\<exists>m. cron_parse_field (show_items is) lo hi = Some m \<and> (\<forall>x. bit m x \<longleftrightarrow> x \<in> items_values lo hi is)"
proof -
  obtain m where m: "cron_parse_items (show_items is) lo hi 0 = Some m"
    "\<forall>x. bit m x \<longleftrightarrow> x \<in> items_values lo hi is"
    using parse_items_shown [OF assms(1-3), of 0] by auto
  have "m \<noteq> 0" using items_value_exists [OF assms(1,2)] m(2) by force
  then show ?thesis using m assms(1,4) show_items_ne by (auto simp: cron_parse_field_def)
qed

section \<open>A whole schedule\<close>

record schedule =
  s_minute :: "cron_item list"
  s_hour :: "cron_item list"
  s_dom :: "cron_item list"
  s_month :: "cron_item list"
  s_dow :: "cron_item list"

definition show_schedule :: "schedule \<Rightarrow> string" where
  "show_schedule s = show_items (s_minute s) @ '' '' @ show_items (s_hour s) @ '' '' @
     show_items (s_dom s) @ '' '' @ show_items (s_month s) @ '' '' @ show_items (s_dow s)"

definition field_ok :: "nat \<Rightarrow> nat \<Rightarrow> cron_item list \<Rightarrow> bool" where
  "field_ok lo hi is \<longleftrightarrow> is \<noteq> [] \<and> (\<forall>i \<in> set is. item_ok lo hi i) \<and> length (show_items is) < 80"

definition schedule_ok :: "schedule \<Rightarrow> bool" where
  "schedule_ok s \<longleftrightarrow> field_ok 0 59 (s_minute s) \<and> field_ok 0 23 (s_hour s) \<and> field_ok 1 31 (s_dom s) \<and>
     field_ok 1 12 (s_month s) \<and> field_ok 0 7 (s_dow s) \<and> length (show_schedule s) < 128"

text \<open>When a schedule fires: cron's rule for the two day fields, and Sunday under both its numbers.\<close>

definition schedule_fires :: "schedule \<Rightarrow> tm \<Rightarrow> bool" where
  "schedule_fires s t \<longleftrightarrow>
     tm_min t \<in> items_values 0 59 (s_minute s) \<and> tm_hour t \<in> items_values 0 23 (s_hour s) \<and>
     tm_mon t + 1 \<in> items_values 1 12 (s_month s) \<and>
     (let dom = tm_mday t \<in> items_values 1 31 (s_dom s);
          dow = (tm_wday t \<in> items_values 0 7 (s_dow s) \<or> (tm_wday t = 0 \<and> 7 \<in> items_values 0 7 (s_dow s)))
      in if s_dom s \<noteq> [Star None] \<and> s_dow s \<noteq> [Star None] then dom \<or> dow else dom \<and> dow)"

lemma show_items_chars: "\<forall>c \<in> set (show_items is). \<not> cron_blank c"
proof -
  have i: "\<forall>c \<in> set (show_item i). \<not> cron_blank c" for i using show_item_chars by blast
  have comma: "\<not> cron_blank (CHR '','')" by (simp add: cron_blank_def)
  show ?thesis by (induction "is" rule: show_items.induct) (simp_all add: i comma ball_Un)
qed

lemma show_items_star: "show_items is = ''*'' \<longleftrightarrow> is = [Star None]"
proof (cases "is" rule: show_items.cases)
  case (2 i)
  then show ?thesis by (cases i) (auto simp: show_opt_def split: option.splits)
next
  case (3 i j js)
  have "show_items (i # j # js) \<noteq> ''*''"
    using show_item_ne [of i] by (cases "show_item i") auto
  with 3 show ?thesis by simp
qed simp

lemma dropWhile_blank_id: "xs \<noteq> [] \<Longrightarrow> \<forall>c \<in> set xs. \<not> cron_blank c \<Longrightarrow> dropWhile cron_blank (xs @ ys) = xs @ ys"
  by (cases xs) auto

lemma cron_fields_shown:
  assumes "f \<noteq> []" and "\<forall>c \<in> set f. \<not> cron_blank c"
  shows "cron_fields (Suc n) (f @ '' '' @ p) = (let (fs, rest) = cron_fields n p in (f # fs, rest))"
    and "cron_fields (Suc n) f = (let (fs, rest) = cron_fields n [] in (f # fs, rest))"
proof -
  have b: "cron_blank (CHR '' '')" by (simp add: cron_blank_def)
  have tw: "takeWhile (\<lambda>c. \<not> cron_blank c) (f @ CHR '' '' # p) = f"
    "dropWhile (\<lambda>c. \<not> cron_blank c) (f @ CHR '' '' # p) = CHR '' '' # p"
    "takeWhile (\<lambda>c. \<not> cron_blank c) f = f" "dropWhile (\<lambda>c. \<not> cron_blank c) f = []"
    using assms(2) b by (auto simp: takeWhile_append dropWhile_append takeWhile_eq_all_conv)
  show "cron_fields (Suc n) (f @ '' '' @ p) = (let (fs, rest) = cron_fields n p in (f # fs, rest))"
    using dropWhile_blank_id [OF assms, of "CHR '' '' # p"] assms(1) by (simp add: tw Let_def)
  show "cron_fields (Suc n) f = (let (fs, rest) = cron_fields n [] in (f # fs, rest))"
    using dropWhile_blank_id [OF assms, of "[]"] assms(1) by (simp add: tw Let_def)
qed

lemma cron_fields_schedule:
  assumes "schedule_ok s"
  shows "cron_fields 5 (show_schedule s) =
    ([show_items (s_minute s), show_items (s_hour s), show_items (s_dom s), show_items (s_month s),
      show_items (s_dow s)], [])"
proof -
  have ne: "s_minute s \<noteq> []" "s_hour s \<noteq> []" "s_dom s \<noteq> []" "s_month s \<noteq> []" "s_dow s \<noteq> []"
    using assms by (simp_all add: schedule_ok_def field_ok_def)
  have cut: "cron_fields (Suc n) (show_items f @ '' '' @ p) = (let (fs, rest) = cron_fields n p in (show_items f # fs, rest))"
    "cron_fields (Suc n) (show_items f) = (let (fs, rest) = cron_fields n [] in (show_items f # fs, rest))"
    if "f \<noteq> []" for f n p
    using cron_fields_shown [OF show_items_ne [OF that] show_items_chars] by auto
  have five: "(5::nat) = Suc (Suc (Suc (Suc (Suc 0))))" by simp
  show ?thesis
    unfolding show_schedule_def five
    by (simp only: cut [OF ne(1)] cut [OF ne(2)] cut [OF ne(3)] cut [OF ne(4)] cut [OF ne(5)]
        cron_fields.simps(1) Let_def prod.case)
qed

text \<open>Narrowing the masks to the width of their fields loses no value of their ranges.\<close>

lemma low7: "bit (0x7f :: u64) n \<longleftrightarrow> n < 7"
proof -
  have "(0x7f :: u64) = mask 7" by (simp add: mask_eq_exp_minus_1)
  then show ?thesis by (simp only: bit_mask_iff) auto
qed

lemma bit_cron_of_masks:
  "bit (c_minute (cron_of_masks f [m0, m1, m2, m3, m4])) i \<longleftrightarrow> bit m0 i"
  "bit (c_hour (cron_of_masks f [m0, m1, m2, m3, m4])) i \<longleftrightarrow> i < 32 \<and> bit m1 i"
  "bit (c_dom (cron_of_masks f [m0, m1, m2, m3, m4])) i \<longleftrightarrow> i < 32 \<and> bit m2 i"
  "bit (c_month (cron_of_masks f [m0, m1, m2, m3, m4])) i \<longleftrightarrow> i < 16 \<and> bit m3 i"
  "bit (c_dow (cron_of_masks f [m0, m1, m2, m3, m4])) i \<longleftrightarrow> i < 7 \<and> (bit m4 i \<or> i = 0 \<and> bit m4 7)"
  "c_dom_any (cron_of_masks f [m0, m1, m2, m3, m4]) = (f ! 2 = ''*'')"
  "c_dow_any (cron_of_masks f [m0, m1, m2, m3, m4]) = (f ! 4 = ''*'')"
proof -
  have "bit (ucast (x AND 0x7f) :: u8) i \<longleftrightarrow> i < 7 \<and> bit x i" for x :: u64
    unfolding bit_ucast_iff bit_and_iff low7 by auto
  then show "bit (c_dow (cron_of_masks f [m0, m1, m2, m3, m4])) i \<longleftrightarrow> i < 7 \<and> (bit m4 i \<or> i = 0 \<and> bit m4 7)"
    unfolding cron_of_masks_def Let_def cron_t.simps by (auto simp: numeral_eq_Suc bit_simps)
qed (simp_all add: cron_of_masks_def Let_def bit_simps numeral_eq_Suc)

lemma cron_of_masks_match:
  assumes "tm_ok t"
  shows "cron_match (cron_of_masks f [m0, m1, m2, m3, m4]) t \<longleftrightarrow>
     bit m0 (tm_min t) \<and> bit m1 (tm_hour t) \<and> bit m3 (tm_mon t + 1) \<and>
     (let dom = bit m2 (tm_mday t);
          dow = (bit m4 (tm_wday t) \<or> (tm_wday t = 0 \<and> bit m4 7))
      in if f ! 2 \<noteq> ''*'' \<and> f ! 4 \<noteq> ''*'' then dom \<or> dow else dom \<and> dow)"
  using assms by (auto simp: cron_match_def bit_cron_of_masks tm_ok_def Let_def)


text \<open>
  C3. The cron parser reads what a user may write as what it means: every well-formed schedule,
  printed as its five fields, is accepted, and the schedule parsed matches a time exactly when the
  meaning of the fields says so - steps, ranges and lists, Sunday as 0 and 7, and a day that needs
  one of the two day fields when both are restricted and both otherwise.
\<close>

theorem cron_parse_correct:
  assumes "schedule_ok s"
  shows "\<exists>c. cron_parse (show_schedule s) = Inr c \<and>
             (\<forall>t. tm_ok t \<longrightarrow> (cron_match c t \<longleftrightarrow> schedule_fires s t))"
proof -
  have f: "\<exists>m. cron_parse_field (show_items is) lo hi = Some m \<and> (\<forall>x. bit m x \<longleftrightarrow> x \<in> items_values lo hi is)"
    if "field_ok lo hi is" "hi < 64" for lo hi "is"
    using that parse_field_shown by (auto simp: field_ok_def)
  obtain m0 m1 m2 m3 m4 where m:
    "cron_parse_field (show_items (s_minute s)) 0 59 = Some m0" "\<forall>x. bit m0 x \<longleftrightarrow> x \<in> items_values 0 59 (s_minute s)"
    "cron_parse_field (show_items (s_hour s)) 0 23 = Some m1" "\<forall>x. bit m1 x \<longleftrightarrow> x \<in> items_values 0 23 (s_hour s)"
    "cron_parse_field (show_items (s_dom s)) 1 31 = Some m2" "\<forall>x. bit m2 x \<longleftrightarrow> x \<in> items_values 1 31 (s_dom s)"
    "cron_parse_field (show_items (s_month s)) 1 12 = Some m3" "\<forall>x. bit m3 x \<longleftrightarrow> x \<in> items_values 1 12 (s_month s)"
    "cron_parse_field (show_items (s_dow s)) 0 7 = Some m4" "\<forall>x. bit m4 x \<longleftrightarrow> x \<in> items_values 0 7 (s_dow s)"
    using f [of 0 59 "s_minute s"] f [of 0 23 "s_hour s"] f [of 1 31 "s_dom s"] f [of 1 12 "s_month s"]
      f [of 0 7 "s_dow s"] assms by (auto simp: schedule_ok_def)
  let ?f = "[show_items (s_minute s), show_items (s_hour s), show_items (s_dom s), show_items (s_month s),
      show_items (s_dow s)]"
  have "cron_parse (show_schedule s) = Inr (cron_of_masks ?f [m0, m1, m2, m3, m4])"
    using assms cron_fields_schedule [OF assms] m
    by (simp add: cron_parse_def cron_limits_def schedule_ok_def Let_def)
  moreover have "cron_match (cron_of_masks ?f [m0, m1, m2, m3, m4]) t \<longleftrightarrow> schedule_fires s t" if "tm_ok t" for t
    unfolding cron_of_masks_match [OF that] schedule_fires_def
    using m by (simp add: show_items_star numeral_eq_Suc)
  ultimately show ?thesis by blast
qed

definition weekday_mornings :: schedule where
  "weekday_mornings = \<lparr>s_minute = [Range 0 None None, Range 30 None None], s_hour = [Range 8 (Some 9) None],
     s_dom = [Star None], s_month = [Star (Some 2)], s_dow = [Range 1 (Some 5) None, Range 7 None None]\<rparr>"

theorem cron_parse_correct_witness:
  "\<exists>c. cron_parse (show_schedule weekday_mornings) = Inr c \<and>
       (\<forall>t. tm_ok t \<longrightarrow> (cron_match c t \<longleftrightarrow> schedule_fires weekday_mornings t))"
  by (rule cron_parse_correct) code_simp

text \<open>
  Whatever text is parsed, a schedule that is accepted is in range and not empty: no mask is
  zero, no bit of a mask lies outside the values of its field (the masks were narrowed without
  loss), and the weekdays are 0 to 6.
\<close>

theorem cron_parse_bounds:
  assumes "cron_parse text = Inr c"
  shows "c_minute c \<noteq> 0 \<and> c_hour c \<noteq> 0 \<and> c_dom c \<noteq> 0 \<and> c_month c \<noteq> 0 \<and> c_dow c \<noteq> 0 \<and>
    (bit (c_minute c) i \<longrightarrow> i \<le> 59) \<and> (bit (c_hour c) i \<longrightarrow> i \<le> 23) \<and>
    (bit (c_dom c) i \<longrightarrow> 1 \<le> i \<and> i \<le> 31) \<and> (bit (c_month c) i \<longrightarrow> 1 \<le> i \<and> i \<le> 12) \<and>
    (bit (c_dow c) i \<longrightarrow> i \<le> 6)"
proof -
  obtain f m where "length f = 5" and ms: "cron_parse_masks f cron_limits = Inr m" and c: "c = cron_of_masks f m"
    using assms by (auto simp: cron_parse_def Let_def split: if_splits prod.splits sum.splits)
  then obtain f0 f1 f2 f3 f4 where f: "f = [f0, f1, f2, f3, f4]"
    by (auto simp: numeral_eq_Suc length_Suc_conv)
  obtain m0 m1 m2 m3 m4 where m: "m = [m0, m1, m2, m3, m4]"
    "cron_parse_field f0 0 59 = Some m0" "cron_parse_field f1 0 23 = Some m1"
    "cron_parse_field f2 1 31 = Some m2" "cron_parse_field f3 1 12 = Some m3" "cron_parse_field f4 0 7 = Some m4"
    using ms by (auto simp: f cron_limits_def split: option.splits sum.splits)
  have b: "(\<exists>x. bit m x) \<and> (\<forall>x. bit m x \<longrightarrow> lo \<le> x \<and> x \<le> hi)" if "cron_parse_field g lo hi = Some m" "hi < 64" for g lo hi m
    using cron_parse_field_bits [OF that] bit_eq_iff [of m 0] by auto
  note bs = b [OF m(2)] b [OF m(3)] b [OF m(4)] b [OF m(5)] b [OF m(6)]
  have nz: "w \<noteq> 0 \<longleftrightarrow> (\<exists>k. bit w k)" for w :: "'a::len word" using bit_eq_iff [of w 0] by auto
  have "\<exists>k. bit (c_dow c) k"
  proof -
    obtain x where x: "bit m4 x" "x \<le> 7" using bs by auto
    then show ?thesis by (intro exI [of _ "if x = 7 then 0 else x"]) (auto simp: c m(1) bit_cron_of_masks)
  qed
  moreover have "\<exists>k. bit (c_minute c) k" "\<exists>k. bit (c_hour c) k" "\<exists>k. bit (c_dom c) k" "\<exists>k. bit (c_month c) k"
    using bs unfolding c m(1) bit_cron_of_masks by (force, force, force, force)
  ultimately show ?thesis
    unfolding nz using bs unfolding c m(1) bit_cron_of_masks by auto
qed

definition first_of_month :: string where
  "first_of_month = ''30 8-18/2 1 * *''"

theorem cron_parse_bounds_witness:
  "\<exists>c. cron_parse first_of_month = Inr c \<and> c_dow c \<noteq> 0 \<and> (bit (c_hour c) 24 \<longrightarrow> (24::nat) \<le> 23)"
proof -
  have "\<not> isl (cron_parse first_of_month)" by code_simp
  then have "\<exists>c. cron_parse first_of_month = Inr c" by (cases "cron_parse first_of_month") auto
  then show ?thesis using cron_parse_bounds [of first_of_month _ 24] by blast
qed

end
