(* ===== verification/Region_Core.thy ===== *)
theory Region_Core
  imports Prelude
begin

text \<open>
  components/kvm_regions/region_core.c: watching a rectangle of the screen. A look samples a
  16x16 grid of cells from a frame in memory (24-bit RGB or packed 4:2:2) into a signature of
  brightnesses, a mean colour and the colour most samples have; the state machine of a region is
  fed one look at a time and decides when an event has happened.

  Pixel components are integers in 0..255, positions natural numbers; the frame's bytes are read
  with checked reads, so a look's outer option is the memory safety of the sampling. Milliseconds
  and the event counter are 32-bit words and wrap as in C.
\<close>

section \<open>Data\<close>

datatype region_mode = Mode_Change | Mode_Still | Mode_Like | Mode_Unlike | Mode_Colour

datatype region_colour = Col_Any | Col_Black | Col_Grey | Col_White | Col_Red | Col_Orange
  | Col_Yellow | Col_Green | Col_Cyan | Col_Blue | Col_Magenta

record region_rect =
  rr_x :: nat
  rr_y :: nat
  rr_w :: nat
  rr_h :: nat

record region_cfg =
  rc_mode :: region_mode
  rc_threshold :: nat
  rc_hold_s :: nat
  rc_colour :: region_colour
  rc_has_ref :: bool
  rc_ref :: "nat list"

record region_frame =
  rf_px :: "bytes option"
  rf_w :: nat
  rf_h :: nat
  rf_bpp :: nat
  rf_luma_off :: nat
  rf_bgr :: bool

record region_look =
  lk_sig :: "nat list"
  lk_rgb :: "nat \<times> nat \<times> nat"
  lk_colour :: region_colour
  lk_colour_pct :: nat

record region_state =
  st_have_base :: bool
  st_base :: "nat list"
  st_base_colour :: region_colour
  st_cond_since :: u32
  st_moved :: u32
  st_settling :: bool
  st_active :: bool
  st_active_since :: u32
  st_pulse_until :: u32
  st_diff :: nat
  st_colour :: region_colour
  st_colour_pct :: nat
  st_rgb :: "nat \<times> nat \<times> nat"
  st_events :: u32

section \<open>Looking at a frame\<close>

definition clamp8 :: "int \<Rightarrow> nat" where
  "clamp8 v = (if v < 0 then 0 else if v > 255 then 255 else nat v)"

definition pixel :: "region_frame \<Rightarrow> bytes \<Rightarrow> nat \<Rightarrow> nat \<Rightarrow> ((nat \<times> nat \<times> nat) \<times> nat) option" where
  "pixel f px x y =
     (let i = y * rf_w f + x in
      if rf_bpp f = 3 then do {
        p0 \<leftarrow> rd8 px (i * 3);
        p1 \<leftarrow> rd8 px (i * 3 + 1);
        p2 \<leftarrow> rd8 px (i * 3 + 2);
        let r = unat (if rf_bgr f then p2 else p0);
        let g = unat p1;
        let b = unat (if rf_bgr f then p0 else p2);
        Some ((r, g, b), (r * 77 + g * 150 + b * 29) div 256 mod 256)
      } else do {
        let p = (i - i mod 2) * 2;
        yb \<leftarrow> rd8 px (p + rf_luma_off f + (i mod 2) * 2);
        ub \<leftarrow> rd8 px (p + (if rf_luma_off f \<noteq> 0 then 0 else 1));
        vb \<leftarrow> rd8 px (p + (if rf_luma_off f \<noteq> 0 then 2 else 3));
        let yv = uint yb;
        let u = uint ub - 128;
        let v = uint vb - 128;
        Some ((clamp8 (yv + (359 * v) div 256), clamp8 (yv - (88 * u + 183 * v) div 256),
               clamp8 (yv + (454 * u) div 256)), unat yb)
      })"

definition hue :: "int \<Rightarrow> int \<Rightarrow> int \<Rightarrow> int \<Rightarrow> int \<Rightarrow> int" where
  "hue r g b mx chroma =
     (let h = (if mx = r then c_div (60 * (g - b)) chroma
               else if mx = g then 120 + c_div (60 * (b - r)) chroma
               else 240 + c_div (60 * (r - g)) chroma)
      in if h < 0 then h + 360 else h)"

definition colour_of_hue :: "int \<Rightarrow> region_colour" where
  "colour_of_hue h =
     (if h < 15 \<or> h \<ge> 345 then Col_Red
      else if h < 45 then Col_Orange
      else if h < 70 then Col_Yellow
      else if h < 170 then Col_Green
      else if h < 200 then Col_Cyan
      else if h < 260 then Col_Blue
      else Col_Magenta)"

definition region_classify :: "nat \<Rightarrow> nat \<Rightarrow> nat \<Rightarrow> region_colour" where
  "region_classify rn gn bn =
     (let r = int rn; g = int gn; b = int bn;
          mx = (if r > g then (if r > b then r else b) else (if g > b then g else b));
          mn = (if r < g then (if r < b then r else b) else (if g < b then g else b))
      in if mx < 48 then Col_Black
         else let chroma = mx - mn in
         if chroma < 40 then (if mx > 200 then Col_White else Col_Grey)
         else colour_of_hue (hue r g b mx chroma))"

definition region_scale :: nat where
  "region_scale = 10000"

text \<open>The sampling point of sub-cell \<open>s\<close> of cell \<open>c\<close> along one axis, kept inside the rectangle.\<close>

definition sample_pos :: "nat \<Rightarrow> nat \<Rightarrow> nat \<Rightarrow> nat \<Rightarrow> nat" where
  "sample_pos p0 ext c s =
     (let p = p0 + ext * (c * 4 + 2 * s + 1) div 64 in if p < p0 + ext then p else p0 + ext - 1)"

text \<open>The four samples of a cell, row by row.\<close>

definition cell_samples ::
    "region_frame \<Rightarrow> bytes \<Rightarrow> nat \<Rightarrow> nat \<Rightarrow> nat \<Rightarrow> nat \<Rightarrow> nat \<times> nat \<Rightarrow> ((nat \<times> nat \<times> nat) \<times> nat) list option" where
  "cell_samples f px x0 y0 rw rh cell =
     map_opt (\<lambda>(sy, sx). pixel f px (sample_pos x0 rw (snd cell) sx) (sample_pos y0 rh (fst cell) sy))
       [(0, 0), (0, 1), (1, 0), (1, 1)]"

definition grid :: "(nat \<times> nat) list" where
  "grid = List.product [0..<16] [0..<16]"

definition colours :: "region_colour list" where
  "colours = [Col_Black, Col_Grey, Col_White, Col_Red, Col_Orange, Col_Yellow, Col_Green, Col_Cyan,
              Col_Blue, Col_Magenta]"

text \<open>What the loops over the cells accumulate: sums, votes, the signature.\<close>

definition tally :: "((nat \<times> nat \<times> nat) \<times> nat) list list \<Rightarrow> region_look" where
  "tally cells =
     (let s = concat cells; n = length s;
          votes = (\<lambda>c. length (filter (\<lambda>((r, g, b), _). region_classify r g b = c) s));
          best = fold (\<lambda>c best. if votes c > votes best then c else best) colours Col_Black
      in \<lparr>lk_sig = map (\<lambda>cell. sum_list (map snd cell) div 4 mod 256) cells,
          lk_rgb = (sum_list (map (fst \<circ> fst) s) div n mod 256,
                    sum_list (map (fst \<circ> snd \<circ> fst) s) div n mod 256,
                    sum_list (map (snd \<circ> snd \<circ> fst) s) div n mod 256),
          lk_colour = best,
          lk_colour_pct = votes best * 100 div n mod 256\<rparr>)"

text \<open>The rectangle in pixels, clipped to the frame; \<open>None\<close> when it is empty or off the frame.\<close>

definition region_clip :: "region_frame \<Rightarrow> region_rect \<Rightarrow> (nat \<times> nat \<times> nat \<times> nat) option" where
  "region_clip f r =
     (if rf_w f = 0 \<or> rf_h f = 0 \<or> rr_w r = 0 \<or> rr_h r = 0 then None
      else if rr_x r + rr_w r > region_scale \<or> rr_y r + rr_h r > region_scale then None
      else
        let x0 = rr_x r * rf_w f div region_scale;
            y0 = rr_y r * rf_h f div region_scale;
            rw = rr_w r * rf_w f div region_scale;
            rh = rr_h r * rf_h f div region_scale;
            rw = (if rw = 0 then 1 else rw);
            rh = (if rh = 0 then 1 else rh)
        in if x0 \<ge> rf_w f \<or> y0 \<ge> rf_h f then None
           else Some (x0, y0, (if x0 + rw > rf_w f then rf_w f - x0 else rw),
                      (if y0 + rh > rf_h f then rf_h f - y0 else rh)))"

text \<open>
  \<open>region_look\<close>. The outer \<open>None\<close> is a read outside the frame; the inner one is the function's
  \<open>false\<close>.
\<close>

definition region_look :: "region_frame \<Rightarrow> region_rect \<Rightarrow> region_look option option" where
  "region_look f r =
     (case rf_px f of
        None \<Rightarrow> Some None
      | Some px \<Rightarrow>
          (case region_clip f r of
             None \<Rightarrow> Some None
           | Some (x0, y0, rw, rh) \<Rightarrow>
               (case map_opt (cell_samples f px x0 y0 rw rh) grid of
                  None \<Rightarrow> None
                | Some cells \<Rightarrow> Some (Some (tally cells)))))"

definition region_diff :: "nat list \<Rightarrow> nat list \<Rightarrow> nat" where
  "region_diff a b =
     length (filter (\<lambda>(x, y). int x - int y > 16 \<or> int x - int y < -16) (zip a b)) * 100 div 256"

section \<open>The state machine\<close>

definition region_reset :: "region_state \<Rightarrow> region_state" where
  "region_reset s =
     \<lparr>st_have_base = False, st_base = replicate 256 0, st_base_colour = Col_Any, st_cond_since = 0,
      st_moved = 0, st_settling = False, st_active = False, st_active_since = 0, st_pulse_until = 0,
      st_diff = 0, st_colour = Col_Any, st_colour_pct = 0, st_rgb = (0, 0, 0), st_events = st_events s\<rparr>"

definition hold_ms :: "region_cfg \<Rightarrow> u32" where
  "hold_ms c = of_nat (rc_hold_s c) * 1000"

definition level :: "region_cfg \<Rightarrow> region_state \<Rightarrow> bool \<Rightarrow> u32 \<Rightarrow> bool \<times> region_state" where
  "level c s cnd now =
     (if \<not> cnd then (False, s\<lparr>st_cond_since := 0, st_active := False\<rparr>)
      else let s1 = (if st_cond_since s = 0 then s\<lparr>st_cond_since := now\<rparr> else s)
           in if \<not> st_active s1 \<and> now - st_cond_since s1 \<ge> hold_ms c
              then (True, s1\<lparr>st_active := True, st_active_since := now, st_events := st_events s1 + 1\<rparr>)
              else (False, s1))"

definition pulse :: "region_cfg \<Rightarrow> region_state \<Rightarrow> bool \<Rightarrow> u32 \<Rightarrow> bool \<times> region_state" where
  "pulse c s cnd now =
     (let s0 = (if st_active s \<and> now \<ge> st_pulse_until s then s\<lparr>st_active := False\<rparr> else s)
      in if \<not> cnd then (False, s0\<lparr>st_cond_since := 0\<rparr>)
         else let s1 = (if st_cond_since s0 = 0 then s0\<lparr>st_cond_since := now\<rparr> else s0)
              in if now - st_cond_since s1 < hold_ms c then (False, s1)
                 else (True, s1\<lparr>st_cond_since := 0, st_active := True, st_active_since := now,
                                st_pulse_until := now + 5000, st_events := st_events s1 + 1\<rparr>))"

definition threshold :: "region_cfg \<Rightarrow> nat" where
  "threshold c = (if rc_threshold c \<noteq> 0 then rc_threshold c else 1)"

definition step_change :: "region_cfg \<Rightarrow> region_state \<Rightarrow> region_look \<Rightarrow> u32 \<Rightarrow> bool \<times> region_state" where
  "step_change c s look now =
     (let s1 = s\<lparr>st_diff := region_diff (lk_sig look) (st_base s)\<rparr>
      in if st_settling s1
         then let s2 = s1\<lparr>st_base := lk_sig look, st_settling := (st_diff s1 \<ge> threshold c)\<rparr>
              in (False, snd (pulse c s2 False now))
         else let (ev, s2) = pulse c s1 (st_diff s1 \<ge> threshold c) now
              in (ev, if ev then s2\<lparr>st_base := lk_sig look, st_settling := True\<rparr> else s2))"

definition step_still :: "region_cfg \<Rightarrow> region_state \<Rightarrow> region_look \<Rightarrow> u32 \<Rightarrow> bool \<times> region_state" where
  "step_still c s look now =
     (let d = region_diff (lk_sig look) (st_base s);
          s1 = (if d \<ge> threshold c then s\<lparr>st_base := lk_sig look, st_moved := now, st_diff := 0\<rparr>
                else s\<lparr>st_diff := d\<rparr>);
          hold = of_nat (if rc_hold_s c \<noteq> 0 then rc_hold_s c else 1) * 1000;
          still = (now - st_moved s1 \<ge> hold)
      in if \<not> still then (False, s1\<lparr>st_active := False\<rparr>)
         else if \<not> st_active s1
         then (True, s1\<lparr>st_active := True, st_active_since := now, st_events := st_events s1 + 1\<rparr>)
         else (False, s1))"

definition step_like :: "region_cfg \<Rightarrow> region_state \<Rightarrow> region_look \<Rightarrow> u32 \<Rightarrow> bool \<times> region_state" where
  "step_like c s look now =
     (if \<not> rc_has_ref c then (False, s\<lparr>st_diff := 0, st_active := False, st_cond_since := 0\<rparr>)
      else let d = region_diff (lk_sig look) (rc_ref c)
           in level c (s\<lparr>st_diff := d\<rparr>)
                (if rc_mode c = Mode_Like then d < threshold c else d \<ge> threshold c) now)"

definition step_colour :: "region_cfg \<Rightarrow> region_state \<Rightarrow> region_look \<Rightarrow> u32 \<Rightarrow> bool \<times> region_state" where
  "step_colour c s look now =
     (let s1 = s\<lparr>st_diff := 0\<rparr>
      in if rc_colour c = Col_Any
         then let (ev, s2) = pulse c s1 (lk_colour look \<noteq> st_base_colour s1) now
              in (ev, if ev then s2\<lparr>st_base_colour := lk_colour look\<rparr> else s2)
         else level c s1 (lk_colour look = rc_colour c) now)"

text \<open>The modes that compare with an earlier look have nothing to compare the first one with.\<close>

definition needs_base :: "region_cfg \<Rightarrow> bool" where
  "needs_base c \<longleftrightarrow> rc_mode c = Mode_Change \<or> rc_mode c = Mode_Still \<or>
     (rc_mode c = Mode_Colour \<and> rc_colour c = Col_Any)"

definition region_step :: "region_cfg \<Rightarrow> region_state \<Rightarrow> region_look \<Rightarrow> u32 \<Rightarrow> bool \<times> region_state" where
  "region_step c s look now =
     (let s0 = s\<lparr>st_colour := lk_colour look, st_colour_pct := lk_colour_pct look, st_rgb := lk_rgb look\<rparr>;
          first = \<not> st_have_base s0;
          s1 = (if first then s0\<lparr>st_base := lk_sig look, st_base_colour := lk_colour look,
                                 st_have_base := True, st_moved := now\<rparr> else s0)
      in if first \<and> needs_base c then (False, s1\<lparr>st_diff := 0\<rparr>)
         else case rc_mode c of
                Mode_Change \<Rightarrow> step_change c s1 look now
              | Mode_Still \<Rightarrow> step_still c s1 look now
              | Mode_Like \<Rightarrow> step_like c s1 look now
              | Mode_Unlike \<Rightarrow> step_like c s1 look now
              | Mode_Colour \<Rightarrow> step_colour c s1 look now)"

section \<open>Names\<close>

definition mode_names :: "(string \<times> region_mode) list" where
  "mode_names = [(''change'', Mode_Change), (''still'', Mode_Still), (''like'', Mode_Like),
                 (''unlike'', Mode_Unlike), (''colour'', Mode_Colour)]"

definition colour_names :: "(string \<times> region_colour) list" where
  "colour_names = [(''any'', Col_Any), (''black'', Col_Black), (''grey'', Col_Grey), (''white'', Col_White),
     (''red'', Col_Red), (''orange'', Col_Orange), (''yellow'', Col_Yellow), (''green'', Col_Green),
     (''cyan'', Col_Cyan), (''blue'', Col_Blue), (''magenta'', Col_Magenta)]"

definition region_mode_name :: "region_mode \<Rightarrow> string" where
  "region_mode_name m = fst (the (find (\<lambda>(_, k). k = m) mode_names))"

definition region_mode_parse :: "string \<Rightarrow> region_mode option" where
  "region_mode_parse s =
     (case find (\<lambda>(n, _). c_strcaseeq s n) mode_names of
        Some (_, m) \<Rightarrow> Some m
      | None \<Rightarrow> if c_strcaseeq s ''color'' then Some Mode_Colour else None)"

definition region_colour_name :: "region_colour \<Rightarrow> string" where
  "region_colour_name c = fst (the (find (\<lambda>(_, k). k = c) colour_names))"

definition region_colour_parse :: "string \<Rightarrow> region_colour option" where
  "region_colour_parse s =
     (case find (\<lambda>(n, _). c_strcaseeq s n) colour_names of
        Some (_, c) \<Rightarrow> Some c
      | None \<Rightarrow> if c_strcaseeq s ''gray'' then Some Col_Grey else None)"

section \<open>Sampling stays inside the frame\<close>

text \<open>A frame whose buffer is as large as its geometry says; 4:2:2 has whole pairs of pixels.\<close>

definition frame_ok :: "region_frame \<Rightarrow> bool" where
  "frame_ok f \<longleftrightarrow> (case rf_px f of None \<Rightarrow> True | Some px \<Rightarrow>
     length px = rf_w f * rf_h f * rf_bpp f \<and>
     (rf_bpp f = 3 \<or> (rf_bpp f = 2 \<and> even (rf_w f * rf_h f) \<and> rf_luma_off f \<le> 1)))"

lemma index_in: "x < w \<Longrightarrow> y < h \<Longrightarrow> y * w + x < w * (h::nat)"
proof -
  assume "x < w" "y < h"
  then have "y * w + x < y * w + w" and "Suc y * w \<le> h * w" by (simp, intro mult_right_mono) auto
  then show ?thesis by (simp add: mult.commute)
qed

lemma pair_in: "i < n \<Longrightarrow> even n \<Longrightarrow> i - i mod 2 + 2 \<le> (n::nat)"
  by presburger

lemma pixel_in_frame:
  assumes "frame_ok f" and "rf_px f = Some px" and "x < rf_w f" and "y < rf_h f"
  shows "\<exists>r g b l. pixel f px x y = Some ((r, g, b), l) \<and> r < 256 \<and> g < 256 \<and> b < 256 \<and> l < 256"
proof -
  let ?i = "y * rf_w f + x"
  have i: "?i < rf_w f * rf_h f" by (rule index_in) (use assms in auto)
  have c8: "clamp8 v < 256" for v by (auto simp: clamp8_def nat_less_iff)
  show ?thesis
  proof (cases "rf_bpp f = 3")
    case True
    then have "?i * 3 + 2 < length px" using assms i by (simp add: frame_ok_def)
    then show ?thesis using True unfolding pixel_def Let_def by (simp add: rd8_in)
  next
    case False
    then have even: "even (rf_w f * rf_h f)" and len: "length px = rf_w f * rf_h f * 2" and off: "rf_luma_off f \<le> 1"
      using assms by (auto simp: frame_ok_def)
    have "?i - ?i mod 2 + 2 \<le> rf_w f * rf_h f"
      using pair_in [OF i even] .
    then have "(?i - ?i mod 2) * 2 + 4 \<le> length px" by (simp add: len)
    moreover have "?i mod 2 \<le> 1" by simp
    ultimately have "(?i - ?i mod 2) * 2 + rf_luma_off f + ?i mod 2 * 2 < length px"
      "(?i - ?i mod 2) * 2 + (if rf_luma_off f \<noteq> 0 then 0 else 1) < length px"
      "(?i - ?i mod 2) * 2 + (if rf_luma_off f \<noteq> 0 then 2 else 3) < length px"
      using off by auto
    then show ?thesis using False c8 unfolding pixel_def Let_def by (simp add: rd8_in)
  qed
qed

lemma sample_pos_in: "0 < ext \<Longrightarrow> p0 \<le> sample_pos p0 ext c s \<and> sample_pos p0 ext c s < p0 + ext"
  by (auto simp: sample_pos_def Let_def)

lemma cell_samples_in_frame:
  assumes "frame_ok f" and "rf_px f = Some px" and "0 < rw" "0 < rh" "x0 + rw \<le> rf_w f" "y0 + rh \<le> rf_h f"
  shows "\<exists>s. cell_samples f px x0 y0 rw rh cell = Some s \<and> length s = 4 \<and> (\<forall>p \<in> set s. snd p < 256)"
proof -
  have p: "\<exists>r g b l. pixel f px (sample_pos x0 rw cx sx) (sample_pos y0 rh cy sy) = Some ((r, g, b), l) \<and> l < 256"
    for cx sx cy sy
    using pixel_in_frame [OF assms(1,2)] sample_pos_in [OF assms(3), of x0 cx sx]
      sample_pos_in [OF assms(4), of y0 cy sy] assms(5,6) by (meson less_le_trans)
  obtain s where s: "cell_samples f px x0 y0 rw rh cell = Some s"
    using map_opt_total [of "[(0, 0), (0, 1), (1, 0), (1, 1)]"
        "\<lambda>(sy, sx). pixel f px (sample_pos x0 rw (snd cell) sx) (sample_pos y0 rh (fst cell) sy)"] p
    unfolding cell_samples_def by fastforce
  moreover have "length s = 4" using map_opt_length [OF s [unfolded cell_samples_def]] by simp
  moreover have "snd q < 256" if q: "q \<in> set s" for q
  proof -
    obtain sy sx where "pixel f px (sample_pos x0 rw (snd cell) sx) (sample_pos y0 rh (fst cell) sy) = Some q"
      using map_opt_set [OF s [unfolded cell_samples_def] q] by auto
    then show ?thesis using p [of "snd cell" sx "fst cell" sy] by auto
  qed
  ultimately show ?thesis by blast
qed

lemma fold_pick_in: "fold (\<lambda>c best. if P c best then c else best) cs b \<in> insert b (set cs)"
proof (induction cs arbitrary: b)
  case (Cons c cs)
  then show ?case using Cons.IH [of c] Cons.IH [of b] by auto
qed simp

lemma tally_ok:
  "length (lk_sig (tally cells)) = length cells" "\<forall>v \<in> set (lk_sig (tally cells)). v < 256"
  "lk_colour (tally cells) \<noteq> Col_Any" "lk_colour_pct (tally cells) \<le> 100"
proof -
  have "lk_colour (tally cells) \<in> insert Col_Black (set colours)"
    unfolding tally_def Let_def region_look.simps by (rule fold_pick_in)
  then show "lk_colour (tally cells) \<noteq> Col_Any" by (auto simp: colours_def)
  have "v * 100 div n mod 256 \<le> 100" if "v \<le> n" for v n :: nat
  proof -
    have "v * 100 div n \<le> n * 100 div n" using that by (intro div_le_mono) simp
    also have "\<dots> \<le> 100" by (cases "n = 0") simp_all
    finally have "v * 100 div n \<le> 100" .
    then show ?thesis by simp
  qed
  then show "lk_colour_pct (tally cells) \<le> 100" by (simp add: tally_def Let_def)
qed (auto simp: tally_def Let_def)

lemma region_clip_in:
  "region_clip f r = Some (x0, y0, rw, rh) \<Longrightarrow> 0 < rw \<and> 0 < rh \<and> x0 + rw \<le> rf_w f \<and> y0 + rh \<le> rf_h f"
  by (auto simp: region_clip_def Let_def split: if_splits)

text \<open>
  C4. Looking at a region never reads outside the frame's buffer, whatever the rectangle: a look at
  a frame whose buffer matches its geometry always returns, and what it finds is well formed - 256
  cells of brightnesses below 256, a real colour, a share of at most 100 percent.
\<close>

theorem region_look_safe:
  assumes "frame_ok f"
  shows "\<exists>res. region_look f r = Some res \<and>
    (\<forall>look. res = Some look \<longrightarrow> length (lk_sig look) = 256 \<and> (\<forall>v \<in> set (lk_sig look). v < 256) \<and>
       lk_colour look \<noteq> Col_Any \<and> lk_colour_pct look \<le> 100)"
proof (cases "rf_px f")
  case None
  then show ?thesis by (simp add: region_look_def)
next
  case (Some px)
  have cells: "\<exists>cs. map_opt (cell_samples f px x0 y0 rw rh) grid = Some cs \<and> length cs = 256"
    if pos: "0 < rw" "0 < rh" "x0 + rw \<le> rf_w f" "y0 + rh \<le> rf_h f" for x0 y0 rw rh
  proof -
    obtain cs where cs: "map_opt (cell_samples f px x0 y0 rw rh) grid = Some cs"
      using map_opt_total [of grid "cell_samples f px x0 y0 rw rh"]
        cell_samples_in_frame [OF assms Some pos] by fastforce
    then show ?thesis using map_opt_length [OF cs] by (simp add: grid_def)
  qed
  show ?thesis
  proof (cases "region_clip f r")
    case None
    then show ?thesis by (simp add: region_look_def Some)
  next
    case clip: (Some q)
    obtain x0 y0 rw rh where q: "q = (x0, y0, rw, rh)" by (rule prod_cases4)
    obtain cs where "map_opt (cell_samples f px x0 y0 rw rh) grid = Some cs" and "length cs = 256"
      using cells region_clip_in [OF clip [unfolded q]] by blast
    then show ?thesis using tally_ok [of cs] by (simp add: region_look_def Some clip q)
  qed
qed

definition demo_frame :: region_frame where
  "demo_frame = \<lparr>rf_px = Some (replicate 24 200), rf_w = 4, rf_h = 3, rf_bpp = 2, rf_luma_off = 1, rf_bgr = False\<rparr>"

theorem region_look_safe_witness:
  "\<exists>look. region_look demo_frame \<lparr>rr_x = 5000, rr_y = 0, rr_w = 5000, rr_h = 10000\<rparr> = Some (Some look) \<and>
     length (lk_sig look) = 256 \<and> lk_colour_pct look \<le> 100 \<and> lk_colour look \<noteq> Col_Any"
proof -
  have "frame_ok demo_frame" by (simp add: frame_ok_def demo_frame_def)
  from region_look_safe [OF this, of "\<lparr>rr_x = 5000, rr_y = 0, rr_w = 5000, rr_h = 10000\<rparr>"]
  obtain res where res: "region_look demo_frame \<lparr>rr_x = 5000, rr_y = 0, rr_w = 5000, rr_h = 10000\<rparr> = Some res"
    "\<forall>look. res = Some look \<longrightarrow> length (lk_sig look) = 256 \<and> lk_colour look \<noteq> Col_Any \<and> lk_colour_pct look \<le> 100"
    by auto
  moreover have "res \<noteq> None"
    using res(1) by (auto simp: region_look_def region_clip_def demo_frame_def region_scale_def split: option.splits)
  ultimately show ?thesis by auto
qed

section \<open>Colours\<close>

lemma c_div_bounds:
  assumes "0 < d" and "\<bar>a\<bar> \<le> 60 * d"
  shows "- 60 \<le> c_div a d" and "c_div a d \<le> 60" and "0 \<le> a \<Longrightarrow> 0 \<le> c_div a d" and "a \<le> 0 \<Longrightarrow> c_div a d \<le> 0"
proof -
  have q: "0 \<le> \<bar>a\<bar> div d" "\<bar>a\<bar> div d \<le> 60"
    using assms by (auto simp: pos_imp_zdiv_nonneg_iff) (metis assms(1) mult.commute nonzero_mult_div_cancel_left order_less_irrefl zdiv_mono1)
  show "- 60 \<le> c_div a d" "c_div a d \<le> 60" "0 \<le> a \<Longrightarrow> 0 \<le> c_div a d" "a \<le> 0 \<Longrightarrow> c_div a d \<le> 0"
    using q assms(1) by (auto simp: c_div_def sgn_if)
qed

text \<open>Where the hue lies on the wheel says which component is largest.\<close>

lemma c_div_60: "0 < d \<Longrightarrow> c_div (60 * d) d = 60" "0 < d \<Longrightarrow> c_div (- (60 * d)) d = -60"
  by (auto simp: c_div_def sgn_if)

lemma hue_cases:
  assumes "mx = max r (max g b)" and "mn = min r (min g b)" and "0 < mx - mn"
  obtains (red) q where "mx = r" "- 60 \<le> q" "q \<le> 60" "hue r g b mx (mx - mn) = (if q < 0 then q + 360 else q)"
      "q < 0 \<Longrightarrow> g < mx" "0 \<le> q \<Longrightarrow> b < mx"
    | (green) q where "mx = g" "r < mx" "- 60 \<le> q" "q \<le> 60" "hue r g b mx (mx - mn) = 120 + q" "q < 60 \<Longrightarrow> b < mx"
    | (blue) q where "mx = b" "r < mx" "g < mx" "- 60 \<le> q" "q \<le> 60" "hue r g b mx (mx - mn) = 240 + q"
proof -
  let ?c = "mx - mn"
  have in_span: "\<bar>60 * (x - y)\<bar> \<le> 60 * ?c" if "x \<in> {r, g, b}" "y \<in> {r, g, b}" for x y
    using that assms by (auto simp: abs_if)
  have b: "- 60 \<le> c_div (60 * (x - y)) ?c \<and> c_div (60 * (x - y)) ?c \<le> 60"
    if "x \<in> {r, g, b}" "y \<in> {r, g, b}" for x y
    using c_div_bounds(1,2) [OF assms(3) in_span [OF that]] by simp
  have "mx = r \<or> mx = g \<or> mx = b" using assms(1) by (auto simp: max_def)
  then consider "mx = r" | "mx \<noteq> r" "mx = g" | "mx \<noteq> r" "mx \<noteq> g" "mx = b" by blast
  then show ?thesis
  proof cases
    case 1
    have g: "g < mx" if "c_div (60 * (g - b)) ?c < 0"
    proof -
      have "\<not> 0 \<le> 60 * (g - b)"
        using c_div_bounds(3) [OF assms(3) in_span [of g b]] that by auto
      then show ?thesis using assms(1) by auto
    qed
    have bl: "b < mx" if "0 \<le> c_div (60 * (g - b)) ?c"
    proof (rule ccontr)
      assume "\<not> b < mx"
      then have "b = mx" and "g = mn" using 1 assms by (auto simp: max_def min_def split: if_splits)
      then have "c_div (60 * (g - b)) ?c = -60" using c_div_60(2) [OF assms(3)] by (simp add: algebra_simps)
      with that show False by simp
    qed
    show ?thesis
      by (rule red [of "c_div (60 * (g - b)) ?c"]) (use 1 b g bl in \<open>auto simp: hue_def Let_def\<close>)
  next
    case 2
    have bl: "b < mx" if "c_div (60 * (b - r)) ?c < 60"
    proof (rule ccontr)
      assume "\<not> b < mx"
      then have "b = mx" and "r = mn" using 2 assms by (auto simp: max_def min_def split: if_splits)
      then have "c_div (60 * (b - r)) ?c = 60" using c_div_60(1) [OF assms(3)] by simp
      with that show False by simp
    qed
    have "r < mx" using 2 assms(1) by auto
    moreover have "hue r g b mx ?c = 120 + c_div (60 * (b - r)) ?c"
      using 2 b [of b r] by (auto simp: hue_def Let_def)
    ultimately show ?thesis using 2 b [of b r] bl green by blast
  next
    case 3
    have "r < mx" "g < mx" using 3 assms(1) by auto
    moreover have "hue r g b mx ?c = 240 + c_div (60 * (r - g)) ?c"
      using 3 b [of r g] by (auto simp: hue_def Let_def)
    ultimately show ?thesis using 3 b [of r g] blue by blast
  qed
qed

lemma hue_range:
  assumes "mx = max r (max g b)" and "mn = min r (min g b)" and "0 < mx - mn"
  defines "h \<equiv> hue r g b mx (mx - mn)"
  shows "60 < h \<Longrightarrow> h < 300 \<Longrightarrow> r < mx" and "h < 60 \<or> 300 < h \<Longrightarrow> mx = r"
    and "60 < h \<Longrightarrow> h < 180 \<Longrightarrow> mx = g" and "180 < h \<Longrightarrow> h < 300 \<Longrightarrow> mx = b"
    and "180 < h \<Longrightarrow> g < mx" and "h < 180 \<Longrightarrow> b < mx"
proof -
  have "(60 < h \<longrightarrow> h < 300 \<longrightarrow> r < mx) \<and> (h < 60 \<or> 300 < h \<longrightarrow> mx = r) \<and>
        (60 < h \<longrightarrow> h < 180 \<longrightarrow> mx = g) \<and> (180 < h \<longrightarrow> h < 300 \<longrightarrow> mx = b) \<and>
        (180 < h \<longrightarrow> g < mx) \<and> (h < 180 \<longrightarrow> b < mx)"
    using assms(1-3) by (cases rule: hue_cases) (auto simp: h_def split: if_splits)
  then show "60 < h \<Longrightarrow> h < 300 \<Longrightarrow> r < mx" "h < 60 \<or> 300 < h \<Longrightarrow> mx = r"
    "60 < h \<Longrightarrow> h < 180 \<Longrightarrow> mx = g" "180 < h \<Longrightarrow> h < 300 \<Longrightarrow> mx = b"
    "180 < h \<Longrightarrow> g < mx" "h < 180 \<Longrightarrow> b < mx" by auto
qed

text \<open>
  The colour named is one the components bear out: red and orange only where red is the largest
  component, green only where green is, blue only where blue is; yellow never where blue is largest,
  cyan never where red is, magenta never where green is; black, grey and white only where the pixel
  is dark or its components are close; and never "any".
\<close>

theorem region_classify_sound:
  fixes r g b :: nat
  defines "mx \<equiv> max r (max g b)" and "mn \<equiv> min r (min g b)"
  shows "case region_classify r g b of
      Col_Any \<Rightarrow> False
    | Col_Black \<Rightarrow> mx < 48
    | Col_Grey \<Rightarrow> 48 \<le> mx \<and> mx - mn < 40 \<and> mx \<le> 200
    | Col_White \<Rightarrow> mx - mn < 40 \<and> 200 < mx
    | Col_Red \<Rightarrow> r = mx \<and> mx - mn \<ge> 40
    | Col_Orange \<Rightarrow> r = mx \<and> mx - mn \<ge> 40
    | Col_Yellow \<Rightarrow> b < mx \<and> mx - mn \<ge> 40
    | Col_Green \<Rightarrow> g = mx \<and> r < mx \<and> b < mx \<and> mx - mn \<ge> 40
    | Col_Cyan \<Rightarrow> r < mx \<and> mx - mn \<ge> 40
    | Col_Blue \<Rightarrow> b = mx \<and> r < mx \<and> g < mx \<and> mx - mn \<ge> 40
    | Col_Magenta \<Rightarrow> g < mx \<and> mx - mn \<ge> 40"
proof -
  let ?r = "int r" and ?g = "int g" and ?b = "int b"
  have mx: "(if ?r > ?g then (if ?r > ?b then ?r else ?b) else (if ?g > ?b then ?g else ?b)) = int mx"
    by (auto simp: mx_def)
  have mn: "(if ?r < ?g then (if ?r < ?b then ?r else ?b) else (if ?g < ?b then ?g else ?b)) = int mn"
    by (auto simp: mn_def)
  have le: "mn \<le> mx" by (auto simp: mx_def mn_def)
  have alt: "region_classify r g b =
      (if mx < 48 then Col_Black else if mx - mn < 40 then (if mx > 200 then Col_White else Col_Grey)
       else colour_of_hue (hue ?r ?g ?b (int mx) (int mx - int mn)))"
    unfolding region_classify_def Let_def mx mn using le by auto
  show ?thesis
  proof (cases "mx < 48 \<or> mx - mn < 40")
    case True
    then show ?thesis unfolding alt by auto
  next
    case False
    define h where "h = hue ?r ?g ?b (int mx) (int mx - int mn)"
    have "int mx = max ?r (max ?g ?b)" "int mn = min ?r (min ?g ?b)" "0 < int mx - int mn"
      using False by (auto simp: mx_def mn_def)
    note hr = hue_range [OF this, folded h_def]
    have col: "region_classify r g b = colour_of_hue h"
      using False by (simp add: alt h_def)
    have chroma: "40 \<le> mx - mn" using False by simp
    consider "h < 45 \<or> 345 \<le> h" | "45 \<le> h" "h < 70" | "70 \<le> h" "h < 170" | "170 \<le> h" "h < 200"
      | "200 \<le> h" "h < 260" | "260 \<le> h" "h < 345" by linarith
    then show ?thesis
    proof cases
      case 1 then show ?thesis using hr(2) chroma unfolding col by (auto simp: colour_of_hue_def)
    next
      case 2 then show ?thesis using hr(6) chroma unfolding col by (auto simp: colour_of_hue_def)
    next
      case 3 then show ?thesis using hr(1,3,6) chroma unfolding col by (auto simp: colour_of_hue_def)
    next
      case 4 then show ?thesis using hr(1) chroma unfolding col by (auto simp: colour_of_hue_def)
    next
      case 5 then show ?thesis using hr(1,4,5) chroma unfolding col by (auto simp: colour_of_hue_def)
    next
      case 6 then show ?thesis using hr(5) chroma unfolding col by (auto simp: colour_of_hue_def)
    qed
  qed
qed

section \<open>Events\<close>

fun region_run :: "region_cfg \<Rightarrow> region_state \<Rightarrow> (region_look \<times> u32) list \<Rightarrow> bool list \<times> region_state" where
  "region_run c s [] = ([], s)"
| "region_run c s ((look, now) # xs) =
     (let (ev, s1) = region_step c s look now; (evs, s2) = region_run c s1 xs in (ev # evs, s2))"

lemma region_run_snoc:
  "region_run c s (xs @ [(l, t)]) =
     (fst (region_run c s xs) @ [fst (region_step c (snd (region_run c s xs)) l t)],
      snd (region_step c (snd (region_run c s xs)) l t))"
  by (induction xs arbitrary: s) (auto split: prod.splits)

lemma pulse_fields:
  "st_have_base (snd (pulse c s cnd t)) = st_have_base s" "st_base (snd (pulse c s cnd t)) = st_base s"
  "st_settling (snd (pulse c s cnd t)) = st_settling s" "st_base_colour (snd (pulse c s cnd t)) = st_base_colour s"
  by (cases cnd; simp add: pulse_def Let_def)+

lemma pulse_off: "\<not> fst (pulse c s False t)"
  by (simp add: pulse_def)

lemma pulse_events:
  "st_events (snd (pulse c s cnd t)) = st_events s + (if fst (pulse c s cnd t) then 1 else 0)"
  "fst (pulse c s cnd t) \<Longrightarrow> st_active (snd (pulse c s cnd t))"
  by (cases cnd; simp add: pulse_def Let_def split: if_splits)+

lemma level_events:
  "st_events (snd (level c s cnd t)) = st_events s + (if fst (level c s cnd t) then 1 else 0)"
  "fst (level c s cnd t) \<longleftrightarrow> \<not> st_active s \<and> st_active (snd (level c s cnd t))"
  by (cases cnd; simp add: level_def Let_def)+

text \<open>
  C5. Events are counted exactly: in every mode and state a step that reports an event adds one to
  the counter and leaves the region active, one that reports none leaves the counter alone; and in
  the modes whose condition is a level - still, like, unlike, a given colour - an event is exactly
  a region that was not active becoming active.
\<close>

theorem region_step_events:
  "case region_step c s look now of (ev, s') \<Rightarrow>
     st_events s' = st_events s + (if ev then 1 else 0) \<and>
     (ev \<longrightarrow> st_active s') \<and>
     (rc_mode c \<noteq> Mode_Change \<and> \<not> (rc_mode c = Mode_Colour \<and> rc_colour c = Col_Any) \<longrightarrow>
        (ev \<longleftrightarrow> \<not> st_active s \<and> st_active s'))"
proof -
  have change: "st_events (snd (step_change c s look now)) = st_events s + (if fst (step_change c s look now) then 1 else 0) \<and>
      (fst (step_change c s look now) \<longrightarrow> st_active (snd (step_change c s look now)))" for s
    by (auto simp: step_change_def Let_def case_prod_beta pulse_events pulse_off)
  have still: "st_events (snd (step_still c s look now)) = st_events s + (if fst (step_still c s look now) then 1 else 0) \<and>
      (fst (step_still c s look now) \<longleftrightarrow> \<not> st_active s \<and> st_active (snd (step_still c s look now)))" for s
    by (auto simp: step_still_def Let_def)
  have like: "st_events (snd (step_like c s look now)) = st_events s + (if fst (step_like c s look now) then 1 else 0) \<and>
      (fst (step_like c s look now) \<longleftrightarrow> \<not> st_active s \<and> st_active (snd (step_like c s look now)))" for s
    by (auto simp: step_like_def Let_def level_events(1)) (simp_all add: level_events(2))
  have colour: "st_events (snd (step_colour c s look now)) = st_events s + (if fst (step_colour c s look now) then 1 else 0) \<and>
      (fst (step_colour c s look now) \<longrightarrow> st_active (snd (step_colour c s look now))) \<and>
      (rc_colour c \<noteq> Col_Any \<longrightarrow>
        (fst (step_colour c s look now) \<longleftrightarrow> \<not> st_active s \<and> st_active (snd (step_colour c s look now))))" for s
    by (auto simp: step_colour_def Let_def case_prod_beta pulse_events level_events(1)) (simp_all add: level_events(2))
  show ?thesis
    unfolding region_step_def Let_def
    by (cases "rc_mode c") (auto simp: change still like colour case_prod_beta)
qed

subsection \<open>A condition over time\<close>

definition like_holds :: "region_cfg \<Rightarrow> region_look \<Rightarrow> bool" where
  "like_holds c look =
     (if rc_mode c = Mode_Like then region_diff (lk_sig look) (rc_ref c) < threshold c
      else region_diff (lk_sig look) (rc_ref c) \<ge> threshold c)"

definition like_cfg :: "region_cfg \<Rightarrow> bool" where
  "like_cfg c \<longleftrightarrow> (rc_mode c = Mode_Like \<or> rc_mode c = Mode_Unlike) \<and> rc_has_ref c \<and> rc_hold_s c < 65536"

text \<open>The looks that hold at the end of a sequence, newest first.\<close>

definition streak :: "region_cfg \<Rightarrow> (region_look \<times> nat) list \<Rightarrow> (region_look \<times> nat) list" where
  "streak c xs = takeWhile (\<lambda>x. like_holds c (fst x)) (rev xs)"

definition timed :: "(region_look \<times> nat) list \<Rightarrow> (region_look \<times> u32) list" where
  "timed xs = map (\<lambda>(l, t). (l, of_nat t)) xs"

definition times_ok :: "(region_look \<times> nat) list \<Rightarrow> bool" where
  "times_ok xs \<longleftrightarrow> sorted_wrt (<) (map snd xs) \<and> (\<forall>t \<in> set (map snd xs). 0 < t \<and> t < 2 ^ 32)"

lemma step_like_level:
  assumes "like_cfg c"
  shows "\<exists>s0. region_step c s l t = level c s0 (like_holds c l) t \<and>
    st_cond_since s0 = st_cond_since s \<and> st_active s0 = st_active s"
  using assms unfolding region_step_def Let_def like_cfg_def like_holds_def needs_base_def step_like_def
  by (cases "rc_mode c") (auto split: if_splits intro!: exI)

lemma unat_u32 [simp]: "t < 2 ^ 32 \<Longrightarrow> unat (of_nat t :: u32) = t"
  by (simp add: unsigned_of_nat take_bit_nat_eq_self)

lemma u32_diff: "s \<le> t \<Longrightarrow> t < 2 ^ 32 \<Longrightarrow> (of_nat t - of_nat s :: u32) = of_nat (t - s)"
  by simp

lemma level_like:
  assumes "like_cfg c" and since: "st_cond_since s = of_nat q" "q \<le> t" "t < 2 ^ 32" and cond: "like_holds c l"
    and t0: "0 < t"
  defines "s' \<equiv> snd (region_step c s l (of_nat t))"
  defines "q' \<equiv> if q = 0 then t else q"
  shows "st_cond_since s' = of_nat q'"
    and "st_active s' \<longleftrightarrow> st_active s \<or> rc_hold_s c * 1000 \<le> t - q'"
proof -
  obtain s0 where s0: "region_step c s l (of_nat t) = level c s0 True (of_nat t)"
    "st_cond_since s0 = of_nat q" "st_active s0 = st_active s"
    using step_like_level [OF assms(1), of s l "of_nat t"] cond since(1) by auto
  have z: "(of_nat q :: u32) = 0 \<longleftrightarrow> q = 0"
  proof
    assume "(of_nat q :: u32) = 0"
    then have "unat (of_nat q :: u32) = 0" by simp
    then show "q = 0" using since(2,3) by simp
  qed simp
  have hold: "unat (hold_ms c) = rc_hold_s c * 1000"
  proof -
    have "hold_ms c = of_nat (rc_hold_s c * 1000)" by (simp add: hold_ms_def)
    then show ?thesis using assms(1) by (simp add: like_cfg_def del: of_nat_mult)
  qed
  have q': "q' \<le> t" using since by (simp add: q'_def)
  have "(of_nat t - of_nat q' :: u32) \<ge> hold_ms c \<longleftrightarrow> rc_hold_s c * 1000 \<le> t - q'"
    using q' since(3) by (simp add: u32_diff word_le_nat_alt hold del: of_nat_diff)
  then show "st_cond_since s' = of_nat q'" "st_active s' \<longleftrightarrow> st_active s \<or> rc_hold_s c * 1000 \<le> t - q'"
    by (auto simp: s'_def s0 level_def Let_def z q'_def)
qed

lemma like_run:
  assumes c: "like_cfg c"
  shows "times_ok xs \<Longrightarrow>
    (let s' = snd (region_run c (region_reset s) (timed xs)); tr = streak c xs in
      st_cond_since s' = (if tr = [] then 0 else of_nat (snd (last tr))) \<and>
      (st_active s' \<longleftrightarrow> tr \<noteq> [] \<and> rc_hold_s c * 1000 \<le> snd (last xs) - snd (last tr)))"
proof (induction xs rule: rev_induct)
  case Nil
  then show ?case by (simp add: streak_def timed_def region_reset_def)
next
  case (snoc x xs)
  obtain l t where x: "x = (l, t)" by fastforce
  define s1 where "s1 = snd (region_run c (region_reset s) (timed xs))"
  have ok: "times_ok xs" and t: "0 < t" "t < 2 ^ 32" and lt: "\<forall>u \<in> set (map snd xs). u < t"
    using snoc.prems by (auto simp: times_ok_def x sorted_wrt_append)
  have run: "snd (region_run c (region_reset s) (timed (xs @ [x]))) = snd (region_step c s1 l (of_nat t))"
    by (simp add: timed_def x s1_def region_run_snoc)
  show ?case
  proof (cases "like_holds c l")
    case False
    then have "streak c (xs @ [x]) = []" by (simp add: streak_def x)
    moreover obtain s0 where "region_step c s1 l (of_nat t) = level c s0 False (of_nat t)"
      using step_like_level [OF c, of s1 l "of_nat t"] False by auto
    ultimately show ?thesis by (simp add: run level_def)
  next
    case True
    define tr where "tr = streak c xs"
    have tr': "streak c (xs @ [x]) = x # tr" using True by (simp add: streak_def x tr_def)
    define q where "q = (if tr = [] then 0 else snd (last tr))"
    have mem: "last tr \<in> set xs" if "tr \<noteq> []"
      using that last_in_set [OF that] set_takeWhileD [of "last tr" "\<lambda>x. like_holds c (fst x)" "rev xs"]
      by (auto simp: tr_def streak_def)
    have qt: "q \<le> t" and q0: "q = 0 \<longleftrightarrow> tr = []"
      using mem lt ok by (force simp: q_def times_ok_def)+
    have IH: "st_cond_since s1 = of_nat q"
      "st_active s1 \<longleftrightarrow> tr \<noteq> [] \<and> rc_hold_s c * 1000 \<le> snd (last xs) - snd (last tr)"
      using snoc.IH [OF ok] by (auto simp: Let_def s1_def [symmetric] tr_def [symmetric] q_def)
    note lv = level_like [OF c IH(1) qt t(2) True t(1)]
    have "tr \<noteq> [] \<Longrightarrow> snd (last xs) \<le> t"
    proof -
      assume "tr \<noteq> []"
      then have "xs \<noteq> []" by (auto simp: tr_def streak_def)
      then show ?thesis using lt by (simp add: less_imp_le)
    qed
    then show ?thesis
      unfolding run tr' Let_def
      using lv IH(2) q0 by (auto simp: x q_def split: if_splits)
  qed
qed

text \<open>
  What "like" and "unlike" mean over time: fed with looks at increasing times, a region with a
  remembered picture is active after the last look exactly when the condition held on every look of
  a stretch that ends there and is at least \<open>hold\<close> seconds long.
\<close>

theorem region_like_active:
  assumes "like_cfg c" and "times_ok xs"
  shows "st_active (snd (region_run c (region_reset s) (timed xs))) \<longleftrightarrow>
    streak c xs \<noteq> [] \<and> rc_hold_s c * 1000 \<le> snd (last xs) - snd (last (streak c xs))"
  using like_run [OF assms, of s] by (simp add: Let_def)

definition demo_cfg :: "region_mode \<Rightarrow> region_cfg" where
  "demo_cfg m = \<lparr>rc_mode = m, rc_threshold = 10, rc_hold_s = 1, rc_colour = Col_Any, rc_has_ref = True,
                 rc_ref = replicate 256 0\<rparr>"

definition demo_look :: "nat \<Rightarrow> region_look" where
  "demo_look v = \<lparr>lk_sig = replicate 256 v, lk_rgb = (v, v, v), lk_colour = Col_Black, lk_colour_pct = 100\<rparr>"

definition demo_state :: region_state where
  "demo_state = region_reset \<lparr>st_have_base = False, st_base = [], st_base_colour = Col_Any, st_cond_since = 0,
     st_moved = 0, st_settling = False, st_active = False, st_active_since = 0, st_pulse_until = 0,
     st_diff = 0, st_colour = Col_Any, st_colour_pct = 0, st_rgb = (0, 0, 0), st_events = 0\<rparr>"

lemma region_diff_flat:
  "region_diff (replicate 256 v) (replicate 256 w) = (if int v - int w > 16 \<or> int v - int w < -16 then 100 else 0)"
  by (simp add: region_diff_def zip_replicate filter_replicate)

theorem region_like_active_witness:
  "st_active (snd (region_run (demo_cfg Mode_Like) (region_reset demo_state)
     (timed [(demo_look 200, 1000), (demo_look 0, 2000), (demo_look 5, 2600), (demo_look 0, 3200)])))"
proof -
  let ?xs = "[(demo_look 200, 1000), (demo_look 0, 2000), (demo_look 5, 2600), (demo_look 0, 3200)]"
  have c: "like_cfg (demo_cfg Mode_Like)" and t: "times_ok ?xs"
    by (simp_all add: like_cfg_def demo_cfg_def times_ok_def)
  have "streak (demo_cfg Mode_Like) ?xs = [(demo_look 0, 3200), (demo_look 5, 2600), (demo_look 0, 2000)]"
    by (simp add: streak_def like_holds_def demo_cfg_def demo_look_def threshold_def region_diff_flat)
  then show ?thesis using region_like_active [OF c t, of demo_state] by (simp add: demo_cfg_def)
qed

text \<open>Looks that all differ from the look before them.\<close>

fun still_moving :: "region_cfg \<Rightarrow> region_look \<Rightarrow> (region_look \<times> u32) list \<Rightarrow> bool" where
  "still_moving c prev [] = True"
| "still_moving c prev ((look, _) # xs) =
     (region_diff (lk_sig look) (lk_sig prev) \<ge> threshold c \<and> still_moving c look xs)"

lemma change_settling:
  assumes "rc_mode c = Mode_Change" and "st_have_base s" and "st_settling s"
  shows "\<not> fst (region_step c s l t)" and "st_have_base (snd (region_step c s l t))"
    and "st_base (snd (region_step c s l t)) = lk_sig l"
    and "st_settling (snd (region_step c s l t)) \<longleftrightarrow> region_diff (lk_sig l) (st_base s) \<ge> threshold c"
  using assms by (auto simp: region_step_def step_change_def Let_def pulse_fields pulse_off)

lemma settling_run:
  "rc_mode c = Mode_Change \<Longrightarrow> st_have_base s \<Longrightarrow> st_settling s \<Longrightarrow> st_base s = lk_sig prev \<Longrightarrow>
   still_moving c prev xs \<Longrightarrow> True \<notin> set (fst (region_run c s xs))"
proof (induction xs arbitrary: s prev)
  case (Cons x xs)
  obtain l t where x: "x = (l, t)" by fastforce
  note st = change_settling [OF Cons.prems(1-3), of l t]
  have "True \<notin> set (fst (region_run c (snd (region_step c s l t)) xs))"
    by (rule Cons.IH) (use Cons.prems st in \<open>auto simp: x\<close>)
  then show ?case using st(1) by (auto simp: x split: prod.splits)
qed simp

text \<open>
  C6. One change, one event: in change mode an event starts a settling in which no further event is
  reported while every look differs from the look before it - an animation that runs over several
  looks counts once - and the picture to compare with is the newest one.
\<close>

theorem region_change_one_event:
  assumes "rc_mode c = Mode_Change" and "fst (region_step c s look now)" and "still_moving c look xs"
  shows "True \<notin> set (fst (region_run c (snd (region_step c s look now)) xs))"
proof (rule settling_run [OF assms(1) _ _ _ assms(3)])
  have h: "st_have_base s"
    using assms(1,2) by (rule_tac ccontr) (simp add: region_step_def needs_base_def Let_def)
  have "\<not> st_settling s" using change_settling(1) [OF assms(1) h] assms(2) by blast
  with h show "st_have_base (snd (region_step c s look now))" "st_settling (snd (region_step c s look now))"
    "st_base (snd (region_step c s look now)) = lk_sig look"
    using assms(1,2) by (auto simp: region_step_def step_change_def Let_def pulse_fields case_prod_beta)
qed

theorem region_change_one_event_witness:
  "let c = demo_cfg Mode_Change\<lparr>rc_hold_s := 0\<rparr>;
       s = snd (region_step c demo_state (demo_look 0) 1000)
   in fst (region_step c s (demo_look 100) 1200) \<and>
      True \<notin> set (fst (region_run c (snd (region_step c s (demo_look 100) 1200))
                   [(demo_look 150, 1400), (demo_look 200, 1600)]))"
proof -
  let ?c = "demo_cfg Mode_Change\<lparr>rc_hold_s := 0\<rparr>"
  let ?s = "snd (region_step ?c demo_state (demo_look 0) 1000)"
  have m: "rc_mode ?c = Mode_Change" by (simp add: demo_cfg_def)
  have e: "fst (region_step ?c ?s (demo_look 100) 1200)"
    by (simp add: region_step_def needs_base_def step_change_def pulse_def Let_def demo_cfg_def demo_look_def
        demo_state_def region_reset_def threshold_def hold_ms_def region_diff_flat)
  have "still_moving ?c (demo_look 100) [(demo_look 150, 1400), (demo_look 200, 1600)]"
    by (simp add: demo_cfg_def demo_look_def threshold_def region_diff_flat)
  from region_change_one_event [OF m e this] e show ?thesis by (simp add: Let_def)
qed

theorem region_step_events_witness:
  "let c = demo_cfg Mode_Like;
       s = snd (region_step c demo_state (demo_look 0) 1000);
       s' = snd (region_step c s (demo_look 0) 2000)
   in \<not> st_active s \<and> st_active s' \<and> st_events s' = st_events s + 1"
proof -
  let ?c = "demo_cfg Mode_Like"
  let ?s = "snd (region_step ?c demo_state (demo_look 0) 1000)"
  note defs = region_step_def needs_base_def step_like_def level_def Let_def demo_cfg_def demo_look_def
    demo_state_def region_reset_def threshold_def hold_ms_def region_diff_flat
  have "fst (region_step ?c ?s (demo_look 0) 2000)" by (simp add: defs)
  moreover have "rc_mode ?c = Mode_Like" by (simp add: demo_cfg_def)
  ultimately show ?thesis
    using region_step_events [where c = ?c and s = ?s and look = "demo_look 0" and now = 2000] by (simp add: Let_def case_prod_beta)
qed

end
