(* ===== verification/Runbook.thy ===== *)
theory Runbook
  imports Prelude
begin

text \<open>
  components/kvm_runbook/runbook_script.c: the parser of runbooks. A script is our own line language
  (key, type, delay, ... wait, gone) or DuckyScript, which is translated line by line to our own
  language and then parsed as that.

  Strings are C strings: lists of characters none of which is the terminating zero. An error is
  \<open>Inl (line, message)\<close>, what \<open>fail\<close> is called with; \<open>fail_text\<close> is the text it leaves in a
  buffer. On a failure the contents of the output script are not part of the model: the callers
  look at it only after success. Whether \<open>malloc\<close> succeeds is the parameter \<open>mem\<close>. The fixed
  buffers are modelled by their truncations, except the chord buffer of \<open>ducky_line\<close>: a theorem
  shows that it is never full.
\<close>

section \<open>Data\<close>

datatype rb_kind = RB_KEY | RB_TYPE | RB_DELAY | RB_TIMEOUT | RB_WAIT | RB_GONE | RB_RECORD
  | RB_RECORD_STOP | RB_SCREENSHOT | RB_TIMELAPSE | RB_HDMI

record rb_step =
  rs_kind :: rb_kind
  rs_line :: u16
  rs_mod :: u8
  rs_code :: u8
  rs_value :: u32
  rs_every :: u16
  rs_arg :: string

type_synonym rb_err = "u16 \<times> string"

definition fail_text :: "nat \<Rightarrow> rb_err \<Rightarrow> string" where
  "fail_text cap e = take (cap - 1) (''line '' @ show_nat (unat (fst e)) @ '': '' @ snd e)"

definition k_modifiers :: "(string \<times> u8) list" where
  "k_modifiers = [(''ctrl'', 1), (''control'', 1), (''shift'', 2), (''alt'', 4), (''option'', 4),
     (''gui'', 8), (''win'', 8), (''cmd'', 8), (''super'', 8), (''meta'', 8)]"

definition k_keys :: "(string \<times> u8) list" where
  "k_keys = [(''enter'', 0x28), (''return'', 0x28), (''esc'', 0x29), (''escape'', 0x29),
     (''backspace'', 0x2a), (''tab'', 0x2b), (''space'', 0x2c), (''minus'', 0x2d),
     (''equal'', 0x2e), (''capslock'', 0x39), (''printscreen'', 0x46), (''prtsc'', 0x46),
     (''sysrq'', 0x46), (''scrolllock'', 0x47), (''pause'', 0x48), (''insert'', 0x49),
     (''ins'', 0x49), (''home'', 0x4a), (''pageup'', 0x4b), (''pgup'', 0x4b),
     (''delete'', 0x4c), (''del'', 0x4c), (''end'', 0x4d), (''pagedown'', 0x4e),
     (''pgdn'', 0x4e), (''right'', 0x4f), (''left'', 0x50), (''down'', 0x51), (''up'', 0x52)]"

definition lookup :: "(string \<times> 'a) list \<Rightarrow> string \<Rightarrow> 'a option" where
  "lookup table name = map_of table name"

definition char_in :: "nat \<Rightarrow> nat \<Rightarrow> char \<Rightarrow> bool" where
  "char_in lo hi c \<longleftrightarrow> lo \<le> (of_char c :: nat) \<and> (of_char c :: nat) \<le> hi"

definition f_number :: "string \<Rightarrow> int option" where
  "f_number s = (let (f, rest) = strtol s in if rest = [] \<and> 1 \<le> f \<and> f \<le> 12 then Some f else None)"

definition key_usage :: "string \<Rightarrow> u8 option" where
  "key_usage name =
     (if length name = 1 \<and> char_in 97 122 (hd name) then Some (of_nat (0x04 + (of_char (hd name) - 97)))
      else if length name = 1 \<and> char_in 49 57 (hd name) then Some (of_nat (0x1e + (of_char (hd name) - 49)))
      else if length name = 1 \<and> hd name = CHR ''0'' then Some 0x27
      else
        case (if 2 \<le> length name \<and> length name \<le> 3 \<and> hd name = CHR ''f'' then f_number (tl name) else None) of
          Some f \<Rightarrow> Some (of_int (0x3a + (f - 1)))
        | None \<Rightarrow> lookup k_keys name)"

section \<open>Typing\<close>

fun strchr :: "string \<Rightarrow> char \<Rightarrow> nat option" where
  "strchr [] c = None"
| "strchr (x # xs) c = (if x = c then Some 0 else map_option Suc (strchr xs c))"

definition k_plain :: string where
  "k_plain = [CHR ''0'', CHR '' '', CHR 0x0A, CHR 0x09, CHR ''-'', CHR ''='', CHR ''['', CHR '']'',
     CHR 0x5C, CHR '';'', CHR 0x27, CHR 0x60, CHR '','', CHR ''.'', CHR ''/'']"

definition k_plain_usage :: "u8 list" where
  "k_plain_usage = [0x27, 0x2C, 0x28, 0x2B, 0x2D, 0x2E, 0x2F, 0x30, 0x31, 0x33, 0x34, 0x35, 0x36, 0x37, 0x38]"

definition k_shifted :: string where
  "k_shifted = [CHR ''_'', CHR ''+'', CHR ''{'', CHR ''}'', CHR ''|'', CHR '':'', CHR 0x22, CHR ''~'',
     CHR ''<'', CHR ''>'', CHR ''?'', CHR ''!'', CHR ''@'', CHR ''#'', CHR ''$'', CHR ''%'', CHR ''^'',
     CHR ''&'', CHR ''*'', CHR ''('', CHR '')'']"

definition k_shifted_usage :: "u8 list" where
  "k_shifted_usage = [0x2D, 0x2E, 0x2F, 0x30, 0x31, 0x33, 0x34, 0x35, 0x36, 0x37, 0x38, 0x1E, 0x1F,
     0x20, 0x21, 0x22, 0x23, 0x24, 0x25, 0x26, 0x27]"

definition rb_ascii_usage :: "char \<Rightarrow> (u8 \<times> bool) option" where
  "rb_ascii_usage c =
     (if char_in 97 122 c then Some (of_nat (0x04 + (of_char c - 97)), False)
      else if char_in 65 90 c then Some (of_nat (0x04 + (of_char c - 65)), True)
      else if char_in 49 57 c then Some (of_nat (0x1E + (of_char c - 49)), False)
      else case (if c = CHR 0x00 then None else strchr k_plain c) of
        Some i \<Rightarrow> Some (k_plain_usage ! i, False)
      | None \<Rightarrow>
          (case (if c = CHR 0x00 then None else strchr k_shifted c) of
             Some i \<Rightarrow> Some (k_shifted_usage ! i, True)
           | None \<Rightarrow> None))"

definition rb_kind_name :: "rb_kind \<Rightarrow> string" where
  "rb_kind_name k = (case k of RB_KEY \<Rightarrow> ''key'' | RB_TYPE \<Rightarrow> ''type'' | RB_DELAY \<Rightarrow> ''delay''
     | RB_TIMEOUT \<Rightarrow> ''timeout'' | RB_WAIT \<Rightarrow> ''wait'' | RB_GONE \<Rightarrow> ''gone'' | RB_RECORD \<Rightarrow> ''record''
     | RB_RECORD_STOP \<Rightarrow> ''record stop'' | RB_SCREENSHOT \<Rightarrow> ''screenshot''
     | RB_TIMELAPSE \<Rightarrow> ''timelapse'' | RB_HDMI \<Rightarrow> ''hdmi'')"

section \<open>Lines\<close>

definition is_blank :: "char \<Rightarrow> bool" where
  "is_blank c \<longleftrightarrow> c = CHR '' '' \<or> c = CHR 0x09"

definition is_blank_cr :: "char \<Rightarrow> bool" where
  "is_blank_cr c \<longleftrightarrow> is_blank c \<or> c = CHR 0x0D"

definition trim_by :: "(char \<Rightarrow> bool) \<Rightarrow> string \<Rightarrow> string" where
  "trim_by p s = rev (dropWhile p (rev (dropWhile p s)))"

text \<open>The lines of a text, as the loop \<open>while (*p)\<close> cuts them: a last line may have no newline.\<close>

definition line_of :: "string \<Rightarrow> string" where
  "line_of p = takeWhile (\<lambda>c. c \<noteq> CHR 0x0A) p"

definition after_line :: "string \<Rightarrow> string" where
  "after_line p = tl (dropWhile (\<lambda>c. c \<noteq> CHR 0x0A) p)"

lemma after_line_shorter [termination_simp]: "length (after_line (c # p)) < Suc (length p)"
  using length_dropWhile_le [of "\<lambda>c. c \<noteq> CHR 0x0A" "c # p"]
  by (auto simp: after_line_def intro: le_less_trans [OF diff_le_self])

fun c_lines :: "string \<Rightarrow> string list" where
  "c_lines [] = []"
| "c_lines (c # p) = line_of (c # p) # c_lines (after_line (c # p))"

fun split_plus :: "string \<Rightarrow> string list" where
  "split_plus [] = [[]]"
| "split_plus (c # s) =
     (if c = CHR ''+'' then [] # split_plus s
      else case split_plus s of t # ts \<Rightarrow> (c # t) # ts | [] \<Rightarrow> [[c]])"

section \<open>Our own language\<close>

fun combo_tokens :: "u16 \<Rightarrow> string list \<Rightarrow> u8 \<Rightarrow> u8 \<Rightarrow> rb_err + u8 \<times> u8" where
  "combo_tokens no [] m code = Inr (m, code)"
| "combo_tokens no (t # ts) m code =
     (let tok = map c_tolower (trim_by is_blank t) in
      if tok = [] then combo_tokens no ts m code
      else case lookup k_modifiers tok of
        Some v \<Rightarrow> combo_tokens no ts (m OR v) code
      | None \<Rightarrow>
          (case key_usage tok of
             Some v \<Rightarrow> if code \<noteq> 0 then Inl (no, ''more than one non-modifier key in the chord'')
                       else combo_tokens no ts m v
           | None \<Rightarrow> Inl (no, ''unknown key '' @ [CHR 0x22] @ tok @ [CHR 0x22])))"

definition parse_combo :: "u16 \<Rightarrow> string \<Rightarrow> rb_err + u8 \<times> u8" where
  "parse_combo no combo =
     (if length combo \<ge> 64 then Inl (no, ''that chord is too long'')
      else case combo_tokens no (split_plus combo) 0 0 of
        Inl e \<Rightarrow> Inl e
      | Inr (m, code) \<Rightarrow> if code = 0 \<and> m = 0 then Inl (no, ''no key in the chord'') else Inr (m, code))"

definition parse_number :: "string \<Rightarrow> int \<Rightarrow> int \<Rightarrow> u32 option" where
  "parse_number s lo hi =
     (if s = [] then None
      else let (v, rest) = strtol s in if rest \<noteq> [] \<or> v < lo \<or> v > hi then None else Some (of_int v))"

definition blank_step :: "u16 \<Rightarrow> string \<Rightarrow> rb_kind \<Rightarrow> rb_step" where
  "blank_step no arg kind =
     \<lparr>rs_kind = kind, rs_line = no, rs_mod = 0, rs_code = 0, rs_value = 0, rs_every = 0, rs_arg = arg\<rparr>"

definition bad_char :: "char \<Rightarrow> string" where
  "bad_char c = ''cannot type '' @ [CHR 0x22, if (of_char c :: nat) < 0x80 then c else CHR ''?'', CHR 0x22]
     @ '' - US layout, ASCII only''"

definition step_key :: "u16 \<Rightarrow> string \<Rightarrow> rb_err + rb_step" where
  "step_key no arg =
     (case parse_combo no arg of
        Inl e \<Rightarrow> Inl e
      | Inr (m, code) \<Rightarrow> Inr ((blank_step no arg RB_KEY)\<lparr>rs_mod := m, rs_code := code\<rparr>))"

definition step_type :: "u16 \<Rightarrow> string \<Rightarrow> rb_err + rb_step" where
  "step_type no arg =
     (if arg = [] then Inl (no, ''nothing to type'')
      else case find (\<lambda>c. rb_ascii_usage c = None) arg of
        Some c \<Rightarrow> Inl (no, bad_char c)
      | None \<Rightarrow> Inr (blank_step no arg RB_TYPE))"

definition step_number :: "u16 \<Rightarrow> string \<Rightarrow> rb_kind \<Rightarrow> int \<Rightarrow> string \<Rightarrow> rb_err + rb_step" where
  "step_number no arg kind hi msg =
     (case parse_number arg 1 hi of
        Some v \<Rightarrow> Inr ((blank_step no arg kind)\<lparr>rs_value := v\<rparr>)
      | None \<Rightarrow> Inl (no, msg))"

definition step_record :: "u16 \<Rightarrow> string \<Rightarrow> rb_err + rb_step" where
  "step_record no arg =
     (if arg = [] then Inr (blank_step no arg RB_RECORD)
      else if arg = ''stop'' then Inr (blank_step no arg RB_RECORD_STOP)
      else step_number no arg RB_RECORD 86400
             (''record wants nothing, '' @ [CHR 0x22] @ ''stop'' @ [CHR 0x22] @ '' or 1..86400 seconds''))"

definition step_timelapse :: "u16 \<Rightarrow> string \<Rightarrow> rb_err + rb_step" where
  "step_timelapse no arg =
     (let f = takeWhile (\<lambda>c. c \<noteq> CHR '' '') arg;
          len = tl (dropWhile (\<lambda>c. c \<noteq> CHR '' '') arg);
          f' = (if length f \<ge> 16 then [] else f);
          err = Inl (no, ''timelapse wants 1..3600 seconds between frames, then how long it runs'')
      in case parse_number f' 1 3600 of
           None \<Rightarrow> err
         | Some every \<Rightarrow>
             (case (if len = [] then Some 0 else parse_number len 1 604800) of
                None \<Rightarrow> err
              | Some v \<Rightarrow> Inr ((blank_step no arg RB_TIMELAPSE)\<lparr>rs_value := v, rs_every := ucast every\<rparr>)))"

definition step_hdmi :: "u16 \<Rightarrow> string \<Rightarrow> rb_err + rb_step" where
  "step_hdmi no arg0 =
     (let arg = map c_tolower arg0; key = (take 4 arg = ''key '' \<and> length arg > 4)
      in if arg \<noteq> ''standby'' \<and> arg \<noteq> ''wake'' \<and> \<not> key
         then Inl (no, ''hdmi wants standby, wake or key <name>'')
         else Inr (blank_step no arg RB_HDMI))"

definition step_phrase :: "u16 \<Rightarrow> string \<Rightarrow> rb_kind \<Rightarrow> rb_err + rb_step" where
  "step_phrase no arg kind =
     (let area = (length arg > 5 \<and> c_strcaseeq (take 5 arg) ''area '')
      in if arg = [] then Inl (no, ''which phrase?'')
         else if length arg \<ge> 64 then Inl (no, ''a phrase is at most 63 characters'')
         else if \<not> area \<and> list_ex (\<lambda>c. (of_char c :: nat) \<ge> 0x80) arg
         then Inl (no, ''a phrase is ASCII only - that is all the screen reader knows'')
         else Inr (blank_step no arg kind))"

definition parse_verb :: "u16 \<Rightarrow> string \<Rightarrow> string \<Rightarrow> rb_err + rb_step" where
  "parse_verb no verb arg =
     (if verb = ''key'' then step_key no arg
      else if verb = ''type'' then step_type no arg
      else if verb = ''delay'' then step_number no arg RB_DELAY 60000 ''delay wants 1..60000 milliseconds''
      else if verb = ''timeout'' then step_number no arg RB_TIMEOUT 3600 ''timeout wants 1..3600 seconds''
      else if verb = ''record'' then step_record no arg
      else if verb = ''timelapse'' then step_timelapse no arg
      else if verb = ''screenshot''
      then (if arg \<noteq> [] then Inl (no, ''screenshot takes nothing after it'')
            else Inr (blank_step no arg RB_SCREENSHOT))
      else if verb = ''hdmi'' then step_hdmi no arg
      else if verb = ''wait'' then step_phrase no arg RB_WAIT
      else if verb = ''gone'' then step_phrase no arg RB_GONE
      else Inl (no, ''unknown command '' @ [CHR 0x22] @ verb @ [CHR 0x22]))"

definition parse_line :: "u16 \<Rightarrow> string \<Rightarrow> rb_err + rb_step" where
  "parse_line no line =
     (if length line \<ge> 168 then Inl (no, ''that line is too long'')
      else let word = takeWhile (\<lambda>c. \<not> is_blank c) line;
               arg = dropWhile is_blank (drop (length word) line)
           in if length word > 11 then Inl (no, ''unknown command'')
              else if length arg \<ge> 160 then Inl (no, ''that line is too long'')
              else parse_verb no (map c_tolower word) arg)"

fun parse_lines :: "u16 \<Rightarrow> string list \<Rightarrow> rb_step list \<Rightarrow> rb_err + rb_step list" where
  "parse_lines no [] steps = Inr steps"
| "parse_lines no (l # ls) steps =
     (let no' = no + 1; line = trim_by is_blank_cr l in
      if line = [] \<or> hd line = CHR ''#'' then parse_lines no' ls steps
      else if length steps \<ge> 64 then Inl (no', ''more than 64 steps'')
      else case parse_line no' line of
        Inl e \<Rightarrow> Inl e
      | Inr s \<Rightarrow> parse_lines no' ls (steps @ [s]))"

definition parse_native :: "string \<Rightarrow> rb_err + rb_step list" where
  "parse_native src =
     (case parse_lines 0 (c_lines src) [] of
        Inl e \<Rightarrow> Inl e
      | Inr steps \<Rightarrow> if steps = [] then Inl (1, ''the runbook has no steps'') else Inr steps)"

section \<open>DuckyScript\<close>

definition k_ducky_mods :: "(string \<times> string) list" where
  "k_ducky_mods = [(''CTRL'', ''ctrl''), (''CONTROL'', ''ctrl''), (''SHIFT'', ''shift''), (''ALT'', ''alt''),
     (''GUI'', ''gui''), (''WINDOWS'', ''gui''), (''COMMAND'', ''gui'')]"

definition k_ducky_keys :: "(string \<times> string) list" where
  "k_ducky_keys = [(''ENTER'', ''enter''), (''ESCAPE'', ''esc''), (''ESC'', ''esc''),
     (''TAB'', ''tab''), (''SPACE'', ''space''), (''BACKSPACE'', ''backspace''),
     (''DELETE'', ''delete''), (''DEL'', ''delete''), (''INSERT'', ''insert''),
     (''HOME'', ''home''), (''END'', ''end''), (''PAGEUP'', ''pageup''),
     (''PAGEDOWN'', ''pagedown''), (''UP'', ''up''), (''UPARROW'', ''up''),
     (''DOWN'', ''down''), (''DOWNARROW'', ''down''), (''LEFT'', ''left''),
     (''LEFTARROW'', ''left''), (''RIGHT'', ''right''), (''RIGHTARROW'', ''right''),
     (''CAPSLOCK'', ''capslock''), (''SCROLLLOCK'', ''scrolllock''),
     (''PRINTSCREEN'', ''printscreen''), (''PAUSE'', ''pause''), (''BREAK'', ''pause'')]"

definition ducky_mod :: "string \<Rightarrow> string option" where
  "ducky_mod w = lookup k_ducky_mods w"

definition ducky_key :: "string \<Rightarrow> string option" where
  "ducky_key w =
     (if length w = 1 \<and> (char_in 65 90 (hd w) \<or> char_in 97 122 (hd w) \<or> c_isdigit (hd w))
      then Some [c_tolower (hd w)]
      else
        case (if (length w = 2 \<or> length w = 3) \<and> (hd w = CHR ''F'' \<or> hd w = CHR ''f'')
              then f_number (tl w) else None) of
          Some f \<Rightarrow> Some (CHR ''f'' # show_nat (nat f))
        | None \<Rightarrow> lookup k_ducky_keys w)"

text \<open>\<open>first_word\<close> with the capacity of the word's buffer: the word cut to fit, and the rest.\<close>

definition first_word :: "nat \<Rightarrow> string \<Rightarrow> string \<times> string" where
  "first_word cap line =
     (let w = takeWhile (\<lambda>c. \<not> is_blank c) line
      in (take (cap - 1) w, dropWhile is_blank (drop (length w) line)))"

definition is_ducky_command :: "string \<Rightarrow> bool" where
  "is_ducky_command w \<longleftrightarrow>
     w \<in> set [''REM'', ''STRING'', ''STRINGLN'', ''DELAY'', ''DEFAULT_DELAY'', ''DEFAULTDELAY'', ''REPEAT'']"

definition ducky_first :: "string \<Rightarrow> bool" where
  "ducky_first line =
     (let w = fst (first_word 16 (take 63 line))
      in is_ducky_command w \<or> ducky_mod w \<noteq> None \<or> lookup k_ducky_keys w \<noteq> None \<or>
         (w \<noteq> [] \<and> hd w = CHR ''F'' \<and> ducky_key w \<noteq> None))"

fun is_ducky_lines :: "string list \<Rightarrow> bool" where
  "is_ducky_lines [] = False"
| "is_ducky_lines (l # ls) =
     (let line = dropWhile is_blank_cr l in if line = [] then is_ducky_lines ls else ducky_first line)"

definition is_ducky :: "string \<Rightarrow> bool" where
  "is_ducky src = is_ducky_lines (c_lines src)"

text \<open>The growing buffer: its capacity, its text, the overflow flag.\<close>

record sink =
  sk_cap :: nat
  sk_text :: string
  sk_ovf :: bool

definition emit :: "string \<Rightarrow> sink \<Rightarrow> sink" where
  "emit line s =
     (if length (sk_text s) + length line + 2 > sk_cap s then s\<lparr>sk_ovf := True\<rparr>
      else s\<lparr>sk_text := sk_text s @ line @ [CHR 0x0A]\<rparr>)"

definition emit_delay :: "u32 \<Rightarrow> sink \<Rightarrow> sink" where
  "emit_delay ms s = emit (''delay '' @ show_nat (unat ms)) s"

definition emit_def_delay :: "u32 \<Rightarrow> sink \<Rightarrow> sink" where
  "emit_def_delay ms s = (if ms \<noteq> 0 then emit_delay ms s else s)"

text \<open>The words of a line, and the loop over them: the chord so far and the key.\<close>

lemma dropWhile_shorter [termination_simp]: "length (dropWhile P xs) < Suc (length xs)"
  by (simp add: less_Suc_eq_le length_dropWhile_le)

fun words :: "string \<Rightarrow> string list" where
  "words [] = []"
| "words (c # s) =
     (if is_blank c then words s
      else takeWhile (\<lambda>c. \<not> is_blank c) (c # s) # words (dropWhile (\<lambda>c. \<not> is_blank c) s))"

fun ducky_words :: "u16 \<Rightarrow> string list \<Rightarrow> string \<Rightarrow> string \<Rightarrow> rb_err + string \<times> string" where
  "ducky_words no [] chord key = Inr (chord, key)"
| "ducky_words no (tok # ts) chord key =
     (case ducky_mod tok of
        Some m \<Rightarrow> ducky_words no ts (chord @ (if chord = [] then [] else ''+'') @ m) key
      | None \<Rightarrow>
          if key \<noteq> [] then Inl (no, ''more than one key in the line'')
          else (case ducky_key tok of
                  None \<Rightarrow> Inl (no, ''unknown key '' @ [CHR 0x22] @ take 60 tok @ [CHR 0x22])
                | Some k \<Rightarrow> ducky_words no ts chord k))"

definition ducky_chord :: "u16 \<Rightarrow> string \<Rightarrow> rb_err + string" where
  "ducky_chord no line =
     (case ducky_words no (words (take 95 line)) [] [] of
        Inl e \<Rightarrow> Inl e
      | Inr (chord, key) \<Rightarrow>
          if key \<noteq> [] then Inr (''key '' @ chord @ (if chord = [] then [] else ''+'') @ key)
          else if chord \<noteq> [] then Inr (''key '' @ chord)
          else Inl (no, ''empty line reached the key handler''))"

definition ducky_line :: "u16 \<Rightarrow> string \<Rightarrow> u32 \<Rightarrow> sink \<Rightarrow> rb_err + sink" where
  "ducky_line no line def_delay s =
     (let (verb, rest) = first_word 16 line in
      if verb = ''REM'' \<or> verb = ''DEFAULT_DELAY'' \<or> verb = ''DEFAULTDELAY'' then Inr s
      else if verb = ''STRING'' \<or> verb = ''STRINGLN'' then
        (if list_ex (\<lambda>c. \<not> char_in 0x20 0x7e c) rest then Inl (no, ''STRING is US layout, ASCII only'')
         else let s1 = (if rest \<noteq> [] then emit (take 167 (''type '' @ rest)) s else s);
                  s2 = (if verb = ''STRINGLN'' then emit ''key enter'' s1 else s1)
              in Inr (emit_def_delay def_delay s2))
      else if verb = ''DELAY'' then
        (case parse_number rest 1 60000 of
           None \<Rightarrow> Inl (no, ''DELAY wants 1..60000 milliseconds'')
         | Some ms \<Rightarrow> Inr (emit_delay ms s))
      else case ducky_chord no line of
        Inl e \<Rightarrow> Inl e
      | Inr out \<Rightarrow> Inr (emit_def_delay def_delay (emit out s)))"

fun ducky_repeat :: "nat \<Rightarrow> u16 \<Rightarrow> string \<Rightarrow> u32 \<Rightarrow> sink \<Rightarrow> rb_err + sink" where
  "ducky_repeat 0 no line def_delay s = Inr s"
| "ducky_repeat (Suc n) no line def_delay s =
     (case ducky_line no line def_delay s of Inl e \<Rightarrow> Inl e | Inr s1 \<Rightarrow> ducky_repeat n no line def_delay s1)"

fun ducky_lines :: "u16 \<Rightarrow> string list \<Rightarrow> u32 \<Rightarrow> string \<Rightarrow> sink \<Rightarrow> rb_err + sink" where
  "ducky_lines no [] def_delay prev s = Inr s"
| "ducky_lines no (x # xs) def_delay prev s =
     (let no' = no + 1; l = trim_by is_blank_cr (take 175 x); (verb, rest) = first_word 16 l in
      if l = [] \<or> verb = ''REM'' then ducky_lines no' xs def_delay prev s
      else if verb = ''DEFAULT_DELAY'' \<or> verb = ''DEFAULTDELAY'' then
        (case parse_number rest 0 60000 of
           None \<Rightarrow> Inl (no', ''DEFAULT_DELAY wants 0..60000 milliseconds'')
         | Some d \<Rightarrow> ducky_lines no' xs d prev s)
      else if verb = ''REPEAT'' then
        (case parse_number rest 1 1000 of
           None \<Rightarrow> Inl (no', ''REPEAT wants 1..1000'')
         | Some n \<Rightarrow>
             if prev = [] then Inl (no', ''REPEAT with nothing before it'')
             else (case ducky_repeat (unat n) no' prev def_delay s of
                     Inl e \<Rightarrow> Inl e
                   | Inr s1 \<Rightarrow> ducky_lines no' xs def_delay prev s1))
      else case ducky_line no' l def_delay s of
        Inl e \<Rightarrow> Inl e
      | Inr s1 \<Rightarrow> ducky_lines no' xs def_delay l s1)"

definition ducky_to_native :: "bool \<Rightarrow> string \<Rightarrow> rb_err + string" where
  "ducky_to_native mem src =
     (if \<not> mem then Inl (0, ''out of memory'')
      else case ducky_lines 0 (c_lines src) 0 [] \<lparr>sk_cap = length src * 3 + 256, sk_text = [], sk_ovf = False\<rparr> of
        Inl e \<Rightarrow> Inl e
      | Inr s \<Rightarrow> if sk_ovf s then Inl (0, ''the script is too long once expanded'') else Inr (sk_text s))"

definition rb_parse :: "bool \<Rightarrow> string \<Rightarrow> rb_err + rb_step list" where
  "rb_parse mem src =
     (if is_ducky src
      then case ducky_to_native mem src of Inl e \<Rightarrow> Inl e | Inr native \<Rightarrow> parse_native native
      else parse_native src)"

section \<open>A parsed script is well formed\<close>

definition step_ok :: "rb_step \<Rightarrow> bool" where
  "step_ok s \<longleftrightarrow> length (rs_arg s) < 160 \<and>
     (case rs_kind s of
        RB_KEY \<Rightarrow> (rs_mod s \<noteq> 0 \<or> rs_code s \<noteq> 0) \<and> rs_mod s AND 0x0F = rs_mod s
      | RB_TYPE \<Rightarrow> rs_arg s \<noteq> [] \<and> list_all (\<lambda>c. rb_ascii_usage c \<noteq> None) (rs_arg s)
      | RB_DELAY \<Rightarrow> 1 \<le> rs_value s \<and> rs_value s \<le> 60000
      | RB_TIMEOUT \<Rightarrow> 1 \<le> rs_value s \<and> rs_value s \<le> 3600
      | RB_WAIT \<Rightarrow> rs_arg s \<noteq> [] \<and> length (rs_arg s) < 64
      | RB_GONE \<Rightarrow> rs_arg s \<noteq> [] \<and> length (rs_arg s) < 64
      | RB_RECORD \<Rightarrow> rs_value s \<le> 86400
      | RB_RECORD_STOP \<Rightarrow> rs_arg s = ''stop''
      | RB_SCREENSHOT \<Rightarrow> rs_arg s = []
      | RB_TIMELAPSE \<Rightarrow> 1 \<le> rs_every s \<and> rs_every s \<le> 3600 \<and> rs_value s \<le> 604800
      | RB_HDMI \<Rightarrow> rs_arg s = ''standby'' \<or> rs_arg s = ''wake'' \<or> take 4 (rs_arg s) = ''key '')"

named_theorems verb_defs \<open>the step parsers, to unfold\<close>

lemmas [verb_defs] = step_key_def step_type_def step_number_def step_record_def step_timelapse_def
  step_hdmi_def step_phrase_def

lemma word_bounds:
  assumes "0 \<le> lo" and "lo \<le> v" and "v \<le> hi" and "hi < 2 ^ LENGTH('a)"
  shows "(of_int lo :: 'a::len word) \<le> of_int v" and "(of_int v :: 'a word) \<le> of_int hi"
  using assms by (simp_all add: word_le_def uint_word_of_int take_bit_int_eq_self)

lemma parse_number_bounds:
  assumes "parse_number s lo hi = Some v" and "0 \<le> lo" and "hi < 2 ^ 32"
  shows "of_int lo \<le> v" and "v \<le> of_int hi"
  using assms word_bounds [where 'a = 32, of lo _ hi]
  by (auto simp: parse_number_def case_prod_beta Let_def split: if_splits)

lemma modifier_bits: "lookup k_modifiers t = Some v \<Longrightarrow> v AND 0x0F = v"
  by (auto simp: lookup_def k_modifiers_def split: if_splits)

lemma combo_tokens_mod:
  "combo_tokens no ts m code = Inr (m', code') \<Longrightarrow> m AND 0x0F = m \<Longrightarrow> m' AND 0x0F = m'"
proof (induction ts arbitrary: m code)
  case (Cons t ts)
  have bits: "(m OR v) AND 0x0F = m OR v" if "v AND 0x0F = v" for v :: u8
    using that Cons.prems(2) by (simp add: bit.conj_disj_distrib2)
  show ?case
    using Cons.prems Cons.IH bits modifier_bits by (fastforce simp: Let_def split: if_splits option.splits)
qed simp

lemma step_key_ok: "step_key no arg = Inr s \<Longrightarrow> length arg < 160 \<Longrightarrow> step_ok s"
  by (auto simp: step_key_def parse_combo_def step_ok_def blank_step_def dest: combo_tokens_mod
      split: sum.splits if_splits)

lemma step_type_ok: "step_type no arg = Inr s \<Longrightarrow> length arg < 160 \<Longrightarrow> step_ok s"
  by (auto simp: step_type_def step_ok_def blank_step_def find_None_iff list_all_iff split: if_splits option.splits)

lemma step_number_fields:
  "step_number no arg kind hi msg = Inr s \<Longrightarrow> hi < 2 ^ 32 \<Longrightarrow>
   rs_kind s = kind \<and> rs_arg s = arg \<and> 1 \<le> rs_value s \<and> rs_value s \<le> of_int hi"
  using parse_number_bounds [of arg 1 hi]
  by (auto simp: step_number_def blank_step_def split: option.splits)

lemma step_record_ok: "step_record no arg = Inr s \<Longrightarrow> length arg < 160 \<Longrightarrow> step_ok s"
  by (auto simp: step_record_def step_ok_def blank_step_def dest!: step_number_fields split: if_splits)

lemma step_timelapse_ok: 
  assumes "step_timelapse no arg = Inr s" and "length arg < 160"
  shows "step_ok s"
proof -
  obtain f every v len where p: "parse_number f 1 3600 = Some every"
    "v = 0 \<or> parse_number len 1 604800 = Some v"
    "s = (blank_step no arg RB_TIMELAPSE)\<lparr>rs_value := v, rs_every := ucast every\<rparr>"
    using assms(1) unfolding step_timelapse_def Let_def by (auto split: option.splits if_splits)
  have e: "1 \<le> every" "every \<le> 3600" using parse_number_bounds [OF p(1)] by simp_all
  have "v \<le> 604800" using p(2) parse_number_bounds(2) [of len 1 604800 v] by auto
  moreover have "(1::u16) \<le> ucast every" "(ucast every :: u16) \<le> 3600"
    using e by (auto simp: word_le_nat_alt unsigned_ucast_eq take_bit_nat_eq_self)
  ultimately show ?thesis using assms(2) by (simp add: p(3) step_ok_def blank_step_def)
qed

lemma step_hdmi_ok: "step_hdmi no arg = Inr s \<Longrightarrow> length arg < 160 \<Longrightarrow> step_ok s"
  by (auto simp: step_hdmi_def Let_def step_ok_def blank_step_def split: if_splits)

lemma step_phrase_ok:
  "step_phrase no arg kind = Inr s \<Longrightarrow> kind = RB_WAIT \<or> kind = RB_GONE \<Longrightarrow> step_ok s"
  by (auto simp: step_phrase_def Let_def step_ok_def blank_step_def split: if_splits)

lemma step_wait_ok:
  "step_number no arg RB_DELAY 60000 msg = Inr s \<Longrightarrow> length arg < 160 \<Longrightarrow> step_ok s"
  "step_number no arg RB_TIMEOUT 3600 msg = Inr s \<Longrightarrow> length arg < 160 \<Longrightarrow> step_ok s"
  by (auto simp: step_ok_def dest!: step_number_fields)

lemma step_screenshot_ok: "step_ok (blank_step no [] RB_SCREENSHOT)"
  by (simp add: step_ok_def blank_step_def)

lemma parse_verb_ok: "parse_verb no verb arg = Inr s \<Longrightarrow> length arg < 160 \<Longrightarrow> step_ok s"
  unfolding parse_verb_def
  by (auto simp: step_screenshot_ok split: if_splits intro: step_key_ok step_type_ok step_record_ok
      step_timelapse_ok step_hdmi_ok step_phrase_ok step_wait_ok)

section \<open>Which lines make the script\<close>

text \<open>The lines that are neither blank nor comments, trimmed, with their 1-based numbers.\<close>

fun code_lines :: "u16 \<Rightarrow> string list \<Rightarrow> (u16 \<times> string) list" where
  "code_lines no [] = []"
| "code_lines no (l # ls) =
     (let line = trim_by is_blank_cr l; r = code_lines (no + 1) ls
      in if line = [] \<or> hd line = CHR ''#'' then r else (no + 1, line) # r)"

abbreviation parses :: "(u16 \<times> string) list \<Rightarrow> rb_step list \<Rightarrow> bool" where
  "parses cs steps \<equiv> list_all2 (\<lambda>(n, l) s. parse_line n l = Inr s) cs steps"

lemma parse_lines_iff:
  "length steps \<le> 64 \<Longrightarrow> parse_lines no ls steps = Inr r \<longleftrightarrow>
     (\<exists>ss. r = steps @ ss \<and> length r \<le> 64 \<and> parses (code_lines no ls) ss)"
proof (induction ls arbitrary: no steps)
  case (Cons l ls)
  let ?line = "trim_by is_blank_cr l"
  show ?case
  proof (cases "?line = [] \<or> hd ?line = CHR ''#''")
    case True
    then show ?thesis using Cons by (simp add: Let_def)
  next
    case False
    show ?thesis
    proof (cases "length steps \<ge> 64")
      case True
      then show ?thesis using False Cons.prems by (auto simp: Let_def list_all2_Cons1)
    next
      case few: False
      then show ?thesis
        using False Cons.IH [of "steps @ [s]" "no + 1" for s]
        by (cases "parse_line (no + 1) ?line") (auto simp: Let_def list_all2_Cons1)
    qed
  qed
qed auto

theorem parse_native_iff:
  "parse_native src = Inr steps \<longleftrightarrow>
     steps \<noteq> [] \<and> length steps \<le> 64 \<and> parses (code_lines 0 (c_lines src)) steps"
proof -
  have "parse_native src = Inr steps \<longleftrightarrow> steps \<noteq> [] \<and> parse_lines 0 (c_lines src) [] = Inr steps"
    by (auto simp: parse_native_def split: sum.splits)
  then show ?thesis using parse_lines_iff [of "[]" 0 "c_lines src" steps] by auto
qed

lemma parse_line_ok: "parse_line no line = Inr s \<Longrightarrow> step_ok s"
  by (auto simp: parse_line_def Let_def dest: parse_verb_ok split: if_splits)

lemma parses_ok: "parses cs steps \<Longrightarrow> list_all step_ok steps"
  by (induction rule: list_all2_induct) (auto dest: parse_line_ok)

text \<open>Every script that is accepted is an accepted script of our own language.\<close>

lemma rb_parse_native: "rb_parse mem src = Inr steps \<Longrightarrow> \<exists>native. parse_native native = Inr steps"
  by (auto simp: rb_parse_def split: if_splits sum.splits)

text \<open>
  What the runner may rely on: an accepted script, whichever of the two languages it is written
  in, has between 1 and 64 steps, and every step is well formed - a chord presses something and only
  the four left modifiers, every character typed is on the keyboard, delays, timeouts and lengths of
  recordings are in their documented ranges, a phrase fits a row, an argument fits its buffer.
\<close>

theorem rb_parse_ok:
  assumes "rb_parse mem src = Inr steps"
  shows "1 \<le> length steps \<and> length steps \<le> 64 \<and> list_all step_ok steps"
  using rb_parse_native [OF assms] by (auto simp: parse_native_iff Suc_le_eq dest: parses_ok)

section \<open>Printing a script and reading it back\<close>

definition verb_word :: "rb_kind \<Rightarrow> string" where
  "verb_word k = takeWhile (\<lambda>c. c \<noteq> CHR '' '') (rb_kind_name k)"

definition print_step :: "rb_step \<Rightarrow> string" where
  "print_step s = verb_word (rs_kind s) @ (if rs_arg s = [] then [] else CHR '' '' # rs_arg s)"

definition print_script :: "rb_step list \<Rightarrow> string" where
  "print_script steps = concat (map (\<lambda>s. print_step s @ [CHR 0x0A]) steps)"

fun renumber :: "u16 \<Rightarrow> rb_step list \<Rightarrow> rb_step list" where
  "renumber no [] = []"
| "renumber no (s # ss) = s\<lparr>rs_line := no + 1\<rparr> # renumber (no + 1) ss"

lemma combo_tokens_line: "combo_tokens no ts m c = Inr r \<Longrightarrow> combo_tokens no' ts m c = Inr r"
  by (induction no ts m c rule: combo_tokens.induct) (auto simp: Let_def split: if_splits option.splits)

lemma lower_pre [simp]: "take n (map c_tolower s) = map c_tolower (take n s)"
  by (simp add: take_map)

text \<open>What a step parser \<open>f\<close> accepts, it accepts again from the step's own argument.\<close>

definition again :: "(u16 \<Rightarrow> string \<Rightarrow> rb_err + rb_step) \<Rightarrow> rb_kind list \<Rightarrow> bool" where
  "again f ks \<longleftrightarrow> (\<forall>no no' arg s. f no arg = Inr s \<longrightarrow> rs_kind s \<in> set ks \<and>
     (rs_arg s = arg \<or> rs_arg s = map c_tolower arg) \<and> f no' (rs_arg s) = Inr (s\<lparr>rs_line := no'\<rparr>))"

lemma parse_combo_line: "parse_combo no arg = Inr r \<Longrightarrow> parse_combo no' arg = Inr r"
  by (auto simp: parse_combo_def split: if_splits sum.splits dest: combo_tokens_line [where no' = no'])

lemma again_key: "again step_key [RB_KEY]"
  unfolding again_def
proof (intro allI impI)
  fix no no' arg s
  assume "step_key no arg = Inr s"
  then obtain m code where c: "parse_combo no arg = Inr (m, code)"
    and s: "s = (blank_step no arg RB_KEY)\<lparr>rs_mod := m, rs_code := code\<rparr>"
    by (auto simp: step_key_def split: sum.splits)
  show "rs_kind s \<in> set [RB_KEY] \<and> (rs_arg s = arg \<or> rs_arg s = map c_tolower arg) \<and>
        step_key no' (rs_arg s) = Inr (s\<lparr>rs_line := no'\<rparr>)"
    using parse_combo_line [OF c, of no'] by (simp add: step_key_def s blank_step_def)
qed

lemma again_type: "again step_type [RB_TYPE]"
  by (auto simp: again_def step_type_def blank_step_def split: if_splits option.splits)

lemma again_number: "again (\<lambda>no arg. step_number no arg k hi msg) [k]"
  by (auto simp: again_def step_number_def blank_step_def split: option.splits)

lemma again_record: "again step_record [RB_RECORD, RB_RECORD_STOP]"
  by (auto simp: again_def step_record_def step_number_def blank_step_def split: if_splits option.splits)

lemma again_timelapse: "again step_timelapse [RB_TIMELAPSE]"
  unfolding again_def
proof (intro allI impI)
  fix no no' arg s
  assume "step_timelapse no arg = Inr s"
  then have h: "step_timelapse no' arg = Inr (s\<lparr>rs_line := no'\<rparr>)" and k: "rs_kind s = RB_TIMELAPSE"
    and a: "rs_arg s = arg"
    by (auto simp: step_timelapse_def Let_def blank_step_def split: option.split_asm split del: if_split)
  show "rs_kind s \<in> set [RB_TIMELAPSE] \<and> (rs_arg s = arg \<or> rs_arg s = map c_tolower arg) \<and>
        step_timelapse no' (rs_arg s) = Inr (s\<lparr>rs_line := no'\<rparr>)"
    using h k by (simp add: a)
qed

lemma lower_consts:
  "c_tolower CHR ''k'' = CHR ''k''" "c_tolower CHR ''e'' = CHR ''e''" "c_tolower CHR ''y'' = CHR ''y''"
  "c_tolower CHR '' '' = CHR '' ''"
  by (simp_all add: c_tolower_def)

lemma again_hdmi: "again step_hdmi [RB_HDMI]"
  unfolding again_def
proof (intro allI impI)
  fix no no' arg s
  assume h: "step_hdmi no arg = Inr s"
  obtain a where a: "map c_tolower arg = a" by blast
  then have "map c_tolower a = a" by (auto simp: comp_def)
  then show "rs_kind s \<in> set [RB_HDMI] \<and> (rs_arg s = arg \<or> rs_arg s = map c_tolower arg) \<and>
        step_hdmi no' (rs_arg s) = Inr (s\<lparr>rs_line := no'\<rparr>)"
    using h by (auto simp: step_hdmi_def Let_def blank_step_def a lower_consts split: if_splits)
qed

lemma again_phrase: "again (\<lambda>no arg. step_phrase no arg k) [k]"
  by (auto simp: again_def step_phrase_def Let_def blank_step_def split: if_splits)

lemma again_screenshot:
  "again (\<lambda>no arg. if arg \<noteq> [] then Inl (no, msg) else Inr (blank_step no arg RB_SCREENSHOT)) [RB_SCREENSHOT]"
  by (auto simp: again_def blank_step_def)

lemma againD:
  assumes "again f ks" and "f no arg = Inr s"
  shows "rs_kind s \<in> set ks" and "rs_arg s = arg \<or> rs_arg s = map c_tolower arg"
    and "f no' (rs_arg s) = Inr (s\<lparr>rs_line := no'\<rparr>)"
  using assms by (auto simp: again_def)

lemma verb_words:
  "verb_word RB_KEY = ''key''" "verb_word RB_TYPE = ''type''" "verb_word RB_DELAY = ''delay''"
  "verb_word RB_TIMEOUT = ''timeout''" "verb_word RB_WAIT = ''wait''" "verb_word RB_GONE = ''gone''"
  "verb_word RB_RECORD = ''record''" "verb_word RB_RECORD_STOP = ''record''"
  "verb_word RB_SCREENSHOT = ''screenshot''" "verb_word RB_TIMELAPSE = ''timelapse''"
  "verb_word RB_HDMI = ''hdmi''"
  by (simp_all add: verb_word_def rb_kind_name_def)

lemma parse_verb_cases:
  assumes "parse_verb no verb arg = Inr s"
  obtains f ks where "again f ks" "f no arg = Inr s" "\<forall>k \<in> set ks. verb_word k = verb"
    "\<And>no arg. parse_verb no verb arg = f no arg"
proof -
  consider "verb = ''key''" | "verb = ''type''" | "verb = ''delay''" | "verb = ''timeout''" | "verb = ''record''"
    | "verb = ''timelapse''" | "verb = ''screenshot''" | "verb = ''hdmi''" | "verb = ''wait''" | "verb = ''gone''"
    using assms by (auto simp: parse_verb_def split: if_splits)
  then show ?thesis
  proof cases
    case 1
    show ?thesis
      by (rule that [OF again_key]) (use assms in \<open>simp_all add: 1 verb_words parse_verb_def\<close>)
  next
    case 2
    show ?thesis
      by (rule that [OF again_type]) (use assms in \<open>simp_all add: 2 verb_words parse_verb_def\<close>)
  next
    case 3
    show ?thesis
      by (rule that [OF again_number [where k = RB_DELAY and hi = 60000 and msg = "''delay wants 1..60000 milliseconds''"]]) (use assms in \<open>simp_all add: 3 verb_words parse_verb_def\<close>)
  next
    case 4
    show ?thesis
      by (rule that [OF again_number [where k = RB_TIMEOUT and hi = 3600 and msg = "''timeout wants 1..3600 seconds''"]]) (use assms in \<open>simp_all add: 4 verb_words parse_verb_def\<close>)
  next
    case 5
    show ?thesis
      by (rule that [OF again_record]) (use assms in \<open>simp_all add: 5 verb_words parse_verb_def\<close>)
  next
    case 6
    show ?thesis
      by (rule that [OF again_timelapse]) (use assms in \<open>simp_all add: 6 verb_words parse_verb_def\<close>)
  next
    case 7
    show ?thesis
      by (rule that [OF again_screenshot [where msg = "''screenshot takes nothing after it''"]]) (use assms in \<open>simp_all add: 7 verb_words parse_verb_def\<close>)
  next
    case 8
    show ?thesis
      by (rule that [OF again_hdmi]) (use assms in \<open>simp_all add: 8 verb_words parse_verb_def\<close>)
  next
    case 9
    show ?thesis
      by (rule that [OF again_phrase [of RB_WAIT]]) (use assms in \<open>simp_all add: 9 verb_words parse_verb_def\<close>)
  next
    case 10
    show ?thesis
      by (rule that [OF again_phrase [of RB_GONE]]) (use assms in \<open>simp_all add: 10 verb_words parse_verb_def\<close>)
  qed
qed

lemma parse_verb_again:
  assumes "parse_verb no verb arg = Inr s"
  shows "verb = verb_word (rs_kind s)"
    and "rs_arg s = arg \<or> rs_arg s = map c_tolower arg"
    and "parse_verb no' verb (rs_arg s) = Inr (s\<lparr>rs_line := no'\<rparr>)"
  using parse_verb_cases [OF assms] againD by metis+

text \<open>The text between the line cutter and the step parsers.\<close>

definition clean :: "string \<Rightarrow> bool" where
  "clean line \<longleftrightarrow> line \<noteq> [] \<and> \<not> is_blank_cr (hd line) \<and> \<not> is_blank_cr (last line) \<and> CHR 0x0A \<notin> set line"

lemma dropWhile_hd: "xs \<noteq> [] \<Longrightarrow> \<not> P (hd xs) \<Longrightarrow> dropWhile P xs = xs"
  by (cases xs) simp_all

lemma trim_clean: "clean line \<Longrightarrow> trim_by is_blank_cr line = line"
  by (simp add: clean_def trim_by_def dropWhile_hd hd_rev)

lemma last_dropWhile: "dropWhile P xs \<noteq> [] \<Longrightarrow> last (dropWhile P xs) = last xs"
  by (metis last_append takeWhile_dropWhile_id)

lemma trim_is_clean:
  assumes "trim_by is_blank_cr l \<noteq> []" and "CHR 0x0A \<notin> set l"
  shows "clean (trim_by is_blank_cr l)"
proof -
  let ?m = "dropWhile is_blank_cr l" let ?t = "trim_by is_blank_cr l"
  have r: "dropWhile is_blank_cr (rev ?m) \<noteq> []" using assms(1) by (simp only: trim_by_def rev_is_Nil_conv not_False_eq_True)
  then have m: "?m \<noteq> []" by fastforce
  have "hd ?t = last (dropWhile is_blank_cr (rev ?m))" using r by (simp add: trim_by_def hd_rev)
  also have "\<dots> = hd ?m" using last_dropWhile [OF r] m by (simp add: last_rev)
  finally have "\<not> is_blank_cr (hd ?t)" using hd_dropWhile [OF m] by simp
  moreover have "\<not> is_blank_cr (last ?t)" using hd_dropWhile [OF r] r by (simp add: trim_by_def last_rev)
  moreover have "x \<in> set l" if "x \<in> set ?t" for x
    using that unfolding trim_by_def by (metis set_dropWhileD set_rev)
  ultimately show ?thesis using assms by (auto simp: clean_def)
qed

lemma blank_lower [simp]: "is_blank (c_tolower c) = is_blank c" "is_blank_cr (c_tolower c) = is_blank_cr c"
  by (auto simp: is_blank_def is_blank_cr_def c_tolower_def of_char_of
      dest!: arg_cong [where f = "of_char :: char \<Rightarrow> nat"])

lemma newline_lower [simp]: "CHR 0x0A = c_tolower c \<longleftrightarrow> c = CHR 0x0A"
  by (auto simp: c_tolower_def of_char_of dest!: arg_cong [where f = "of_char :: char \<Rightarrow> nat"])

lemma verb_word_chars:
  "list_all (\<lambda>c. \<not> is_blank_cr c \<and> c \<noteq> CHR 0x0A) (verb_word k) \<and> verb_word k \<noteq> [] \<and>
   hd (verb_word k) \<noteq> CHR ''#'' \<and> length (verb_word k) \<le> 11 \<and> map c_tolower (verb_word k) = verb_word k"
  by (cases k) (simp_all add: verb_words is_blank_cr_def is_blank_def c_tolower_def)

lemma dropWhile_first: "dropWhile P xs \<noteq> [] \<Longrightarrow> P (hd xs) \<Longrightarrow> length (dropWhile P xs) < length xs"
  by (cases xs) (auto simp: less_Suc_eq_le length_dropWhile_le)

text \<open>The argument of a clean line: shorter than the rest of the line, not blank at its ends.\<close>

lemma line_arg:
  assumes "clean line"
  defines "word \<equiv> takeWhile (\<lambda>c. \<not> is_blank c) line"
  defines "arg \<equiv> dropWhile is_blank (drop (length word) line)"
  assumes "arg \<noteq> []"
  shows "length word + 1 + length arg \<le> length line" and "\<not> is_blank (hd arg)"
    and "\<not> is_blank_cr (last arg)" and "CHR 0x0A \<notin> set arg"
proof -
  let ?r = "dropWhile (\<lambda>c. \<not> is_blank c) line"
  have r: "drop (length word) line = ?r" by (simp add: word_def dropWhile_eq_drop)
  have rn: "?r \<noteq> []" using assms(4) unfolding arg_def r by (metis dropWhile.simps(1))
  have "length arg < length ?r"
    using assms(4) hd_dropWhile [OF rn] dropWhile_first [of is_blank ?r] by (simp add: arg_def r)
  moreover have "length word + length ?r = length line"
    unfolding word_def by (metis length_append takeWhile_dropWhile_id)
  ultimately show "length word + 1 + length arg \<le> length line" by simp
  show "\<not> is_blank (hd arg)" using assms(4) unfolding arg_def by (rule hd_dropWhile)
  have "last arg = last ?r" using assms(4) unfolding arg_def r by (rule last_dropWhile)
  also have "\<dots> = last line" using rn by (rule last_dropWhile)
  finally have "last arg = last line" .
  then show "\<not> is_blank_cr (last arg)" using assms(1) by (simp add: clean_def)
  show "CHR 0x0A \<notin> set arg"
    using assms(1) by (auto simp: clean_def arg_def dest!: set_dropWhileD in_set_dropD)
qed

lemma print_step_clean:
  assumes "rs_arg s \<noteq> [] \<longrightarrow> \<not> is_blank_cr (last (rs_arg s)) \<and> CHR 0x0A \<notin> set (rs_arg s)"
  shows "clean (print_step s) \<and> hd (print_step s) \<noteq> CHR ''#''"
  using assms verb_word_chars [of "rs_kind s"] by (auto simp: clean_def print_step_def list_all_iff)

lemma parse_print:
  assumes "rs_arg s \<noteq> [] \<longrightarrow> \<not> is_blank (hd (rs_arg s))"
    and "length (verb_word (rs_kind s)) + 1 + length (rs_arg s) < 168" and "length (rs_arg s) < 160"
  shows "parse_line no (print_step s) = parse_verb no (verb_word (rs_kind s)) (rs_arg s)"
proof -
  let ?v = "verb_word (rs_kind s)"
  have v: "\<forall>c \<in> set ?v. \<not> is_blank c" "length ?v \<le> 11" "map c_tolower ?v = ?v"
    using verb_word_chars [of "rs_kind s"] by (auto simp: list_all_iff is_blank_cr_def)
  have tw: "takeWhile (\<lambda>c. \<not> is_blank c) (print_step s) = ?v"
    using v(1) by (auto simp: print_step_def is_blank_def takeWhile_eq_all_conv)
  have rest: "dropWhile is_blank (drop (length ?v) (print_step s)) = rs_arg s"
    using assms(1) by (auto simp: print_step_def is_blank_def dropWhile_hd)
  have "length (print_step s) < 168" using assms(2) by (simp add: print_step_def)
  then show ?thesis
    using assms(3) v(2,3) by (simp add: parse_line_def Let_def tw rest)
qed

lemma parse_line_again:
  assumes "parse_line no line = Inr s" and "clean line"
  shows "parse_line no' (print_step s) = Inr (s\<lparr>rs_line := no'\<rparr>)"
    and "clean (print_step s)" and "hd (print_step s) \<noteq> CHR ''#''"
proof -
  define word where "word = takeWhile (\<lambda>c. \<not> is_blank c) line"
  define arg where "arg = dropWhile is_blank (drop (length word) line)"
  have len: "length line < 168" "length word \<le> 11" "length arg < 160"
    and pv: "parse_verb no (map c_tolower word) arg = Inr s"
    using assms(1) by (auto simp: parse_line_def Let_def word_def arg_def split: if_splits)
  note again = parse_verb_again [OF pv]
  have la: "length (rs_arg s) = length arg" and an: "rs_arg s = [] \<longleftrightarrow> arg = []" using again(2) by auto
  have lw: "length (verb_word (rs_kind s)) = length word" using again(1) by (metis length_map)
  note l = line_arg [OF assms(2), folded word_def, folded arg_def]
  have nl: "CHR 0x0A \<notin> set (rs_arg s)" if "rs_arg s \<noteq> []"
    using again(2) by (rule disjE) (use l(4) that an in \<open>auto simp: image_iff\<close>)
  have ends: "\<not> is_blank (hd (rs_arg s))" "\<not> is_blank_cr (last (rs_arg s))" if "rs_arg s \<noteq> []"
    using again(2) l(2,3) that an by (auto simp: hd_map last_map)
  have "length word + 1 + length arg < 168" using l(1) len by (cases "arg = []") auto
  then have "parse_line no' (print_step s) = parse_verb no' (verb_word (rs_kind s)) (rs_arg s)"
    using ends(1) len(3) by (intro parse_print) (auto simp: la lw)
  then show "parse_line no' (print_step s) = Inr (s\<lparr>rs_line := no'\<rparr>)"
    using again(1,3) by simp
  show "clean (print_step s)" "hd (print_step s) \<noteq> CHR ''#''"
    using print_step_clean [of s] ends(2) nl by auto
qed

lemma line_of_append: "CHR 0x0A \<notin> set x \<Longrightarrow> line_of (x @ CHR 0x0A # r) = x \<and> after_line (x @ CHR 0x0A # r) = r"
  by (auto simp: line_of_def after_line_def takeWhile_append dropWhile_append)

lemma c_lines_cons: "CHR 0x0A \<notin> set x \<Longrightarrow> c_lines (x @ CHR 0x0A # r) = x # c_lines r"
  using line_of_append [of x r] by (cases x) auto

lemma c_lines_no_newline: "l \<in> set (c_lines src) \<Longrightarrow> CHR 0x0A \<notin> set l"
  by (induction src rule: c_lines.induct) (auto simp: line_of_def dest: set_takeWhileD)

lemma code_lines_clean: "\<forall>l \<in> set ls. CHR 0x0A \<notin> set l \<Longrightarrow> (n, l) \<in> set (code_lines no ls) \<Longrightarrow> clean l"
  by (induction ls arbitrary: no) (auto simp: Let_def trim_is_clean split: if_splits)

lemma reprint:
  "list_all (\<lambda>s. \<exists>no line. parse_line no line = Inr s \<and> clean line) steps \<Longrightarrow>
   parses (code_lines no (c_lines (print_script steps))) (renumber no steps)"
proof (induction steps arbitrary: no)
  case (Cons s ss)
  then obtain n l where "parse_line n l = Inr s" "clean l" by auto
  note a = parse_line_again [OF this]
  have "print_script (s # ss) = print_step s @ CHR 0x0A # print_script ss" by (simp add: print_script_def)
  moreover have "print_step s \<noteq> []" "CHR 0x0A \<notin> set (print_step s)" using a(2) by (simp_all add: clean_def)
  ultimately show ?case using Cons a by (simp add: c_lines_cons trim_clean Let_def)
qed (simp add: print_script_def)

lemma not_ducky_words:
  "\<not> is_ducky_command (verb_word k) \<and> ducky_mod (verb_word k) = None \<and>
   lookup k_ducky_keys (verb_word k) = None \<and> hd (verb_word k) \<noteq> CHR ''F''"
  by (cases k) (simp_all add: verb_words is_ducky_command_def ducky_mod_def lookup_def k_ducky_mods_def k_ducky_keys_def)

lemma first_word_print:
  "fst (first_word 16 (take 63 (print_step s))) = verb_word (rs_kind s)"
proof -
  let ?v = "verb_word (rs_kind s)"
  have v: "\<forall>c \<in> set ?v. \<not> is_blank c" "length ?v \<le> 11"
    using verb_word_chars [of "rs_kind s"] by (auto simp: list_all_iff is_blank_cr_def)
  have "takeWhile (\<lambda>c. \<not> is_blank c) (take 63 (print_step s)) = ?v"
    using v by (auto simp: print_step_def is_blank_def takeWhile_eq_all_conv take_Cons')
  then show ?thesis using v(2) by (simp add: first_word_def Let_def)
qed

lemma print_not_ducky:
  assumes "clean (print_step s)"
  shows "\<not> is_ducky (print_step s @ CHR 0x0A # r)"
proof -
  have "CHR 0x0A \<notin> set (print_step s)" "dropWhile is_blank_cr (print_step s) = print_step s" "print_step s \<noteq> []"
    using assms by (auto simp: clean_def dropWhile_hd)
  then show ?thesis
    using not_ducky_words [of "rs_kind s"]
    by (simp add: is_ducky_def c_lines_cons ducky_first_def first_word_print Let_def)
qed

lemma parse_native_from:
  assumes "parse_native src = Inr steps"
  shows "list_all (\<lambda>s. \<exists>no line. parse_line no line = Inr s \<and> clean line) steps"
proof -
  have "list_all (\<lambda>(n, l). clean l) (code_lines 0 (c_lines src))"
    using code_lines_clean c_lines_no_newline by (fastforce simp: list_all_iff)
  moreover have "parses (code_lines 0 (c_lines src)) steps" using assms by (simp add: parse_native_iff)
  ultimately show ?thesis
    by (simp add: list_all2_conv_all_nth list_all_length split_beta) metis
qed

text \<open>
  C7. A script that was accepted - in either language - can be printed from its steps alone, one
  line "verb argument" each, and reading that text back gives the same steps again, numbered 1, 2,
  ...: the verb name and the argument a step keeps lose nothing the runner uses.
\<close>

theorem runbook_reprint:
  assumes "rb_parse mem src = Inr steps"
  shows "rb_parse mem' (print_script steps) = Inr (renumber 0 steps)"
proof -
  obtain native where n: "parse_native native = Inr steps" using rb_parse_native [OF assms] by blast
  note frm = parse_native_from [OF n]
  have s: "steps \<noteq> []" "length steps \<le> 64" using n by (simp_all add: parse_native_iff)
  then obtain x xs where x: "steps = x # xs" by (cases steps) auto
  have "clean (print_step x)" using frm parse_line_again(2) by (auto simp: x)
  then have "\<not> is_ducky (print_script steps)"
    using print_not_ducky [of x "print_script xs"] by (simp add: print_script_def x)
  moreover have "length (renumber no ss) = length ss" for no ss by (induction ss arbitrary: no) auto
  then have "parse_native (print_script steps) = Inr (renumber 0 steps)"
    using reprint [OF frm, of 0] s by (simp only: parse_native_iff length_greater_0_conv [symmetric])
  ultimately show ?thesis by (simp add: rb_parse_def)
qed

definition demo_script :: string where
  "demo_script = ''key ctrl+alt+f2'' @ [CHR 0x0A] @ ''type Hi there'' @ [CHR 0x0A] @ ''wait Press F2''"

definition demo_ducky :: string where
  "demo_ducky = ''GUI r'' @ [CHR 0x0A] @ ''DELAY 100'' @ [CHR 0x0A] @ ''STRING ab'' @ [CHR 0x0A] @ ''REPEAT 2''"

lemma demo_script_parses: "map_sum id length (rb_parse True demo_script) = Inr 3"
  by code_simp

lemma demo_ducky_parses: "map_sum id length (rb_parse True demo_ducky) = Inr 5"
  by code_simp

lemma map_sum_Inr: "map_sum id f x = Inr y \<Longrightarrow> \<exists>r. x = Inr r \<and> f r = y"
  by (cases x) auto

theorem rb_parse_ok_witness:
  "case rb_parse True demo_ducky of Inl e \<Rightarrow> False | Inr steps \<Rightarrow> length steps = 5 \<and> list_all step_ok steps"
  using map_sum_Inr [OF demo_ducky_parses] rb_parse_ok [of True demo_ducky] by auto

theorem runbook_reprint_witness:
  "case rb_parse True demo_script of Inl e \<Rightarrow> False
   | Inr steps \<Rightarrow> rb_parse False (print_script steps) = Inr (renumber 0 steps)"
  using map_sum_Inr [OF demo_script_parses] runbook_reprint [of True demo_script _ False] by auto

section \<open>The keyboard\<close>

definition printable :: string where
  "printable = map char_of [0x20::nat..<0x7f]"

lemma ascii_table: "list_all (\<lambda>c. rb_ascii_usage c \<noteq> None) printable"
  by code_simp

lemma ascii_distinct: "distinct (map rb_ascii_usage printable)"
  by code_simp

lemma ascii_domain:
  "list_all (\<lambda>n. (rb_ascii_usage (char_of n) \<noteq> None) = (0x20 \<le> n \<and> n < 0x7f \<or> n = 9 \<or> n = 10)) [0::int..255]"
  by code_simp

text \<open>
  What can be typed: exactly the printable ASCII characters, tab and newline have a key, and no
  two printable characters are the same key with the same Shift.
\<close>

theorem rb_ascii_usage_correct:
  fixes c :: char
  defines "n \<equiv> (of_char c :: int)"
  shows "((rb_ascii_usage c \<noteq> None) = (0x20 \<le> n \<and> n < 0x7f \<or> n = 9 \<or> n = 10)) \<and>
         inj_on rb_ascii_usage (set printable)"
proof -
  have "n = int (of_char c)" unfolding n_def by (rule of_nat_of_char [symmetric])
  then have "0 \<le> n" "n < 256" by simp_all
  moreover have "c = char_of n" by (simp add: n_def)
  ultimately show ?thesis
    using ascii_domain ascii_distinct by (simp add: list_all_iff distinct_map)
qed

section \<open>The chord buffer of a DuckyScript line\<close>

definition joined :: "string list \<Rightarrow> nat" where
  "joined ts = sum_list (map (\<lambda>t. length t + 1) ts)"

lemma joined_simps [simp]:
  "joined [] = 0" "joined (t # ts) = length t + 1 + joined ts" "joined (ts @ us) = joined ts + joined us"
  by (simp_all add: joined_def)

lemma words_joined_strong:
  "joined (words s) \<le> length s + 1 \<and> (s = [] \<or> is_blank (hd s) \<longrightarrow> joined (words s) \<le> length s)"
proof (induction s rule: words.induct)
  case (2 c s)
  show ?case
  proof (cases "is_blank c")
    case False
    let ?d = "dropWhile (\<lambda>c. \<not> is_blank c) s"
    have "length (takeWhile (\<lambda>c. \<not> is_blank c) s) + length ?d = length s"
      by (metis length_append takeWhile_dropWhile_id)
    moreover have "?d = [] \<or> is_blank (hd ?d)" using hd_dropWhile by blast
    then have "joined (words ?d) \<le> length ?d" using 2(2) False by blast
    ultimately show ?thesis using False by simp
  qed (use 2 in simp)
qed simp

lemma words_joined: "joined (words s) \<le> length s + 1"
  using words_joined_strong by blast

lemma mod_names: "ducky_mod t = Some m \<Longrightarrow> length m \<le> length t \<and> m \<noteq> []"
  by (auto simp: ducky_mod_def lookup_def k_ducky_mods_def split: if_splits)

lemma take_words_joined: "joined (take k ws) \<le> joined ws"
  by (induction ws arbitrary: k) (auto simp: take_Cons split: nat.split)

lemma ducky_words_fit:
  "ducky_words no ts chord key = Inr (chord', key') \<Longrightarrow>
   length chord' + (if chord' = [] then 0 else 1) \<le> length chord + (if chord = [] then 0 else 1) + joined ts"
proof (induction ts arbitrary: chord key)
  case (Cons t ts)
  show ?case
  proof (cases "ducky_mod t")
    case None
    then obtain k where "ducky_words no ts chord k = Inr (chord', key')"
      using Cons.prems by (auto split: if_splits option.splits)
    from Cons.IH [OF this] show ?thesis by simp
  next
    case (Some m)
    then have "ducky_words no ts (chord @ (if chord = [] then [] else ''+'') @ m) key = Inr (chord', key')"
      using Cons.prems by simp
    from Cons.IH [OF this] show ?thesis using mod_names [OF Some] by auto
  qed
qed simp

lemma f_number_bounds: "f_number s = Some f \<Longrightarrow> 1 \<le> f \<and> f \<le> 12"
  by (auto simp: f_number_def Let_def case_prod_beta split: if_splits)

lemma ducky_key_table: "lookup k_ducky_keys w = Some n \<Longrightarrow> n \<noteq> [] \<and> length n \<le> 11"
  by (auto simp: lookup_def k_ducky_keys_def split: if_splits)

lemma ducky_key_cases:
  assumes "ducky_key t = Some k"
  shows "(k = [c_tolower (hd t)] \<and> (char_in 65 90 (hd t) \<or> char_in 97 122 (hd t) \<or> c_isdigit (hd t))) \<or>
         (\<exists>f. f_number (tl t) = Some f \<and> k = CHR ''f'' # show_nat (nat f)) \<or>
         lookup k_ducky_keys t = Some k"
proof (cases "length t = 1 \<and> (char_in 65 90 (hd t) \<or> char_in 97 122 (hd t) \<or> c_isdigit (hd t))")
  case True
  then show ?thesis using assms unfolding ducky_key_def by simp
next
  case False
  let ?n = "if (length t = 2 \<or> length t = 3) \<and> (hd t = CHR ''F'' \<or> hd t = CHR ''f'') then f_number (tl t) else None"
  have k: "(case ?n of Some f \<Rightarrow> Some (CHR ''f'' # show_nat (nat f)) | None \<Rightarrow> lookup k_ducky_keys t) = Some k"
    using assms False unfolding ducky_key_def by (simp only: if_False)
  show ?thesis
  proof (cases ?n)
    case None
    then have "lookup k_ducky_keys t = Some k" using k by (simp only: option.case)
    then show ?thesis by blast
  next
    case (Some f)
    then have "f_number (tl t) = Some f" by (metis option.distinct(1))
    moreover have "k = CHR ''f'' # show_nat (nat f)" using k Some by (simp only: option.case option.inject)
    ultimately show ?thesis by blast
  qed
qed

lemma ducky_key_names: "ducky_key t = Some k \<Longrightarrow> k \<noteq> [] \<and> length k \<le> 11"
proof -
  assume "ducky_key t = Some k"
  from ducky_key_cases [OF this] show ?thesis
  proof (elim disjE exE conjE)
    fix f
    assume f: "f_number (tl t) = Some f" "k = CHR ''f'' # show_nat (nat f)"
    have "nat f < 100" using f_number_bounds [OF f(1)] by linarith
    then show ?thesis using f(2) show_nat_length [of "nat f" 1] by simp
  qed (use ducky_key_table in auto)
qed

lemma ducky_words_key:
  "ducky_words no ts chord key = Inr (chord', key') \<Longrightarrow> length key \<le> 11 \<Longrightarrow> length key' \<le> 11"
proof (induction ts arbitrary: chord key)
  case (Cons t ts)
  then show ?case by (auto dest!: ducky_key_names split: option.splits if_splits)
qed simp

text \<open>
  The buffers of \<open>ducky_line\<close>: after any number of words of a line the chord is shorter than its
  96 bytes (the code appends to it with \<open>snprintf\<close> and adds up the results, which would run past the
  end of a full buffer), and so are the key's 16 and the 128 of the line that is emitted.
\<close>

theorem ducky_chord_fits:
  assumes "ducky_words no (take k (words (take 95 line))) [] [] = Inr (chord, key)"
  shows "length chord < 96 \<and> length key < 16 \<and> length (''key '' @ chord @ ''+'' @ key) < 128"
proof -
  have "joined (take k (words (take 95 line))) \<le> 96"
    using take_words_joined [of k "words (take 95 line)"] words_joined [of "take 95 line"] by simp
  then have "length chord \<le> 95" using ducky_words_fit [OF assms] by (auto split: if_splits)
  moreover have "length key \<le> 11" using ducky_words_key [OF assms] by simp
  ultimately show ?thesis by simp
qed

theorem ducky_chord_fits_witness:
  "ducky_words 1 (words (take 95 ''CTRL ALT SHIFT GUI F12'')) [] [] = Inr (''ctrl+alt+shift+gui'', ''f12'') \<and>
   length ''ctrl+alt+shift+gui'' < 96"
proof -
  have "ducky_words 1 (take 9 (words (take 95 ''CTRL ALT SHIFT GUI F12''))) [] [] = Inr (''ctrl+alt+shift+gui'', ''f12'')"
    by code_simp
  moreover have "take 9 (words (take 95 ''CTRL ALT SHIFT GUI F12'')) = words (take 95 ''CTRL ALT SHIFT GUI F12'')"
    by code_simp
  ultimately show ?thesis
    using ducky_chord_fits [of 1 9 "''CTRL ALT SHIFT GUI F12''"] by metis
qed

section \<open>What DuckyScript translates to\<close>

text \<open>
  A native line that parses, or that is refused only because it is too long. Every line the
  translation emits is one.
\<close>

definition too_long :: "string set" where
  "too_long = {''that line is too long'', ''that chord is too long''}"

definition good_line :: "string \<Rightarrow> bool" where
  "good_line l \<longleftrightarrow> CHR 0x0A \<notin> set l \<and> clean (trim_by is_blank_cr l) \<and> hd (trim_by is_blank_cr l) \<noteq> CHR ''#'' \<and>
     (\<forall>no. case parse_line no (trim_by is_blank_cr l) of Inr s \<Rightarrow> True | Inl e \<Rightarrow> snd e \<in> too_long)"

lemma good_printed:
  assumes "rs_arg s \<noteq> []" "\<not> is_blank (hd (rs_arg s))" "\<not> is_blank_cr (last (rs_arg s))" "CHR 0x0A \<notin> set (rs_arg s)"
    and "length (rs_arg s) < 160 \<Longrightarrow>
         \<forall>no. case parse_verb no (verb_word (rs_kind s)) (rs_arg s) of Inr s \<Rightarrow> True | Inl e \<Rightarrow> snd e \<in> too_long"
    and "length (verb_word (rs_kind s)) \<le> 7"
  shows "good_line (print_step s)"
proof -
  have c: "clean (print_step s) \<and> hd (print_step s) \<noteq> CHR ''#''" using assms by (intro print_step_clean) simp
  have "case parse_line no (print_step s) of Inr s \<Rightarrow> True | Inl e \<Rightarrow> snd e \<in> too_long" for no
  proof (cases "length (rs_arg s) < 160")
    case True
    then have "parse_line no (print_step s) = parse_verb no (verb_word (rs_kind s)) (rs_arg s)"
      using assms(2,6) by (intro parse_print) auto
    then show ?thesis using assms(5) True by simp
  next
    case False
    let ?v = "verb_word (rs_kind s)"
    have v: "\<forall>c \<in> set ?v. \<not> is_blank c" using verb_word_chars [of "rs_kind s"] by (auto simp: list_all_iff is_blank_cr_def)
    have tw: "takeWhile (\<lambda>c. \<not> is_blank c) (print_step s) = ?v"
      using v by (auto simp: print_step_def is_blank_def takeWhile_eq_all_conv)
    have "dropWhile is_blank (drop (length ?v) (print_step s)) = rs_arg s"
      using assms(1,2) by (auto simp: print_step_def is_blank_def dropWhile_hd)
    then show ?thesis using False assms(6) by (auto simp: parse_line_def Let_def tw too_long_def)
  qed
  then show ?thesis using c by (simp add: good_line_def trim_clean clean_def)
qed

lemma show_nat_arg:
  "show_nat n \<noteq> [] \<and> \<not> is_blank (hd (show_nat n)) \<and> \<not> is_blank_cr (last (show_nat n)) \<and> CHR 0x0A \<notin> set (show_nat n)"
proof -
  have "c_isdigit c \<Longrightarrow> \<not> is_blank_cr c \<and> c \<noteq> CHR 0x0A" for c
    by (auto simp: is_blank_cr_def is_blank_def c_isdigit_def)
  then show ?thesis
    using show_nat_digits [of n] hd_in_set [of "show_nat n"] last_in_set [of "show_nat n"]
    by (metis is_blank_cr_def)
qed

lemma parse_number_show: "1 \<le> n \<Longrightarrow> n \<le> 60000 \<Longrightarrow> parse_number (show_nat n) 1 60000 = Some (of_nat n)"
  using strtol_show_nat [of n "[]"] show_nat_digits [of n] by (simp add: parse_number_def)

lemma good_delay: "1 \<le> ms \<Longrightarrow> ms \<le> 60000 \<Longrightarrow> good_line (''delay '' @ show_nat (unat ms))" for ms :: u32
proof -
  assume "1 \<le> ms" "ms \<le> 60000"
  then have "1 \<le> unat ms" "unat ms \<le> 60000" by (simp_all add: word_le_nat_alt)
  then have "good_line (print_step (blank_step 0 (show_nat (unat ms)) RB_DELAY))"
    using show_nat_arg [of "unat ms"]
    by (intro good_printed) (simp_all add: blank_step_def verb_words parse_verb_def step_number_def parse_number_show)
  then show ?thesis using show_nat_arg [of "unat ms"] by (simp add: print_step_def blank_step_def verb_words)
qed

lemma good_enter: "good_line ''key enter''"
proof -
  have "\<forall>no. isl (parse_line no ''key enter'') = False"
    by (simp add: parse_line_def is_blank_def parse_verb_def step_key_def parse_combo_def c_tolower_def Let_def
        trim_by_def lookup_def k_modifiers_def key_usage_def k_keys_def f_number_def char_in_def)
  then show ?thesis
    by (auto simp: good_line_def clean_def trim_by_def is_blank_cr_def is_blank_def isl_def split: sum.split)
qed

lemma good_trimmed: "good_line (trim_by is_blank_cr l) \<Longrightarrow> CHR 0x0A \<notin> set l \<Longrightarrow> good_line l"
proof -
  assume g: "good_line (trim_by is_blank_cr l)" and n: "CHR 0x0A \<notin> set l"
  have "trim_by is_blank_cr (trim_by is_blank_cr l) = trim_by is_blank_cr l"
  proof (cases "trim_by is_blank_cr l = []")
    case True
    then show ?thesis by (simp only: True) (simp add: trim_by_def)
  next
    case False
    from trim_clean [OF trim_is_clean [OF this n]] show ?thesis .
  qed
  then show "good_line l" using g n unfolding good_line_def by simp
qed

definition rtrim :: "string \<Rightarrow> string" where
  "rtrim r = rev (dropWhile is_blank_cr (rev r))"

lemma rtrim_facts:
  assumes "r \<noteq> []" and "\<not> is_blank_cr (hd r)"
  shows "rtrim r \<noteq> []" and "hd (rtrim r) = hd r" and "\<not> is_blank_cr (last (rtrim r))" and "set (rtrim r) \<subseteq> set r"
proof -
  have n: "dropWhile is_blank_cr (rev r) \<noteq> []"
    using assms by (metis dropWhile_eq_Nil_conv hd_in_set set_rev)
  then show "rtrim r \<noteq> []" by (simp add: rtrim_def)
  show "hd (rtrim r) = hd r"
    using n assms(1) last_dropWhile [OF n] by (simp add: rtrim_def hd_rev last_rev)
  show "\<not> is_blank_cr (last (rtrim r))" using n hd_dropWhile [OF n] by (simp add: rtrim_def last_rev)
  show "set (rtrim r) \<subseteq> set r" unfolding rtrim_def by (metis set_dropWhileD set_rev subsetI)
qed

lemma trim_prefix:
  assumes "r \<noteq> []" and "\<not> is_blank_cr (hd r)" and "v \<noteq> []" and "\<not> is_blank_cr (hd v)"
  shows "trim_by is_blank_cr (v @ CHR '' '' # r) = v @ CHR '' '' # rtrim r"
proof -
  obtain x where x: "x \<in> set (rev r)" "\<not> is_blank_cr x" using assms(1,2) hd_in_set by fastforce
  have "dropWhile is_blank_cr (v @ CHR '' '' # r) = v @ CHR '' '' # r" using assms(3,4) by (simp add: dropWhile_hd)
  then show ?thesis
    using dropWhile_append1 [of x "rev r" is_blank_cr "CHR '' '' # rev v"] x by (simp add: trim_by_def rtrim_def)
qed

lemma typable: "char_in 0x20 0x7e c \<Longrightarrow> rb_ascii_usage c \<noteq> None \<and> c \<noteq> CHR 0x0A \<and> c \<noteq> CHR 0x0D"
proof -
  assume "char_in 0x20 0x7e c"
  then have h: "32 \<le> (of_char c :: nat)" "(of_char c :: nat) \<le> 126" by (simp_all add: char_in_def)
  then have "(of_char c :: nat) \<in> set [0x20..<0x7f]" unfolding set_upt by simp
  then have "char_of (of_char c :: nat) \<in> set printable" unfolding printable_def set_map by (rule_tac imageI)
  then have "rb_ascii_usage c \<noteq> None" using ascii_table by (simp add: list_all_iff)
  then show ?thesis using h by auto
qed

lemma good_type:
  assumes "rest \<noteq> []" and "\<not> is_blank (hd rest)" and "list_all (char_in 0x20 0x7e) rest"
  shows "good_line (take 167 (''type '' @ rest))"
proof -
  define r where "r = take 162 rest"
  have l: "take 167 (''type '' @ rest) = ''type'' @ CHR '' '' # r" by (simp add: r_def)
  have hr: "hd r = hd rest" and rn: "r \<noteq> []" using assms(1) by (simp_all add: r_def hd_take)
  have cs: "\<forall>c \<in> set r. rb_ascii_usage c \<noteq> None \<and> c \<noteq> CHR 0x0A \<and> c \<noteq> CHR 0x0D"
    using assms(3) typable by (auto simp: r_def list_all_iff dest!: in_set_takeD)
  then have "hd r \<noteq> CHR 0x0D" using rn by simp
  then have nb: "\<not> is_blank_cr (hd r)" using assms(2) by (simp add: is_blank_cr_def hr)
  note rt = rtrim_facts [OF rn nb]
  have ns: "find (\<lambda>c. rb_ascii_usage c = None) (rtrim r) = None"
    using cs rt(4) by (auto simp: find_None_iff)
  have p: "print_step (blank_step 0 (rtrim r) RB_TYPE) = ''type'' @ CHR '' '' # rtrim r"
    using rt(1) by (simp add: print_step_def blank_step_def verb_words)
  have nl: "CHR 0x0A \<notin> set (rtrim r)" using cs rt(4) by auto
  have "good_line (print_step (blank_step 0 (rtrim r) RB_TYPE))"
  proof (rule good_printed)
    show "\<forall>no. case parse_verb no (verb_word (rs_kind (blank_step 0 (rtrim r) RB_TYPE)))
            (rs_arg (blank_step 0 (rtrim r) RB_TYPE)) of Inl e \<Rightarrow> snd e \<in> too_long | Inr s \<Rightarrow> True"
      using rt(1) ns by (simp add: blank_step_def verb_words parse_verb_def step_type_def)
  qed (use rt nb assms(2) hr nl in \<open>simp_all add: blank_step_def verb_words\<close>)
  then have "good_line (trim_by is_blank_cr (''type'' @ CHR '' '' # r))"
    using trim_prefix [OF rn nb, of "''type''"] by (simp only: p) (simp add: is_blank_cr_def is_blank_def)
  moreover have "CHR 0x0A \<notin> set (''type'' @ CHR '' '' # r)" using cs by auto
  ultimately show ?thesis unfolding l by (rule good_trimmed)
qed

text \<open>The names a chord is made of, and that \<open>parse_combo\<close> reads each of them.\<close>

definition ducky_names :: "string list" where
  "ducky_names = map (\<lambda>n. [char_of n]) ([97..<123] @ [48..<58 :: nat]) @
     map (\<lambda>n. CHR ''f'' # show_nat n) [1..<13] @ map snd k_ducky_keys"

definition chord_name :: "string \<Rightarrow> bool" where
  "chord_name k \<longleftrightarrow> k \<noteq> [] \<and> list_all (\<lambda>c. \<not> is_blank_cr c \<and> c \<noteq> CHR ''+'' \<and> c \<noteq> CHR 0x0A) k \<and>
     map c_tolower k = k"

definition mod_name :: "string \<Rightarrow> bool" where
  "mod_name m \<longleftrightarrow> chord_name m \<and> (case lookup k_modifiers m of None \<Rightarrow> False | Some v \<Rightarrow> v \<noteq> 0)"

definition key_name :: "string \<Rightarrow> bool" where
  "key_name k \<longleftrightarrow> chord_name k \<and> lookup k_modifiers k = None \<and>
     (case key_usage k of None \<Rightarrow> False | Some v \<Rightarrow> v \<noteq> 0)"

lemma ducky_names_ok: "list_all key_name ducky_names \<and> list_all mod_name (map snd k_ducky_mods)"
  by code_simp

lemma ducky_key_name: "ducky_key t = Some k \<Longrightarrow> key_name k"
proof -
  assume k: "ducky_key t = Some k"
  consider (letter) "k = [c_tolower (hd t)]" "char_in 65 90 (hd t) \<or> char_in 97 122 (hd t) \<or> c_isdigit (hd t)"
    | (fkey) f where "f_number (tl t) = Some f" "k = CHR ''f'' # show_nat (nat f)"
    | (table) "lookup k_ducky_keys t = Some k"
    using ducky_key_cases [OF k] by blast
  then have "k \<in> set ducky_names"
  proof cases
    case c: letter
    have "c_tolower (hd t) \<in> char_of ` (({97..<123} :: nat set) \<union> {48..<58})"
    proof (cases "char_in 65 90 (hd t)")
      case True
      then have "c_tolower (hd t) = char_of (of_char (hd t) + 32 :: nat)" by (simp add: c_tolower_def char_in_def)
      then show ?thesis using True by (auto simp: char_in_def)
    next
      case False
      then have "c_tolower (hd t) = hd t" by (auto simp: c_tolower_def char_in_def)
      then have "c_tolower (hd t) = char_of (of_char (hd t) :: nat)" by (simp only: char_of_char)
      then show ?thesis using False c(2) by (auto simp: char_in_def c_isdigit_def simp del: char_of_char)
    qed
    then show ?thesis unfolding c(1) ducky_names_def set_append set_map set_upt by blast
  next
    case f: fkey
    then have "nat f \<in> set [1..<13]" using f_number_bounds [OF f(1)] unfolding set_upt by auto
    then show ?thesis unfolding f(2) ducky_names_def set_append set_map by blast
  next
    case table
    then have "k \<in> set (map snd k_ducky_keys)" unfolding lookup_def set_map by (force dest: map_of_SomeD)
    then show ?thesis unfolding ducky_names_def set_append by blast
  qed
  then show ?thesis using ducky_names_ok by (simp add: list_all_iff)
qed

lemma ducky_mod_name: "ducky_mod t = Some m \<Longrightarrow> mod_name m"
proof -
  assume "ducky_mod t = Some m"
  then have "m \<in> set (map snd k_ducky_mods)" unfolding ducky_mod_def lookup_def set_map by (force dest: map_of_SomeD)
  then show ?thesis using ducky_names_ok by (auto simp: list_all_iff)
qed

text \<open>A chord is its names joined with plus signs.\<close>

fun join_plus :: "string list \<Rightarrow> string" where
  "join_plus [] = []"
| "join_plus [m] = m"
| "join_plus (m # ms) = m @ CHR ''+'' # join_plus ms"

lemma join_plus_snoc: "join_plus (ms @ [m]) = (if ms = [] then m else join_plus ms @ CHR ''+'' # m)"
  by (induction ms rule: join_plus.induct) auto

lemma join_plus_empty: "list_all chord_name ms \<Longrightarrow> join_plus ms = [] \<longleftrightarrow> ms = []"
  by (induction ms rule: join_plus.induct) (auto simp: chord_name_def)

lemma split_plus_word: "CHR ''+'' \<notin> set m \<Longrightarrow> split_plus m = [m]"
  by (induction m) auto

lemma split_plus_append: "CHR ''+'' \<notin> set m \<Longrightarrow> split_plus (m @ CHR ''+'' # s) = m # split_plus s"
  by (induction m) auto

lemma split_join: "list_all chord_name ms \<Longrightarrow> ms \<noteq> [] \<Longrightarrow> split_plus (join_plus ms) = ms"
proof (induction ms rule: join_plus.induct)
  case (2 m)
  then have "CHR ''+'' \<notin> set m" by (auto simp: chord_name_def list_all_iff)
  then show ?case by (simp add: split_plus_word)
next
  case (3 m n ms)
  then have "CHR ''+'' \<notin> set m" by (auto simp: chord_name_def list_all_iff)
  then show ?case using 3 by (simp add: split_plus_append)
qed simp

lemma join_plus_chars:
  "list_all chord_name ms \<Longrightarrow> ms \<noteq> [] \<Longrightarrow> join_plus ms \<noteq> [] \<and> \<not> is_blank (hd (join_plus ms)) \<and>
     \<not> is_blank_cr (last (join_plus ms)) \<and> CHR 0x0A \<notin> set (join_plus ms)"
proof (induction ms rule: join_plus.induct)
  case (2 m)
  then show ?case by (auto simp: chord_name_def list_all_iff is_blank_cr_def)
next
  case (3 m n ms)
  then show ?case by (auto simp: chord_name_def list_all_iff is_blank_cr_def hd_append)
qed simp

lemma trim_name: "chord_name m \<Longrightarrow> map c_tolower (trim_by is_blank m) = m"
proof -
  assume m: "chord_name m"
  then have "m \<noteq> []" "\<not> is_blank (hd m)" "\<not> is_blank (last m)"
    by (auto simp: chord_name_def list_all_iff is_blank_cr_def)
  then have "trim_by is_blank m = m" by (simp add: trim_by_def dropWhile_hd hd_rev)
  then show ?thesis using m by (simp add: chord_name_def)
qed

lemma combo_mods:
  "list_all mod_name ms \<Longrightarrow> \<exists>m'. combo_tokens no (ms @ r) m c = combo_tokens no r m' c \<and> (m \<noteq> 0 \<or> ms \<noteq> [] \<longrightarrow> m' \<noteq> 0)"
proof (induction ms arbitrary: m)
  case (Cons x ms)
  obtain v where v: "lookup k_modifiers x = Some v" "v \<noteq> 0" and x: "chord_name x"
    using Cons.prems by (auto simp: mod_name_def split: option.splits)
  have "x \<noteq> []" using x by (simp add: chord_name_def)
  then have "combo_tokens no ((x # ms) @ r) m c = combo_tokens no (ms @ r) (m OR v) c"
    using trim_name [OF x] v(1) by simp
  moreover have "m OR v \<noteq> 0" using v(2) by (simp add: or_eq_0_iff)
  ultimately show ?case using Cons.IH [of "m OR v"] Cons.prems by auto
qed auto

lemma parse_chord:
  assumes "list_all mod_name ms" and "key = [] \<or> key_name key" and "ms \<noteq> [] \<or> key \<noteq> []"
  shows "case parse_combo no (join_plus (ms @ (if key = [] then [] else [key]))) of
           Inr r \<Rightarrow> True | Inl e \<Rightarrow> snd e \<in> too_long"
proof -
  let ?ks = "if key = [] then [] else [key]"
  have names: "list_all chord_name (ms @ ?ks)" using assms(1,2) by (auto simp: mod_name_def key_name_def list_all_iff)
  obtain m' where m: "combo_tokens no (ms @ ?ks) 0 0 = combo_tokens no ?ks m' 0" "ms \<noteq> [] \<longrightarrow> m' \<noteq> 0"
    using combo_mods [OF assms(1), of no ?ks 0 0] by blast
  have k: "\<exists>v. combo_tokens no ?ks m' 0 = Inr (m', v) \<and> (key \<noteq> [] \<longrightarrow> v \<noteq> 0)"
  proof (cases "key = []")
    case False
    then obtain v where v: "lookup k_modifiers key = None" "key_usage key = Some v" "v \<noteq> 0" and x: "chord_name key"
      using assms(2) by (auto simp: key_name_def split: option.splits)
    then show ?thesis using False trim_name [OF x] by simp
  qed simp
  have "ms @ ?ks \<noteq> []" using assms(3) by simp
  from split_join [OF names this] m k assms(3) show ?thesis
    by (auto simp: parse_combo_def too_long_def)
qed

lemma ducky_words_join:
  "ducky_words no ts (join_plus ms) key = Inr (chord', key') \<Longrightarrow> list_all mod_name ms \<Longrightarrow> key = [] \<or> key_name key \<Longrightarrow>
   \<exists>ms'. chord' = join_plus ms' \<and> list_all mod_name ms' \<and> (key' = [] \<or> key_name key')"
proof (induction ts arbitrary: ms key)
  case (Cons t ts)
  have names: "list_all chord_name ms" using Cons.prems(2) by (auto simp: mod_name_def list_all_iff)
  show ?case
  proof (cases "ducky_mod t")
    case None
    then obtain k where k: "ducky_key t = Some k" "ducky_words no ts (join_plus ms) k = Inr (chord', key')"
      using Cons.prems(1) by (auto split: if_splits option.splits)
    show ?thesis using Cons.IH [OF k(2) Cons.prems(2)] ducky_key_name [OF k(1)] by blast
  next
    case (Some m)
    have "join_plus ms @ (if join_plus ms = [] then [] else ''+'') @ m = join_plus (ms @ [m])"
      using join_plus_empty [OF names] by (simp add: join_plus_snoc)
    then have "ducky_words no ts (join_plus (ms @ [m])) key = Inr (chord', key')"
      using Cons.prems(1) Some by simp
    then show ?thesis using Cons.IH ducky_mod_name [OF Some] Cons.prems(2,3) by simp
  qed
qed auto

lemma good_chord:
  assumes "ducky_chord no line = Inr out"
  shows "good_line out"
proof -
  obtain chord key where w: "ducky_words no (words (take 95 line)) (join_plus []) [] = Inr (chord, key)"
    and ne: "chord \<noteq> [] \<or> key \<noteq> []"
    and out: "out = ''key '' @ chord @ (if chord = [] \<or> key = [] then [] else ''+'') @ key"
    using assms by (auto simp: ducky_chord_def split: sum.splits prod.splits if_splits)
  obtain ms where ms: "chord = join_plus ms" "list_all mod_name ms" and key: "key = [] \<or> key_name key"
    using ducky_words_join [OF w] by auto
  let ?ns = "ms @ (if key = [] then [] else [key])"
  have names: "list_all chord_name ms" "list_all chord_name ?ns"
    using ms(2) key by (auto simp: mod_name_def key_name_def list_all_iff)
  have mn: "chord = [] \<longleftrightarrow> ms = []" using join_plus_empty [OF names(1)] ms(1) by simp
  define combo where "combo = join_plus ?ns"
  have out': "out = ''key '' @ combo"
    using mn by (simp add: out combo_def ms(1) join_plus_snoc)
  have c: "combo \<noteq> [] \<and> \<not> is_blank (hd combo) \<and> \<not> is_blank_cr (last combo) \<and> CHR 0x0A \<notin> set combo"
    unfolding combo_def using ne mn by (intro join_plus_chars names(2)) auto
  have "good_line (print_step (blank_step 0 combo RB_KEY))"
  proof (rule good_printed)
    show "\<forall>no. case parse_verb no (verb_word (rs_kind (blank_step 0 combo RB_KEY)))
            (rs_arg (blank_step 0 combo RB_KEY)) of Inl e \<Rightarrow> snd e \<in> too_long | Inr s \<Rightarrow> True"
    proof
      fix no
      have "case parse_combo no combo of Inr r \<Rightarrow> True | Inl e \<Rightarrow> snd e \<in> too_long"
        using parse_chord [OF ms(2) key, of no] ne mn by (auto simp: combo_def)
      then show "case parse_verb no (verb_word (rs_kind (blank_step 0 combo RB_KEY)))
            (rs_arg (blank_step 0 combo RB_KEY)) of Inl e \<Rightarrow> snd e \<in> too_long | Inr s \<Rightarrow> True"
        by (auto simp: blank_step_def verb_words parse_verb_def step_key_def split: sum.splits)
    qed
  qed (use c in \<open>simp_all add: blank_step_def verb_words\<close>)
  then show ?thesis using c by (simp add: out' print_step_def blank_step_def verb_words)
qed

text \<open>The sink holds good lines, whatever has been emitted.\<close>

definition sink_ok :: "sink \<Rightarrow> bool" where
  "sink_ok s \<longleftrightarrow> (\<exists>ls. sk_text s = concat (map (\<lambda>l. l @ [CHR 0x0A]) ls) \<and> list_all good_line ls)"

lemma emit_ok: "sink_ok s \<Longrightarrow> good_line l \<Longrightarrow> sink_ok (emit l s)"
proof -
  assume "sink_ok s" and l: "good_line l"
  then obtain ls where ls: "sk_text s = concat (map (\<lambda>l. l @ [CHR 0x0A]) ls)" "list_all good_line ls"
    by (auto simp: sink_ok_def)
  have "\<exists>ks. concat (map (\<lambda>l. l @ [CHR 0x0A]) ls) @ l @ [CHR 0x0A] = concat (map (\<lambda>l. l @ [CHR 0x0A]) ks) \<and> list_all good_line ks"
    using l ls(2) by (intro exI [of _ "ls @ [l]"]) simp
  then show "sink_ok (emit l s)" using ls by (auto simp: emit_def sink_ok_def)
qed

lemma emit_delay_ok: "sink_ok s \<Longrightarrow> 1 \<le> ms \<Longrightarrow> ms \<le> 60000 \<Longrightarrow> sink_ok (emit_delay ms s)"
  unfolding emit_delay_def by (intro emit_ok good_delay)

lemma emit_def_delay_ok:
  assumes "sink_ok s" and "ms \<le> 60000"
  shows "sink_ok (emit_def_delay ms s)"
proof -
  have "1 \<le> ms" if "ms \<noteq> 0" using that by (simp add: word_le_nat_alt Suc_le_eq unat_gt_0)
  then show ?thesis using emit_delay_ok [of s ms] assms by (auto simp: emit_def_delay_def)
qed

lemma ducky_line_ok:
  assumes "ducky_line no line d s = Inr s'" and "sink_ok s" and "d \<le> 60000"
  shows "sink_ok s'"
proof -
  obtain verb rest where fw: "first_word 16 line = (verb, rest)" by fastforce
  have "rest = dropWhile is_blank (drop (length (takeWhile (\<lambda>c. \<not> is_blank c) line)) line)"
    using fw by (simp add: first_word_def Let_def)
  then have hd: "rest \<noteq> [] \<Longrightarrow> \<not> is_blank (hd rest)" using hd_dropWhile by blast
  note def = assms(1) [unfolded ducky_line_def fw Let_def prod.case]
  consider "s' = s" | (str) "list_all (char_in 0x20 0x7e) rest" "verb = ''STRING'' \<or> verb = ''STRINGLN''"
    | ms where "parse_number rest 1 60000 = Some ms" "s' = emit_delay ms s"
    | out where "ducky_chord no line = Inr out" "s' = emit_def_delay d (emit out s)"
    using def by (fastforce split: if_splits option.splits sum.splits simp: list_ex_iff list_all_iff)
  then show ?thesis
  proof cases
    case str
    then have "\<not> list_ex (\<lambda>c. \<not> char_in 0x20 0x7e c) rest" by (simp add: list_ex_iff list_all_iff)
    then show ?thesis using def str good_type [OF _ hd] assms(2,3)
      by (auto intro!: emit_def_delay_ok emit_ok good_enter)
  next
    case (3 ms)
    then show ?thesis using parse_number_bounds [OF 3(1)] assms(2) by (auto intro!: emit_delay_ok)
  next
    case (4 out)
    then show ?thesis using good_chord assms(2,3) by (auto intro!: emit_def_delay_ok emit_ok)
  qed (use assms in simp)
qed

lemma ducky_repeat_ok:
  "ducky_repeat n no line d s = Inr s' \<Longrightarrow> sink_ok s \<Longrightarrow> d \<le> 60000 \<Longrightarrow> sink_ok s'"
  by (induction n arbitrary: s) (auto dest: ducky_line_ok split: sum.splits)

lemma ducky_lines_ok:
  "ducky_lines no xs d prev s = Inr s' \<Longrightarrow> sink_ok s \<Longrightarrow> d \<le> 60000 \<Longrightarrow> sink_ok s'"
proof (induction no xs d prev s rule: ducky_lines.induct)
  case (2 no x xs d prev s)
  let ?l = "trim_by is_blank_cr (take 175 x)"
  obtain verb rest where fw: "first_word 16 ?l = (verb, rest)" by fastforce
  note step = "2.prems"(1) [unfolded ducky_lines.simps Let_def fw prod.case]
  note IH = "2.IH" [OF refl refl fw [symmetric] refl]
  show ?case
    using step "2.prems"(2,3) IH
    by (auto dest: parse_number_bounds(2) ducky_repeat_ok ducky_line_ok split: if_splits option.splits sum.splits)
qed simp

lemma c_lines_concat: "list_all good_line ls \<Longrightarrow> c_lines (concat (map (\<lambda>l. l @ [CHR 0x0A]) ls)) = ls"
  by (induction ls) (auto simp: good_line_def c_lines_cons)

lemma ducky_native_good: "ducky_to_native mem src = Inr native \<Longrightarrow> list_all good_line (c_lines native)"
proof -
  assume "ducky_to_native mem src = Inr native"
  then obtain s where s: "ducky_lines 0 (c_lines src) 0 [] \<lparr>sk_cap = length src * 3 + 256, sk_text = [], sk_ovf = False\<rparr> = Inr s"
    "native = sk_text s" by (auto simp: ducky_to_native_def split: if_splits sum.splits)
  have "sink_ok \<lparr>sk_cap = length src * 3 + 256, sk_text = [], sk_ovf = False\<rparr>" by (simp add: sink_ok_def exI [of _ "[]"])
  from ducky_lines_ok [OF s(1) this] show ?thesis by (auto simp: sink_ok_def s(2) c_lines_concat)
qed

lemma parse_good_lines:
  "list_all good_line ls \<Longrightarrow> parse_lines no ls steps = Inl e \<Longrightarrow> snd e \<in> insert ''more than 64 steps'' too_long"
proof (induction ls arbitrary: no steps)
  case (Cons l ls)
  let ?t = "trim_by is_blank_cr l"
  have l: "case parse_line (no + 1) ?t of Inr s \<Rightarrow> True | Inl e \<Rightarrow> snd e \<in> too_long"
    and t: "?t \<noteq> []" "hd ?t \<noteq> CHR ''#''"
    using Cons.prems(1) by (auto simp: good_line_def clean_def)
  show ?case
  proof (cases "64 \<le> length steps")
    case True
    then show ?thesis using Cons.prems(2) t by (auto simp: Let_def)
  next
    case False
    then show ?thesis using Cons l t by (cases "parse_line (no + 1) ?t") (auto simp: Let_def)
  qed
qed simp

text \<open>
  C8. DuckyScript is translated into our own language correctly: when the translation succeeds, the
  native text it produced is accepted, or refused only because a line or a chord is too long, there
  are more than 64 steps, or there is nothing in it. No translated line is ever an unknown command, an
  unknown key, a number out of range or a character that cannot be typed.
\<close>

theorem ducky_translation_accepted:
  assumes "ducky_to_native mem src = Inr native"
  shows "case parse_native native of Inr steps \<Rightarrow> True
    | Inl e \<Rightarrow> snd e \<in> {''that line is too long'', ''that chord is too long'', ''more than 64 steps'',
                         ''the runbook has no steps''}"
  using parse_good_lines [OF ducky_native_good [OF assms], of 0 "[]"]
  by (auto simp: parse_native_def too_long_def split: sum.split)

theorem ducky_translation_accepted_witness:
  "case ducky_to_native True demo_ducky of Inl e \<Rightarrow> False
   | Inr native \<Rightarrow> (case parse_native native of Inr steps \<Rightarrow> True
       | Inl e \<Rightarrow> snd e \<in> {''that line is too long'', ''that chord is too long'', ''more than 64 steps'',
                           ''the runbook has no steps''})"
proof -
  have "isl (ducky_to_native True demo_ducky) = False" by code_simp
  then show ?thesis
    using ducky_translation_accepted [of True demo_ducky] by (cases "ducky_to_native True demo_ducky") simp_all
qed

section \<open>What the translation loses\<close>

text \<open>
  A DuckyScript line is copied into a buffer of 176 bytes and cut there, so the end of a longer
  STRING is dropped without an error when the cut falls behind blanks; and a first line that is a
  single word followed by a carriage return is not recognised as DuckyScript.
\<close>

definition demo_long :: string where
  "demo_long = ''STRING abc'' @ replicate 165 CHR '' '' @ ''def''"

lemma ducky_cuts_long_line: "map_sum id (map rs_arg) (rb_parse True demo_long) = Inr [''abc'']"
  by code_simp

lemma ducky_crlf_not_seen:
  "\<not> is_ducky (''ENTER'' @ [CHR 0x0D, CHR 0x0A] @ ''STRING abc'') \<and> is_ducky (''ENTER'' @ [CHR 0x0A] @ ''STRING abc'')"
  by code_simp

lemma ducky_after_comment_not_seen: "\<not> is_ducky (''# note'' @ [CHR 0x0A] @ ''STRING abc'')"
  by code_simp

end
