(* ===== verification/Ts_Mux.thy ===== *)
theory Ts_Mux
  imports Prelude
begin

text \<open>
  components/kvm_record/ts_mux.c: H.264 and Opus into an MPEG transport stream. The byte callback is
  the list of packets an operation returns beside the new state, in the order of the calls; a packet
  is the list of the bytes the code writes into its 188-byte buffer, so that its length is a theorem.
\<close>

section \<open>State and headers\<close>

record ts_mux =
  cc_pat :: u8
  cc_pmt :: u8
  cc_video :: u8
  cc_audio :: u8
  ts_audio :: bool

definition ts_mux_init :: ts_mux where
  "ts_mux_init = \<lparr>cc_pat = 0, cc_pmt = 0, cc_video = 0, cc_audio = 0, ts_audio = False\<rparr>"

definition PID_PAT :: u16 where "PID_PAT = 0x0000"
definition PID_PMT :: u16 where "PID_PMT = 0x1000"
definition PID_VIDEO :: u16 where "PID_VIDEO = 0x0100"
definition PID_AUDIO :: u16 where "PID_AUDIO = 0x0101"

lemmas pid_defs = PID_PAT_def PID_PMT_def PID_VIDEO_def PID_AUDIO_def

definition crc_bit :: "u32 \<Rightarrow> u32" where
  "crc_bit crc = (if crc AND 0x80000000 \<noteq> 0 then push_bit 1 crc XOR 0x04c11db7 else push_bit 1 crc)"

definition crc_byte :: "u32 \<Rightarrow> u8 \<Rightarrow> u32" where
  "crc_byte crc b = (crc_bit ^^ 8) (crc XOR push_bit 24 (ucast b))"

definition crc32_mpeg :: "bytes \<Rightarrow> u32" where
  "crc32_mpeg p = foldl crc_byte 0xffffffff p"

definition ts_header :: "u16 \<Rightarrow> bool \<Rightarrow> u8 \<Rightarrow> bytes" where
  "ts_header pid start cc =
     [0x47, (if start then 0x40 else 0x00) OR (ucast (drop_bit 8 pid) AND 0x1f), ucast (pid AND 0xff),
      0x10 OR (cc AND 0x0f)]"

definition cc_next :: "u8 \<Rightarrow> u8" where
  "cc_next cc = (cc + 1) AND 0x0f"

section \<open>Tables\<close>

definition psi :: "u16 \<Rightarrow> u8 \<Rightarrow> bytes \<Rightarrow> bytes" where
  "psi pid cc sec =
     (let pkt = blit (replicate 188 0xff) 0 (ts_header pid True cc);
          pkt = blit pkt 4 [0];
          pkt = blit pkt 5 sec
      in blit pkt (5 + length sec) (put32 (crc32_mpeg sec)))"

definition pat_section :: bytes where
  "pat_section = [0x00, 0xb0, 13, 0x00, 0x01, 0xc1, 0x00, 0x00, 0x00, 0x01,
     0xe0 OR ucast (drop_bit 8 PID_PMT), ucast (PID_PMT AND 0xff)]"

definition pmt_section :: "bool \<Rightarrow> bytes" where
  "pmt_section audio =
     (let pmt = [0x02, 0xb0, if audio then 33 else 18, 0x00, 0x01, 0xc1, 0x00, 0x00,
            0xe0 OR ucast (drop_bit 8 PID_VIDEO), ucast (PID_VIDEO AND 0xff), 0xf0, 0x00, 0x1b,
            0xe0 OR ucast (drop_bit 8 PID_VIDEO), ucast (PID_VIDEO AND 0xff), 0xf0, 0x00, 0x06,
            0xe0 OR ucast (drop_bit 8 PID_AUDIO), ucast (PID_AUDIO AND 0xff), 0xf0, 10,
            0x05, 4, 0x4f, 0x70, 0x75, 0x73, 0x7f, 2, 0x80, 2]
      in if audio then pmt else take (length pmt - 15) pmt)"

definition ts_tables :: "ts_mux \<Rightarrow> ts_mux \<times> bytes list" where
  "ts_tables m =
     (let pat = psi PID_PAT (cc_pat m) pat_section;
          m1 = m\<lparr>cc_pat := cc_next (cc_pat m)\<rparr>;
          pmt = psi PID_PMT (cc_pmt m1) (pmt_section (ts_audio m1))
      in (m1\<lparr>cc_pmt := cc_next (cc_pmt m1)\<rparr>, [pat, pmt]))"

section \<open>Packets of a PES\<close>

text \<open>The payload of a packet: the PES lead first, then the frame, as the copy loop takes them.\<close>

definition pes_payload :: "bytes \<Rightarrow> bytes \<Rightarrow> nat \<Rightarrow> nat \<Rightarrow> bytes" where
  "pes_payload lead data sent n =
     (if sent < length lead
      then let k = (if length lead - sent < n then length lead - sent else n)
           in segment lead sent k @ segment data (sent + k - length lead) (n - k)
      else segment data (sent - length lead) n)"

text \<open>The adaptation field of a packet with \<open>left\<close> bytes to go, and the room left for payload.\<close>

definition af_room :: "bool \<Rightarrow> nat \<Rightarrow> bool \<times> nat \<times> nat" where
  "af_room clock left =
     (let af = (if clock then 1 + 6 else 0);
          room = 188 - 4 - (if clock then 1 + af else 0)
      in if left < room
         then let pad = room - left in (True, if clock then af + pad else pad - 1, left)
         else (clock, af, room))"

definition pcr_bytes :: "u64 \<Rightarrow> bytes" where
  "pcr_bytes pcr = [ucast (drop_bit 25 pcr), ucast (drop_bit 17 pcr), ucast (drop_bit 9 pcr),
     ucast (drop_bit 1 pcr), ucast (push_bit 7 (pcr AND 1)) OR 0x7e, 0x00]"

definition af_bytes :: "bool \<Rightarrow> bool \<Rightarrow> u64 \<Rightarrow> nat \<Rightarrow> bytes" where
  "af_bytes clock keyframe pcr af =
     of_nat af #
     (if af > 0
      then let flags = (if clock then 0x10 OR (if keyframe then 0x40 else 0) else 0);
               used = (if clock then 1 + 6 else 1)
           in [flags] @ (if clock then pcr_bytes pcr else []) @ replicate (af - used) 0xff
      else [])"

definition pes_packet ::
    "u16 \<Rightarrow> u8 \<Rightarrow> bool \<Rightarrow> bytes \<Rightarrow> bytes \<Rightarrow> nat \<Rightarrow> u64 \<Rightarrow> bool \<Rightarrow> bytes \<times> nat" where
  "pes_packet pid cc first lead data sent pcr keyframe =
     (let clock = (first \<and> pid = PID_VIDEO);
          (has_af, af, room) = af_room clock (length lead + length data - sent);
          hdr = ts_header pid first cc;
          hdr = (if has_af then hdr[3 := hdr ! 3 OR 0x20] else hdr)
      in (hdr @ (if has_af then af_bytes clock keyframe pcr af else []) @ pes_payload lead data sent room,
          room))"

lemma af_room_pos: "0 < left \<Longrightarrow> 0 < snd (snd (af_room clock left))"
  by (simp add: af_room_def Let_def)

function pes_loop ::
    "u16 \<Rightarrow> u8 \<Rightarrow> bool \<Rightarrow> bytes \<Rightarrow> bytes \<Rightarrow> nat \<Rightarrow> u64 \<Rightarrow> bool \<Rightarrow> u8 \<times> bytes list" where
  "pes_loop pid cc first lead data sent pcr keyframe =
     (if sent < length lead + length data
      then let (pkt, room) = pes_packet pid cc first lead data sent pcr keyframe;
               (cc', pkts) = pes_loop pid (cc_next cc) False lead data (sent + room) pcr keyframe
           in (cc', pkt # pkts)
      else (cc, []))"
  by pat_completeness auto

termination
proof (relation "measure (\<lambda>(pid, cc, first, lead, data, sent, pcr, keyframe). length lead + length data - sent)",
       goal_cases)
  case (2 pid cc first lead data sent pcr keyframe x pkt room)
  have "room = snd (snd (af_room (first \<and> pid = PID_VIDEO) (length lead + length data - sent)))"
    using 2(2,3) by (auto simp: pes_packet_def Let_def case_prod_beta)
  then have "0 < room" using af_room_pos 2(1) by simp
  then show ?case using 2(1) by simp
qed simp

declare pes_loop.simps [simp del]

section \<open>Operations\<close>

definition pts_bytes :: "u64 \<Rightarrow> bytes" where
  "pts_bytes pts = [0x21 OR (ucast (drop_bit 29 pts) AND 0x0e), ucast (drop_bit 22 pts),
     0x01 OR (ucast (drop_bit 14 pts) AND 0xfe), ucast (drop_bit 7 pts),
     0x01 OR (ucast (push_bit 1 pts) AND 0xfe)]"

definition aud :: bytes where
  "aud = [0x00, 0x00, 0x00, 0x01, 0x09, 0xf0]"

definition video_lead :: "u64 \<Rightarrow> bytes" where
  "video_lead pts = [0x00, 0x00, 0x01, 0xe0, 0x00, 0x00, 0x80, 0x80, 5] @ pts_bytes pts @ aud"

definition mask33 :: u64 where
  "mask33 = 0x1ffffffff"

definition ts_mux_frame :: "ts_mux \<Rightarrow> bytes \<Rightarrow> u64 \<Rightarrow> bool \<Rightarrow> ts_mux \<times> bytes list" where
  "ts_mux_frame m data pts_90k keyframe =
     (let (m1, tabs) = (if keyframe then ts_tables m else (m, []));
          pts = (pts_90k + 63000) AND mask33;
          pcr = pts_90k AND mask33;
          (cc, pkts) = pes_loop PID_VIDEO (cc_video m1) True (video_lead pts) data 0 pcr keyframe
      in (m1\<lparr>cc_video := cc\<rparr>, tabs @ pkts))"

fun size_run :: "nat \<Rightarrow> bytes" where
  "size_run left = (if left < 255 then [of_nat left] else 0xff # size_run (left - 255))"

declare size_run.simps [simp del]

definition opus_lead :: "nat \<Rightarrow> u64 \<Rightarrow> bytes" where
  "opus_lead len pts =
     (let size_bytes = len div 255 + 1; pes_len = 3 + 5 + 2 + size_bytes + len
      in [0x00, 0x00, 0x01, 0xbd, of_nat (pes_len div 256), of_nat pes_len, 0x80, 0x80, 5] @ pts_bytes pts @
         [0x7f, 0xe0] @ size_run len)"

definition ts_mux_opus :: "ts_mux \<Rightarrow> bytes \<Rightarrow> u64 \<Rightarrow> ts_mux \<times> bytes list" where
  "ts_mux_opus m packet pts_90k =
     (if length packet = 0 \<or> length packet > 1275 then (m, [])
      else let pts = (pts_90k + 63000) AND mask33;
               (cc, pkts) = pes_loop PID_AUDIO (cc_audio m) True (opus_lead (length packet) pts) packet 0 0 False
           in (m\<lparr>cc_audio := cc\<rparr>, pkts))"

text \<open>A recording: the calls the recorder makes, in order.\<close>

datatype ts_op = Frame bytes u64 bool | Opus bytes u64

fun ts_call :: "ts_mux \<Rightarrow> ts_op \<Rightarrow> ts_mux \<times> bytes list" where
  "ts_call m (Frame data pts keyframe) = ts_mux_frame m data pts keyframe"
| "ts_call m (Opus packet pts) = ts_mux_opus m packet pts"

fun ts_run :: "ts_mux \<Rightarrow> ts_op list \<Rightarrow> ts_mux \<times> bytes list" where
  "ts_run m [] = (m, [])"
| "ts_run m (c # cs) =
     (let (m1, out) = ts_call m c; (m2, rest) = ts_run m1 cs in (m2, out @ rest))"

section \<open>A receiver\<close>

text \<open>
  What a demultiplexer does with a packet, written from the format and not from the muxer: check the
  sync byte and the size, read the PID and the continuity counter, skip the adaptation field.
\<close>

definition pkt_pid :: "bytes \<Rightarrow> u16" where
  "pkt_pid p = be16 (p ! 1 AND 0x1f) (p ! 2)"

definition pkt_start :: "bytes \<Rightarrow> bool" where
  "pkt_start p = bit (p ! 1) 6"

definition pkt_cc :: "bytes \<Rightarrow> u8" where
  "pkt_cc p = p ! 3 AND 0x0f"

definition pkt_payload :: "bytes \<Rightarrow> bytes" where
  "pkt_payload p = (if bit (p ! 3) 5 then drop (5 + unat (p ! 4)) p else drop 4 p)"

definition pkt_ok :: "bytes \<Rightarrow> bool" where
  "pkt_ok p \<longleftrightarrow> length p = 188 \<and> p ! 0 = 0x47 \<and> bit (p ! 3) 4 \<and> (bit (p ! 3) 5 \<longrightarrow> 5 + unat (p ! 4) \<le> 188)"

definition read_pts :: "bytes \<Rightarrow> u64" where
  "read_pts b = push_bit 29 (ucast (b ! 0 AND 0x0e)) OR push_bit 22 (ucast (b ! 1)) OR
     push_bit 14 (ucast (b ! 2 AND 0xfe)) OR push_bit 7 (ucast (b ! 3)) OR drop_bit 1 (ucast (b ! 4 AND 0xfe))"

definition read_pcr :: "bytes \<Rightarrow> u64" where
  "read_pcr b = push_bit 25 (ucast (b ! 0)) OR push_bit 17 (ucast (b ! 1)) OR push_bit 9 (ucast (b ! 2)) OR
     push_bit 1 (ucast (b ! 3)) OR ucast (drop_bit 7 (b ! 4))"

section \<open>One packet\<close>

lemma af_room_facts:
  assumes "af_room clock left = (has, af, room)" and "0 < left"
  shows "0 < room" and "room \<le> left" and "has \<Longrightarrow> af + room = 183" and "\<not> has \<Longrightarrow> room = 184"
    and "clock \<Longrightarrow> has \<and> 7 \<le> af"
  using assms by (auto simp: af_room_def Let_def split: if_splits)

lemma length_af_bytes: "(clock \<Longrightarrow> 7 \<le> af) \<Longrightarrow> length (af_bytes clock k pcr af) = af + 1"
  by (auto simp: af_bytes_def Let_def pcr_bytes_def)

lemma segment_append:
  "segment (xs @ ys) i n = (if i < length xs then segment xs i (min n (length xs - i)) @ segment ys 0 (n - (length xs - i))
                            else segment ys (i - length xs) n)"
  by (auto simp: segment_def min_def)

lemma pes_payload_segment: "sent + n \<le> length lead + length data \<Longrightarrow> pes_payload lead data sent n = segment (lead @ data) sent n"
  by (auto simp: pes_payload_def Let_def segment_append min_def)

lemma header_bits:
  "bit (0x10 OR (cc AND 0x0f) :: u8) 4" "\<not> bit (0x10 OR (cc AND 0x0f) :: u8) 5"
  "(0x10 OR (cc AND 0x0f)) AND 0x0f = (cc AND 0x0f :: u8)"
  "((0x10 OR (cc AND 0x0f)) OR 0x20) AND 0x0f = (cc AND 0x0f :: u8)"
  "bit ((0x10 OR (cc AND 0x0f)) OR 0x20 :: u8) 4" "bit ((0x10 OR (cc AND 0x0f)) OR 0x20 :: u8) 5"
  by (simp_all add: bit_simps bit.conj_disj_distrib2 and.assoc)

lemma header_start:
  "bit ((if start then 0x40 else 0x00) OR (h AND 0x1f) :: u8) 6 = start"
  "((if start then 0x40 else 0x00) OR (h AND 0x1f)) AND 0x1f = (h AND 0x1f :: u8)"
  "(0x40 OR (h AND 0x1f)) AND 0x1f = (h AND 0x1f :: u8)"
  "\<not> bit (h AND 0x1f :: u8) 6" "bit (0x40 OR (h AND 0x1f) :: u8) 6"
  by (auto simp: bit_simps bit.conj_disj_distrib2 and.assoc)

definition pid13 :: "u16 \<Rightarrow> bool" where
  "pid13 pid \<longleftrightarrow> be16 (ucast (drop_bit 8 pid) AND 0x1f) (ucast (pid AND 0xff)) = pid"

lemma pids_13: "pid13 PID_PAT" "pid13 PID_PMT" "pid13 PID_VIDEO" "pid13 PID_AUDIO"
  by (simp_all add: pid13_def pid_defs be16_def)

lemma pes_packet_shape:
  assumes "sent < length lead + length data" and "pes_packet pid cc first lead data sent pcr key = (p, room)"
  obtains af where "0 < room" "sent + room \<le> length lead + length data"
    "p = [0x47, (if first then 0x40 else 0x00) OR (ucast (drop_bit 8 pid) AND 0x1f), ucast (pid AND 0xff),
          0x10 OR (cc AND 0x0f)] @ segment (lead @ data) sent room \<and> room = 184 \<and> \<not> (first \<and> pid = PID_VIDEO) \<or>
     p = [0x47, (if first then 0x40 else 0x00) OR (ucast (drop_bit 8 pid) AND 0x1f), ucast (pid AND 0xff),
          (0x10 OR (cc AND 0x0f)) OR 0x20] @ af_bytes (first \<and> pid = PID_VIDEO) key pcr af @
         segment (lead @ data) sent room \<and> af + room = 183 \<and> (first \<and> pid = PID_VIDEO \<longrightarrow> 7 \<le> af)"
proof -
  let ?clock = "first \<and> pid = PID_VIDEO"
  obtain has af r where f: "af_room ?clock (length lead + length data - sent) = (has, af, r)"
    by (metis prod_cases3)
  have left: "0 < length lead + length data - sent" using assms(1) by simp
  note facts = af_room_facts [OF f left]
  have r: "r = room" using assms(2) f by (auto simp: pes_packet_def Let_def)
  have le: "sent + room \<le> length lead + length data" using facts(2) assms(1) r by simp
  show thesis
  proof (rule that [of af])
    show "0 < room" using facts(1) r by simp
    show "sent + room \<le> length lead + length data" by (rule le)
    show "p = [0x47, (if first then 0x40 else 0x00) OR (ucast (drop_bit 8 pid) AND 0x1f), ucast (pid AND 0xff),
          0x10 OR (cc AND 0x0f)] @ segment (lead @ data) sent room \<and> room = 184 \<and> \<not> (first \<and> pid = PID_VIDEO) \<or>
     p = [0x47, (if first then 0x40 else 0x00) OR (ucast (drop_bit 8 pid) AND 0x1f), ucast (pid AND 0xff),
          (0x10 OR (cc AND 0x0f)) OR 0x20] @ af_bytes (first \<and> pid = PID_VIDEO) key pcr af @
         segment (lead @ data) sent room \<and> af + room = 183 \<and> (first \<and> pid = PID_VIDEO \<longrightarrow> 7 \<le> af)"
      using assms(2) f facts(3-5) r pes_payload_segment [OF le]
      by (cases has) (auto simp: pes_packet_def Let_def ts_header_def)
  qed
qed

lemma drop_header:
  assumes "length bs = af + 1"
  shows "drop (5 + af) ([a, b, c, d] @ bs @ r) = r"
proof -
  have "length ([a, b, c, d] @ bs) = 5 + af" using assms by simp
  then show ?thesis by (metis append.assoc append_eq_conv_conj)
qed

lemma pes_packet_ok:
  assumes "sent < length lead + length data" and "pes_packet pid cc first lead data sent pcr key = (p, room)"
    and "pid13 pid"
  shows "0 < room" and "sent + room \<le> length lead + length data"
    and "pkt_ok p" and "pkt_pid p = pid" and "pkt_start p = first" and "pkt_cc p = cc AND 0x0f"
    and "pkt_payload p = segment (lead @ data) sent room"
    and "first \<and> pid = PID_VIDEO \<Longrightarrow> p ! 5 = 0x10 OR (if key then 0x40 else 0) \<and> take 6 (drop 6 p) = pcr_bytes pcr"
proof -
  obtain af where room: "0 < room" "sent + room \<le> length lead + length data" and p:
    "p = [0x47, (if first then 0x40 else 0x00) OR (ucast (drop_bit 8 pid) AND 0x1f), ucast (pid AND 0xff),
          0x10 OR (cc AND 0x0f)] @ segment (lead @ data) sent room \<and> room = 184 \<and> \<not> (first \<and> pid = PID_VIDEO) \<or>
     p = [0x47, (if first then 0x40 else 0x00) OR (ucast (drop_bit 8 pid) AND 0x1f), ucast (pid AND 0xff),
          (0x10 OR (cc AND 0x0f)) OR 0x20] @ af_bytes (first \<and> pid = PID_VIDEO) key pcr af @
         segment (lead @ data) sent room \<and> af + room = 183 \<and> (first \<and> pid = PID_VIDEO \<longrightarrow> 7 \<le> af)"
    using pes_packet_shape [OF assms(1,2)] by blast
  show "0 < room" "sent + room \<le> length lead + length data" by (fact room)+
  have seg: "length (segment (lead @ data) sent room) = room" using room by (simp add: length_segment)
  have af: "unat (of_nat af :: u8) = af" if "af + room = 183"
    using that by (simp add: unsigned_of_nat take_bit_nat_eq_self)
  have laf: "length (af_bytes (first \<and> pid = PID_VIDEO) key pcr af) = af + 1" if "first \<and> pid = PID_VIDEO \<longrightarrow> 7 \<le> af"
    using that by (intro length_af_bytes) simp
  have naf: "af_bytes (first \<and> pid = PID_VIDEO) key pcr af ! 0 = of_nat af" by (simp add: af_bytes_def)
  have four: "([a, b, c, d] @ af_bytes (first \<and> pid = PID_VIDEO) key pcr af @ r) ! 4 = of_nat af" for a b c d r
    by (simp add: af_bytes_def nth_append)
  show "pkt_ok p" using p
  proof (elim disjE conjE)
    assume h: "p = [0x47, (if first then 0x40 else 0x00) OR (ucast (drop_bit 8 pid) AND 0x1f), ucast (pid AND 0xff),
          (0x10 OR (cc AND 0x0f)) OR 0x20] @ af_bytes (first \<and> pid = PID_VIDEO) key pcr af @
         segment (lead @ data) sent room" "af + room = 183" "first \<and> pid = PID_VIDEO \<longrightarrow> 7 \<le> af"
    have "p ! 4 = of_nat af" unfolding h(1) by (rule four)
    then show ?thesis using h laf [OF h(3)] seg af [OF h(2)] header_bits by (simp add: pkt_ok_def)
  qed (use seg header_bits in \<open>simp add: pkt_ok_def\<close>)
  show "pkt_pid p = pid" using p assms(3) by (auto simp: pkt_pid_def header_start pid13_def)
  show "pkt_start p = first" using p by (auto simp: pkt_start_def header_start)
  show "pkt_cc p = cc AND 0x0f" using p by (auto simp: pkt_cc_def header_bits)
  show "pkt_payload p = segment (lead @ data) sent room" using p
  proof (elim disjE conjE)
    assume h: "p = [0x47, (if first then 0x40 else 0x00) OR (ucast (drop_bit 8 pid) AND 0x1f), ucast (pid AND 0xff),
          (0x10 OR (cc AND 0x0f)) OR 0x20] @ af_bytes (first \<and> pid = PID_VIDEO) key pcr af @
         segment (lead @ data) sent room" "af + room = 183" "first \<and> pid = PID_VIDEO \<longrightarrow> 7 \<le> af"
    have "p ! 4 = of_nat af" unfolding h(1) by (rule four)
    moreover have "drop (5 + af) p = segment (lead @ data) sent room" unfolding h(1) by (rule drop_header [OF laf [OF h(3)]])
    moreover have "bit (p ! 3) 5" using header_bits by (simp add: h(1))
    ultimately show ?thesis using af [OF h(2)] by (simp add: pkt_payload_def)
  qed (use header_bits in \<open>simp add: pkt_payload_def\<close>)
  show "p ! 5 = 0x10 OR (if key then 0x40 else 0) \<and> take 6 (drop 6 p) = pcr_bytes pcr" if "first \<and> pid = PID_VIDEO"
    using p that by (auto simp: af_bytes_def Let_def pcr_bytes_def)
qed

section \<open>A whole PES\<close>

lemma cc_next_low: "cc_next cc AND 0x0f = cc_next cc"
  by (simp add: cc_next_def and.assoc)

lemma pes_loop_stop: "\<not> sent < length lead + length data \<Longrightarrow> pes_loop pid cc first lead data sent pcr key = (cc, [])"
  by (subst pes_loop.simps) simp

text \<open>
  The receiver's view of the packets of a PES: all well formed, on the PID, only the first one with
  the start flag, continuity counters counting up from \<open>cc\<close>, payloads that join to \<open>data\<close>.
\<close>

fun cc_chain :: "u8 \<Rightarrow> bytes list \<Rightarrow> u8 option" where
  "cc_chain cc [] = Some cc"
| "cc_chain cc (p # ps) = (if pkt_cc p = cc AND 0x0f then cc_chain (cc_next cc) ps else None)"

definition carries :: "u16 \<Rightarrow> bool \<Rightarrow> bytes list \<Rightarrow> bytes \<Rightarrow> bool" where
  "carries pid first ps data \<longleftrightarrow>
     list_all (\<lambda>p. pkt_ok p \<and> pkt_pid p = pid) ps \<and>
     map pkt_start ps = map (\<lambda>i. first \<and> i = 0) [0..<length ps] \<and>
     concat (map pkt_payload ps) = data"

lemma carries_Cons:
  assumes "pkt_ok p" "pkt_pid p = pid" "pkt_start p = first" "pkt_payload p = a" "carries pid False ps b"
  shows "carries pid first (p # ps) (a @ b)"
proof -
  have "map (\<lambda>i. first \<and> i = 0) [0..<length (p # ps)] = first # map (\<lambda>i. False) [0..<length ps]"
    unfolding length_Cons upt_conv_Cons [OF zero_less_Suc] by (simp add: map_Suc_upt [symmetric] del: map_Suc_upt upt_Suc)
  then show ?thesis using assms by (simp add: carries_def)
qed

lemma pes_loop_carries:
  assumes "pes_loop pid cc first lead data sent pcr key = (cc', ps)" and "pid13 pid"
  shows "carries pid first ps (drop sent (lead @ data)) \<and> cc_chain cc ps = Some cc' \<and>
    (ps \<noteq> [] \<and> first \<and> pid = PID_VIDEO \<longrightarrow>
       hd ps ! 5 = 0x10 OR (if key then 0x40 else 0) \<and> take 6 (drop 6 (hd ps)) = pcr_bytes pcr)"
  using assms
proof (induction pid cc first lead data sent pcr key arbitrary: ps cc' rule: pes_loop.induct)
  case (1 pid cc first lead data sent pcr key)
  show ?case
  proof (cases "sent < length lead + length data")
    case True
    obtain p room where p: "pes_packet pid cc first lead data sent pcr key = (p, room)" by fastforce
    obtain cc1 qs where q: "pes_loop pid (cc_next cc) False lead data (sent + room) pcr key = (cc1, qs)" by fastforce
    have r: "cc1 = cc'" "ps = p # qs"
      using "1.prems"(1) True by (subst (asm) pes_loop.simps, simp add: p q)+
    note ok = pes_packet_ok [OF True p "1.prems"(2)]
    note IH = "1.IH" [OF True p [symmetric] refl q "1.prems"(2)]
    have "drop sent (lead @ data) = segment (lead @ data) sent room @ drop (sent + room) (lead @ data)"
      unfolding segment_def by (metis append_take_drop_id drop_drop add.commute)
    then have "carries pid first ps (drop sent (lead @ data))"
      using carries_Cons [OF ok(3-5) ok(7)] IH by (simp add: r)
    moreover have "cc_chain cc ps = Some cc'" using ok(6) IH by (simp add: r)
    ultimately show ?thesis using ok(8) by (simp add: r)
  qed (use "1.prems"(1) in \<open>simp add: pes_loop_stop carries_def\<close>)
qed

section \<open>Clocks\<close>

lemma mask33_bit: "bit (x AND mask33) n \<longleftrightarrow> n < 33 \<and> bit x n"
proof -
  have m: "mask33 = mask 33" by (simp add: mask33_def mask_eq_exp_minus_1)
  have "bit mask33 n \<longleftrightarrow> n < 33" unfolding m by (subst Bit_Operations.bit_mask_iff) auto
  then show ?thesis by (auto simp: bit_and_iff)
qed

lemma read_pts_low: "list_all (\<lambda>n. bit (read_pts (pts_bytes p @ r)) n = bit p n) [0..<33]"
  by (simp add: read_pts_def pts_bytes_def numeral_upt bit_simps bit_times2 numeral_2_eq_2 [symmetric])

lemma read_pts_high: "list_all (\<lambda>n. \<not> bit (read_pts (pts_bytes p @ r)) n) [33..<64]"
  by (simp add: read_pts_def pts_bytes_def bit_simps)

lemma read_pts_bytes: "read_pts (pts_bytes (p AND mask33) @ r) = p AND mask33"
proof (rule bit_word_eqI)
  fix n
  assume "n < LENGTH(64)"
  then show "bit (read_pts (pts_bytes (p AND mask33) @ r)) n = bit (p AND mask33) n"
    using list_all_upt [OF read_pts_low, of n "p AND mask33" r] list_all_upt [OF read_pts_high, of n "p AND mask33" r]
    by (cases "n < 33") (auto simp: mask33_bit)
qed

lemma read_pcr_low: "list_all (\<lambda>n. bit (read_pcr (pcr_bytes p)) n = bit p n) [0..<33]"
  by (simp add: read_pcr_def pcr_bytes_def numeral_upt bit_simps bit_times2 numeral_2_eq_2 [symmetric])

lemma read_pcr_high: "list_all (\<lambda>n. \<not> bit (read_pcr (pcr_bytes p)) n) [33..<64]"
  by (simp add: read_pcr_def pcr_bytes_def bit_simps bit_times2)

lemma read_pcr_bytes: "read_pcr (pcr_bytes (p AND mask33)) = p AND mask33"
proof (rule bit_word_eqI)
  fix n
  assume "n < LENGTH(64)"
  then show "bit (read_pcr (pcr_bytes (p AND mask33))) n = bit (p AND mask33) n"
    using list_all_upt [OF read_pcr_low, of n "p AND mask33"] list_all_upt [OF read_pcr_high, of n "p AND mask33"]
    by (cases "n < 33") (auto simp: mask33_bit)
qed

section \<open>Tables are well formed\<close>

lemma drop5: "drop (5 + n) (x # xs) = drop (4 + n) xs"
  by (simp add: eval_nat_numeral)

lemma psi_shape:
  assumes "length sec \<le> 179"
  shows "psi pid cc sec = ts_header pid True cc @ [0] @ sec @ put32 (crc32_mpeg sec) @ replicate (179 - length sec) 0xff"
  using assms by (simp add: psi_def Let_def blit_def ts_header_def drop5)

lemma psi_ok:
  assumes "length sec \<le> 179" and "pid13 pid"
  shows "pkt_ok (psi pid cc sec)" and "pkt_pid (psi pid cc sec) = pid" and "pkt_cc (psi pid cc sec) = cc AND 0x0f"
  using assms header_bits
  by (simp_all add: psi_shape pkt_ok_def pkt_pid_def pkt_cc_def ts_header_def header_start pid13_def)

lemma section_lengths: "length pat_section = 12" "length (pmt_section a) = (if a then 32 else 17)"
  by (simp_all add: pat_section_def pmt_section_def Let_def)

lemma ts_tables_out:
  "ts_tables m = (m\<lparr>cc_pat := cc_next (cc_pat m), cc_pmt := cc_next (cc_pmt m)\<rparr>,
     [psi PID_PAT (cc_pat m) pat_section, psi PID_PMT (cc_pmt m) (pmt_section (ts_audio m))])"
  by (simp add: ts_tables_def Let_def)

lemmas table_ok =
  psi_ok [of pat_section PID_PAT, OF _ pids_13(1)] psi_ok [of "pmt_section a" PID_PMT for a, OF _ pids_13(2)]

lemma filter_pid: "list_all (\<lambda>p. pkt_ok p \<and> pkt_pid p = pid) ps \<Longrightarrow>
    filter (\<lambda>p. pkt_pid p = pid') ps = (if pid = pid' then ps else [])"
  by (induction ps) auto

lemma carries_pids: "carries pid first ps d \<Longrightarrow> list_all (\<lambda>p. pkt_ok p \<and> pkt_pid p = pid) ps"
  by (simp add: carries_def)

text \<open>The packets a frame makes: the tables in front of a keyframe, then the video's.\<close>

lemma ts_mux_frame_out:
  obtains ps cc where
    "ts_mux_frame m data pts key =
       ((if key then fst (ts_tables m) else m)\<lparr>cc_video := cc\<rparr>, (if key then snd (ts_tables m) else []) @ ps)"
    "carries PID_VIDEO True ps (video_lead ((pts + 63000) AND mask33) @ data)"
    "cc_chain (cc_video m) ps = Some cc" "ps \<noteq> []"
    "hd ps ! 5 = 0x10 OR (if key then 0x40 else 0)" "take 6 (drop 6 (hd ps)) = pcr_bytes (pts AND mask33)"
proof -
  let ?lead = "video_lead ((pts + 63000) AND mask33)"
  obtain cc ps where l: "pes_loop PID_VIDEO (cc_video m) True ?lead data 0 (pts AND mask33) key = (cc, ps)" by fastforce
  note c = pes_loop_carries [OF l pids_13(3)]
  have "ps \<noteq> []"
    using c by (auto simp: carries_def video_lead_def)
  moreover have "cc_video (fst (ts_tables m)) = cc_video m" by (simp add: ts_tables_out)
  moreover have "ts_mux_frame m data pts key =
      ((if key then fst (ts_tables m) else m)\<lparr>cc_video := cc\<rparr>, (if key then snd (ts_tables m) else []) @ ps)"
    using l by (cases key) (simp_all add: ts_mux_frame_def ts_tables_out Let_def)
  ultimately show thesis using that c by simp
qed

lemma table_pids:
  "list_all (\<lambda>p. pkt_ok p \<and> pkt_pid p \<noteq> PID_VIDEO \<and> pkt_pid p \<noteq> PID_AUDIO) (snd (ts_tables m))"
  using table_ok section_lengths by (simp add: ts_tables_out pid_defs)

lemma filter_tables: "pid = PID_VIDEO \<or> pid = PID_AUDIO \<Longrightarrow> filter (\<lambda>p. pkt_pid p = pid) (snd (ts_tables m)) = []"
  using table_pids [of m] by (auto simp: filter_empty_conv list_all_iff)

lemma start_flags: "map (\<lambda>i. True \<and> i = 0) [0..<n] = (if n = 0 then [] else True # replicate (n - 1) False)"
  by (rule nth_equalityI) (auto simp: nth_Cons split: nat.split)

lemma video_lead_parts:
  "take 4 (video_lead p @ d) = [0, 0, 1, 0xe0]" "drop 9 (video_lead p @ d) = pts_bytes p @ aud @ d"
  "drop 14 (video_lead p @ d) = aud @ d"
  by (simp_all add: video_lead_def pts_bytes_def)

text \<open>
  C9. A frame arrives as it was sent: every packet is a valid transport packet of 188 bytes; the
  packets on the video PID, put together by a receiver that only knows the format, are the PES header
  of a video stream, an access unit delimiter and the frame's bytes, with the start flag on the first
  packet only; the presentation time read back is the frame's time plus the lead, the clock read from
  the first packet is the frame's time, both modulo 2^33, and the random access flag marks exactly
  the keyframes.
\<close>

theorem ts_frame_demux:
  "let out = snd (ts_mux_frame m data pts key);
       ps = filter (\<lambda>p. pkt_pid p = PID_VIDEO) out;
       es = concat (map pkt_payload ps)
   in list_all pkt_ok out \<and>
      map pkt_start ps = True # replicate (length ps - 1) False \<and>
      take 4 es = [0, 0, 1, 0xe0] \<and> drop 14 es = aud @ data \<and>
      read_pts (drop 9 es) = (pts + 63000) AND mask33 \<and>
      read_pcr (take 6 (drop 6 (hd ps))) = pts AND mask33 \<and>
      bit (hd ps ! 5) 6 = key"
proof -
  obtain ps cc where f: "ts_mux_frame m data pts key =
       ((if key then fst (ts_tables m) else m)\<lparr>cc_video := cc\<rparr>, (if key then snd (ts_tables m) else []) @ ps)"
    and c: "carries PID_VIDEO True ps (video_lead ((pts + 63000) AND mask33) @ data)"
    and n: "ps \<noteq> []" "hd ps ! 5 = 0x10 OR (if key then 0x40 else 0)"
      "take 6 (drop 6 (hd ps)) = pcr_bytes (pts AND mask33)"
    by (rule ts_mux_frame_out)
  have vid: "filter (\<lambda>p. pkt_pid p = PID_VIDEO) (snd (ts_mux_frame m data pts key)) = ps"
    using filter_tables filter_pid [OF carries_pids [OF c]] by (simp add: f)
  have es: "concat (map pkt_payload ps) = video_lead ((pts + 63000) AND mask33) @ data"
    and ok: "list_all pkt_ok ps" and st: "map pkt_start ps = True # replicate (length ps - 1) False"
    using c n(1) start_flags [of "length ps"] by (auto simp: carries_def list_all_iff)
  have "list_all pkt_ok (snd (ts_mux_frame m data pts key))"
    using ok table_pids [of m] by (auto simp: f list_all_iff)
  moreover have "bit (hd ps ! 5) 6 = key" by (simp add: n(2) bit_simps)
  ultimately show ?thesis
    unfolding Let_def vid es video_lead_parts n(3)
    using st read_pcr_bytes read_pts_bytes by simp
qed

section \<open>Sound\<close>

text \<open>A receiver reads the size of an Opus packet from the control header: 255s and a smaller byte.\<close>

fun read_size :: "bytes \<Rightarrow> (nat \<times> bytes) option" where
  "read_size [] = None"
| "read_size (b # r) = (if b = 0xff then map_option (\<lambda>(n, r). (n + 255, r)) (read_size r) else Some (unat b, r))"

lemma read_size_run: "read_size (size_run n @ r) = Some (n, r)"
proof (induction n rule: size_run.induct)
  case (1 n)
  show ?case
  proof (cases "n < 255")
    case True
    have u: "unat (of_nat n :: u8) = n" using True by (simp add: unsigned_of_nat take_bit_nat_eq_self)
    moreover have "of_nat n \<noteq> (0xff :: u8)"
    proof
      assume "of_nat n = (0xff :: u8)"
      then have "n = unat (0xff :: u8)" using u by simp
      then show False using True by simp
    qed
    ultimately show ?thesis using True by (subst size_run.simps) simp
  next
    case False
    then show ?thesis using 1 by (subst size_run.simps) simp
  qed
qed

lemma size_run_length: "length (size_run n) = n div 255 + 1"
proof (induction n rule: size_run.induct)
  case (1 n)
  then show ?case by (subst size_run.simps) (auto simp: le_div_geq not_less)
qed

lemma opus_lead_parts:
  "take 4 (opus_lead n p @ d) = [0, 0, 1, 0xbd]"
  "(opus_lead n p @ d) ! 4 = of_nat ((3 + 5 + 2 + (n div 255 + 1) + n) div 256)"
  "(opus_lead n p @ d) ! 5 = of_nat (3 + 5 + 2 + (n div 255 + 1) + n)"
  "drop 9 (opus_lead n p @ d) = pts_bytes p @ [0x7f, 0xe0] @ size_run n @ d"
  "drop 14 (opus_lead n p @ d) = [0x7f, 0xe0] @ size_run n @ d"
  "length (opus_lead n p) = 16 + (n div 255 + 1)"
  by (simp_all add: opus_lead_def pts_bytes_def Let_def size_run_length)

text \<open>
  An Opus packet of a permitted size arrives as it was sent: valid packets on the audio PID, the
  start flag on the first only, which carry a private PES stream whose length field is the number of
  bytes that follow it, whose time is the packet's time plus the lead modulo 2^33, and whose control
  header names the packet's size; any other size is ignored and changes nothing.
\<close>

theorem ts_opus_demux:
  "if 0 < length packet \<and> length packet \<le> 1275
   then let ps = snd (ts_mux_opus m packet pts); es = concat (map pkt_payload ps)
        in list_all (\<lambda>p. pkt_ok p \<and> pkt_pid p = PID_AUDIO) ps \<and>
           map pkt_start ps = True # replicate (length ps - 1) False \<and>
           take 4 es = [0, 0, 1, 0xbd] \<and> unat (be16 (es ! 4) (es ! 5)) = length es - 6 \<and>
           read_pts (drop 9 es) = (pts + 63000) AND mask33 \<and>
           take 2 (drop 14 es) = [0x7f, 0xe0] \<and> read_size (drop 16 es) = Some (length packet, packet)
   else ts_mux_opus m packet pts = (m, [])"
proof (cases "0 < length packet \<and> length packet \<le> 1275")
  case True
  let ?n = "length packet" let ?lead = "opus_lead ?n ((pts + 63000) AND mask33)"
  obtain cc ps where l: "pes_loop PID_AUDIO (cc_audio m) True ?lead packet 0 0 False = (cc, ps)" by fastforce
  have out: "snd (ts_mux_opus m packet pts) = ps" using True l by (auto simp: ts_mux_opus_def Let_def)
  have c: "carries PID_AUDIO True ps (?lead @ packet)" using pes_loop_carries [OF l pids_13(4)] by simp
  have es: "concat (map pkt_payload ps) = ?lead @ packet" using c by (simp add: carries_def)
  have "ps \<noteq> []" using es True by auto
  then have st: "map pkt_start ps = True # replicate (length ps - 1) False"
    using c start_flags [of "length ps"] by (simp add: carries_def)
  have "drop 16 (?lead @ packet) = drop 2 (drop 14 (?lead @ packet))"
    unfolding drop_drop by simp
  also have "\<dots> = size_run ?n @ packet" unfolding opus_lead_parts by simp
  finally have d16: "drop 16 (?lead @ packet) = size_run ?n @ packet" .
  let ?l = "3 + 5 + 2 + (?n div 255 + 1) + ?n"
  have "?n div 255 \<le> 1275 div 255" using True by (intro div_le_mono) simp
  then have "unat (be16 (of_nat (?l div 256)) (of_nat ?l)) = ?l" using True by (intro unat_be16_nat) simp
  moreover have "length (?lead @ packet) - 6 = ?l" by (simp add: opus_lead_parts(6))
  ultimately have len: "unat (be16 ((?lead @ packet) ! 4) ((?lead @ packet) ! 5)) = length (?lead @ packet) - 6"
    unfolding opus_lead_parts by simp
  have t: "take 2 (drop 14 (?lead @ packet)) = [0x7f, 0xe0]" unfolding opus_lead_parts by simp
  show ?thesis
    unfolding Let_def out es d16 len t
    using True carries_pids [OF c] st read_pts_bytes read_size_run opus_lead_parts(1,4) by (simp del: drop_append take_append)
next
  case False
  then have "length packet = 0 \<or> length packet > 1275" by linarith
  then show ?thesis using False by (auto simp: ts_mux_opus_def)
qed

section \<open>Continuity\<close>

lemma cc_chain_append: "cc_chain cc (ps @ qs) = (case cc_chain cc ps of None \<Rightarrow> None | Some c \<Rightarrow> cc_chain c qs)"
  by (induction ps arbitrary: cc) auto

text \<open>The counter the state keeps for a PID.\<close>

definition cc_of :: "u16 \<Rightarrow> ts_mux \<Rightarrow> u8" where
  "cc_of pid m = (if pid = PID_PAT then cc_pat m else if pid = PID_PMT then cc_pmt m
                  else if pid = PID_VIDEO then cc_video m else cc_audio m)"

definition ts_pids :: "u16 set" where
  "ts_pids = {PID_PAT, PID_PMT, PID_VIDEO, PID_AUDIO}"

lemma pid_distinct [simp]:
  "PID_PAT \<noteq> PID_PMT" "PID_PAT \<noteq> PID_VIDEO" "PID_PAT \<noteq> PID_AUDIO" "PID_PMT \<noteq> PID_PAT" "PID_PMT \<noteq> PID_VIDEO"
  "PID_PMT \<noteq> PID_AUDIO" "PID_VIDEO \<noteq> PID_PAT" "PID_VIDEO \<noteq> PID_PMT" "PID_VIDEO \<noteq> PID_AUDIO"
  "PID_AUDIO \<noteq> PID_PAT" "PID_AUDIO \<noteq> PID_PMT" "PID_AUDIO \<noteq> PID_VIDEO"
  by (simp_all add: pid_defs)

lemma tables_continue:
  "pid \<in> ts_pids \<Longrightarrow> cc_chain (cc_of pid m) (filter (\<lambda>p. pkt_pid p = pid) (snd (ts_tables m))) = Some (cc_of pid (fst (ts_tables m)))"
  using table_ok section_lengths by (auto simp: ts_tables_out ts_pids_def cc_of_def)

lemma frame_continues:
  assumes "pid \<in> ts_pids"
  shows "cc_chain (cc_of pid m) (filter (\<lambda>p. pkt_pid p = pid) (snd (ts_mux_frame m data pts key))) =
         Some (cc_of pid (fst (ts_mux_frame m data pts key)))"
proof -
  obtain ps cc where f: "ts_mux_frame m data pts key =
       ((if key then fst (ts_tables m) else m)\<lparr>cc_video := cc\<rparr>, (if key then snd (ts_tables m) else []) @ ps)"
    and c: "carries PID_VIDEO True ps (video_lead ((pts + 63000) AND mask33) @ data)"
    and ch: "cc_chain (cc_video m) ps = Some cc"
    by (rule ts_mux_frame_out)
  have v: "cc_video (fst (ts_tables m)) = cc_video m" by (simp add: ts_tables_out)
  have fl: "filter (\<lambda>p. pkt_pid p = pid) ps = (if PID_VIDEO = pid then ps else [])"
    using filter_pid [OF carries_pids [OF c]] .
  show ?thesis
    using tables_continue [OF assms, of m] assms ch v
    by (auto simp: f fl cc_chain_append cc_of_def ts_pids_def split: if_splits)
qed

lemma opus_continues:
  assumes "pid \<in> ts_pids"
  shows "cc_chain (cc_of pid m) (filter (\<lambda>p. pkt_pid p = pid) (snd (ts_mux_opus m packet pts))) =
         Some (cc_of pid (fst (ts_mux_opus m packet pts)))"
proof (cases "length packet = 0 \<or> length packet > 1275")
  case False
  let ?lead = "opus_lead (length packet) ((pts + 63000) AND mask33)"
  obtain cc ps where l: "pes_loop PID_AUDIO (cc_audio m) True ?lead packet 0 0 False = (cc, ps)" by fastforce
  have o: "ts_mux_opus m packet pts = (m\<lparr>cc_audio := cc\<rparr>, ps)" using False l by (simp add: ts_mux_opus_def Let_def)
  have c: "carries PID_AUDIO True ps (?lead @ packet)" and ch: "cc_chain (cc_audio m) ps = Some cc"
    using pes_loop_carries [OF l pids_13(4)] by simp_all
  show ?thesis
    using filter_pid [OF carries_pids [OF c], of pid] assms ch
    by (auto simp: o cc_of_def ts_pids_def)
qed (auto simp: ts_mux_opus_def)

lemma run_continues:
  "pid \<in> ts_pids \<Longrightarrow> cc_chain (cc_of pid m) (filter (\<lambda>p. pkt_pid p = pid) (snd (ts_run m cs))) = Some (cc_of pid (fst (ts_run m cs)))"
proof (induction cs arbitrary: m)
  case (Cons c cs)
  have "cc_chain (cc_of pid m) (filter (\<lambda>p. pkt_pid p = pid) (snd (ts_call m c))) = Some (cc_of pid (fst (ts_call m c)))"
    using frame_continues opus_continues Cons.prems by (cases c) auto
  then show ?case using Cons.IH [OF Cons.prems, of "fst (ts_call m c)"] by (simp add: case_prod_beta Let_def cc_chain_append)
qed simp

lemma cc_next_nat: "cc_next (of_nat (k mod 16)) = of_nat (Suc k mod 16)"
proof -
  have "list_all (\<lambda>j. cc_next (of_nat j) = of_nat (Suc j mod 16)) [0..<16]" by code_simp
  then have "cc_next (of_nat (k mod 16)) = of_nat (Suc (k mod 16) mod 16)" by (rule list_all_upt) simp_all
  then show ?thesis by (simp only: mod_Suc_eq)
qed

lemma cc_low_nat: "(of_nat (k mod 16) :: u8) AND 0x0f = of_nat (k mod 16)"
proof -
  have "list_all (\<lambda>j. (of_nat j :: u8) AND 0x0f = of_nat j) [0..<16]" by code_simp
  then show ?thesis by (rule list_all_upt) simp_all
qed

lemma cc_chain_counts:
  "cc_chain (of_nat (k mod 16)) ps = Some c \<Longrightarrow> map pkt_cc ps = map (\<lambda>i. of_nat ((k + i) mod 16)) [0..<length ps]"
proof (induction ps arbitrary: k)
  case (Cons p ps)
  have p: "pkt_cc p = of_nat (k mod 16)" and r: "cc_chain (of_nat (Suc k mod 16)) ps = Some c"
    using Cons.prems by (simp_all add: cc_next_nat cc_low_nat split: if_splits)
  show ?case
    using Cons.IH [OF r] by (simp add: p map_upt_Suc del: upt_Suc)
qed simp

lemma call_pids: "list_all (\<lambda>p. pkt_ok p \<and> pkt_pid p \<in> ts_pids) (snd (ts_call m c))"
proof (cases c)
  case (Frame data pts key)
  obtain ps cc where f: "ts_mux_frame m data pts key =
       ((if key then fst (ts_tables m) else m)\<lparr>cc_video := cc\<rparr>, (if key then snd (ts_tables m) else []) @ ps)"
    and c: "carries PID_VIDEO True ps (video_lead ((pts + 63000) AND mask33) @ data)" by (rule ts_mux_frame_out)
  show ?thesis
    using carries_pids [OF c] table_ok section_lengths
    by (auto simp: Frame f ts_tables_out ts_pids_def list_all_iff)
next
  case (Opus packet pts)
  show ?thesis using ts_opus_demux [of packet m pts]
    by (auto simp: Opus Let_def ts_pids_def list_all_iff split: if_splits)
qed

lemma run_pids: "list_all (\<lambda>p. pkt_ok p \<and> pkt_pid p \<in> ts_pids) (snd (ts_run m cs))"
  by (induction cs arbitrary: m) (use call_pids in \<open>simp_all add: case_prod_beta Let_def\<close>)

text \<open>
  C10. Continuity over a whole recording, whatever frames and sound packets it is made of and however
  they interleave: every packet is valid and on one of the four PIDs, and the packets of each PID
  count 0, 1, ..., 15, 0, 1, ... without a gap.
\<close>

theorem ts_continuity:
  fixes pid :: u16
  defines "pids \<equiv> {PID_PAT, PID_PMT, PID_VIDEO, PID_AUDIO}"
  shows "let out = snd (ts_run (ts_mux_init\<lparr>ts_audio := audio\<rparr>) ops);
             ps = filter (\<lambda>p. pkt_pid p = pid) out
         in list_all (\<lambda>p. pkt_ok p \<and> pkt_pid p \<in> pids) out \<and>
            map pkt_cc ps = map (\<lambda>i. of_nat (i mod 16)) [0..<length ps]"
proof -
  let ?m = "ts_mux_init\<lparr>ts_audio := audio\<rparr>"
  let ?out = "snd (ts_run ?m ops)"
  let ?ps = "filter (\<lambda>p. pkt_pid p = pid) ?out"
  have ok: "list_all (\<lambda>p. pkt_ok p \<and> pkt_pid p \<in> pids) ?out" using run_pids by (simp add: pids_def ts_pids_def)
  have "map pkt_cc ?ps = map (\<lambda>i. of_nat ((0 + i) mod 16)) [0..<length ?ps]"
  proof (cases "pid \<in> ts_pids")
    case True
    have "cc_of pid ?m = of_nat (0 mod 16)" by (simp add: cc_of_def ts_mux_init_def)
    then show ?thesis using run_continues [OF True, of ?m ops] cc_chain_counts [of 0] by metis
  next
    case False
    then have "?ps = []" using run_pids [of ?m ops] by (auto simp: filter_empty_conv list_all_iff)
    then show ?thesis by simp
  qed
  then show ?thesis using ok by (simp add: Let_def)
qed

section \<open>The checksum of the tables\<close>

lemma crc_shift:
  assumes "drop_bit 24 x = 0" and "k \<le> 8"
  shows "(crc_bit ^^ k) x = push_bit k x"
  using assms(2)
proof (induction k)
  case (Suc k)
  have "\<not> bit x (31 - k)"
  proof
    assume "bit x (31 - k)"
    then have "bit (drop_bit 24 x) (7 - k)" using Suc.prems by (simp add: bit_drop_bit_eq)
    then show False by (simp add: assms(1))
  qed
  then have "\<not> bit (push_bit k x) 31" using Suc.prems by (simp add: bit_push_bit_iff)
  then have "push_bit k x AND 0x80000000 = 0"
    using and_exp_eq_0_iff_not_bit [of "push_bit k x" 31] by simp
  then show ?case using Suc by (simp add: crc_bit_def push_bit_push_bit)
qed simp

lemma crc_own_byte: "crc_byte c (ucast (drop_bit 24 c)) = push_bit 8 c"
proof -
  let ?x = "c XOR push_bit 24 (ucast (ucast (drop_bit 24 c) :: u8))"
  have "drop_bit 24 ?x = 0"
    by (rule bit_word_eqI) (auto simp: bit_simps dest: bit_imp_le_length)
  then have "crc_byte c (ucast (drop_bit 24 c)) = push_bit 8 ?x"
    using crc_shift [of ?x 8] by (simp add: crc_byte_def)
  also have "\<dots> = push_bit 8 c"
    by (rule bit_word_eqI) (auto simp: bit_simps)
  finally show ?thesis .
qed

lemma crc_residue: "crc32_mpeg (sec @ put32 (crc32_mpeg sec)) = 0"
proof -
  define v where "v = crc32_mpeg sec"
  have top: "ucast (drop_bit 24 (push_bit k v)) = (ucast (drop_bit (24 - k) v) :: u8)" if "k \<le> 24" for k
    using that by (intro bit_word_eqI) (auto simp: bit_simps)
  have own: "crc_byte (push_bit k v) (ucast (drop_bit (24 - k) v)) = push_bit (8 + k) v" if "k \<le> 24" for k
    using crc_own_byte [of "push_bit k v"] top [OF that] by (simp add: push_bit_push_bit)
  have "foldl crc_byte v (put32 v) = 0"
    using own [of 0] own [of 8] own [of 16] own [of 24]
    by (simp add: put32_def)
  then show ?thesis by (simp add: crc32_mpeg_def v_def)
qed

definition read_section :: "bytes \<Rightarrow> bytes" where
  "read_section p = take (3 + unat (be16 (p ! 6 AND 0x0f) (p ! 7))) (drop 5 p)"

lemma read_section_psi:
  assumes "length sec \<le> 179" and "3 \<le> length sec"
    and "unat (be16 (sec ! 1 AND 0x0f) (sec ! 2)) = length sec + 1"
  shows "read_section (psi pid cc sec) = sec @ put32 (crc32_mpeg sec)"
proof -
  obtain a b c r where s: "sec = a # b # c # r" using assms(2) by (auto simp: numeral_eq_Suc Suc_le_length_iff)
  have "psi pid cc sec ! 6 = sec ! 1" "psi pid cc sec ! 7 = sec ! 2"
    using assms(1) unfolding s by (subst psi_shape, simp, simp add: ts_header_def)+
  moreover have "drop 5 (psi pid cc sec) = (sec @ put32 (crc32_mpeg sec)) @ replicate (179 - length sec) 0xff"
    using assms(1) by (subst psi_shape) (simp_all add: ts_header_def)
  ultimately show ?thesis using assms(3) unfolding read_section_def by simp
qed

lemma pat_size: "unat (be16 (pat_section ! 1 AND 0x0f) (pat_section ! 2)) = length pat_section + 1"
  by code_simp

lemma pmt_size: "unat (be16 (pmt_section a ! 1 AND 0x0f) (pmt_section a ! 2)) = length (pmt_section a) + 1"
  by (cases a; simp only:; code_simp)

text \<open>
  A receiver can start at any keyframe: a keyframe's packets begin with the program association
  and program map tables, each of them a section whose declared length takes in its checksum, over
  which the MPEG CRC is zero; the first table names the PID of the second, and the second names the
  H.264 stream on the video PID and, when there is sound, the private stream on the audio PID.
\<close>

theorem ts_keyframe_tables:
  "let ps = take 2 (snd (ts_mux_frame m data pts True));
       pat = read_section (ps ! 0);
       pmt = read_section (ps ! 1)
   in map pkt_pid ps = [PID_PAT, PID_PMT] \<and> map crc32_mpeg [pat, pmt] = [0, 0] \<and>
      be16 (pat ! 10 AND 0x1f) (pat ! 11) = PID_PMT \<and>
      pmt ! 12 = 0x1b \<and> be16 (pmt ! 13 AND 0x1f) (pmt ! 14) = PID_VIDEO \<and>
      length pmt = (if ts_audio m then 36 else 21) \<and>
      (if ts_audio m then pmt ! 17 = 0x06 \<and> be16 (pmt ! 18 AND 0x1f) (pmt ! 19) = PID_AUDIO else True)"
proof -
  have ps: "take 2 (snd (ts_mux_frame m data pts True)) =
     [psi PID_PAT (cc_pat m) pat_section, psi PID_PMT (cc_pmt m) (pmt_section (ts_audio m))]"
    by (simp add: ts_mux_frame_def ts_tables_out Let_def case_prod_beta)
  have secs: "read_section (psi PID_PAT (cc_pat m) pat_section) = pat_section @ put32 (crc32_mpeg pat_section)"
    "read_section (psi PID_PMT (cc_pmt m) (pmt_section a)) = pmt_section a @ put32 (crc32_mpeg (pmt_section a))" for a
    using section_lengths pat_size pmt_size by (intro read_section_psi; simp)+
  have fields: "be16 (pat_section ! 10 AND 0x1f) (pat_section ! 11) = PID_PMT"
    "pmt_section a ! 12 = 0x1b" "be16 (pmt_section a ! 13 AND 0x1f) (pmt_section a ! 14) = PID_VIDEO"
    "be16 (pmt_section True ! 18 AND 0x1f) (pmt_section True ! 19) = PID_AUDIO" "pmt_section True ! 17 = 0x06" for a
    by (simp_all add: pat_section_def pmt_section_def pid_defs be16_def Let_def)
  show ?thesis
    unfolding Let_def ps
    using table_ok section_lengths fields
    by (cases "ts_audio m") (simp_all add: secs crc_residue nth_append)
qed

end
