(* ===== verification/Rtp_H264.thy ===== *)
theory Rtp_H264
  imports Prelude
begin

text \<open>
  components/kvm_webrtc/rtp_h264.c: an encoded H.264 frame (Annex B) into RTP packets. The emitter,
  a callback that may refuse a packet (the link is full), is a function \<open>refuse\<close> of the packets
  emitted so far and the new one; the packets handed to it, the refused one included, are the last
  component of the result, and the code's -1 is \<open>None\<close>.
\<close>

section \<open>The code\<close>

record rtp_h264 =
  rt_ssrc :: u32
  rt_seq :: u16
  rt_pt :: u8
  rt_max_payload :: nat
  rt_playout_ext :: u8

function next_start :: "bytes \<Rightarrow> nat \<Rightarrow> nat \<times> nat" where
  "next_start p i =
     (if i + 3 \<le> length p
      then if p ! i = 0 \<and> p ! (i + 1) = 0 \<and> p ! (i + 2) = 1 then (i, 3)
           else if p ! i = 0 \<and> p ! (i + 1) = 0 \<and> i + 4 \<le> length p \<and> p ! (i + 2) = 0 \<and> p ! (i + 3) = 1 then (i, 4)
           else next_start p (i + 1)
      else (length p, 0))"
  by pat_completeness auto
termination by (relation "measure (\<lambda>(p, i). length p - i)") auto

declare next_start.simps [simp del]

definition rtp_header :: "rtp_h264 \<Rightarrow> bool \<Rightarrow> u32 \<Rightarrow> bytes \<times> rtp_h264" where
  "rtp_header st marker ts =
     (let b = [if rt_playout_ext st \<noteq> 0 then 0x90 else 0x80,
               (if marker then 0x80 else 0) OR (rt_pt st AND 0x7f)] @ put16 (rt_seq st) @ put32 ts @ put32 (rt_ssrc st);
          st' = st\<lparr>rt_seq := rt_seq st + 1\<rparr>
      in if rt_playout_ext st = 0 then (b, st')
         else (b @ [0xbe, 0xde, 0, 1, push_bit 4 (rt_playout_ext st) OR 2, 0, 0, 0], st'))"

type_synonym refuse = "bytes list \<Rightarrow> bytes \<Rightarrow> bool"

text \<open>
  The fragments of a unit whose bytes after the header byte are \<open>rest\<close>. The guard on the payload
  size is the one \<open>rtp_h264_send\<close> starts with: without it the C loop would not end.
\<close>

function fu_loop ::
    "refuse \<Rightarrow> u8 \<Rightarrow> bool \<Rightarrow> u32 \<Rightarrow> bytes \<Rightarrow> bool \<Rightarrow> rtp_h264 \<Rightarrow> bytes list \<Rightarrow> bool \<times> rtp_h264 \<times> bytes list" where
  "fu_loop refuse nal_hdr fin ts rest first st out =
     (if rest = [] \<or> rt_max_payload st < 3 then (True, st, out)
      else let chunk = rt_max_payload st - 2;
               n = (if length rest > chunk then chunk else length rest);
               end_frag = (n \<ge> length rest);
               (h, st1) = rtp_header st (fin \<and> end_frag) ts;
               indicator = (nal_hdr AND 0xe0) OR 28;
               fu = (if first then 0x80 else 0) OR (if end_frag then 0x40 else 0) OR (nal_hdr AND 0x1f);
               pkt = h @ [indicator, fu] @ take n rest
           in if refuse out pkt then (False, st1, out @ [pkt])
              else fu_loop refuse nal_hdr fin ts (drop n rest) False st1 (out @ [pkt]))"
  by pat_completeness auto
termination by (relation "measure (\<lambda>(refuse, nal_hdr, fin, ts, rest, first, st, out). length rest)") auto

declare fu_loop.simps [simp del]

definition send_unit ::
    "refuse \<Rightarrow> u32 \<Rightarrow> bytes \<Rightarrow> bool \<Rightarrow> rtp_h264 \<Rightarrow> bytes list \<Rightarrow> bool \<times> rtp_h264 \<times> bytes list" where
  "send_unit refuse ts nal fin st out =
     (if nal = [] then (True, st, out)
      else if hd nal AND 0x1f = 9 then (True, st, out)
      else if length nal \<le> rt_max_payload st
      then let (h, st1) = rtp_header st fin ts; pkt = h @ nal
           in (\<not> refuse out pkt, st1, out @ [pkt])
      else fu_loop refuse (hd nal) fin ts (tl nal) True st out)"

text \<open>A unit starts behind its start code and ends where the next one begins, less trailing zeros.\<close>

definition unit_at :: "bytes \<Rightarrow> nat \<Rightarrow> nat \<Rightarrow> bytes" where
  "unit_at au nal nal_end =
     (let u = segment au nal (nal_end - nal)
      in if nal_end < length au then rev (dropWhile (\<lambda>b. b = 0) (rev u)) else u)"

lemma next_start_bounds:
  "next_start p i = (j, sc) \<Longrightarrow> (j < length p \<longrightarrow> i \<le> j \<and> (sc = 3 \<or> sc = 4) \<and> j + sc \<le> length p) \<and> j \<le> length p"
  by (induction p i rule: next_start.induct, subst (asm) (2) next_start.simps) (auto split: if_splits)

function nal_loop ::
    "refuse \<Rightarrow> u32 \<Rightarrow> bytes \<Rightarrow> nat \<Rightarrow> rtp_h264 \<Rightarrow> bytes list \<Rightarrow> bool \<times> rtp_h264 \<times> bytes list" where
  "nal_loop refuse ts au nal st out =
     (let (e, sc) = next_start au nal;
          (ok, st1, out1) = send_unit refuse ts (unit_at au nal e) (e \<ge> length au) st out
      in if \<not> ok then (False, st1, out1)
         else if e < length au then nal_loop refuse ts au (e + sc) st1 out1
         else (True, st1, out1))"
  by pat_completeness auto
termination
proof (relation "measure (\<lambda>(refuse, ts, au, nal, st, out). length au - nal)", goal_cases)
  case (2 refuse ts au nal st out x e sc)
  then show ?case using next_start_bounds [of au nal e sc] by auto
qed simp

declare nal_loop.simps [simp del]

definition rtp_h264_send :: "refuse \<Rightarrow> rtp_h264 \<Rightarrow> bytes \<Rightarrow> u32 \<Rightarrow> nat option \<times> rtp_h264 \<times> bytes list" where
  "rtp_h264_send refuse st au ts =
     (if rt_max_payload st < 3 then (None, st, [])
      else let (at, sc) = next_start au 0
           in if at < length au
              then let (ok, st1, out) = nal_loop refuse ts au (at + sc) st []
                   in (if ok then Some (length out) else None, st1, out)
              else (Some 0, st, []))"

section \<open>What a frame sends when nothing is refused\<close>

definition never :: refuse where
  "never out pkt = False"

text \<open>A receiver (RFC 3550 and RFC 6184): the fields of a packet, and its units put together.\<close>

definition pkt_info :: "bytes \<Rightarrow> u16 \<times> u32 \<times> u32 \<times> u8 \<times> bool" where
  "pkt_info p = (be16 (p ! 2) (p ! 3), be32 (p ! 4) (p ! 5) (p ! 6) (p ! 7), be32 (p ! 8) (p ! 9) (p ! 10) (p ! 11),
     p ! 1 AND 0x7f, bit (p ! 1) 7)"

definition rtp_payload :: "bytes \<Rightarrow> bytes" where
  "rtp_payload p = (if bit (p ! 0) 4 then drop (16 + 4 * unat (be16 (p ! 14) (p ! 15))) p else drop 12 p)"

definition depack :: "bytes list \<times> bytes \<Rightarrow> bytes \<Rightarrow> bytes list \<times> bytes" where
  "depack s p =
     (let (units, cur) = s; pl = rtp_payload p in
      if hd pl AND 0x1f = 28
      then let fu = pl ! 1;
               cur = (if bit fu 7 then [(hd pl AND 0xe0) OR (fu AND 0x1f)] else cur) @ drop 2 pl
           in (if bit fu 6 then (units @ [cur], []) else (units, cur))
      else (units @ [pl], cur))"

definition rtp_advance :: "rtp_h264 \<Rightarrow> nat \<Rightarrow> rtp_h264" where
  "rtp_advance st n = st\<lparr>rt_seq := rt_seq st + of_nat n\<rparr>"

fun infos :: "rtp_h264 \<Rightarrow> u32 \<Rightarrow> bool list \<Rightarrow> (u16 \<times> u32 \<times> u32 \<times> u8 \<times> bool) list" where
  "infos st ts [] = []"
| "infos st ts (m # ms) = (rt_seq st, ts, rt_ssrc st, rt_pt st AND 0x7f, m) # infos (rtp_advance st 1) ts ms"

lemma rtp_advance_0 [simp]: "rtp_advance st 0 = st"
  by (simp add: rtp_advance_def)

lemma rtp_advance_add [simp]: "rtp_advance (rtp_advance st m) n = rtp_advance st (m + n)"
  by (simp add: rtp_advance_def algebra_simps)

lemma rtp_advance_fields [simp]:
  "rt_max_payload (rtp_advance st n) = rt_max_payload st" "rt_playout_ext (rtp_advance st n) = rt_playout_ext st"
  by (simp_all add: rtp_advance_def)

lemma infos_append: "infos st ts (a @ b) = infos st ts a @ infos (rtp_advance st (length a)) ts b"
  by (induction a arbitrary: st) simp_all

definition header_len :: "rtp_h264 \<Rightarrow> nat" where
  "header_len st = (if rt_playout_ext st = 0 then 12 else 20)"

text \<open>The header of one packet, as the receiver reads it.\<close>

lemma rtp_header_reads:
  assumes "rtp_header st m ts = (h, st')"
  shows "st' = rtp_advance st 1" and "length h = header_len st"
    and "pkt_info (h @ r) = (rt_seq st, ts, rt_ssrc st, rt_pt st AND 0x7f, m)"
    and "rtp_payload (h @ r) = r"
proof -
  show "st' = rtp_advance st 1" "length h = header_len st"
    using assms by (auto simp: rtp_header_def Let_def rtp_advance_def header_len_def split: if_splits)
  have pt: "(0x80 OR (rt_pt st AND 0x7f)) AND 0x7f = rt_pt st AND 0x7f" "bit (0x80 OR (rt_pt st AND 0x7f)) 7"
    "\<not> bit (rt_pt st AND 0x7f) 7"
    by (simp_all add: bit_simps bit.conj_disj_distrib2 and.assoc)
  show "pkt_info (h @ r) = (rt_seq st, ts, rt_ssrc st, rt_pt st AND 0x7f, m)"
    using assms pt
    by (auto simp: rtp_header_def Let_def pkt_info_def put16_def put32_def be16_put16 be32_put32 split: if_splits)
  have b: "bit (0x90 :: u8) 4" "\<not> bit (0x80 :: u8) 4" "be16 0 1 = 1" by (simp_all add: be16_def)
  show "rtp_payload (h @ r) = r"
    using assms b by (auto simp: rtp_header_def Let_def rtp_payload_def put16_def put32_def split: if_splits)
qed

text \<open>What a run of packets is to the receiver, relative to the sender's state before it.\<close>

definition sends :: "rtp_h264 \<Rightarrow> u32 \<Rightarrow> bool list \<Rightarrow> bytes list \<Rightarrow> bool" where
  "sends st ts marks pkts \<longleftrightarrow> map pkt_info pkts = infos st ts marks \<and> length marks = length pkts \<and>
     list_all (\<lambda>p. length p \<le> header_len st + rt_max_payload st) pkts"

lemma sends_append:
  "sends st ts m1 p1 \<Longrightarrow> sends (rtp_advance st (length p1)) ts m2 p2 \<Longrightarrow> sends st ts (m1 @ m2) (p1 @ p2)"
  by (auto simp: sends_def infos_append header_len_def)

lemma fu_bits:
  "((h AND 0xe0) OR 28) AND 0x1f = (28 :: u8)" "(((h AND 0xe0) OR 28) AND 0xe0) = (h AND 0xe0 :: u8)"
  "bit ((if f then 0x80 else 0) OR (if e then 0x40 else 0) OR (h AND 0x1f) :: u8) 7 = f"
  "bit ((if f then 0x80 else 0) OR (if e then 0x40 else 0) OR (h AND 0x1f) :: u8) 6 = e"
  "((if f then 0x80 else 0) OR (if e then 0x40 else 0) OR (h AND 0x1f) :: u8) AND 0x1f = h AND 0x1f"
  "(h AND 0xe0) OR (h AND 0x1f) = (h :: u8)"
proof -
  have "(0xff :: u8) = -1" by simp
  then have "h AND 0xff = h" by (simp only: and.right_neutral)
  then show "(h AND 0xe0) OR (h AND 0x1f) = h" by (simp flip: bit.conj_disj_distrib)
qed (auto simp: bit_simps bit.conj_disj_distrib2 and.assoc)

lemma fu_loop_never:
  assumes "3 \<le> rt_max_payload st" and "rest \<noteq> []"
  shows "\<exists>pkts. fu_loop never hdr fin ts rest first st out = (True, rtp_advance st (length pkts), out @ pkts) \<and>
     pkts \<noteq> [] \<and> sends st ts (replicate (length pkts - 1) False @ [fin]) pkts \<and>
     foldl depack (units, if first then c else hdr # c) pkts = (units @ [hdr # (if first then [] else c) @ rest], [])"
  using assms
proof (induction "length rest" arbitrary: rest first st out c rule: less_induct)
  case less
  define chunk where "chunk = rt_max_payload st - 2"
  define n where "n = (if length rest > chunk then chunk else length rest)"
  define e where "e = (n \<ge> length rest)"
  obtain h st1 where h: "rtp_header st (fin \<and> e) ts = (h, st1)" by fastforce
  define ind where "ind = (hdr AND 0xe0) OR 28"
  define fu where "fu = (if first then 0x80 else 0) OR (if e then 0x40 else 0) OR (hdr AND 0x1f)"
  define pkt where "pkt = h @ [ind, fu] @ take n rest"
  note hr = rtp_header_reads [OF h]
  have step: "fu_loop never hdr fin ts rest first st out = fu_loop never hdr fin ts (drop n rest) False st1 (out @ [pkt])"
    using less.prems h by (subst fu_loop.simps) (simp add: Let_def never_def chunk_def [symmetric] n_def [symmetric]
        e_def [symmetric] pkt_def ind_def fu_def)
  have chunk: "1 \<le> chunk" using less.prems by (simp add: chunk_def)
  have len: "length pkt \<le> header_len st + rt_max_payload st"
  proof -
    have "n \<le> chunk" by (simp add: n_def)
    moreover have "length (take n rest) \<le> n" by simp
    ultimately show ?thesis using hr(2) less.prems(1) unfolding pkt_def chunk_def by (simp del: length_take)
  qed
  have one: "sends st ts [fin \<and> e] [pkt]" using hr(3) len by (simp add: sends_def pkt_def)
  have dp: "depack (units, cc) pkt =
    (let cur = (if first then [hdr] else cc) @ take n rest in if e then (units @ [cur], []) else (units, cur))" for cc
  proof -
    have f: "bit fu 7 = first" "bit fu 6 = e" "fu AND 0x1f = hdr AND 0x1f" "ind AND 0x1f = 28" "ind AND 0xe0 = hdr AND 0xe0"
      using fu_bits by (simp_all only: fu_def ind_def)
    have "rtp_payload pkt = [ind, fu] @ take n rest" unfolding pkt_def by (rule hr(4))
    then show ?thesis by (simp add: depack_def Let_def f fu_bits(6))
  qed
  show ?case
  proof (cases e)
    case True
    then have d: "drop n rest = []" "take n rest = rest" by (simp_all add: e_def)
    have "fu_loop never hdr fin ts rest first st out = (True, rtp_advance st 1, out @ [pkt])"
      unfolding step d by (subst fu_loop.simps) (simp add: hr(1))
    then show ?thesis
      using one dp True d(2) by (intro exI [of _ "[pkt]"]) (auto simp: Let_def)
  next
    case False
    then have d: "drop n rest \<noteq> []" "length (drop n rest) < length rest" "n = chunk"
      using chunk by (auto simp: e_def n_def)
    obtain pkts where IH: "fu_loop never hdr fin ts (drop n rest) False st1 (out @ [pkt]) =
        (True, rtp_advance st1 (length pkts), (out @ [pkt]) @ pkts)" "pkts \<noteq> []"
      "sends st1 ts (replicate (length pkts - 1) False @ [fin]) pkts"
      "foldl depack (units, hdr # ((if first then [] else c) @ take n rest)) pkts =
         (units @ [hdr # ((if first then [] else c) @ take n rest) @ drop n rest], [])"
      using less.hyps [OF d(2), of st1 False "out @ [pkt]" "(if first then [] else c) @ take n rest"] d(1) less.prems(1) hr(1)
      by (auto simp del: append_assoc)
    have m: "[False] @ replicate (length pkts - 1) False @ [fin] = replicate (length (pkt # pkts) - 1) False @ [fin]"
      using IH(2) by (cases pkts) simp_all
    have "sends st ts ([False] @ replicate (length pkts - 1) False @ [fin]) ([pkt] @ pkts)"
      using one False IH(3) hr(1) by (intro sends_append) simp_all
    then have "sends st ts (replicate (length (pkt # pkts) - 1) False @ [fin]) (pkt # pkts)"
      unfolding m by simp
    moreover have "depack (units, if first then c else hdr # c) pkt = (units, hdr # ((if first then [] else c) @ take n rest))"
      using dp False by simp
    ultimately show ?thesis
      using IH(1,4) step hr(1) by (intro exI [of _ "pkt # pkts"]) simp
  qed
qed

text \<open>A unit: nothing for an empty one and for an access unit delimiter, else its packets.\<close>

definition is_sent :: "bytes \<Rightarrow> bool" where
  "is_sent nal \<longleftrightarrow> nal \<noteq> [] \<and> hd nal AND 0x1f \<noteq> 9"

lemma send_unit_skip: "\<not> is_sent nal \<Longrightarrow> send_unit refuse ts nal fin st out = (True, st, out)"
  by (auto simp: send_unit_def is_sent_def)

lemma send_unit_never:
  assumes "3 \<le> rt_max_payload st" and "is_sent nal" and "hd nal AND 0x1f \<noteq> 28"
  shows "\<exists>pkts. send_unit never ts nal fin st out = (True, rtp_advance st (length pkts), out @ pkts) \<and>
     pkts \<noteq> [] \<and> sends st ts (replicate (length pkts - 1) False @ [fin]) pkts \<and>
     foldl depack (units, []) pkts = (units @ [nal], [])"
proof (cases "length nal \<le> rt_max_payload st")
  case True
  obtain h st1 where h: "rtp_header st fin ts = (h, st1)" by fastforce
  note hr = rtp_header_reads [OF h]
  have s: "send_unit never ts nal fin st out = (True, rtp_advance st 1, out @ [h @ nal])"
    using assms True h hr(1) by (simp add: send_unit_def is_sent_def never_def)
  have "sends st ts [fin] [h @ nal]" using hr(2,3) True by (simp add: sends_def)
  moreover have "depack (units, []) (h @ nal) = (units @ [nal], [])"
    using hr(4) assms(3) by (simp add: depack_def Let_def)
  ultimately show ?thesis using s by (intro exI [of _ "[h @ nal]"]) simp
next
  case False
  then have "tl nal \<noteq> []" using assms(1) by (cases nal) auto
  from fu_loop_never [OF assms(1) this, of "hd nal" fin ts True out units "[]"]
  show ?thesis using False assms(2) by (auto simp: send_unit_def is_sent_def)
qed

section \<open>Finding the units\<close>

text \<open>The start codes as the scanner sees them in the rest of the buffer.\<close>

lemma next_start_shift:
  "next_start (xs @ ys) (length xs + k) = (length xs + fst (next_start ys k), snd (next_start ys k))"
proof (induction ys k rule: next_start.induct)
  case (1 ys k)
  show ?case
    by (subst (1 2 3) next_start.simps) (use 1 in \<open>auto simp: nth_append add.assoc [symmetric]\<close>)
qed

lemma next_start_Cons:
  assumes "length r < 2 \<or> \<not> (b = 0 \<and> r ! 0 = 0 \<and> (r ! 1 = 1 \<or> 3 \<le> length r \<and> r ! 1 = 0 \<and> r ! 2 = 1))"
  shows "next_start (b # r) 0 = (Suc (fst (next_start r 0)), snd (next_start r 0))"
proof -
  have "next_start (b # r) (length [b] + 0) = (length [b] + fst (next_start r 0), snd (next_start r 0))"
    using next_start_shift [of "[b]" r 0] by simp
  moreover have "next_start (b # r) 0 = next_start (b # r) 1"
  proof (cases "2 \<le> length r")
    case True
    then show ?thesis
      using assms by (subst next_start.simps) (auto simp: nth_Cons' numeral_2_eq_2 [symmetric])
  next
    case False
    then show ?thesis by (simp add: next_start.simps [of "b # r" 0] next_start.simps [of "b # r" "Suc 0"])
  qed
  ultimately show ?thesis by simp
qed

text \<open>A unit with no start code in it that does not end in a zero (RFC 6184, H.264 annex B).\<close>

fun no_code :: "bytes \<Rightarrow> bool" where
  "no_code (a # b # c # r) = (\<not> (a = 0 \<and> b = 0 \<and> c = 1) \<and> no_code (b # c # r))"
| "no_code _ = True"

definition start_code :: "bool \<Rightarrow> bytes" where
  "start_code long = (if long then [0, 0, 0, 1] else [0, 0, 1])"

lemma no_code_tl: "no_code (a # r) \<Longrightarrow> no_code r"
  by (cases r rule: no_code.cases) auto

lemma next_start_at_code: "next_start (start_code long @ r) 0 = (0, length (start_code long))"
  by (subst next_start.simps) (simp add: start_code_def)

lemma next_start_unit:
  "no_code n \<Longrightarrow> n \<noteq> [] \<Longrightarrow> last n \<noteq> 0 \<Longrightarrow> next_start (n @ start_code long @ r) 0 = (length n, length (start_code long))"
proof (induction n)
  case (Cons b n)
  let ?r = "n @ start_code long @ r"
  have "next_start (b # ?r) 0 = (Suc (fst (next_start ?r 0)), snd (next_start ?r 0))"
  proof (rule next_start_Cons, cases n)
    case Nil
    then show "length ?r < 2 \<or> \<not> (b = 0 \<and> ?r ! 0 = 0 \<and> (?r ! 1 = 1 \<or> 3 \<le> length ?r \<and> ?r ! 1 = 0 \<and> ?r ! 2 = 1))"
      using Cons.prems by simp
  next
    case (Cons c m)
    then show "length ?r < 2 \<or> \<not> (b = 0 \<and> ?r ! 0 = 0 \<and> (?r ! 1 = 1 \<or> 3 \<le> length ?r \<and> ?r ! 1 = 0 \<and> ?r ! 2 = 1))"
      using Cons.prems by (cases m; cases "tl m") (auto simp: start_code_def)
  qed
  moreover have "next_start ?r 0 = (length n, length (start_code long))"
    using Cons no_code_tl [OF Cons.prems(1)] next_start_at_code by (cases n) auto
  ultimately show ?case by simp
qed simp

lemma next_start_none: "no_code n \<Longrightarrow> next_start n 0 = (length n, 0)"
proof (induction n)
  case (Cons b n)
  have "next_start (b # n) 0 = (Suc (fst (next_start n 0)), snd (next_start n 0))"
    by (rule next_start_Cons) (use Cons.prems in \<open>cases n rule: no_code.cases; auto\<close>)
  then show ?case using Cons no_code_tl [OF Cons.prems] by simp
qed (simp add: next_start.simps)

section \<open>A whole frame\<close>

definition annexb :: "(bool \<times> bytes) list \<Rightarrow> bytes" where
  "annexb us = concat (map (\<lambda>(long, n). start_code long @ n) us)"

definition unit_ok :: "bytes \<Rightarrow> bool" where
  "unit_ok n \<longleftrightarrow> no_code n \<and> n \<noteq> [] \<and> last n \<noteq> 0 \<and> hd n AND 0x1f \<noteq> 28"

definition frame_marks :: "bool \<Rightarrow> nat \<Rightarrow> bool list" where
  "frame_marks m n = (if m then replicate (n - 1) False @ [True] else replicate n False)"

lemma start_code_len [simp]: "length (start_code long) = (if long then 4 else 3)" "start_code long \<noteq> []"
  by (simp_all add: start_code_def)

lemma next_start_pre:
  assumes "unit_ok n"
  shows "next_start (pre @ n @ annexb us) (length pre) =
     (length pre + length n, case us of [] \<Rightarrow> 0 | u # _ \<Rightarrow> length (start_code (fst u)))"
proof -
  have "next_start (n @ annexb us) 0 = (length n, case us of [] \<Rightarrow> 0 | u # _ \<Rightarrow> length (start_code (fst u)))"
  proof (cases us)
    case Nil
    then show ?thesis using assms next_start_none by (simp add: annexb_def unit_ok_def)
  next
    case (Cons u vs)
    then show ?thesis
      using assms next_start_unit [of n "fst u" "snd u @ annexb vs"] by (simp add: annexb_def unit_ok_def case_prod_beta)
  qed
  then show ?thesis using next_start_shift [of pre "n @ annexb us" 0] by simp
qed

lemma unit_at_pre:
  assumes "unit_ok n"
  shows "unit_at (pre @ n @ r) (length pre) (length pre + length n) = n"
proof -
  have "segment (pre @ n @ r) (length pre) (length n) = n" by (simp add: segment_def)
  moreover have "dropWhile (\<lambda>b. b = 0) (rev n) = rev n"
    using assms by (cases "rev n") (auto simp: unit_ok_def hd_rev [symmetric])
  ultimately show ?thesis by (simp add: unit_at_def)
qed

lemma sends_Nil: "sends st ts [] []"
  by (simp add: sends_def)

text \<open>One unit, sent or skipped.\<close>

lemma unit_run:
  assumes "unit_ok n" and "3 \<le> rt_max_payload st"
  shows "\<exists>pkts. send_unit never ts n fin st out = (True, rtp_advance st (length pkts), out @ pkts) \<and>
     foldl depack (units, []) pkts = (units @ filter is_sent [n], []) \<and>
     (pkts = []) = (\<not> is_sent n) \<and> sends st ts (frame_marks (fin \<and> is_sent n) (length pkts)) pkts"
proof (cases "is_sent n")
  case True
  then obtain pkts where "send_unit never ts n fin st out = (True, rtp_advance st (length pkts), out @ pkts)"
    "pkts \<noteq> []" "sends st ts (replicate (length pkts - 1) False @ [fin]) pkts" "foldl depack (units, []) pkts = (units @ [n], [])"
    using send_unit_never [OF assms(2) True, of ts fin out units] assms(1) unfolding unit_ok_def by blast
  moreover have "replicate (length pkts - 1) False @ [fin] = frame_marks fin (length pkts)" if "pkts \<noteq> []"
    using that by (cases pkts) (auto simp: frame_marks_def replicate_append_same)
  ultimately show ?thesis using True by auto
next
  case False
  then show ?thesis using send_unit_skip [OF False] by (intro exI [of _ "[]"]) (simp add: frame_marks_def sends_Nil)
qed

lemma nal_loop_run:
  assumes "unit_ok n" and "list_all (unit_ok \<circ> snd) us" and "3 \<le> rt_max_payload st"
  shows "\<exists>pkts. nal_loop never ts (pre @ n @ annexb us) (length pre) st out =
       (True, rtp_advance st (length pkts), out @ pkts) \<and>
     foldl depack (units, []) pkts = (units @ filter is_sent (n # map snd us), []) \<and>
     (is_sent (last (n # map snd us)) \<longrightarrow> pkts \<noteq> []) \<and>
     sends st ts (frame_marks (is_sent (last (n # map snd us))) (length pkts)) pkts"
  using assms
proof (induction us arbitrary: pre n st out units)
  case Nil
  obtain p1 where p1: "send_unit never ts n True st out = (True, rtp_advance st (length p1), out @ p1)"
     "foldl depack (units, []) p1 = (units @ filter is_sent [n], [])"
     "(p1 = []) = (\<not> is_sent n)" "sends st ts (frame_marks (True \<and> is_sent n) (length p1)) p1"
    using unit_run [OF Nil.prems(1,3)] by blast
  have "nal_loop never ts (pre @ n @ annexb []) (length pre) st out = (True, rtp_advance st (length p1), out @ p1)"
    using next_start_pre [OF Nil.prems(1), of pre "[]"] unit_at_pre [OF Nil.prems(1), of pre "[]"] p1(1)
    by (subst nal_loop.simps) (simp add: annexb_def)
  then show ?case using p1 by (intro exI [of _ p1]) auto
next
  case (Cons u us)
  obtain long m where u: "u = (long, m)" by fastforce
  let ?code = "start_code long"
  obtain p1 where p1: "send_unit never ts n False st out = (True, rtp_advance st (length p1), out @ p1)"
     "foldl depack (units, []) p1 = (units @ filter is_sent [n], [])"
     "sends st ts (frame_marks (False \<and> is_sent n) (length p1)) p1"
    using unit_run [OF Cons.prems(1,3)] by blast
  let ?pre = "pre @ n @ ?code"
  have au: "pre @ n @ annexb (u # us) = ?pre @ m @ annexb us" by (simp add: annexb_def u)
  have e: "length pre + length n < length (pre @ n @ annexb (u # us))" by (simp add: annexb_def u)
  have step: "nal_loop never ts (pre @ n @ annexb (u # us)) (length pre) st out =
      nal_loop never ts (?pre @ m @ annexb us) (length ?pre) (rtp_advance st (length p1)) (out @ p1)"
    using next_start_pre [OF Cons.prems(1), of pre "u # us"] unit_at_pre [OF Cons.prems(1), of pre "annexb (u # us)"] p1(1) e
    unfolding au [symmetric] by (subst nal_loop.simps) (simp add: u add.assoc)
  obtain p2 where p2: "nal_loop never ts (?pre @ m @ annexb us) (length ?pre) (rtp_advance st (length p1)) (out @ p1) =
       (True, rtp_advance (rtp_advance st (length p1)) (length p2), (out @ p1) @ p2)"
     "foldl depack (units @ filter is_sent [n], []) p2 = ((units @ filter is_sent [n]) @ filter is_sent (m # map snd us), [])"
     "is_sent (last (m # map snd us)) \<longrightarrow> p2 \<noteq> []"
     "sends (rtp_advance st (length p1)) ts (frame_marks (is_sent (last (m # map snd us))) (length p2)) p2"
    using Cons.IH [of m "rtp_advance st (length p1)" ?pre "out @ p1" "units @ filter is_sent [n]"] Cons.prems u
    by (auto simp del: filter.simps last.simps append_assoc)
  let ?m = "is_sent (last (m # map snd us))"
  have marks: "frame_marks False (length p1) @ frame_marks ?m (length p2) = frame_marks ?m (length (p1 @ p2))"
    using p2(3) by (cases p2) (auto simp: frame_marks_def replicate_add replicate_append_same)
  have "sends st ts (frame_marks False (length p1) @ frame_marks ?m (length p2)) (p1 @ p2)"
    using p1(3) p2(4) by (intro sends_append) simp_all
  then have "sends st ts (frame_marks ?m (length (p1 @ p2))) (p1 @ p2)" unfolding marks .
  moreover have "last (n # map snd (u # us)) = last (m # map snd us)" by (simp add: u)
  ultimately show ?case
    using p1(2) p2(1-3) step by (intro exI [of _ "p1 @ p2"]) (auto simp: u)
qed

text \<open>
  C14. A frame sent over RTP arrives as it was: for an Annex-B frame of units with either start code,
  none of which contains a start code or ends in a zero, and a link that takes every packet, the
  receiver puts together exactly the units - fragmented or not - less the access unit delimiters; the
  result is the number of packets; none exceeds the header and \<open>max_payload\<close>; their sequence numbers
  run on from the state's modulo 2^16; and the marker is on the last packet alone, or on none when the
  frame ends in a delimiter.
\<close>

theorem rtp_frame_arrives:
  assumes "us \<noteq> []" and "list_all (unit_ok \<circ> snd) us" and "3 \<le> rt_max_payload st"
  shows "case rtp_h264_send never st (annexb us) ts of (res, st', pkts) \<Rightarrow>
     foldl depack ([], []) pkts = (filter (\<lambda>n. hd n AND 0x1f \<noteq> 9) (map snd us), []) \<and>
     res = Some (length pkts) \<and> st' = rtp_advance st (length pkts) \<and>
     list_all (\<lambda>p. length p \<le> header_len st + rt_max_payload st) pkts \<and>
     map pkt_info pkts = infos st ts (frame_marks (hd (snd (last us)) AND 0x1f \<noteq> 9) (length pkts))"
proof -
  obtain long n vs where us: "us = (long, n) # vs" using assms(1) by (cases us) auto
  have n: "unit_ok n" and vs: "list_all (unit_ok \<circ> snd) vs" using assms(2) by (simp_all add: us)
  have sent: "is_sent m = (hd m AND 0x1f \<noteq> 9)" if "unit_ok m" for m using that by (simp add: is_sent_def unit_ok_def)
  have au: "annexb us = start_code long @ n @ annexb vs" by (simp add: annexb_def us)
  have at: "next_start (annexb us) 0 = (0, length (start_code long))" unfolding au by (rule next_start_at_code)
  obtain pkts where p: "nal_loop never ts (start_code long @ n @ annexb vs) (length (start_code long)) st [] =
       (True, rtp_advance st (length pkts), [] @ pkts)"
    "foldl depack ([], []) pkts = ([] @ filter is_sent (n # map snd vs), [])"
    "sends st ts (frame_marks (is_sent (last (n # map snd vs))) (length pkts)) pkts"
    using nal_loop_run [OF n vs assms(3)] by blast
  have r: "rtp_h264_send never st (annexb us) ts = (Some (length pkts), rtp_advance st (length pkts), pkts)"
    using assms(3) at p(1) by (simp add: rtp_h264_send_def au)
  have all: "\<forall>m \<in> set (map snd us). is_sent m = (hd m AND 0x1f \<noteq> 9)"
    using assms(2) sent by (auto simp: list_all_iff)
  then have "filter is_sent (map snd us) = filter (\<lambda>n. hd n AND 0x1f \<noteq> 9) (map snd us)"
    by (intro filter_cong) auto
  moreover have "last (map snd us) = snd (last us)" using assms(1) by (simp add: last_map)
  moreover have "is_sent (snd (last us)) = (hd (snd (last us)) AND 0x1f \<noteq> 9)"
    using all assms(1) by simp
  ultimately show ?thesis
    unfolding r using p(2,3) by (simp add: sends_def us del: filter.simps last.simps)
qed

definition demo_rtp :: rtp_h264 where
  "demo_rtp = \<lparr>rt_ssrc = 7, rt_seq = 65535, rt_pt = 96, rt_max_payload = 4, rt_playout_ext = 0\<rparr>"

theorem rtp_frame_arrives_witness:
  "case rtp_h264_send never demo_rtp (annexb [(True, [9, 0xf0]), (True, [0x67, 1, 2]), (False, [0x65, 1, 2, 0, 3, 4])]) 90 of
     (res, st', pkts) \<Rightarrow> foldl depack ([], []) pkts = ([[0x67, 1, 2], [0x65, 1, 2, 0, 3, 4]], [])"
proof -
  have "list_all (unit_ok \<circ> snd) [(True, [9, 0xf0]), (True, [0x67, 1, 2]), (False, [0x65, 1, 2, 0, 3, 4])]"
    by (simp add: unit_ok_def)
  from rtp_frame_arrives [OF _ this, of demo_rtp 90] show ?thesis by (simp add: demo_rtp_def case_prod_beta)
qed

section \<open>A link that refuses\<close>

text \<open>Offering packets to the link one by one until it refuses one.\<close>

fun offer :: "refuse \<Rightarrow> bytes list \<Rightarrow> bytes list \<Rightarrow> bool \<times> bytes list" where
  "offer refuse out [] = (True, out)"
| "offer refuse out (p # ps) = (if refuse out p then (False, out @ [p]) else offer refuse (out @ [p]) ps)"

lemma offer_append:
  "offer refuse out (ps @ qs) = (case offer refuse out ps of (ok, o1) \<Rightarrow> if ok then offer refuse o1 qs else (ok, o1))"
  by (induction ps arbitrary: out) auto

lemma offer_never [simp]: "offer never out ps = (True, out @ ps)"
  by (induction ps arbitrary: out) (auto simp: never_def)

text \<open>A run \<open>r\<close> under the link agrees with the run \<open>f\<close> in which nothing is refused.\<close>

definition agrees :: "refuse \<Rightarrow> bytes list \<Rightarrow> bool \<times> rtp_h264 \<times> bytes list \<Rightarrow> bool \<times> rtp_h264 \<times> bytes list \<Rightarrow> bool" where
  "agrees refuse out r f \<longleftrightarrow> (\<exists>ps. snd (snd f) = out @ ps \<and> fst f \<and> offer refuse out ps = (fst r, snd (snd r)) \<and>
     (fst r \<longrightarrow> fst (snd r) = fst (snd f)))"

lemma offer_ok: "offer refuse out ps = (True, o1) \<Longrightarrow> o1 = out @ ps"
  by (induction ps arbitrary: out) (fastforce split: if_splits)+

lemma fu_loop_agrees:
  "agrees refuse out (fu_loop refuse hdr fin ts rest first st out) (fu_loop never hdr fin ts rest first st out)"
proof (induction "length rest" arbitrary: rest first st out rule: less_induct)
  case less
  show ?case
  proof (cases "rest = [] \<or> rt_max_payload st < 3")
    case True
    then show ?thesis by (subst (1 2) fu_loop.simps) (auto simp: agrees_def)
  next
    case False
    define n where "n = (if length rest > rt_max_payload st - 2 then rt_max_payload st - 2 else length rest)"
    define e where "e = (n \<ge> length rest)"
    obtain h st1 where h: "rtp_header st (fin \<and> e) ts = (h, st1)" by fastforce
    define pkt where "pkt = h @ [(hdr AND 0xe0) OR 28,
      (if first then 0x80 else 0) OR (if e then 0x40 else 0) OR (hdr AND 0x1f)] @ take n rest"
    have step: "fu_loop ref hdr fin ts rest first st out =
        (if ref out pkt then (False, st1, out @ [pkt]) else fu_loop ref hdr fin ts (drop n rest) False st1 (out @ [pkt]))" for ref
      using False h by (subst fu_loop.simps) (simp add: Let_def n_def [symmetric] e_def [symmetric] pkt_def)
    have "length (drop n rest) < length rest" using False by (auto simp: n_def)
    from less.hyps [OF this, of "out @ [pkt]" False st1]
    have IH: "agrees refuse (out @ [pkt]) (fu_loop refuse hdr fin ts (drop n rest) False st1 (out @ [pkt]))
       (fu_loop never hdr fin ts (drop n rest) False st1 (out @ [pkt]))" .
    then obtain ps where ps: "snd (snd (fu_loop never hdr fin ts (drop n rest) False st1 (out @ [pkt]))) = out @ pkt # ps"
      "fst (fu_loop never hdr fin ts (drop n rest) False st1 (out @ [pkt]))"
      by (auto simp: agrees_def)
    show ?thesis
    proof (cases "refuse out pkt")
      case True
      then show ?thesis using ps by (auto simp: agrees_def step never_def intro: exI [of _ "pkt # ps"])
    next
      case False
      then show ?thesis using IH by (auto simp: agrees_def step never_def intro: exI [of _ "pkt # _"])
    qed
  qed
qed

lemma send_unit_agrees:
  "agrees refuse out (send_unit refuse ts n fin st out) (send_unit never ts n fin st out)"
proof -
  obtain h st1 where h: "rtp_header st fin ts = (h, st1)" by fastforce
  show ?thesis
    using fu_loop_agrees [of refuse out "hd n" fin ts "tl n" True st]
    by (auto simp: send_unit_def h agrees_def never_def)
qed

lemma nal_loop_agrees:
  "agrees refuse out (nal_loop refuse ts au nal st out) (nal_loop never ts au nal st out)"
proof (induction "length au - nal" arbitrary: nal st out rule: less_induct)
  case less
  obtain e sc where e: "next_start au nal = (e, sc)" by fastforce
  let ?u = "unit_at au nal e"
  obtain ok1 s1 o1 where r1: "send_unit refuse ts ?u (e \<ge> length au) st out = (ok1, s1, o1)" by (metis prod_cases3)
  obtain okf sf of' where f1: "send_unit never ts ?u (e \<ge> length au) st out = (okf, sf, of')" by (metis prod_cases3)
  obtain ps where ps: "of' = out @ ps" "okf" "offer refuse out ps = (ok1, o1)" "ok1 \<longrightarrow> s1 = sf"
    using send_unit_agrees [of refuse out ts ?u "e \<ge> length au" st] by (auto simp: agrees_def r1 f1)
  have IH: "agrees refuse ox (nal_loop refuse ts au (e + sc) sx ox) (nal_loop never ts au (e + sc) sx ox)"
    if "e < length au" for sx ox
    using next_start_bounds [OF e] that by (intro less.hyps) auto
  have rec: "nal_loop ref ts au nal st out = (case send_unit ref ts ?u (e \<ge> length au) st out of (ok, s, o') \<Rightarrow>
      if \<not> ok then (False, s, o') else if e < length au then nal_loop ref ts au (e + sc) s o' else (True, s, o'))" for ref
    by (subst nal_loop.simps) (simp add: e)
  show ?case
  proof (cases ok1)
    case True
    then have "o1 = out @ ps" using ps(3) offer_ok [of refuse out ps o1] by simp
    then show ?thesis
      using IH [where sx = sf and ox = "out @ ps"] ps True by (auto simp: rec r1 f1 agrees_def offer_append split: prod.splits)
  next
    case False
    have "\<exists>qs. snd (snd (nal_loop never ts au (e + sc) sf of')) = of' @ qs \<and> fst (nal_loop never ts au (e + sc) sf of')"
      if "e < length au" using IH [OF that, where sx = sf and ox = of'] by (auto simp: agrees_def)
    then show ?thesis
      using ps False by (auto simp: rec r1 f1 agrees_def offer_append split: prod.splits)
  qed
qed

text \<open>
  A full link stops the frame at once and loses nothing but the rest: whatever the emitter
  refuses and whatever the frame's bytes are, the packets handed to it are those it would get without
  refusing, up to and including the first one it refuses; the call reports failure exactly then (or
  when the payload size is below 3, where nothing is sent), and otherwise the number of packets.
\<close>

theorem rtp_refusal_stops:
  "case rtp_h264_send refuse st au ts of (res, st', out) \<Rightarrow>
     if rt_max_payload st < 3 then res = None \<and> out = []
     else (res \<noteq> None, out) = offer refuse [] (snd (snd (rtp_h264_send never st au ts))) \<and>
          res = (if fst (offer refuse [] (snd (snd (rtp_h264_send never st au ts)))) then Some (length out) else None)"
proof (cases "rt_max_payload st < 3")
  case False
  obtain at sc where at: "next_start au 0 = (at, sc)" by fastforce
  show ?thesis
  proof (cases "at < length au")
    case True
    then show ?thesis
      using False nal_loop_agrees [of refuse "[]" ts au "at + sc" st]
      by (auto simp: rtp_h264_send_def at agrees_def split: prod.splits)
  qed (use False in \<open>simp add: rtp_h264_send_def at\<close>)
qed (simp add: rtp_h264_send_def)

end
