(* ===== verification/Sps_Patch.thy ===== *)
theory Sps_Patch
  imports Prelude "HOL-Library.State_Monad"
begin

text \<open>
  components/kvm_webrtc/sps_patch.c: adding the bitstream restriction to the encoder's sequence
  parameter set. The bit reader and writer are state monads over their structs; the return value 0 of
  the C functions is \<open>None\<close>, any other is \<open>Some\<close> of the bytes written.
\<close>

section \<open>Reading bits\<close>

record bits =
  bt_b :: bytes
  bt_pos :: nat
  bt_bad :: bool

fun rd_bits :: "nat \<Rightarrow> u32 \<Rightarrow> bits \<Rightarrow> u32 \<times> bits" where
  "rd_bits 0 v r = (v, r)"
| "rd_bits (Suc n) v r =
     (if bt_pos r div 8 \<ge> length (bt_b r) then (0, r\<lparr>bt_bad := True\<rparr>)
      else rd_bits n (push_bit 1 v OR (if bit (bt_b r ! (bt_pos r div 8)) (7 - bt_pos r mod 8) then 1 else 0))
             (r\<lparr>bt_pos := bt_pos r + 1\<rparr>))"

definition rd_u :: "nat \<Rightarrow> (bits, u32) state" where
  "rd_u n = State (rd_bits n 0)"

text \<open>The zeros of an Exp-Golomb code: \<open>None\<close> is the return after more than 31 of them.\<close>

function rd_zeros :: "nat \<Rightarrow> bits \<Rightarrow> nat option \<times> bits" where
  "rd_zeros zeros r =
     (if bt_bad r then (Some zeros, r)
      else let (b, r1) = rd_bits 1 0 r in
        if b \<noteq> 0 then (Some zeros, r1)
        else if zeros + 1 > 31 then (None, r1\<lparr>bt_bad := True\<rparr>)
        else rd_zeros (zeros + 1) r1)"
  by pat_completeness auto
termination by (relation "measure (\<lambda>(zeros, r). 32 - zeros)") auto

declare rd_zeros.simps [simp del]

definition rd_ue :: "(bits, u32) state" where
  "rd_ue = do {
     z \<leftarrow> State (rd_zeros 0);
     (case z of
        None \<Rightarrow> State_Monad.return 0
      | Some zeros \<Rightarrow>
          if zeros = 0 then State_Monad.return 0
          else do { v \<leftarrow> rd_u zeros; State_Monad.return (push_bit zeros 1 - 1 + v) })
   }"

definition rd_when :: "bool \<Rightarrow> (bits, u32) state \<Rightarrow> (bits, u32) state" where
  "rd_when c m = (if c then m else State_Monad.return 0)"

fun rd_ue_loop :: "nat \<Rightarrow> bits \<Rightarrow> bits" where
  "rd_ue_loop 0 r = r"
| "rd_ue_loop (Suc n) r = (if bt_bad r then r else rd_ue_loop n (snd (run_state rd_ue r)))"

section \<open>Walking the parameter set\<close>

definition high_profiles :: "u32 list" where
  "high_profiles = [100, 110, 122, 244, 44, 83, 86, 118, 128, 138, 139, 134, 135]"

definition rd_poc :: "(bits, u32) state" where
  "rd_poc = do {
     poc \<leftarrow> rd_ue;
     if poc = 0 then rd_ue
     else if poc = 1 then do {
       rd_u 1;
       rd_ue;
       rd_ue;
       n \<leftarrow> rd_ue;
       State (\<lambda>r. (0, rd_ue_loop (unat n) r))
     } else State_Monad.return 0
   }"

definition rd_frame :: "(bits, u32) state" where
  "rd_frame = do {
     rd_ue;
     rd_u 1;
     rd_ue;
     rd_ue;
     mbs_only \<leftarrow> rd_u 1;
     rd_when (mbs_only = 0) (rd_u 1);
     rd_u 1;
     crop \<leftarrow> rd_u 1;
     rd_when (crop \<noteq> 0) (do { rd_ue; rd_ue; rd_ue; rd_ue })
   }"

definition rd_vui :: "(bits, u32) state" where
  "rd_vui = do {
     aspect \<leftarrow> rd_u 1;
     rd_when (aspect \<noteq> 0) (do { idc \<leftarrow> rd_u 8; rd_when (idc = 255) (rd_u 32) });
     overscan \<leftarrow> rd_u 1;
     rd_when (overscan \<noteq> 0) (rd_u 1);
     signal \<leftarrow> rd_u 1;
     rd_when (signal \<noteq> 0) (do { rd_u 4; colour \<leftarrow> rd_u 1; rd_when (colour \<noteq> 0) (rd_u 24) });
     chroma \<leftarrow> rd_u 1;
     rd_when (chroma \<noteq> 0) (do { rd_ue; rd_ue });
     timing \<leftarrow> rd_u 1;
     rd_when (timing \<noteq> 0) (do { rd_u 32; rd_u 32; rd_u 1 })
   }"

text \<open>The position of the restriction flag, when the set has the encoder's layout and the flag is off.\<close>

definition rd_flag :: "(bits, nat option) state" where
  "rd_flag = do {
     rd_u 1;
     flag_at \<leftarrow> State (\<lambda>r. (bt_pos r, r));
     flag \<leftarrow> rd_u 1;
     bad \<leftarrow> State (\<lambda>r. (bt_bad r, r));
     State_Monad.return (if flag \<noteq> 0 \<or> bad then None else Some flag_at)
   }"

definition rd_hrd :: "(bits, nat option) state" where
  "rd_hrd = do {
     nal_hrd \<leftarrow> rd_u 1;
     if nal_hrd \<noteq> 0 then State_Monad.return None
     else do {
       vcl_hrd \<leftarrow> rd_u 1;
       if vcl_hrd \<noteq> 0 then State_Monad.return None else rd_flag
     }
   }"

definition find_flag :: "(bits, nat option) state" where
  "find_flag = do {
     profile \<leftarrow> rd_u 8;
     rd_u 16;
     rd_ue;
     if profile \<in> set high_profiles then State_Monad.return None
     else do {
       rd_ue;
       rd_poc;
       rd_frame;
       vui \<leftarrow> rd_u 1;
       if vui = 0 then State_Monad.return None
       else do { rd_vui; rd_hrd }
     }
   }"

section \<open>Writing bits\<close>

record writer =
  wt_b :: bytes
  wt_pos :: nat
  wt_bad :: bool

fun wr_u :: "nat \<Rightarrow> u32 \<Rightarrow> writer \<Rightarrow> writer" where
  "wr_u 0 v w = w"
| "wr_u (Suc i) v w =
     (if wt_pos w div 8 \<ge> length (wt_b w) then w\<lparr>wt_bad := True\<rparr>
      else let p = wt_pos w div 8;
               b = (if bit v i then (wt_b w)[p := (wt_b w ! p) OR drop_bit (wt_pos w mod 8) 0x80] else wt_b w)
           in wr_u i v (w\<lparr>wt_b := b, wt_pos := wt_pos w + 1\<rparr>))"

function ue_len :: "nat \<Rightarrow> u32 \<Rightarrow> nat" where
  "ue_len len v1 = (if len < 32 \<and> drop_bit (len + 1) v1 \<noteq> 0 then ue_len (len + 1) v1 else len)"
  by pat_completeness auto
termination by (relation "measure (\<lambda>(len, v1). 32 - len)") auto

declare ue_len.simps [simp del]

definition wr_ue :: "u32 \<Rightarrow> writer \<Rightarrow> writer" where
  "wr_ue v w = (let len = ue_len 0 (v + 1) in wr_u (len + 1) (v + 1) (wr_u len 0 w))"

text \<open>The bits before the flag, copied one at a time.\<close>

fun copy_bits :: "nat \<Rightarrow> bits \<Rightarrow> writer \<Rightarrow> writer" where
  "copy_bits 0 r w = w"
| "copy_bits (Suc n) r w = (let (b, r1) = rd_bits 1 0 r in copy_bits n r1 (wr_u 1 b w))"

definition wr_restriction :: "writer \<Rightarrow> writer" where
  "wr_restriction w =
     (let w = wr_u 1 1 w; w = wr_u 1 1 w; w = wr_ue 0 w; w = wr_ue 0 w; w = wr_ue 16 w; w = wr_ue 16 w;
          w = wr_ue 0 w; w = wr_ue 1 w
      in wr_u 1 1 w)"

section \<open>Emulation prevention\<close>

text \<open>Bytes out: \<open>None\<close> when the buffer of \<open>cap\<close> bytes is full.\<close>

fun unescape :: "nat \<Rightarrow> nat \<Rightarrow> bytes \<Rightarrow> bytes option" where
  "unescape cap zeros [] = Some []"
| "unescape cap zeros (b # r) =
     (if zeros \<ge> 2 \<and> b = 3 then unescape cap 0 r
      else if cap = 0 then None
      else map_option (Cons b) (unescape (cap - 1) (if b = 0 then zeros + 1 else 0) r))"

fun escape :: "nat \<Rightarrow> nat \<Rightarrow> bytes \<Rightarrow> bytes option" where
  "escape cap zeros [] = Some []"
| "escape cap zeros (b # r) =
     (if zeros \<ge> 2 \<and> b \<le> 3
      then if cap < 2 then None
           else map_option (\<lambda>o'. 3 # b # o') (escape (cap - 2) (if b = 0 then 1 else 0) r)
      else if cap = 0 then None
      else map_option (Cons b) (escape (cap - 1) (if b = 0 then zeros + 1 else 0) r))"

section \<open>Patching\<close>

text \<open>\<open>Some\<close> of a byte string that is not empty: 0 bytes is the failure.\<close>

definition some_bytes :: "bytes option \<Rightarrow> bytes option" where
  "some_bytes x = (case x of None \<Rightarrow> None | Some b \<Rightarrow> if b = [] then None else Some b)"

definition sps_patch :: "bytes \<Rightarrow> nat \<Rightarrow> bytes option" where
  "sps_patch nal cap =
     (if length nal < 2 then None
      else case some_bytes (unescape 128 0 (tl nal)) of
        None \<Rightarrow> None
      | Some rbsp \<Rightarrow>
          (case fst (run_state find_flag \<lparr>bt_b = rbsp, bt_pos = 0, bt_bad = False\<rparr>) of
             None \<Rightarrow> None
           | Some flag_at \<Rightarrow>
               let w = copy_bits flag_at \<lparr>bt_b = rbsp, bt_pos = 0, bt_bad = False\<rparr>
                         \<lparr>wt_b = replicate 128 0, wt_pos = 0, wt_bad = False\<rparr>;
                   w = wr_restriction w
               in if wt_bad w \<or> cap < 1 then None
                  else map_option (Cons (hd nal))
                         (some_bytes (escape (cap - 1) 0 (take ((wt_pos w + 7) div 8) (wt_b w))))))"

text \<open>The parameter set of an access unit: from its start code to the next one.\<close>

function find_sps :: "bytes \<Rightarrow> nat \<Rightarrow> nat option \<Rightarrow> (nat \<times> nat) option" where
  "find_sps au i found =
     (if i + 3 < length au
      then if au ! i \<noteq> 0 \<or> au ! (i + 1) \<noteq> 0 then find_sps au (i + 1) found
           else let at = (if au ! (i + 2) = 1 then i + 3
                          else if au ! (i + 2) = 0 \<and> au ! (i + 3) = 1 then i + 4 else 0)
                in if at = 0 then find_sps au (i + 1) found
                   else case found of
                     Some b \<Rightarrow> Some (b, i)
                   | None \<Rightarrow> find_sps au at (if at < length au \<and> au ! at AND 0x1f = 7 then Some at else None)
      else map_option (\<lambda>b. (b, length au)) found)"
  by pat_completeness auto
termination by (relation "measure (\<lambda>(au, i, found). length au - i)") (auto split: if_splits)

declare find_sps.simps [simp del]

definition sps_patch_au :: "bytes \<Rightarrow> nat \<Rightarrow> bytes option" where
  "sps_patch_au au cap =
     (case find_sps au 0 None of
        None \<Rightarrow> None
      | Some (b, e) \<Rightarrow>
          (case sps_patch (segment au b (e - b)) 128 of
             None \<Rightarrow> None
           | Some sps \<Rightarrow>
               if length au - (e - b) + length sps > cap then None
               else Some (take b au @ sps @ drop e au)))"

section \<open>Escaping is undone and hides every start code\<close>

lemma unescape_escape:
  "escape cap zeros x = Some y \<Longrightarrow> length x \<le> n \<Longrightarrow> unescape n zeros y = Some x \<and> length y \<le> cap"
proof (induction cap zeros x arbitrary: n y rule: escape.induct)
  case (2 cap zeros b r)
  obtain k where n: "n = Suc k" "length r \<le> k" using 2(4) by (cases n) auto
  show ?case
  proof (cases "zeros \<ge> 2 \<and> b \<le> 3")
    case True
    then obtain o' where o: "escape (cap - 2) (if b = 0 then 1 else 0) r = Some o'" "y = 3 # b # o'" "\<not> cap < 2"
      using 2(3) by (auto split: if_splits)
    from 2(1) [OF True o(3,1) n(2)] show ?thesis using True o n by auto
  next
    case False
    then obtain o' where o: "escape (cap - 1) (if b = 0 then zeros + 1 else 0) r = Some o'" "y = b # o'" "cap \<noteq> 0"
      using 2(3) by (auto split: if_splits)
    from 2(2) [OF False o(3,1) n(2)] show ?thesis using False o n by auto
  qed
qed auto

fun hidden :: "nat \<Rightarrow> bytes \<Rightarrow> bool" where
  "hidden zeros [] = True"
| "hidden zeros (b # r) = (\<not> (zeros \<ge> 2 \<and> b \<le> 2) \<and> hidden (if b = 0 then zeros + 1 else 0) r)"

lemma le_3: "(b :: u8) \<le> 2 \<Longrightarrow> b \<le> 3"
  by (erule order_trans) simp

lemma escape_hidden: "escape cap zeros x = Some y \<Longrightarrow> hidden zeros y"
  by (induction cap zeros x arbitrary: y rule: escape.induct) (auto dest: le_3 split: if_splits)

lemma hidden_append: "hidden z (pre @ y) \<Longrightarrow> \<exists>z'. hidden z' y"
  by (induction pre arbitrary: z) (auto split: if_splits)

lemma hidden_triple: "hidden z (pre @ [0, 0, c] @ post) \<Longrightarrow> 2 < c"
  using hidden_append [of z pre "[0, 0, c] @ post"] by auto

text \<open>
  Emulation prevention: whatever the bytes, what \<open>escape\<close> writes fits the buffer, contains no two
  zero bytes followed by 0, 1 or 2 - so no start code, not even across its own insertions - and
  \<open>unescape\<close> gives the bytes back.
\<close>

theorem sps_escape_roundtrip:
  assumes "escape cap 0 x = Some y"
  shows "length y \<le> cap \<and> unescape (length x) 0 y = Some x \<and> (y = pre @ [0, 0, c] @ post \<longrightarrow> 2 < c)"
proof -
  have "2 < c" if "y = pre @ [0, 0, c] @ post" using hidden_triple escape_hidden [OF assms] that by blast
  then show ?thesis using unescape_escape [OF assms order_refl] by blast
qed

theorem sps_escape_roundtrip_witness:
  "unescape 6 0 [0, 0, 3, 1, 0, 0, 3, 3] = Some [0, 0, 1, 0, 0, 3]"
proof -
  have "escape 8 0 [0, 0, 1, 0, 0, 3] = Some [0, 0, 3, 1, 0, 0, 3, 3]" by simp
  from sps_escape_roundtrip [OF this] show ?thesis by simp
qed

section \<open>The reader sees only the bits it passes\<close>

definition bit_at :: "bytes \<Rightarrow> nat \<Rightarrow> bool" where
  "bit_at b i = bit (b ! (i div 8)) (7 - i mod 8)"

definition same_bits :: "bits \<Rightarrow> bits \<Rightarrow> nat \<Rightarrow> nat \<Rightarrow> bool" where
  "same_bits r s a e \<longleftrightarrow> \<not> bt_bad s \<and> bt_pos s = a \<and>
     (\<forall>i. a \<le> i \<and> i < e \<longrightarrow> i div 8 < length (bt_b s) \<and> bit_at (bt_b s) i = bit_at (bt_b r) i)"

text \<open>A reader that, unless it fails, is determined by the bits between its two positions.\<close>

definition local :: "(bits, 'a) state \<Rightarrow> bool" where
  "local m \<longleftrightarrow> (\<forall>r v r'. run_state m r = (v, r') \<longrightarrow> \<not> bt_bad r' \<longrightarrow>
     \<not> bt_bad r \<and> bt_b r' = bt_b r \<and> bt_pos r \<le> bt_pos r' \<and>
     (\<forall>s. same_bits r s (bt_pos r) (bt_pos r') \<longrightarrow> run_state m s = (v, s\<lparr>bt_pos := bt_pos r'\<rparr>)))"

lemma localD:
  assumes "local m" and "run_state m r = (v, r')" and "\<not> bt_bad r'"
  shows "\<not> bt_bad r" and "bt_b r' = bt_b r" and "bt_pos r \<le> bt_pos r'"
    and "same_bits r s (bt_pos r) (bt_pos r') \<Longrightarrow> run_state m s = (v, s\<lparr>bt_pos := bt_pos r'\<rparr>)"
  using assms unfolding local_def by blast+

lemma same_bits_part:
  "same_bits r s a e \<Longrightarrow> e' \<le> e \<Longrightarrow> same_bits r s a e'"
  by (auto simp: same_bits_def)

lemma same_bits_rest:
  "same_bits r s a e \<Longrightarrow> a \<le> a' \<Longrightarrow> bt_b r' = bt_b r \<Longrightarrow> same_bits r' (s\<lparr>bt_pos := a'\<rparr>) a' e"
  by (auto simp: same_bits_def)

lemma local_return [simp]: "local (State_Monad.return x)"
  by (auto simp: local_def State_Monad.return_def same_bits_def)

lemma local_bind [intro]:
  assumes "local m" and "\<And>v. local (f v)"
  shows "local (State_Monad.bind m f)"
  unfolding local_def
proof (intro allI impI)
  fix r w r2
  assume run: "run_state (State_Monad.bind m f) r = (w, r2)" and ok: "\<not> bt_bad r2"
  obtain v r1 where m: "run_state m r = (v, r1)" by fastforce
  then have f: "run_state (f v) r1 = (w, r2)" using run by (simp add: State_Monad.bind_def)
  note f1 = localD [OF assms(2) f ok] note m1 = localD [OF assms(1) m f1(1)]
  show "\<not> bt_bad r \<and> bt_b r2 = bt_b r \<and> bt_pos r \<le> bt_pos r2 \<and>
     (\<forall>s. same_bits r s (bt_pos r) (bt_pos r2) \<longrightarrow> run_state (State_Monad.bind m f) s = (w, s\<lparr>bt_pos := bt_pos r2\<rparr>))"
  proof (intro conjI allI impI)
    fix s
    assume s: "same_bits r s (bt_pos r) (bt_pos r2)"
    have "run_state m s = (v, s\<lparr>bt_pos := bt_pos r1\<rparr>)" using m1(4) same_bits_part [OF s f1(3)] by blast
    moreover have "run_state (f v) (s\<lparr>bt_pos := bt_pos r1\<rparr>) = (w, s\<lparr>bt_pos := bt_pos r2\<rparr>)"
      using f1(4) same_bits_rest [OF s m1(3,2)] by force
    ultimately show "run_state (State_Monad.bind m f) s = (w, s\<lparr>bt_pos := bt_pos r2\<rparr>)"
      by (simp add: State_Monad.bind_def)
  qed (use f1 m1 in auto)
qed

lemma rd_bits_local:
  "rd_bits n v r = (w, r') \<Longrightarrow> \<not> bt_bad r' \<Longrightarrow>
     \<not> bt_bad r \<and> bt_b r' = bt_b r \<and> bt_pos r' = bt_pos r + n \<and>
     (same_bits r s (bt_pos r) (bt_pos r') \<longrightarrow> rd_bits n v s = (w, s\<lparr>bt_pos := bt_pos r'\<rparr>))"
proof (induction n arbitrary: v r s)
  case (Suc n)
  let ?b = "\<lambda>r. push_bit 1 v OR (if bit (bt_b r ! (bt_pos r div 8)) (7 - bt_pos r mod 8) then 1 else 0)"
  let ?r = "r\<lparr>bt_pos := bt_pos r + 1\<rparr>"
  have in_r: "bt_pos r div 8 < length (bt_b r)" and step: "rd_bits n (?b r) ?r = (w, r')"
    using Suc.prems by (auto split: if_splits)
  note IH = Suc.IH [OF step Suc.prems(2)]
  have "rd_bits (Suc n) v s = (w, s\<lparr>bt_pos := bt_pos r'\<rparr>)" if s: "same_bits r s (bt_pos r) (bt_pos r')"
  proof -
    let ?s = "s\<lparr>bt_pos := bt_pos r + 1\<rparr>"
    have "bt_pos r < bt_pos r'" using IH [of s] by simp
    then have in_s: "\<not> bt_pos s div 8 \<ge> length (bt_b s)" and b: "?b s = ?b r" and ps: "bt_pos s = bt_pos r"
      using s by (auto simp: same_bits_def bit_at_def)
    have "same_bits ?r ?s (bt_pos ?r) (bt_pos r')" using same_bits_rest [OF s, of "bt_pos r + 1" ?r] by simp
    then have "rd_bits n (?b r) ?s = (w, ?s\<lparr>bt_pos := bt_pos r'\<rparr>)" using IH [of ?s] by blast
    moreover have "rd_bits (Suc n) v s = rd_bits n (?b s) (s\<lparr>bt_pos := bt_pos s + 1\<rparr>)" using in_s by simp
    ultimately show ?thesis unfolding b unfolding ps by simp
  qed
  then show ?case using IH [of s] by simp
qed (auto simp: same_bits_def)

lemma local_rd_u [simp]: "local (rd_u n)"
  unfolding local_def rd_u_def state.sel
proof (intro allI impI)
  fix r v r'
  assume "rd_bits n 0 r = (v, r')" "\<not> bt_bad r'"
  note l = rd_bits_local [OF this]
  show "\<not> bt_bad r \<and> bt_b r' = bt_b r \<and> bt_pos r \<le> bt_pos r' \<and>
     (\<forall>s. same_bits r s (bt_pos r) (bt_pos r') \<longrightarrow> rd_bits n 0 s = (v, s\<lparr>bt_pos := bt_pos r'\<rparr>))"
    using l by (metis le_add1)
qed

lemma local_zeros: "local (State (rd_zeros z))"
  unfolding local_def
proof (induction "32 - z" arbitrary: z rule: less_induct)
  case less
  show ?case
  proof (intro allI impI)
    fix r v r'
    assume run: "run_state (State (rd_zeros z)) r = (v, r')" and ok: "\<not> bt_bad r'"
    obtain b r1 where b: "rd_bits 1 0 r = (b, r1)" by fastforce
    have rec: "rd_zeros z q = (if bt_bad q then (Some z, q) else let (b, r1) = rd_bits 1 0 q in
        if b \<noteq> 0 then (Some z, r1) else if z + 1 > 31 then (None, r1\<lparr>bt_bad := True\<rparr>) else rd_zeros (z + 1) r1)" for q
      by (rule rd_zeros.simps)
    have nb: "\<not> bt_bad r"
    proof
      assume "bt_bad r"
      then have "r' = r" using run rec [of r] by simp
      then show False using ok \<open>bt_bad r\<close> by simp
    qed
    have unf: "(v, r') = (if b \<noteq> 0 then (Some z, r1) else if z + 1 > 31 then (None, r1\<lparr>bt_bad := True\<rparr>) else rd_zeros (z + 1) r1)"
      using run unfolding state.sel rec [of r] if_not_P [OF nb] b Let_def prod.case by (rule sym)
    show "\<not> bt_bad r \<and> bt_b r' = bt_b r \<and> bt_pos r \<le> bt_pos r' \<and>
      (\<forall>s. same_bits r s (bt_pos r) (bt_pos r') \<longrightarrow> run_state (State (rd_zeros z)) s = (v, s\<lparr>bt_pos := bt_pos r'\<rparr>))"
    proof (cases "b \<noteq> 0")
      case True
      then have e: "v = Some z" "r' = r1" using unf by simp_all
      note l = rd_bits_local [OF b, unfolded e(2) [symmetric], OF ok]
      have "rd_zeros z s = (v, s\<lparr>bt_pos := bt_pos r'\<rparr>)" if s: "same_bits r s (bt_pos r) (bt_pos r')" for s
      proof -
        have "rd_bits 1 0 s = (b, s\<lparr>bt_pos := bt_pos r'\<rparr>)" using l [of s] s by blast
        moreover have "\<not> bt_bad s" using s by (simp add: same_bits_def)
        ultimately show ?thesis using True e(1) unfolding rec [of s] by simp
      qed
      then show ?thesis unfolding state.sel using l [of r] by simp
    next
      case False
      then have z: "z + 1 \<le> 31" and go: "rd_zeros (z + 1) r1 = (v, r')"
        using unf ok by (auto split: if_splits)
      have IH: "\<not> bt_bad r1 \<and> bt_b r' = bt_b r1 \<and> bt_pos r1 \<le> bt_pos r' \<and>
        (\<forall>s. same_bits r1 s (bt_pos r1) (bt_pos r') \<longrightarrow> run_state (State (rd_zeros (z + 1))) s = (v, s\<lparr>bt_pos := bt_pos r'\<rparr>))"
      proof (rule less.hyps [of "z + 1", THEN spec, THEN spec, THEN spec, THEN mp, THEN mp])
        show "32 - (z + 1) < 32 - z" using z by simp
        show "run_state (State (rd_zeros (z + 1))) r1 = (v, r')" using go by (simp only: state.sel)
      qed (rule ok)
      note l = rd_bits_local [OF b, OF conjunct1 [OF IH]]
      have "rd_zeros z s = (v, s\<lparr>bt_pos := bt_pos r'\<rparr>)" if s: "same_bits r s (bt_pos r) (bt_pos r')" for s
      proof -
        have p: "bt_pos r1 \<le> bt_pos r'" "bt_b r1 = bt_b r" "bt_pos r \<le> bt_pos r1" using IH l [of s] by auto
        have "rd_bits 1 0 s = (b, s\<lparr>bt_pos := bt_pos r1\<rparr>)" using l [of s] same_bits_part [OF s p(1)] by blast
        moreover have "rd_zeros (z + 1) (s\<lparr>bt_pos := bt_pos r1\<rparr>) = (v, s\<lparr>bt_pos := bt_pos r'\<rparr>)"
          using IH same_bits_rest [OF s p(3,2)] unfolding state.sel by force
        moreover have "\<not> bt_bad s" using s by (simp add: same_bits_def)
        ultimately show ?thesis using False z unfolding rec [of s] by simp
      qed
      then show ?thesis unfolding state.sel using IH l [of r] nb by simp
    qed
  qed
qed

lemma local_cong:
  assumes "local m'" and "\<And>r. \<not> bt_bad r \<Longrightarrow> run_state m r = run_state m' r"
    and "\<And>r. bt_bad r \<Longrightarrow> bt_bad (snd (run_state m r))"
  shows "local m"
  unfolding local_def
proof (intro allI impI)
  fix r v r'
  assume run: "run_state m r = (v, r')" and ok: "\<not> bt_bad r'"
  have nb: "\<not> bt_bad r" using assms(3) [of r] run ok by auto
  note l = localD [OF assms(1), of r v r', folded assms(2) [OF nb], OF run ok]
  have "run_state m s = (v, s\<lparr>bt_pos := bt_pos r'\<rparr>)" if s: "same_bits r s (bt_pos r) (bt_pos r')" for s
    using l(4) [OF s] assms(2) [of s] s by (simp add: same_bits_def)
  then show "\<not> bt_bad r \<and> bt_b r' = bt_b r \<and> bt_pos r \<le> bt_pos r' \<and>
     (\<forall>s. same_bits r s (bt_pos r) (bt_pos r') \<longrightarrow> run_state m s = (v, s\<lparr>bt_pos := bt_pos r'\<rparr>))"
    using l nb by blast
qed

lemma local_rd_ue [simp]: "local rd_ue"
  unfolding rd_ue_def by (auto intro!: local_bind local_zeros split: option.split)

lemma local_rd_when [simp]: "local m \<Longrightarrow> local (rd_when c m)"
  by (simp add: rd_when_def)

lemma local_ue_loop: "local (State (\<lambda>r. (0 :: u32, rd_ue_loop n r)))"
proof (induction n)
  case 0
  have "local (State_Monad.return 0)" by simp
  then show ?case by (simp add: State_Monad.return_def)
next
  case (Suc n)
  have "local (State_Monad.bind rd_ue (\<lambda>_. State (\<lambda>r. (0 :: u32, rd_ue_loop n r))))"
    by (intro local_bind local_rd_ue Suc.IH)
  then show ?case by (rule local_cong) (auto simp: State_Monad.bind_def case_prod_beta)
qed

lemma local_walk [simp]: "local rd_poc" "local rd_frame" "local rd_vui"
  unfolding rd_poc_def rd_frame_def rd_vui_def
  by (auto intro!: local_bind local_ue_loop local_rd_when)

text \<open>
  A walk that stops at the flag when the flag is off, and returns nothing on any bits that agree with
  the ones before the flag and have the flag on.
\<close>

definition stops :: "(bits, nat option) state \<Rightarrow> bool" where
  "stops m \<longleftrightarrow> (\<forall>r at r'. run_state m r = (Some at, r') \<longrightarrow>
     \<not> bt_bad r \<and> bt_pos r \<le> at \<and> at div 8 < length (bt_b r) \<and> \<not> bit_at (bt_b r) at \<and>
     (\<forall>s. same_bits r s (bt_pos r) at \<longrightarrow> at div 8 < length (bt_b s) \<longrightarrow> bit_at (bt_b s) at \<longrightarrow>
        fst (run_state m s) = None))"

lemma stops_None [simp]: "stops (State_Monad.return None)"
  by (simp add: stops_def State_Monad.return_def)

lemma stops_bind:
  assumes "local m" and "\<And>v. stops (f v)"
  shows "stops (State_Monad.bind m f)"
  unfolding stops_def
proof (intro allI impI)
  fix r at r2
  assume run: "run_state (State_Monad.bind m f) r = (Some at, r2)"
  obtain v r1 where m: "run_state m r = (v, r1)" by fastforce
  then have "run_state (f v) r1 = (Some at, r2)" using run by (simp add: State_Monad.bind_def)
  then have f: "\<not> bt_bad r1" "bt_pos r1 \<le> at" "at div 8 < length (bt_b r1)" "\<not> bit_at (bt_b r1) at"
    "\<And>s. same_bits r1 s (bt_pos r1) at \<Longrightarrow> at div 8 < length (bt_b s) \<Longrightarrow> bit_at (bt_b s) at \<Longrightarrow>
        fst (run_state (f v) s) = None"
    using assms(2) [of v] unfolding stops_def by blast+
  note l = localD [OF assms(1) m f(1)]
  show "\<not> bt_bad r \<and> bt_pos r \<le> at \<and> at div 8 < length (bt_b r) \<and> \<not> bit_at (bt_b r) at \<and>
     (\<forall>s. same_bits r s (bt_pos r) at \<longrightarrow> at div 8 < length (bt_b s) \<longrightarrow> bit_at (bt_b s) at \<longrightarrow>
        fst (run_state (State_Monad.bind m f) s) = None)"
  proof (intro conjI allI impI)
    fix s
    assume s: "same_bits r s (bt_pos r) at" "at div 8 < length (bt_b s)" "bit_at (bt_b s) at"
    have "run_state m s = (v, s\<lparr>bt_pos := bt_pos r1\<rparr>)" using l(4) same_bits_part [OF s(1) f(2)] by blast
    moreover have "fst (run_state (f v) (s\<lparr>bt_pos := bt_pos r1\<rparr>)) = None"
      using f(5) [OF same_bits_rest [OF s(1) l(3,2)]] s(2,3) by simp
    ultimately show "fst (run_state (State_Monad.bind m f) s) = None" by (simp add: State_Monad.bind_def)
  qed (use f l in auto)
qed

text \<open>Reading the flag itself.\<close>

lemma stops_flag:
  "stops (do { at \<leftarrow> State (\<lambda>r. (bt_pos r, r)); flag \<leftarrow> rd_u 1; bad \<leftarrow> State (\<lambda>r. (bt_bad r, r));
               State_Monad.return (if flag \<noteq> 0 \<or> bad then None else Some at) })"
  unfolding stops_def
  by (auto simp: State_Monad.bind_def State_Monad.return_def rd_u_def same_bits_def bit_at_def split: if_splits)

lemma stops_find_flag: "stops find_flag"
proof -
  have "stops rd_flag" unfolding rd_flag_def by (intro stops_bind stops_flag) simp
  then have "stops rd_hrd" unfolding rd_hrd_def by (auto intro!: stops_bind)
  then show ?thesis unfolding find_flag_def by (auto intro!: stops_bind)
qed

section \<open>The writer appends bits\<close>

definition holds_bits :: "writer \<Rightarrow> bool list \<Rightarrow> bool" where
  "holds_bits w bs \<longleftrightarrow> wt_pos w = length bs \<and> \<not> wt_bad w \<and> length (wt_b w) = 128 \<and>
     (\<forall>i < 1024. bit_at (wt_b w) i = (i < length bs \<and> bs ! i)) \<and> length bs \<le> 1024"

lemma one_bit: "k < 8 \<Longrightarrow> j < 8 \<Longrightarrow> bit (drop_bit k (0x80 :: u8)) j \<longleftrightarrow> j = 7 - k"
proof -
  assume kj: "k < 8" "j < 8"
  have "list_all (\<lambda>k. list_all (\<lambda>j. bit (drop_bit k (0x80 :: u8)) j = (j = 7 - k)) [0..<8]) [0..<8]"
    by code_simp
  from list_all_upt [OF list_all_upt [OF this _ kj(1)] _ kj(2)] show ?thesis by simp
qed

lemma index_split: "i div 8 = p div 8 \<Longrightarrow> i mod 8 = p mod (8 :: nat) \<Longrightarrow> i = p"
  by (metis div_mult_mod_eq)

lemma holds_bits_push:
  assumes "holds_bits w bs" and "length bs < 1024"
  shows "holds_bits (w\<lparr>wt_b := if v then (wt_b w)[wt_pos w div 8 := (wt_b w ! (wt_pos w div 8)) OR
      drop_bit (wt_pos w mod 8) 0x80] else wt_b w, wt_pos := wt_pos w + 1\<rparr>) (bs @ [v])"
proof -
  let ?p = "wt_pos w"
  have p: "?p = length bs" "length (wt_b w) = 128" "?p div 8 < 128" using assms by (auto simp: holds_bits_def)
  have at: "bit_at (wt_b w) i = (i < length bs \<and> bs ! i)" if "i < 1024" for i using assms(1) that by (simp add: holds_bits_def)
  have "bit_at (if v then (wt_b w)[?p div 8 := (wt_b w ! (?p div 8)) OR drop_bit (?p mod 8) 0x80] else wt_b w) i =
        (i < length (bs @ [v]) \<and> (bs @ [v]) ! i)" if i: "i < 1024" for i
  proof (cases "v \<and> i div 8 = ?p div 8")
    case True
    have "7 - i mod 8 = 7 - ?p mod 8 \<longleftrightarrow> i = ?p"
    proof
      assume "7 - i mod 8 = 7 - ?p mod 8"
      moreover have "i mod 8 < 8" "?p mod 8 < 8" by simp_all
      ultimately have "i mod 8 = ?p mod 8" by linarith
      then show "i = ?p" using True index_split by blast
    qed simp
    then have b: "bit (drop_bit (?p mod 8) (0x80 :: u8)) (7 - i mod 8) \<longleftrightarrow> i = ?p" by (subst one_bit) auto
    then have "bit_at ((wt_b w)[?p div 8 := (wt_b w ! (?p div 8)) OR drop_bit (?p mod 8) 0x80]) i \<longleftrightarrow> bit_at (wt_b w) i \<or> i = ?p"
      using True p by (simp add: bit_at_def bit_or_iff)
    then show ?thesis using True at [OF i] p(1) by (auto simp: nth_append)
  next
    case False
    then have "bit_at (if v then (wt_b w)[?p div 8 := (wt_b w ! (?p div 8)) OR drop_bit (?p mod 8) 0x80] else wt_b w) i = bit_at (wt_b w) i"
      by (auto simp: bit_at_def)
    moreover have "i = length bs \<longrightarrow> \<not> v" using False p(1) by auto
    ultimately show ?thesis using at [OF i] by (auto simp: nth_append)
  qed
  then show ?thesis using p assms by (simp add: holds_bits_def)
qed

lemma wr_u_bad: "wt_bad w \<Longrightarrow> wt_bad (wr_u n v w)"
  by (induction n v w rule: wr_u.induct) (auto simp: Let_def)

lemma wr_u_holds:
  "holds_bits w bs \<Longrightarrow> \<not> wt_bad (wr_u n v w) \<Longrightarrow> holds_bits (wr_u n v w) (bs @ map (bit v) (rev [0..<n]))"
proof (induction n v w arbitrary: bs rule: wr_u.induct)
  case (2 i v w)
  have "\<not> wt_pos w div 8 \<ge> length (wt_b w)" using 2(3) by (auto split: if_splits)
  moreover have "length (wt_b w) = 128" "wt_pos w = length bs" using 2(2) by (simp_all add: holds_bits_def)
  ultimately have "length bs < 1024" and in_w: "\<not> wt_pos w div 8 \<ge> length (wt_b w)" by auto
  let ?w = "w\<lparr>wt_b := if bit v i then (wt_b w)[wt_pos w div 8 := (wt_b w ! (wt_pos w div 8)) OR
      drop_bit (wt_pos w mod 8) 0x80] else wt_b w, wt_pos := wt_pos w + 1\<rparr>"
  have step: "wr_u (Suc i) v w = wr_u i v ?w" using in_w by (simp add: Let_def)
  have "holds_bits ?w (bs @ [bit v i])" using holds_bits_push [OF 2(2) \<open>length bs < 1024\<close>] .
  from 2(1) [OF in_w refl refl this] 2(3) show ?case unfolding step by simp
qed simp

lemma wr_ue_bad: "wt_bad w \<Longrightarrow> wt_bad (wr_ue v w)"
  by (simp add: wr_ue_def Let_def wr_u_bad)

lemma wr_ue_holds:
  "holds_bits w bs \<Longrightarrow> \<not> wt_bad (wr_ue v w) \<Longrightarrow> \<exists>cs. holds_bits (wr_ue v w) (bs @ cs)"
  using wr_u_bad wr_u_holds unfolding wr_ue_def Let_def by (metis append_assoc)

lemma wr_restriction_bad: "wt_bad w \<Longrightarrow> wt_bad (wr_restriction w)"
  by (simp add: wr_restriction_def Let_def wr_u_bad wr_ue_bad del: wr_u.simps)

lemma wr_restriction_holds:
  assumes "holds_bits w bs" and "\<not> wt_bad (wr_restriction w)"
  shows "\<exists>cs. holds_bits (wr_restriction w) (bs @ [True, True] @ cs)"
proof -
  define w1 where "w1 = wr_u 1 1 w"
  define w2 where "w2 = wr_u 1 1 w1"
  define w3 where "w3 = wr_ue 0 w2"
  define w4 where "w4 = wr_ue 0 w3"
  define w5 where "w5 = wr_ue 16 w4"
  define w6 where "w6 = wr_ue 16 w5"
  define w7 where "w7 = wr_ue 0 w6"
  define w8 where "w8 = wr_ue 1 w7"
  have r: "wr_restriction w = wr_u 1 1 w8"
    by (simp only: wr_restriction_def Let_def w1_def w2_def w3_def w4_def w5_def w6_def w7_def w8_def)
  have o8: "\<not> wt_bad w8" using assms(2) wr_u_bad unfolding r by blast
  have o7: "\<not> wt_bad w7" using o8 wr_ue_bad unfolding w8_def by blast
  have o6: "\<not> wt_bad w6" using o7 wr_ue_bad unfolding w7_def by blast
  have o5: "\<not> wt_bad w5" using o6 wr_ue_bad unfolding w6_def by blast
  have o4: "\<not> wt_bad w4" using o5 wr_ue_bad unfolding w5_def by blast
  have o3: "\<not> wt_bad w3" using o4 wr_ue_bad unfolding w4_def by blast
  have o2: "\<not> wt_bad w2" using o3 wr_ue_bad unfolding w3_def by blast
  have o1: "\<not> wt_bad w1" using o2 wr_u_bad unfolding w2_def by blast
  note ok = o8 o7 o6 o5 o4 o3 o2 o1
  have "holds_bits w1 (bs @ [True])" using wr_u_holds [OF assms(1), of 1 1] ok(8) by (simp add: w1_def)
  then have "holds_bits w2 ((bs @ [True]) @ [True])" using wr_u_holds [of w1 _ 1 1] ok(7) by (fastforce simp: w2_def)
  then obtain c3 where "holds_bits w3 (((bs @ [True]) @ [True]) @ c3)" using wr_ue_holds ok(6) w3_def by blast
  then obtain c4 where "holds_bits w4 ((((bs @ [True]) @ [True]) @ c3) @ c4)" using wr_ue_holds ok(5) w4_def by blast
  then obtain c5 where "holds_bits w5 (((((bs @ [True]) @ [True]) @ c3) @ c4) @ c5)" using wr_ue_holds ok(4) w5_def by blast
  then obtain c6 where "holds_bits w6 ((((((bs @ [True]) @ [True]) @ c3) @ c4) @ c5) @ c6)" using wr_ue_holds ok(3) w6_def by blast
  then obtain c7 where "holds_bits w7 (((((((bs @ [True]) @ [True]) @ c3) @ c4) @ c5) @ c6) @ c7)" using wr_ue_holds ok(2) w7_def by blast
  then obtain c8 where "holds_bits w8 ((((((((bs @ [True]) @ [True]) @ c3) @ c4) @ c5) @ c6) @ c7) @ c8)" using wr_ue_holds ok(1) w8_def by blast
  from wr_u_holds [OF this, of 1 1] assms(2) show ?thesis unfolding r by auto
qed

lemma copy_bits_bad: "wt_bad w \<Longrightarrow> wt_bad (copy_bits n r w)"
  by (induction n arbitrary: r w) (simp_all add: wr_u_bad case_prod_beta del: rd_bits.simps wr_u.simps)

lemma one_flag_bit: "map (bit (if v then 1 else 0 :: u32)) (rev [0..<1]) = [v]"
  by simp

lemma copy_bits_holds:
  "holds_bits w bs \<Longrightarrow> \<not> bt_bad r \<Longrightarrow> (\<forall>i < n. (bt_pos r + i) div 8 < length (bt_b r)) \<Longrightarrow> \<not> wt_bad (copy_bits n r w) \<Longrightarrow>
   holds_bits (copy_bits n r w) (bs @ map (bit_at (bt_b r)) [bt_pos r..<bt_pos r + n])"
proof (induction n r w arbitrary: bs rule: copy_bits.induct)
  case (2 n r w)
  let ?v = "bit_at (bt_b r) (bt_pos r)"
  let ?r = "r\<lparr>bt_pos := bt_pos r + 1\<rparr>"
  have "bt_pos r div 8 < length (bt_b r)" using 2(4) by (metis add_0_right zero_less_Suc)
  then have rd: "rd_bits 1 0 r = ((if ?v then 1 else 0), ?r)" by (simp add: bit_at_def)
  have step: "copy_bits (Suc n) r w = copy_bits n ?r (wr_u 1 (if ?v then 1 else 0) w)"
    using rd by (simp del: rd_bits.simps One_nat_def)
  have "\<not> wt_bad (wr_u 1 (if ?v then 1 else 0) w)" using 2(5) copy_bits_bad unfolding step by blast
  from wr_u_holds [OF 2(2) this] have w: "holds_bits (wr_u 1 (if ?v then 1 else 0) w) (bs @ [?v])"
    by (simp only: one_flag_bit)
  have fit: "\<forall>i < n. (bt_pos ?r + i) div 8 < length (bt_b ?r)" using 2(4) by auto
  have good: "\<not> bt_bad ?r" using 2(3) by simp
  have "\<not> wt_bad (copy_bits n ?r (wr_u 1 (if ?v then 1 else 0) w))" using 2(5) unfolding step .
  from 2(1) [OF rd [symmetric] refl w good fit this]
  show ?case unfolding step by (simp add: upt_conv_Cons del: wr_u.simps upt_Suc)
qed simp

section \<open>The patched parameter set\<close>

text \<open>Packing and taking the written bytes loses none of the bits.\<close>

lemma bit_at_take: "i < 8 * n \<Longrightarrow> bit_at (take n b) i = bit_at b i"
  by (simp add: bit_at_def less_mult_imp_div_less mult.commute)

lemma sps_patch_cases:
  assumes "sps_patch nal cap = Some out"
  obtains rbsp flag_at w body where
    "unescape 128 0 (tl nal) = Some rbsp"
    "fst (run_state find_flag \<lparr>bt_b = rbsp, bt_pos = 0, bt_bad = False\<rparr>) = Some flag_at"
    "w = wr_restriction (copy_bits flag_at \<lparr>bt_b = rbsp, bt_pos = 0, bt_bad = False\<rparr>
           \<lparr>wt_b = replicate 128 0, wt_pos = 0, wt_bad = False\<rparr>)"
    "\<not> wt_bad w" "1 \<le> cap" "escape (cap - 1) 0 (take ((wt_pos w + 7) div 8) (wt_b w)) = Some body"
    "out = hd nal # body"
proof -
  have bytes: "some_bytes x = Some y \<Longrightarrow> x = Some y" for x y
    by (auto simp: some_bytes_def split: option.splits if_splits)
  obtain rbsp where r: "some_bytes (unescape 128 0 (tl nal)) = Some rbsp"
    using assms unfolding sps_patch_def by (cases "some_bytes (unescape 128 0 (tl nal))") (simp_all split: if_splits)
  obtain flag_at where f: "fst (run_state find_flag \<lparr>bt_b = rbsp, bt_pos = 0, bt_bad = False\<rparr>) = Some flag_at"
    using assms r unfolding sps_patch_def
    by (cases "fst (run_state find_flag \<lparr>bt_b = rbsp, bt_pos = 0, bt_bad = False\<rparr>)") (simp_all split: if_splits)
  define w where "w = wr_restriction (copy_bits flag_at \<lparr>bt_b = rbsp, bt_pos = 0, bt_bad = False\<rparr>
           \<lparr>wt_b = replicate 128 0, wt_pos = 0, wt_bad = False\<rparr>)"
  have out: "(if wt_bad w \<or> cap < 1 then None
      else map_option (Cons (hd nal)) (some_bytes (escape (cap - 1) 0 (take ((wt_pos w + 7) div 8) (wt_b w))))) = Some out"
    using assms unfolding sps_patch_def r f option.case Let_def w_def by (simp split: if_splits)
  then obtain body where "some_bytes (escape (cap - 1) 0 (take ((wt_pos w + 7) div 8) (wt_b w))) = Some body"
    "out = hd nal # body" by (auto split: if_splits)
  moreover have "\<not> wt_bad w" "1 \<le> cap" using out by (simp_all split: if_splits)
  ultimately show ?thesis using that bytes r f w_def by blast
qed

lemma patched_writer:
  assumes "fst (run_state find_flag \<lparr>bt_b = rbsp, bt_pos = 0, bt_bad = False\<rparr>) = Some flag_at"
    and "w = wr_restriction (copy_bits flag_at \<lparr>bt_b = rbsp, bt_pos = 0, bt_bad = False\<rparr>
           \<lparr>wt_b = replicate 128 0, wt_pos = 0, wt_bad = False\<rparr>)"
    and "\<not> wt_bad w"
  shows "\<exists>cs. holds_bits w (map (bit_at rbsp) [0..<flag_at] @ [True, True] @ cs)"
proof -
  let ?r = "\<lparr>bt_b = rbsp, bt_pos = 0, bt_bad = False\<rparr>"
  let ?w = "\<lparr>wt_b = replicate 128 0, wt_pos = 0, wt_bad = False\<rparr>"
  obtain r' where "run_state find_flag ?r = (Some flag_at, r')" using assms(1) by (metis prod.collapse)
  then have at: "flag_at div 8 < length rbsp" using stops_find_flag unfolding stops_def by fastforce
  have "\<not> wt_bad (copy_bits flag_at ?r ?w)"
    using assms(3) wr_restriction_bad unfolding assms(2) by blast
  moreover have "holds_bits ?w []" by (auto simp: holds_bits_def bit_at_def)
  moreover have "\<forall>i < flag_at. (bt_pos ?r + i) div 8 < length (bt_b ?r)"
    using at by (auto intro: le_less_trans [OF div_le_mono])
  ultimately have "holds_bits (copy_bits flag_at ?r ?w) (map (bit_at rbsp) [0..<flag_at])"
    using copy_bits_holds [of ?w "[]" ?r flag_at] by simp
  then show ?thesis using wr_restriction_holds assms(2,3) by blast
qed

lemma holds_bits_take:
  assumes "holds_bits w bs" and "i < length bs"
  shows "i div 8 < length (take ((wt_pos w + 7) div 8) (wt_b w))"
    and "bit_at (take ((wt_pos w + 7) div 8) (wt_b w)) i = bs ! i"
proof -
  have n: "i < 8 * ((wt_pos w + 7) div 8)" "(wt_pos w + 7) div 8 \<le> 128" "i < 1024"
    using assms by (auto simp: holds_bits_def)
  then show "i div 8 < length (take ((wt_pos w + 7) div 8) (wt_b w))"
    using assms by (auto simp: holds_bits_def)
  show "bit_at (take ((wt_pos w + 7) div 8) (wt_b w)) i = bs ! i"
    using assms n by (simp add: bit_at_take holds_bits_def)
qed

text \<open>
  C15. A parameter set that is patched keeps its header byte and every bit before the restriction flag,
  which was off and is on in the result; the result fits the caller's buffer, its escaped bytes
  come back from the decoder's unescaping, and it is not patched a second time: \<open>sps_patch\<close>
  answers 0 for it, whatever the output buffer.
\<close>

theorem sps_patch_sets_flag:
  assumes "sps_patch nal cap = Some out"
  shows "\<exists>rbsp patched flag_at.
    unescape 128 0 (tl nal) = Some rbsp \<and> unescape 128 0 (tl out) = Some patched \<and>
    fst (run_state find_flag \<lparr>bt_b = rbsp, bt_pos = 0, bt_bad = False\<rparr>) = Some flag_at \<and>
    hd out = hd nal \<and> length out \<le> cap \<and>
    map (bit_at patched) [0..<flag_at] = map (bit_at rbsp) [0..<flag_at] \<and>
    \<not> bit_at rbsp flag_at \<and> bit_at patched flag_at \<and> sps_patch out cap2 = None"
proof -
  from assms obtain rbsp flag_at w body where
    p: "unescape 128 0 (tl nal) = Some rbsp"
      "fst (run_state find_flag \<lparr>bt_b = rbsp, bt_pos = 0, bt_bad = False\<rparr>) = Some flag_at"
      "\<not> wt_bad w" "1 \<le> cap" "out = hd nal # body"
    and w: "w = wr_restriction (copy_bits flag_at \<lparr>bt_b = rbsp, bt_pos = 0, bt_bad = False\<rparr>
           \<lparr>wt_b = replicate 128 0, wt_pos = 0, wt_bad = False\<rparr>)"
    and e: "escape (cap - 1) 0 (take ((wt_pos w + 7) div 8) (wt_b w)) = Some body"
    by (rule sps_patch_cases)
  let ?out = "take ((wt_pos w + 7) div 8) (wt_b w)"
  obtain cs where h: "holds_bits w (map (bit_at rbsp) [0..<flag_at] @ [True, True] @ cs)"
    using patched_writer [OF p(2) w p(3)] by blast
  note t = holds_bits_take [OF h]
  have "length ?out \<le> 128" using h by (simp add: holds_bits_def)
  then have u: "unescape 128 0 body = Some ?out" "length body \<le> cap - 1" using unescape_escape [OF e] by blast+
  have before: "i div 8 < length ?out" "bit_at ?out i = bit_at rbsp i" if "i < flag_at" for i
    using t [of i] that by (simp_all add: nth_append del: length_take)
  have on: "flag_at div 8 < length ?out" "bit_at ?out flag_at"
    using t [of flag_at] by (simp_all add: nth_append del: length_take)
  obtain r' where run: "run_state find_flag \<lparr>bt_b = rbsp, bt_pos = 0, bt_bad = False\<rparr> = (Some flag_at, r')"
    using p(2) by (metis prod.collapse)
  have "same_bits \<lparr>bt_b = rbsp, bt_pos = 0, bt_bad = False\<rparr> \<lparr>bt_b = ?out, bt_pos = 0, bt_bad = False\<rparr> 0 flag_at"
    using before by (simp add: same_bits_def)
  then have "fst (run_state find_flag \<lparr>bt_b = ?out, bt_pos = 0, bt_bad = False\<rparr>) = None" and off: "\<not> bit_at rbsp flag_at"
    using stops_find_flag run on unfolding stops_def by fastforce+
  then have "sps_patch out cap2 = None" using u(1) p(5) by (simp add: sps_patch_def some_bytes_def)
  moreover have "map (bit_at ?out) [0..<flag_at] = map (bit_at rbsp) [0..<flag_at]" using before by simp
  ultimately show ?thesis using p u on off by (intro exI [of _ rbsp] exI [of _ ?out] exI [of _ flag_at]) auto
qed

text \<open>The parameter set of the encoder, and the bytes the unit test expects for it.\<close>

definition encoder_sps :: bytes where
  "encoder_sps = [0x67, 0x42, 0xc0, 0x29, 0x95, 0xa0, 0x1e, 0x00, 0x89, 0x79, 0x61,
     0x00, 0x00, 0x03, 0x00, 0x01, 0x00, 0x00, 0x03, 0x00, 0x3c, 0x84]"

definition patched_sps :: bytes where
  "patched_sps = [0x67, 0x42, 0xc0, 0x29, 0x95, 0xa0, 0x1e, 0x00, 0x89, 0x79, 0x61,
     0x00, 0x00, 0x03, 0x00, 0x01, 0x00, 0x00, 0x03, 0x00, 0x3c, 0x8f, 0x08, 0x84, 0x6a]"

lemma patch_encoder_sps: "sps_patch encoder_sps 64 = Some patched_sps"
  unfolding encoder_sps_def patched_sps_def by code_simp

theorem sps_patch_sets_flag_witness: "sps_patch patched_sps 80 = None"
  using sps_patch_sets_flag [OF patch_encoder_sps, of 80] by blast

end
