(* ===== verification/Srtp.thy ===== *)
theory Srtp
  imports Prelude "HOL-Library.Sublist"
begin

text \<open>
  components/kvm_webrtc/srtp.c: SRTP and SRTCP with AES_CM_128_HMAC_SHA1_80. The ciphers are behind
  wr_crypto.h: a handle for a key, counter mode under the handle, HMAC-SHA1 under the handle, each of
  which may fail. They are the parameter \<open>crypto\<close> of the model. A function that returns -1 returns
  \<open>None\<close>, with the context as it is then left.
\<close>

section \<open>The context\<close>

record ('a, 'h) crypto =
  aes_new :: "bytes \<Rightarrow> 'a option"
  aes_ctr :: "'a \<Rightarrow> bytes \<Rightarrow> bytes \<Rightarrow> bytes option"
  hmac_new :: "bytes \<Rightarrow> 'h option"
  hmac_sha1 :: "'h \<Rightarrow> bytes \<Rightarrow> bytes option"

record sender =
  in_ssrc :: u32
  in_max :: u32
  in_window :: u64
  in_seen :: bool

record ('a, 'h) srtp_ctx =
  rtp_aes :: 'a
  rtcp_aes :: 'a
  rtp_auth :: 'h
  rtcp_auth :: 'h
  rtp_salt :: bytes
  rtcp_salt :: bytes
  roc :: u32
  last_seq :: u16
  seq_seen :: bool
  rtcp_index :: u32
  slot0 :: sender
  slot1 :: sender

definition no_sender :: sender where
  "no_sender = \<lparr>in_ssrc = 0, in_max = 0, in_window = 0, in_seen = False\<rparr>"

definition xor_at :: "nat \<Rightarrow> u8 \<Rightarrow> bytes \<Rightarrow> bytes" where
  "xor_at i v b = b[i := (b ! i) XOR v]"

definition srtp_kdf :: "('a, 'h) crypto \<Rightarrow> bytes \<Rightarrow> bytes \<Rightarrow> u8 \<Rightarrow> nat \<Rightarrow> bytes option" where
  "srtp_kdf cr key salt label len = do {
     a \<leftarrow> aes_new cr key;
     aes_ctr cr a (xor_at 7 label (take 14 salt @ [0, 0])) (replicate len 0)
   }"

definition srtp_init :: "('a, 'h) crypto \<Rightarrow> bytes \<Rightarrow> bytes \<Rightarrow> ('a, 'h) srtp_ctx option" where
  "srtp_init cr key salt = do {
     k0 \<leftarrow> srtp_kdf cr key salt 0 16;
     rtp \<leftarrow> aes_new cr k0;
     k1 \<leftarrow> srtp_kdf cr key salt 1 20;
     rtph \<leftarrow> hmac_new cr k1;
     salt2 \<leftarrow> srtp_kdf cr key salt 2 14;
     k3 \<leftarrow> srtp_kdf cr key salt 3 16;
     rtcp \<leftarrow> aes_new cr k3;
     k4 \<leftarrow> srtp_kdf cr key salt 4 20;
     rtcph \<leftarrow> hmac_new cr k4;
     salt5 \<leftarrow> srtp_kdf cr key salt 5 14;
     Some \<lparr>rtp_aes = rtp, rtcp_aes = rtcp, rtp_auth = rtph, rtcp_auth = rtcph,
       rtp_salt = salt2, rtcp_salt = salt5, roc = 0, last_seq = 0, seq_seen = False, rtcp_index = 0,
       slot0 = no_sender, slot1 = no_sender\<rparr>
   }"

text \<open>The counter block: salt, stream and the 48-bit index, the low 16 bits count the blocks.\<close>

definition make_iv :: "bytes \<Rightarrow> bytes \<Rightarrow> u64 \<Rightarrow> bytes" where
  "make_iv salt ssrc index =
     (let iv = take 14 salt @ [0, 0];
          iv = fold (\<lambda>i. xor_at (4 + i) (ssrc ! i)) [0..<4] iv
      in fold (\<lambda>i. xor_at (13 - i) (ucast (drop_bit (8 * i) index))) [0..<6] iv)"

section \<open>Sending RTP\<close>

text \<open>Where the payload starts: past the CSRCs and the header extension.\<close>

definition rtp_header_len :: "bytes \<Rightarrow> nat option" where
  "rtp_header_len pkt =
     (let hl = 12 + 4 * unat (pkt ! 0 AND 0x0f)
      in if pkt ! 0 AND 0x10 \<noteq> 0
         then if length pkt < hl + 4 then None
              else Some (hl + (4 + 4 * unat (be16 (pkt ! (hl + 2)) (pkt ! (hl + 3)))))
         else Some hl)"

definition rtp_seq :: "bytes \<Rightarrow> u16" where
  "rtp_seq pkt = be16 (pkt ! 2) (pkt ! 3)"

definition count_seq :: "('a, 'h) srtp_ctx \<Rightarrow> u16 \<Rightarrow> ('a, 'h) srtp_ctx" where
  "count_seq c seq =
     (let c1 = (if seq_seen c \<and> seq < last_seq c \<and> last_seq c - seq > 0x8000 then c\<lparr>roc := roc c + 1\<rparr> else c);
          c2 = (if \<not> seq_seen c \<or> seq - last_seq c < 0x8000 then c1\<lparr>last_seq := seq\<rparr> else c1)
      in c2\<lparr>seq_seen := True\<rparr>)"

definition packet_index :: "u32 \<Rightarrow> u16 \<Rightarrow> u64" where
  "packet_index r seq = push_bit 16 (ucast r) OR ucast seq"

definition rtp_iv :: "('a, 'h) srtp_ctx \<Rightarrow> bytes \<Rightarrow> bytes" where
  "rtp_iv c pkt = make_iv (rtp_salt c) (segment pkt 8 4) (packet_index (roc c) (rtp_seq pkt))"

definition rtp_accepts :: "bytes \<Rightarrow> nat \<Rightarrow> bool" where
  "rtp_accepts pkt cap \<longleftrightarrow> \<not> (length pkt < 12 \<or> cap < length pkt + 10 \<or> drop_bit 6 (pkt ! 0) \<noteq> 2) \<and>
     (case rtp_header_len pkt of None \<Rightarrow> False | Some hl \<Rightarrow> hl \<le> length pkt)"

definition srtp_protect ::
    "('a, 'h) crypto \<Rightarrow> ('a, 'h) srtp_ctx \<Rightarrow> bytes \<Rightarrow> nat \<Rightarrow> bytes option \<times> ('a, 'h) srtp_ctx" where
  "srtp_protect cr c pkt cap =
     (if \<not> rtp_accepts pkt cap then (None, c)
      else let hl = the (rtp_header_len pkt);
               c1 = count_seq c (rtp_seq pkt)
           in (do {
                 body \<leftarrow> aes_ctr cr (rtp_aes c1) (rtp_iv c1 pkt) (drop hl pkt);
                 mac \<leftarrow> hmac_sha1 cr (rtp_auth c1) (take hl pkt @ body @ put32 (roc c1));
                 Some (take hl pkt @ body @ take 10 mac)
               }, c1))"

section \<open>Sending and receiving RTCP\<close>

definition srtcp_protect ::
    "('a, 'h) crypto \<Rightarrow> ('a, 'h) srtp_ctx \<Rightarrow> bytes \<Rightarrow> nat \<Rightarrow> bytes option \<times> ('a, 'h) srtp_ctx" where
  "srtcp_protect cr c pkt cap =
     (if length pkt < 8 \<or> cap < length pkt + 14 then (None, c)
      else let index = rtcp_index c AND 0x7fffffff;
               c1 = c\<lparr>rtcp_index := rtcp_index c + 1\<rparr>
           in (do {
                 body \<leftarrow> aes_ctr cr (rtcp_aes c) (make_iv (rtcp_salt c) (segment pkt 4 4) (ucast index)) (drop 8 pkt);
                 let p = take 8 pkt @ body @ put32 (0x80000000 OR index);
                 mac \<leftarrow> hmac_sha1 cr (rtcp_auth c) p;
                 Some (p @ take 10 mac)
               }, c1))"

text \<open>The comparison that takes the same time for every tag.\<close>

definition same :: "bytes \<Rightarrow> bytes \<Rightarrow> nat \<Rightarrow> bool" where
  "same a b n \<longleftrightarrow> fold (\<lambda>i d. d OR ((a ! i) XOR (b ! i))) [0..<n] 0 = 0"

text \<open>The replay window of one sender: whether the index is new, and the window with it.\<close>

definition window_take :: "sender \<Rightarrow> u32 \<Rightarrow> u32 \<Rightarrow> bool \<times> sender" where
  "window_take s ssrc index =
     (if in_seen s then
        if index > in_max s
        then let shift = unat (index - in_max s)
             in (True, s\<lparr>in_window := (if shift \<ge> 64 then 0 else push_bit shift (in_window s)) OR 1, in_max := index\<rparr>)
        else let back = unat (in_max s - index)
             in if back \<ge> 64 \<or> bit (in_window s) back then (False, s)
                else (True, s\<lparr>in_window := in_window s OR push_bit back 1\<rparr>)
      else (True, \<lparr>in_ssrc = ssrc, in_max = index, in_window = 1, in_seen = True\<rparr>))"

text \<open>A slot that another sender had is forgotten first.\<close>

definition slot_take :: "sender \<Rightarrow> u32 \<Rightarrow> u32 \<Rightarrow> bool \<times> sender" where
  "slot_take s ssrc index =
     window_take (if in_seen s \<and> in_ssrc s \<noteq> ssrc then s\<lparr>in_seen := False\<rparr> else s) ssrc index"

definition replay_take :: "('a, 'h) srtp_ctx \<Rightarrow> u32 \<Rightarrow> u32 \<Rightarrow> bool \<times> ('a, 'h) srtp_ctx" where
  "replay_take c ssrc index =
     (if \<not> in_seen (slot0 c) \<or> in_ssrc (slot0 c) = ssrc
      then (let (new, s) = slot_take (slot0 c) ssrc index in (new, c\<lparr>slot0 := s\<rparr>))
      else (let (new, s) = slot_take (slot1 c) ssrc index in (new, c\<lparr>slot1 := s\<rparr>)))"

definition get32 :: "bytes \<Rightarrow> nat \<Rightarrow> u32" where
  "get32 p i = be32 (p ! i) (p ! (i + 1)) (p ! (i + 2)) (p ! (i + 3))"

definition srtcp_unprotect ::
    "('a, 'h) crypto \<Rightarrow> ('a, 'h) srtp_ctx \<Rightarrow> bytes \<Rightarrow> bytes option \<times> ('a, 'h) srtp_ctx" where
  "srtcp_unprotect cr c pkt =
     (if length pkt < 8 + 14 then (None, c)
      else let body = length pkt - 14
           in case hmac_sha1 cr (rtcp_auth c) (take (body + 4) pkt) of
                None \<Rightarrow> (None, c)
              | Some mac \<Rightarrow>
                  if \<not> same mac (drop (body + 4) pkt) 10 then (None, c)
                  else let e_index = get32 pkt body;
                           index = e_index AND 0x7fffffff;
                           (new, c1) = replay_take c (get32 pkt 4) index
                       in if \<not> new then (None, c1)
                          else if e_index AND 0x80000000 \<noteq> 0
                          then (map_option (\<lambda>x. take 8 pkt @ x)
                                  (aes_ctr cr (rtcp_aes c1) (make_iv (rtcp_salt c1) (segment pkt 4 4) (ucast index))
                                     (segment pkt 8 (body - 8))), c1)
                          else (Some (take body pkt), c1))"

section \<open>Counter blocks\<close>

lemma length_xor_at [simp]: "length (xor_at i v b) = length b"
  by (simp add: xor_at_def)

lemma nth_xor_at: "j < length b \<Longrightarrow> xor_at i v b ! j = (if i = j then b ! j XOR v else b ! j)"
  by (auto simp: xor_at_def)

lemma make_iv_index_byte:
  assumes "14 \<le> length salt" and "k < 6"
  shows "make_iv salt ssrc index ! (13 - k) = (salt ! (13 - k)) XOR ucast (drop_bit (8 * k) index)"
proof -
  define iv where "iv = fold (\<lambda>i. xor_at (4 + i) (ssrc ! i)) [0..<4] (take 14 salt @ [0, 0])"
  have iv: "length iv = 16" "\<And>j. 8 \<le> j \<Longrightarrow> j < 14 \<Longrightarrow> iv ! j = salt ! j"
    using assms(1) by (auto simp: iv_def numeral_upt nth_xor_at nth_append)
  have m: "make_iv salt ssrc index = fold (\<lambda>i. xor_at (13 - i) (ucast (drop_bit (8 * i) index))) [0..<6] iv"
    by (simp only: make_iv_def Let_def iv_def)
  consider "k = 0" | "k = 1" | "k = 2" | "k = 3" | "k = 4" | "k = 5" using assms(2) by force
  then show ?thesis unfolding m by cases (simp_all add: numeral_upt nth_xor_at iv)
qed

text \<open>Two indexes below \<open>2 ^ 48\<close> never give the same block, whatever the streams.\<close>

lemma make_iv_inj:
  assumes "14 \<le> length salt" and "make_iv salt s i = make_iv salt t j"
    and "unat i < 2 ^ 48" and "unat j < 2 ^ 48"
  shows "i = j"
proof (rule bit_word_eqI)
  fix n
  assume "n < LENGTH(64)"
  have top: "\<not> bit x n" if "unat x < 2 ^ 48" "48 \<le> n" for x :: u64
  proof -
    have "take_bit 48 (unat x) = unat x" using that(1) by (simp add: take_bit_nat_eq_self)
    then have "\<not> bit (unat x) n" using that(2) by (metis bit_take_bit_iff not_less)
    then show ?thesis by (simp add: bit_unsigned_iff impossible_bit)
  qed
  show "bit i n = bit j n"
  proof (cases "n < 48")
    case True
    then have k: "n div 8 < 6" by simp
    have "(ucast (drop_bit (8 * (n div 8)) i) :: u8) = ucast (drop_bit (8 * (n div 8)) j)"
      using make_iv_index_byte [OF assms(1) k, of s i] make_iv_index_byte [OF assms(1) k, of t j] assms(2)
      by (metis xor_cancel)
    then have "bit (ucast (drop_bit (8 * (n div 8)) i) :: u8) (n mod 8) = bit (ucast (drop_bit (8 * (n div 8)) j) :: u8) (n mod 8)"
      by simp
    then show ?thesis by (simp add: bit_simps)
  qed (use top assms in simp)
qed

section \<open>The rollover counter\<close>

text \<open>What the counter and the last sequence number say together: how many packets have gone.\<close>

definition sent_index :: "('a, 'h) srtp_ctx \<Rightarrow> nat" where
  "sent_index c = unat (roc c) * 65536 + unat (last_seq c)"

lemma packet_index_of_nat: "packet_index r seq = of_nat (unat r * 65536 + unat seq)"
proof -
  have "packet_index r seq = push_bit 16 (ucast r) + ucast seq"
    unfolding packet_index_def by (rule disjunctive_add [symmetric]) (auto simp: bit_simps dest: bit_imp_le_length)
  then show ?thesis by (simp add: push_bit_eq_mult)
qed

lemma count_seq_step:
  assumes "seq_seen c" and "sent_index c + 1 < 2 ^ 48" and "seq = last_seq c + 1"
  shows "last_seq (count_seq c seq) = seq" and "sent_index (count_seq c seq) = sent_index c + 1"
proof -
  show l: "last_seq (count_seq c seq) = seq"
    using assms by (simp add: count_seq_def Let_def)
  show "sent_index (count_seq c seq) = sent_index c + 1"
  proof (cases "last_seq c = 65535")
    case True
    then have "count_seq c seq = c\<lparr>roc := roc c + 1, last_seq := 0\<rparr>" using assms by (simp add: count_seq_def)
    moreover have "unat (roc c) + 1 < 2 ^ 32" using assms(2) True by (simp add: sent_index_def)
    then have "unat (roc c + 1) = unat (roc c) + 1" by (simp add: unat_word_ariths)
    ultimately show ?thesis using True by (simp add: sent_index_def)
  next
    case False
    then have "unat (last_seq c) \<noteq> unat (65535 :: u16)" using False word_unat_eq_iff by blast
    moreover have "unat (last_seq c) < 65536" using unsigned_less [of "last_seq c"] by simp
    ultimately have "unat (last_seq c) + 1 < 65536" by simp
    then have "unat seq = unat (last_seq c) + 1" using assms(3) by (simp add: unat_word_ariths)
    moreover from this have "\<not> seq < last_seq c" by (simp add: word_less_nat_alt)
    ultimately show ?thesis using l assms by (simp add: count_seq_def sent_index_def Let_def)
  qed
qed

text \<open>The counter blocks that a run of packets is encrypted with.\<close>

fun rtp_ivs :: "('a, 'h) crypto \<Rightarrow> ('a, 'h) srtp_ctx \<Rightarrow> bytes list \<Rightarrow> bytes list" where
  "rtp_ivs cr c [] = []"
| "rtp_ivs cr c (p # ps) =
     (let c1 = snd (srtp_protect cr c p (length p + 10)) in rtp_iv c1 p # rtp_ivs cr c1 ps)"

fun consecutive :: "u16 \<Rightarrow> bytes list \<Rightarrow> bool" where
  "consecutive seq [] = True"
| "consecutive seq (p # ps) = (rtp_accepts p (length p + 10) \<and> rtp_seq p = seq \<and> consecutive (seq + 1) ps)"

lemma protect_ctx: "rtp_accepts p cap \<Longrightarrow> snd (srtp_protect cr c p cap) = count_seq c (rtp_seq p)"
  by (simp add: srtp_protect_def Let_def)

lemma count_seq_keeps [simp]: "rtp_salt (count_seq c s) = rtp_salt c" "seq_seen (count_seq c s)"
  by (simp_all add: count_seq_def Let_def)

lemma rtp_iv_index:
  "rtp_seq p = last_seq c \<Longrightarrow> rtp_iv c p = make_iv (rtp_salt c) (segment p 8 4) (of_nat (sent_index c))"
  by (simp add: rtp_iv_def packet_index_of_nat sent_index_def)

lemma rtp_ivs_run:
  "seq_seen c \<Longrightarrow> consecutive (last_seq c + 1) ps \<Longrightarrow> sent_index c + length ps < 2 ^ 48 \<Longrightarrow>
   rtp_ivs cr c ps = map2 (\<lambda>p n. make_iv (rtp_salt c) (segment p 8 4) (of_nat n)) ps
     [sent_index c + 1..<sent_index c + 1 + length ps]"
proof (induction ps arbitrary: c)
  case (Cons p ps)
  let ?c = "count_seq c (rtp_seq p)"
  have p: "rtp_accepts p (length p + 10)" "rtp_seq p = last_seq c + 1" "consecutive (last_seq c + 1 + 1) ps"
    using Cons.prems(2) by simp_all
  have "sent_index c + 1 < 2 ^ 48" using Cons.prems(3) by simp
  note s = count_seq_step [OF Cons.prems(1) this p(2)]
  have "consecutive (last_seq ?c + 1) ps" "sent_index ?c + length ps < 2 ^ 48"
    using s p Cons.prems(3) by simp_all
  from Cons.IH [OF _ this] have "rtp_ivs cr ?c ps = map2 (\<lambda>p n. make_iv (rtp_salt c) (segment p 8 4) (of_nat n)) ps
     [sent_index c + 1 + 1..<sent_index c + 1 + 1 + length ps]" using s(2) by simp
  moreover have "rtp_iv ?c p = make_iv (rtp_salt c) (segment p 8 4) (of_nat (sent_index c + 1))"
    using rtp_iv_index [of p ?c] s(1,2) by simp
  ultimately show ?case
    using protect_ctx [OF p(1), of cr c] by (simp add: upt_conv_Cons Let_def del: upt_Suc)
qed simp

lemma distinct_ivs:
  assumes "14 \<le> length salt" and "n + length ps \<le> 2 ^ 48"
  shows "distinct (map2 (\<lambda>p n. make_iv salt (segment p 8 4) (of_nat n)) ps [n..<n + length ps])"
proof -
  have "i = j" if ij: "i < length ps" "j < length ps"
    and e: "make_iv salt (segment (ps ! i) 8 4) (of_nat (n + i)) = make_iv salt (segment (ps ! j) 8 4) (of_nat (n + j))" for i j
  proof -
    have u: "unat (of_nat (n + k) :: u64) = n + k" if "k < length ps" for k
    proof -
      have "n + k < 2 ^ 64" using that assms(2) by simp
      then show ?thesis by (simp add: unsigned_of_nat take_bit_nat_eq_self del: of_nat_add)
    qed
    have "(of_nat (n + i) :: u64) = of_nat (n + j)"
      by (rule make_iv_inj [OF assms(1) e]) (use u ij assms(2) in simp_all)
    then have "n + i = n + j" using u ij by metis
    then show "i = j" by simp
  qed
  then show ?thesis unfolding distinct_conv_nth by (auto simp: nth_upt)
qed

text \<open>The handle of a cipher whose output is as long as its input.\<close>

definition same_length :: "('a, 'h) crypto \<Rightarrow> bool" where
  "same_length cr \<longleftrightarrow> (\<forall>a iv x y. aes_ctr cr a iv x = Some y \<longrightarrow> length y = length x)"

lemma init_ctx:
  assumes "srtp_init cr key salt = Some c" and "same_length cr"
  shows "length (rtp_salt c) = 14" and "length (rtcp_salt c) = 14" and "\<not> seq_seen c" and "roc c = 0"
    and "last_seq c = 0" and "rtcp_index c = 0" and "slot0 c = no_sender" and "slot1 c = no_sender"
proof -
  have kdf: "srtp_kdf cr key salt l n = Some k \<Longrightarrow> length k = n" for l n k
    using assms(2) by (auto simp: srtp_kdf_def same_length_def bind_eq_Some_conv)
  show "length (rtp_salt c) = 14" "length (rtcp_salt c) = 14" "\<not> seq_seen c" "roc c = 0"
    "last_seq c = 0" "rtcp_index c = 0" "slot0 c = no_sender" "slot1 c = no_sender"
    using assms(1) by (auto simp: srtp_init_def bind_eq_Some_conv kdf)
qed

lemma first_packet:
  assumes "\<not> seq_seen c" and "roc c = 0"
  shows "last_seq (count_seq c seq) = seq" and "roc (count_seq c seq) = 0"
    and "sent_index (count_seq c seq) = unat seq"
  using assms by (simp_all add: count_seq_def sent_index_def)

lemma ivs_from_start:
  assumes "srtp_init cr key salt = Some c" and "same_length cr"
    and "consecutive seq ps" and "unat seq + length ps \<le> 2 ^ 48"
  shows "distinct (rtp_ivs cr c ps) \<and>
    rtp_ivs cr c ps = map2 (\<lambda>p n. make_iv (rtp_salt c) (segment p 8 4) (of_nat n)) ps [unat seq..<unat seq + length ps]"
proof (cases ps)
  case (Cons p qs)
  note c = init_ctx [OF assms(1,2)]
  let ?c = "count_seq c (rtp_seq p)"
  have p: "rtp_accepts p (length p + 10)" "rtp_seq p = seq" "consecutive (seq + 1) qs" using assms(3) Cons by simp_all
  note f = first_packet [OF c(3,4), of seq]
  have "rtp_ivs cr ?c qs = map2 (\<lambda>p n. make_iv (rtp_salt c) (segment p 8 4) (of_nat n)) qs
     [unat seq + 1..<unat seq + 1 + length qs]"
    using rtp_ivs_run [of ?c qs cr] f p assms(4) Cons by simp
  moreover have "rtp_iv ?c p = make_iv (rtp_salt c) (segment p 8 4) (of_nat (unat seq))"
    using rtp_iv_index [of p ?c] f p(2) by simp
  ultimately have e: "rtp_ivs cr c ps =
      map2 (\<lambda>p n. make_iv (rtp_salt c) (segment p 8 4) (of_nat n)) ps [unat seq..<unat seq + length ps]"
    using protect_ctx [OF p(1), of cr c] p(2) Cons by (simp add: upt_conv_Cons Let_def del: upt_Suc)
  then show ?thesis using distinct_ivs [of "rtp_salt c" "unat seq" ps] c(1) assms(4) by simp
qed simp

text \<open>
  No keystream is used twice: from \<open>srtp_init\<close> on, packets whose sequence numbers count up by
  one, wrapping as often as they will up to \<open>2 ^ 48\<close> packets, are encrypted with counter blocks
  that are pairwise distinct, because the rollover counter and the sequence number together number the packets:
  the packet at position i has the index of the first sequence number plus i.
\<close>

theorem srtp_ivs_distinct:
  assumes "srtp_init cr key salt = Some c" and "same_length cr"
    and "consecutive seq ps" and "unat seq + length ps \<le> 2 ^ 48"
  shows "distinct (rtp_ivs cr c ps) \<and>
    rtp_ivs cr c ps = map2 (\<lambda>p n. make_iv (rtp_salt c) (segment p 8 4) (of_nat n)) ps [unat seq..<unat seq + length ps]"
  by (rule ivs_from_start [OF assms])

text \<open>
  A cipher to evaluate the model on: the keystream is the counter block over and over, the tag is made of the
  length and the sum of the message.
\<close>

definition test_crypto :: "(bytes, bytes) crypto" where
  "test_crypto = \<lparr>
     aes_new = Some,
     aes_ctr = (\<lambda>key iv x. Some (map2 (\<lambda>b i. b XOR iv ! (i mod 16)) x [0..<length x])),
     hmac_new = Some,
     hmac_sha1 = (\<lambda>key m. Some (replicate 10 (of_nat (length m)) @ replicate 10 (sum_list m)))\<rparr>"

definition rtp_test :: "u8 \<Rightarrow> u8 \<Rightarrow> bytes" where
  "rtp_test a b = [0x80, 96, a, b, 0, 0, 0, 1, 0, 0, 0, 7, 1, 2, 3]"

theorem srtp_ivs_distinct_witness:
  "\<exists>c. distinct (rtp_ivs test_crypto c [rtp_test 255 255, rtp_test 0 0, rtp_test 0 1])"
proof -
  obtain c where c: "srtp_init test_crypto (replicate 16 1) (replicate 14 2) = Some c"
    by (simp add: srtp_init_def srtp_kdf_def test_crypto_def)
  have l: "same_length test_crypto" by (auto simp: same_length_def test_crypto_def)
  have s: "consecutive 65535 [rtp_test 255 255, rtp_test 0 0, rtp_test 0 1]"
    by (simp add: rtp_test_def rtp_accepts_def rtp_header_len_def rtp_seq_def be16_def)
  from srtp_ivs_distinct [OF c l s] show ?thesis by auto
qed


section \<open>The replay window\<close>

text \<open>An index the sender's window refuses: too far back, or seen.\<close>

definition blocked :: "sender \<Rightarrow> u32 \<Rightarrow> bool" where
  "blocked s i \<longleftrightarrow> in_seen s \<and> i \<le> in_max s \<and>
     (unat (in_max s) - unat i \<ge> 64 \<or> bit (in_window s) (unat (in_max s) - unat i))"

lemma window_take_spec:
  assumes "in_seen s" and "window_take s ssrc i = (new, s')"
  shows "new \<longleftrightarrow> \<not> blocked s i" and "\<not> new \<Longrightarrow> s' = s" and "in_seen s'" and "in_ssrc s' = in_ssrc s"
    and "new \<Longrightarrow> blocked s' j \<longleftrightarrow> blocked s j \<or> j = i \<or> unat j + 64 \<le> unat i"
proof -
  have sub: "b \<le> a \<Longrightarrow> unat (a - b) = unat a - unat b" for a b :: u32
    by (simp add: unat_sub)
  have eq: "(j = i) = (unat j = unat i)" by (simp add: word_unat_eq_iff)
  consider (ahead) "i > in_max s" | (refused) "i \<le> in_max s" "blocked s i" | (hole) "i \<le> in_max s" "\<not> blocked s i" by force
  then have "(new \<longleftrightarrow> \<not> blocked s i) \<and> (\<not> new \<longrightarrow> s' = s) \<and> in_seen s' \<and> in_ssrc s' = in_ssrc s \<and>
    (new \<longrightarrow> (blocked s' j \<longleftrightarrow> blocked s j \<or> j = i \<or> unat j + 64 \<le> unat i))"
  proof cases
    case ahead
    let ?d = "unat i - unat (in_max s)"
    have n: "unat (in_max s) < unat i" using ahead by (simp add: word_less_nat_alt)
    have r: "new" "s' = s\<lparr>in_window := (if ?d \<ge> 64 then 0 else push_bit ?d (in_window s)) OR 1, in_max := i\<rparr>"
      using assms ahead sub [of "in_max s" i] by (auto simp: window_take_def Let_def)
    have w: "bit (in_window s') k \<longleftrightarrow> k = 0 \<or> (?d \<le> k \<and> k < 64 \<and> bit (in_window s) (k - ?d))" for k
      unfolding r(2) using n by (auto simp: bit_simps dest: bit_imp_le_length)
    have "blocked s' j \<longleftrightarrow> blocked s j \<or> j = i \<or> unat j + 64 \<le> unat i"
    proof -
      have "blocked s' j \<longleftrightarrow> unat j \<le> unat i \<and> (unat i - unat j \<ge> 64 \<or> unat i = unat j \<or>
              (?d \<le> unat i - unat j \<and> bit (in_window s) (unat i - unat j - ?d)))"
        using assms(1) w [of "unat i - unat j"] unfolding blocked_def r(2) by (auto simp: word_le_nat_alt)
      moreover have "blocked s j \<longleftrightarrow> unat j \<le> unat (in_max s) \<and>
          (unat (in_max s) - unat j \<ge> 64 \<or> bit (in_window s) (unat (in_max s) - unat j))"
        using assms(1) by (simp add: blocked_def word_le_nat_alt)
      moreover have "unat j \<le> unat (in_max s) \<Longrightarrow> unat i - unat j - ?d = unat (in_max s) - unat j" using n by linarith
      moreover have "unat j \<le> unat i \<Longrightarrow> ?d \<le> unat i - unat j \<longleftrightarrow> unat j \<le> unat (in_max s)" using n by linarith
      ultimately show ?thesis using n unfolding eq by auto
    qed
    moreover have "\<not> blocked s i" using ahead unfolding blocked_def by (metis linorder_not_less)
    ultimately show ?thesis using r assms(1) by simp
  next
    case refused
    then have "\<not> in_max s < i" by (simp add: not_less)
    then have "new = False \<and> s' = s" using refused assms sub [of i "in_max s"] by (auto simp: window_take_def blocked_def Let_def)
    then show ?thesis using refused assms(1) by blast
  next
    case hole
    let ?d = "unat (in_max s) - unat i"
    have n: "unat i \<le> unat (in_max s)" using hole(1) by (simp add: word_le_nat_alt)
    have d: "?d < 64" "\<not> bit (in_window s) ?d" using hole assms(1) by (auto simp: blocked_def)
    have "\<not> in_max s < i" using hole(1) by (simp add: not_less)
    then have r: "new" "s' = s\<lparr>in_window := in_window s OR push_bit ?d 1\<rparr>"
      using assms hole d sub [of i "in_max s"] by (auto simp: window_take_def Let_def)
    have w: "bit (in_window s') k \<longleftrightarrow> bit (in_window s) k \<or> k = ?d" for k
      unfolding r(2) using d(1) by (auto simp: bit_simps)
    have "blocked s' j \<longleftrightarrow> blocked s j \<or> j = i \<or> unat j + 64 \<le> unat i"
      using assms(1) w [of "unat (in_max s) - unat j"] n unfolding blocked_def eq r(2) by (auto simp: word_le_nat_alt)
    then show ?thesis using r hole assms(1) by simp
  qed
  then show "new \<longleftrightarrow> \<not> blocked s i" "\<not> new \<Longrightarrow> s' = s" "in_seen s'" "in_ssrc s' = in_ssrc s"
    "new \<Longrightarrow> blocked s' j \<longleftrightarrow> blocked s j \<or> j = i \<or> unat j + 64 \<le> unat i" by blast+
qed

lemma window_start:
  "\<not> in_seen s \<Longrightarrow> window_take s ssrc i = (new, s') \<Longrightarrow> new \<and> in_seen s' \<and> in_ssrc s' = ssrc \<and> blocked s' i"
  by (auto simp: window_take_def blocked_def)

text \<open>What the context as a whole refuses, and how its two slots are kept while at most two senders speak.\<close>

definition ctx_blocked :: "('a, 'h) srtp_ctx \<Rightarrow> u32 \<Rightarrow> u32 \<Rightarrow> bool" where
  "ctx_blocked c ssrc i \<longleftrightarrow> (in_ssrc (slot0 c) = ssrc \<and> blocked (slot0 c) i) \<or> (in_ssrc (slot1 c) = ssrc \<and> blocked (slot1 c) i)"

definition slots_ok :: "u32 set \<Rightarrow> ('a, 'h) srtp_ctx \<Rightarrow> bool" where
  "slots_ok S c \<longleftrightarrow> (in_seen (slot0 c) \<longrightarrow> in_ssrc (slot0 c) \<in> S) \<and>
     (in_seen (slot1 c) \<longrightarrow> in_ssrc (slot1 c) \<in> S \<and> in_seen (slot0 c) \<and> in_ssrc (slot0 c) \<noteq> in_ssrc (slot1 c))"

lemma slot_take_same:
  assumes "in_seen s \<Longrightarrow> in_ssrc s = ssrc" and "slot_take s ssrc i = (new, s')"
  shows "new \<longleftrightarrow> \<not> blocked s i" and "in_seen s'" and "in_ssrc s' = ssrc"
    and "blocked s j \<Longrightarrow> blocked s' j" and "new \<Longrightarrow> blocked s' i"
proof -
  have t: "window_take s ssrc i = (new, s')" using assms by (auto simp: slot_take_def split: if_splits)
  have "(new \<longleftrightarrow> \<not> blocked s i) \<and> in_seen s' \<and> in_ssrc s' = ssrc \<and> (blocked s j \<longrightarrow> blocked s' j) \<and> (new \<longrightarrow> blocked s' i)"
  proof (cases "in_seen s")
    case True
    note w = window_take_spec [OF True t]
    show ?thesis using w(1-4) w(5) [of j] w(5) [of i] assms(1) [OF True] by auto
  next
    case False
    then show ?thesis using window_start [OF False t] by (simp add: blocked_def)
  qed
  then show "new \<longleftrightarrow> \<not> blocked s i" "in_seen s'" "in_ssrc s' = ssrc"
    "blocked s j \<Longrightarrow> blocked s' j" "new \<Longrightarrow> blocked s' i" by blast+
qed

lemma two_senders: "finite S \<Longrightarrow> card S \<le> 2 \<Longrightarrow> a \<in> S \<Longrightarrow> b \<in> S \<Longrightarrow> c \<in> S \<Longrightarrow> a \<noteq> b \<Longrightarrow> c \<noteq> a \<Longrightarrow> c = b"
proof (rule ccontr)
  assume S: "finite S" "card S \<le> 2" "a \<in> S" "b \<in> S" "c \<in> S" "a \<noteq> b" "c \<noteq> a" "c \<noteq> b"
  have "card {a, b, c} \<le> card S" by (rule card_mono) (use S in auto)
  then show False using S by simp
qed

lemma replay_take_spec:
  assumes "slots_ok S c" and "finite S" and "card S \<le> 2" and "ssrc \<in> S" and "replay_take c ssrc i = (new, c')"
  shows "slots_ok S c'" and "new \<longleftrightarrow> \<not> ctx_blocked c ssrc i"
    and "ctx_blocked c s j \<Longrightarrow> ctx_blocked c' s j" and "new \<Longrightarrow> ctx_blocked c' ssrc i"
proof -
  have "slots_ok S c' \<and> (new \<longleftrightarrow> \<not> ctx_blocked c ssrc i) \<and> (ctx_blocked c s j \<longrightarrow> ctx_blocked c' s j) \<and> (new \<longrightarrow> ctx_blocked c' ssrc i)"
  proof (cases "\<not> in_seen (slot0 c) \<or> in_ssrc (slot0 c) = ssrc")
    case True
    obtain s' where s': "slot_take (slot0 c) ssrc i = (new, s')" "c' = c\<lparr>slot0 := s'\<rparr>"
      using assms(5) True by (auto simp: replay_take_def split: prod.splits)
    note t = slot_take_same [OF _ s'(1)]
    have own: "in_seen (slot0 c) \<Longrightarrow> in_ssrc (slot0 c) = ssrc" using True by blast
    have other: "in_ssrc (slot1 c) = ssrc \<Longrightarrow> \<not> blocked (slot1 c) i"
      using True assms(1) by (auto simp: slots_ok_def blocked_def)
    have "in_seen (slot1 c) \<Longrightarrow> in_ssrc (slot1 c) \<noteq> ssrc" using True assms(1) by (auto simp: slots_ok_def)
    then have "slots_ok S c'" using t(2,3) own assms(1,4) s'(2) by (auto simp: slots_ok_def)
    moreover have "new \<longleftrightarrow> \<not> ctx_blocked c ssrc i"
      using t(1) own other True by (auto simp: ctx_blocked_def blocked_def)
    moreover have "ctx_blocked c s j \<Longrightarrow> ctx_blocked c' s j"
      using t(3) t(4) [of j] own s'(2) by (auto simp: ctx_blocked_def blocked_def)
    ultimately show ?thesis using t(3,5) own s'(2) by (auto simp: ctx_blocked_def)
  next
    case False
    obtain s' where s': "slot_take (slot1 c) ssrc i = (new, s')" "c' = c\<lparr>slot1 := s'\<rparr>"
      using assms(5) False by (auto simp: replay_take_def split: prod.splits)
    note t = slot_take_same [OF _ s'(1)]
    have own: "in_seen (slot1 c) \<Longrightarrow> in_ssrc (slot1 c) = ssrc"
      using False assms(1,4) two_senders [OF assms(2,3), of "in_ssrc (slot0 c)" "in_ssrc (slot1 c)" ssrc]
      by (auto simp: slots_ok_def)
    have "slots_ok S c'" using t(2,3) own assms(1,4) False s'(2) by (auto simp: slots_ok_def)
    moreover have "new \<longleftrightarrow> \<not> ctx_blocked c ssrc i"
      using t(1) own False by (auto simp: ctx_blocked_def blocked_def)
    moreover have "ctx_blocked c s j \<Longrightarrow> ctx_blocked c' s j"
      using t(3) t(4) [of j] own s'(2) by (auto simp: ctx_blocked_def blocked_def)
    ultimately show ?thesis using t(3,5) own s'(2) by (auto simp: ctx_blocked_def)
  qed
  then show "slots_ok S c'" "new \<longleftrightarrow> \<not> ctx_blocked c ssrc i"
    "ctx_blocked c s j \<Longrightarrow> ctx_blocked c' s j" "new \<Longrightarrow> ctx_blocked c' ssrc i" by blast+
qed

text \<open>The sender and the index in a packet's trailer, and the packets of a sequence that are accepted.\<close>

definition rtcp_key :: "bytes \<Rightarrow> u32 \<times> u32" where
  "rtcp_key p = (get32 p 4, get32 p (length p - 14) AND 0x7fffffff)"

fun rtcp_accepted :: "('a, 'h) crypto \<Rightarrow> ('a, 'h) srtp_ctx \<Rightarrow> bytes list \<Rightarrow> bytes list" where
  "rtcp_accepted cr c [] = []"
| "rtcp_accepted cr c (p # ps) =
     (let (r, c1) = srtcp_unprotect cr c p
      in if r = None then rtcp_accepted cr c1 ps else p # rtcp_accepted cr c1 ps)"

text \<open>
  The replay check as a duplicate check: its state is the context with the set of the senders that may speak,
  its keys are senders with indexes. A key of another sender is turned away before it.
\<close>

type_synonym ('a, 'h) guard = "u32 set \<times> ('a, 'h) srtp_ctx"

definition guard_ok :: "('a, 'h) guard \<Rightarrow> bool" where
  "guard_ok = (\<lambda>(S, c). finite S \<and> card S \<le> 2 \<and> slots_ok S c)"

definition guard_take :: "u32 \<times> u32 \<Rightarrow> ('a, 'h) guard \<Rightarrow> bool \<times> ('a, 'h) guard" where
  "guard_take = (\<lambda>(ssrc, i) (S, c).
     if ssrc \<in> S then (let (new, c') = replay_take c ssrc i in (new, (S, c'))) else (False, (S, c)))"

definition guard_refused :: "('a, 'h) guard \<Rightarrow> u32 \<times> u32 \<Rightarrow> bool" where
  "guard_refused = (\<lambda>(S, c) (ssrc, i). ctx_blocked c ssrc i)"

lemma guard_take_spec:
  assumes "guard_ok g" and "guard_take k g = (new, g')"
  shows "guard_ok g'" and "new \<Longrightarrow> \<not> guard_refused g k" and "guard_refused g j \<Longrightarrow> guard_refused g' j"
    and "new \<Longrightarrow> guard_refused g' k"
proof -
  obtain S c where g: "g = (S, c)" by (cases g)
  obtain ssrc i where k: "k = (ssrc, i)" by (cases k)
  obtain s m where j: "j = (s, m)" by (cases j)
  have S: "slots_ok S c" "finite S" "card S \<le> 2" using assms(1) by (simp_all add: guard_ok_def g)
  have "guard_ok g' \<and> (new \<longrightarrow> \<not> guard_refused g k) \<and> (guard_refused g j \<longrightarrow> guard_refused g' j) \<and> (new \<longrightarrow> guard_refused g' k)"
  proof (cases "ssrc \<in> S")
    case True
    obtain c' where r: "replay_take c ssrc i = (new, c')" "g' = (S, c')"
      using assms(2) True by (auto simp: guard_take_def g k split: prod.splits)
    note t = replay_take_spec [OF S True r(1)]
    show ?thesis
      using t(1,2,4) t(3) [of s m] S(2,3) by (auto simp: guard_ok_def guard_refused_def g k j r(2))
  next
    case False
    then show ?thesis using assms by (simp add: guard_take_def g k)
  qed
  then show "guard_ok g'" "new \<Longrightarrow> \<not> guard_refused g k" "guard_refused g j \<Longrightarrow> guard_refused g' j"
    "new \<Longrightarrow> guard_refused g' k" by blast+
qed

interpretation replay: accept_once guard_ok guard_take guard_refused
  by unfold_locales (use guard_take_spec in blast)+

lemma subseq_distinct: "subseq xs ys \<Longrightarrow> distinct ys \<Longrightarrow> distinct xs"
  by (induction rule: list_emb.induct) (auto dest: list_emb_set)

text \<open>A packet whose tag verifies; only then is the replay check asked.\<close>

definition genuine :: "('a, 'h) crypto \<Rightarrow> ('a, 'h) srtp_ctx \<Rightarrow> bytes \<Rightarrow> bool" where
  "genuine cr c p \<longleftrightarrow> 22 \<le> length p \<and>
     (case hmac_sha1 cr (rtcp_auth c) (take (length p - 14 + 4) p) of
        None \<Rightarrow> False | Some mac \<Rightarrow> same mac (drop (length p - 14 + 4) p) 10)"

lemma unprotect_cases:
  "\<not> genuine cr c p \<Longrightarrow> srtcp_unprotect cr c p = (None, c)"
  "genuine cr c p \<Longrightarrow> \<exists>r. srtcp_unprotect cr c p = (r, snd (replay_take c (fst (rtcp_key p)) (snd (rtcp_key p)))) \<and>
     (r \<noteq> None \<longrightarrow> fst (replay_take c (fst (rtcp_key p)) (snd (rtcp_key p))))"
  by (auto simp: srtcp_unprotect_def genuine_def rtcp_key_def Let_def not_less split: option.splits prod.splits if_splits)

fun asked :: "('a, 'h) crypto \<Rightarrow> ('a, 'h) srtp_ctx \<Rightarrow> bytes list \<Rightarrow> (u32 \<times> u32) list" where
  "asked cr c [] = []"
| "asked cr c (p # ps) =
     (let rest = asked cr (snd (srtcp_unprotect cr c p)) ps in if genuine cr c p then rtcp_key p # rest else rest)"

lemma accepted_subset:
  "(\<forall>p \<in> set ps. fst (rtcp_key p) \<in> S) \<Longrightarrow>
   subseq (map rtcp_key (rtcp_accepted cr c ps)) (accepted_keys guard_take (S, c) (asked cr c ps))"
proof (induction ps arbitrary: c)
  case (Cons p ps)
  show ?case
  proof (cases "genuine cr c p")
    case False
    then show ?thesis using Cons unprotect_cases(1) [OF False] by simp
  next
    case True
    then obtain r where r: "srtcp_unprotect cr c p = (r, snd (replay_take c (fst (rtcp_key p)) (snd (rtcp_key p))))"
        "r \<noteq> None \<longrightarrow> fst (replay_take c (fst (rtcp_key p)) (snd (rtcp_key p)))" using unprotect_cases(2) by blast
    obtain new c1 where t: "replay_take c (fst (rtcp_key p)) (snd (rtcp_key p)) = (new, c1)" by fastforce
    have "guard_take (rtcp_key p) (S, c) = (new, (S, c1))"
      using Cons.prems t by (simp add: guard_take_def case_prod_beta)
    then show ?thesis using Cons r t True by (cases "r = None"; cases new) (auto simp: Let_def)
  qed
qed simp

text \<open>While at most two senders are named, every packet is accepted at most once.\<close>

lemma two_senders_once:
  assumes "srtp_init cr key salt = Some c" and "same_length cr" and "card (set (map (fst \<circ> rtcp_key) ps)) \<le> 2"
  shows "distinct (map rtcp_key (rtcp_accepted cr c ps))"
proof -
  let ?S = "set (map (fst \<circ> rtcp_key) ps)"
  have "slots_ok ?S c" using init_ctx [OF assms(1,2)] by (simp add: slots_ok_def no_sender_def)
  then have "guard_ok (?S, c)" using assms(3) by (simp add: guard_ok_def)
  then have "distinct (accepted_keys guard_take (?S, c) (asked cr c ps))" by (rule replay.accepted_new [THEN conjunct1])
  moreover have "subseq (map rtcp_key (rtcp_accepted cr c ps)) (accepted_keys guard_take (?S, c) (asked cr c ps))"
    by (rule accepted_subset) simp
  ultimately show ?thesis by (metis subseq_distinct)
qed

section \<open>What it takes to be replayed\<close>

definition rtcp_sender :: "bytes \<Rightarrow> u32" where
  "rtcp_sender p = get32 p 4"

definition rtcp_run :: "('a, 'h) crypto \<Rightarrow> ('a, 'h) srtp_ctx \<Rightarrow> bytes list \<Rightarrow> ('a, 'h) srtp_ctx" where
  "rtcp_run cr c ps = foldl (\<lambda>c p. snd (srtcp_unprotect cr c p)) c ps"

definition accepts_after :: "('a, 'h) crypto \<Rightarrow> ('a, 'h) srtp_ctx \<Rightarrow> bytes list \<Rightarrow> bytes \<Rightarrow> bool" where
  "accepts_after cr c ps p \<longleftrightarrow> fst (srtcp_unprotect cr (rtcp_run cr c ps) p) \<noteq> None"

text \<open>An index that a sender's slot refuses, and whose slot it is: the first sender's, or another's in the second.\<close>

definition slot_refuses :: "('a, 'h) srtp_ctx \<Rightarrow> u32 \<Rightarrow> u32 \<Rightarrow> bool" where
  "slot_refuses c ssrc i \<longleftrightarrow> in_seen (slot0 c) \<and>
     (let s = (if in_ssrc (slot0 c) = ssrc then slot0 c else slot1 c) in in_seen s \<and> in_ssrc s = ssrc \<and> blocked s i)"

lemma slot_take_new:
  assumes "slot_take s ssrc i = (new, s')" and "new"
  shows "in_seen s' \<and> in_ssrc s' = ssrc \<and> blocked s' i"
proof (cases "in_seen s \<and> in_ssrc s \<noteq> ssrc")
  case True
  then show ?thesis using assms window_start [of "s\<lparr>in_seen := False\<rparr>" ssrc i new s'] by (simp add: slot_take_def)
next
  case False
  then show ?thesis using slot_take_same [OF _ assms(1)] assms(2) by blast
qed

lemma replay_take_new: "replay_take c ssrc i = (True, c') \<Longrightarrow> slot_refuses c' ssrc i"
proof -
  assume r: "replay_take c ssrc i = (True, c')"
  show ?thesis
  proof (cases "\<not> in_seen (slot0 c) \<or> in_ssrc (slot0 c) = ssrc")
    case True
    then obtain s' where "slot_take (slot0 c) ssrc i = (True, s')" "c' = c\<lparr>slot0 := s'\<rparr>"
      using r by (auto simp: replay_take_def split: prod.splits)
    then show ?thesis using slot_take_new [of "slot0 c" ssrc i True s'] by (simp add: slot_refuses_def)
  next
    case False
    then obtain s' where "slot_take (slot1 c) ssrc i = (True, s')" "c' = c\<lparr>slot1 := s'\<rparr>"
      using r by (auto simp: replay_take_def split: prod.splits)
    then show ?thesis using slot_take_new [of "slot1 c" ssrc i True s'] False by (simp add: slot_refuses_def)
  qed
qed

lemma replay_take_refused:
  assumes "slot_refuses c ssrc i"
  shows "\<not> fst (replay_take c ssrc i)"
proof -
  let ?s = "if in_ssrc (slot0 c) = ssrc then slot0 c else slot1 c"
  have s: "in_seen (slot0 c)" "in_seen ?s" "in_ssrc ?s = ssrc" "blocked ?s i" using assms by (simp_all add: slot_refuses_def Let_def)
  obtain new s' where t: "slot_take ?s ssrc i = (new, s')" by fastforce
  have "\<not> new" using slot_take_same(1) [OF _ t] s by blast
  then show ?thesis using t s(1) by (cases "in_ssrc (slot0 c) = ssrc") (simp_all add: replay_take_def)
qed

lemma replay_take_keeps:
  assumes "slot_refuses c ssrc i" and "in_ssrc (slot0 c) = ssrc \<or> s = ssrc \<or> s = in_ssrc (slot0 c)"
  shows "slot_refuses (snd (replay_take c s j)) ssrc i"
proof (cases "s = in_ssrc (slot0 c)")
  case True
  obtain new s' where t: "slot_take (slot0 c) s j = (new, s')" by fastforce
  have "in_seen s'" "in_ssrc s' = s" "blocked (slot0 c) i \<Longrightarrow> blocked s' i"
    using slot_take_same(2,3) [OF _ t] slot_take_same(4) [OF _ t, of i] True by simp_all
  then show ?thesis using True assms(1) t by (auto simp: replay_take_def slot_refuses_def Let_def)
next
  case False
  obtain new s' where t: "slot_take (slot1 c) s j = (new, s')" by fastforce
  show ?thesis
  proof (cases "in_ssrc (slot0 c) = ssrc")
    case True
    then show ?thesis using False assms(1) t by (auto simp: replay_take_def slot_refuses_def Let_def)
  next
    case f: False
    then have s: "s = ssrc" "in_seen (slot0 c)" "in_seen (slot1 c)" "in_ssrc (slot1 c) = ssrc" "blocked (slot1 c) i"
      using False assms by (auto simp: slot_refuses_def Let_def)
    have "in_seen s'" "in_ssrc s' = s" "blocked s' i"
      using slot_take_same(2,3) [OF _ t] slot_take_same(4) [OF _ t, of i] s by simp_all
    then show ?thesis using f s t by (simp add: replay_take_def slot_refuses_def)
  qed
qed

lemma replay_take_first:
  "in_seen (slot0 (snd (replay_take c s j)))"
  "in_ssrc (slot0 (snd (replay_take c s j))) = (if in_seen (slot0 c) then in_ssrc (slot0 c) else s)"
proof -
  obtain new s' where t: "slot_take (slot0 c) s j = (new, s')" by fastforce
  show "in_seen (slot0 (snd (replay_take c s j)))"
    using slot_take_same(2) [OF _ t] t by (auto simp: replay_take_def split: prod.split)
  show "in_ssrc (slot0 (snd (replay_take c s j))) = (if in_seen (slot0 c) then in_ssrc (slot0 c) else s)"
    using slot_take_same(3) [OF _ t] t by (auto simp: replay_take_def split: prod.split)
qed

text \<open>What a packet does to the context, in terms of \<open>replay_take\<close>.\<close>

lemma unprotect_ctx:
  "snd (srtcp_unprotect cr c p) = (if genuine cr c p then snd (replay_take c (fst (rtcp_key p)) (snd (rtcp_key p))) else c)"
  using unprotect_cases [of cr c p] by (cases "genuine cr c p") auto

lemma replay_take_auth: "rtcp_auth (snd (replay_take c s j)) = rtcp_auth c"
  by (auto simp: replay_take_def split: prod.split)

lemma run_genuine: "genuine cr (rtcp_run cr c ps) = genuine cr c"
proof -
  have "rtcp_auth (rtcp_run cr c ps) = rtcp_auth c"
    unfolding rtcp_run_def by (induction ps arbitrary: c) (simp_all add: unprotect_ctx replay_take_auth)
  then show ?thesis by (simp add: genuine_def fun_eq_iff)
qed

lemma run_append: "rtcp_run cr c (ps @ qs) = rtcp_run cr (rtcp_run cr c ps) qs"
  by (simp add: rtcp_run_def)

lemma run_snoc: "rtcp_run cr c (ps @ [p]) =
    (if genuine cr c p then snd (replay_take (rtcp_run cr c ps) (fst (rtcp_key p)) (snd (rtcp_key p))) else rtcp_run cr c ps)"
  by (simp add: run_append rtcp_run_def [of cr _ "[p]"] unprotect_ctx run_genuine)

text \<open>The first slot is the first sender's that signed a packet, for good.\<close>

lemma run_first:
  assumes "\<not> in_seen (slot0 c)"
  shows "(\<exists>p \<in> set ps. genuine cr c p) \<longleftrightarrow> in_seen (slot0 (rtcp_run cr c ps))"
    and "(\<exists>p \<in> set ps. genuine cr c p) \<Longrightarrow> in_ssrc (slot0 (rtcp_run cr c ps)) = rtcp_sender (hd (filter (genuine cr c) ps))"
proof (induction ps rule: rev_induct)
  case (snoc p ps)
  {
    case 1
    show ?case using snoc(1) replay_take_first(1) by (auto simp: run_snoc)
  next
    case 2
    then show ?case using snoc replay_take_first(2) [of "rtcp_run cr c ps" "fst (rtcp_key p)" "snd (rtcp_key p)"]
      by (auto simp: run_snoc rtcp_sender_def rtcp_key_def filter_empty_conv hd_append)
  }
qed (use assms in \<open>simp_all add: rtcp_run_def\<close>)

lemma run_keeps:
  assumes "slot_refuses c ssrc i"
    and "\<And>x. x \<in> set ps \<Longrightarrow> genuine cr c x \<Longrightarrow> in_ssrc (slot0 c) = ssrc \<or> rtcp_sender x = ssrc \<or> rtcp_sender x = in_ssrc (slot0 c)"
  shows "slot_refuses (rtcp_run cr c ps) ssrc i \<and> in_ssrc (slot0 (rtcp_run cr c ps)) = in_ssrc (slot0 c)"
  using assms(2)
proof (induction ps rule: rev_induct)
  case (snoc p ps)
  then have IH: "slot_refuses (rtcp_run cr c ps) ssrc i" "in_ssrc (slot0 (rtcp_run cr c ps)) = in_ssrc (slot0 c)" by simp_all
  have "in_seen (slot0 (rtcp_run cr c ps))" using IH(1) by (simp add: slot_refuses_def)
  then show ?case
    using IH replay_take_keeps [OF IH(1), of "fst (rtcp_key p)" "snd (rtcp_key p)"] snoc.prems [of p]
      replay_take_first(2) [of "rtcp_run cr c ps" "fst (rtcp_key p)" "snd (rtcp_key p)"]
    by (auto simp: run_snoc rtcp_sender_def rtcp_key_def)
qed (use assms(1) in \<open>simp add: rtcp_run_def\<close>)

lemma accepted_genuine:
  assumes "fst (srtcp_unprotect cr c p) \<noteq> None"
  shows "genuine cr c p" and "fst (replay_take c (fst (rtcp_key p)) (snd (rtcp_key p)))"
proof -
  show g: "genuine cr c p" using unprotect_cases(1) [of cr c p] assms by (cases "genuine cr c p") simp_all
  show "fst (replay_take c (fst (rtcp_key p)) (snd (rtcp_key p)))" using unprotect_cases(2) [OF g] assms by auto
qed

text \<open>
  C16. What it takes to be replayed. Whatever arrives, in any order, forged or not, with any repetitions and from any number of
  senders: if a packet is accepted after one with the same sender and index was, then in between came a packet whose tag
  verified, from a third sender - neither this one nor the one that signed first. So what the first sender sent is never accepted twice,
  and while two peers hold the keys nothing is. With a third it is: it takes the second's window.
\<close>

theorem srtcp_no_replay:
  assumes "srtp_init cr key salt = Some c"
    and "accepts_after cr c before p" and "accepts_after cr c (before @ p # between) q" and "rtcp_key q = rtcp_key p"
  shows "\<exists>x \<in> set between. genuine cr c x \<and>
    distinct [rtcp_sender (hd (filter (genuine cr c) (before @ [p]))), rtcp_sender p, rtcp_sender x]"
proof (rule ccontr)
  assume no: "\<not> ?thesis"
  let ?c0 = "rtcp_run cr c before" and ?c1 = "rtcp_run cr c (before @ [p])" and ?ssrc = "fst (rtcp_key p)" and ?i = "snd (rtcp_key p)"
  have p: "genuine cr c p" "fst (replay_take ?c0 ?ssrc ?i)"
    using accepted_genuine [OF assms(2) [unfolded accepts_after_def]] by (simp_all add: run_genuine)
  then have c1: "slot_refuses ?c1 ?ssrc ?i"
    using replay_take_new [of ?c0 ?ssrc ?i] by (cases "replay_take ?c0 ?ssrc ?i") (simp add: run_snoc)
  have "slot0 c = no_sender" using assms(1) by (auto simp: srtp_init_def bind_eq_Some_conv)
  then have f: "in_ssrc (slot0 ?c1) = rtcp_sender (hd (filter (genuine cr c) (before @ [p])))"
    using run_first(2) [of c "before @ [p]" cr] p(1) by (simp add: no_sender_def)
  have "slot_refuses (rtcp_run cr ?c1 between) ?ssrc ?i \<and> in_ssrc (slot0 (rtcp_run cr ?c1 between)) = in_ssrc (slot0 ?c1)"
  proof (rule run_keeps [OF c1])
    fix x assume "x \<in> set between" and "genuine cr ?c1 x"
    then have "\<not> distinct [in_ssrc (slot0 ?c1), rtcp_sender p, rtcp_sender x]" using no unfolding f by (simp only: run_genuine) blast
    moreover have "rtcp_sender p = ?ssrc" by (simp add: rtcp_sender_def rtcp_key_def)
    ultimately show "in_ssrc (slot0 ?c1) = ?ssrc \<or> rtcp_sender x = ?ssrc \<or> rtcp_sender x = in_ssrc (slot0 ?c1)" by auto
  qed
  then have "slot_refuses (rtcp_run cr c (before @ p # between)) ?ssrc ?i" by (simp flip: run_append)
  then have "\<not> fst (replay_take (rtcp_run cr c (before @ p # between)) ?ssrc ?i)" by (rule replay_take_refused)
  then show False using accepted_genuine(2) [OF assms(3) [unfolded accepts_after_def]] assms(4) by simp
qed

definition signed_test :: "u8 \<Rightarrow> u8 \<Rightarrow> bytes" where
  "signed_test ssrc index = [0x80, 200, 0, 1, 0, 0, 0, ssrc, 0, 0, 0, index] @ replicate 10 12"

text \<open>Three senders take turns, and the second's packet is accepted twice.\<close>

theorem srtcp_no_replay_witness:
  "\<exists>c. srtp_init test_crypto (replicate 16 1) (replicate 14 2) = Some c \<and>
     accepts_after test_crypto c [signed_test 1 0] (signed_test 2 5) \<and>
     accepts_after test_crypto c [signed_test 1 0, signed_test 2 5, signed_test 3 0] (signed_test 2 5) \<and>
     (\<exists>x \<in> {signed_test 3 0}. distinct [1, 2, rtcp_sender x])"
proof -
  obtain c where c: "srtp_init test_crypto (replicate 16 1) (replicate 14 2) = Some c"
    by (simp add: srtp_init_def srtp_kdf_def test_crypto_def)
  have "case srtp_init test_crypto (replicate 16 1) (replicate 14 2) of None \<Rightarrow> False
    | Some c \<Rightarrow> accepts_after test_crypto c [signed_test 1 0] (signed_test 2 5) \<and>
        accepts_after test_crypto c [signed_test 1 0, signed_test 2 5, signed_test 3 0] (signed_test 2 5) \<and>
        hd (filter (genuine test_crypto c) ([signed_test 1 0] @ [signed_test 2 5])) = signed_test 1 0" by code_simp
  then have a: "accepts_after test_crypto c [signed_test 1 0] (signed_test 2 5)"
      "accepts_after test_crypto c ([signed_test 1 0] @ signed_test 2 5 # [signed_test 3 0]) (signed_test 2 5)"
      "hd (filter (genuine test_crypto c) ([signed_test 1 0] @ [signed_test 2 5])) = signed_test 1 0" unfolding c option.case by simp_all
  have s: "rtcp_sender (signed_test 1 0) = 1" "rtcp_sender (signed_test 2 5) = 2" by code_simp+
  show ?thesis using srtcp_no_replay [OF c a(1,2) refl] c a(1,2) unfolding a(3) s by auto
qed

section \<open>From the sender's packets back to the reports\<close>

text \<open>
  What counter mode and HMAC promise: the cipher returns as many bytes and undoes itself, the tag has
  twenty bytes, and neither fails.
\<close>

definition works :: "('a, 'h) crypto \<Rightarrow> bool" where
  "works cr \<longleftrightarrow> (\<forall>a iv x. \<exists>y. aes_ctr cr a iv x = Some y \<and> length y = length x \<and> aes_ctr cr a iv y = Some x) \<and>
     (\<forall>h m. \<exists>t. hmac_sha1 cr h m = Some t \<and> length t = 20)"

lemma same_iff: "n \<le> length a \<Longrightarrow> n \<le> length b \<Longrightarrow> same a b n \<longleftrightarrow> take n a = take n b"
  unfolding same_def by (rule fold_xor_eq)

fun srtcp_send :: "('a, 'h) crypto \<Rightarrow> ('a, 'h) srtp_ctx \<Rightarrow> bytes list \<Rightarrow> bytes option list" where
  "srtcp_send cr c [] = []"
| "srtcp_send cr c (p # ps) = (let (r, c1) = srtcp_protect cr c p (length p + 14) in r # srtcp_send cr c1 ps)"

fun srtcp_receive :: "('a, 'h) crypto \<Rightarrow> ('a, 'h) srtp_ctx \<Rightarrow> bytes list \<Rightarrow> bytes option list" where
  "srtcp_receive cr c [] = []"
| "srtcp_receive cr c (p # ps) = (let (r, c1) = srtcp_unprotect cr c p in r # srtcp_receive cr c1 ps)"

definition same_keys :: "('a, 'h) srtp_ctx \<Rightarrow> ('a, 'h) srtp_ctx \<Rightarrow> bool" where
  "same_keys s r \<longleftrightarrow> rtcp_aes s = rtcp_aes r \<and> rtcp_auth s = rtcp_auth r \<and> rtcp_salt s = rtcp_salt r"

lemma get32_put32: "length a = i \<Longrightarrow> get32 (a @ put32 v @ b) i = v"
  by (auto simp: get32_def put32_def nth_append be32_put32)

lemma get32_front: "i + 4 \<le> length a \<Longrightarrow> get32 (a @ b) i = get32 a i"
  by (simp add: get32_def nth_append)

lemma replay_take_keys: "replay_take c s i = (new, c') \<Longrightarrow> same_keys d c \<Longrightarrow> same_keys d c'"
  by (auto simp: replay_take_def same_keys_def split: if_splits prod.splits)

lemma index_bits:
  "((0x80000000 :: u32) OR (x AND 0x7fffffff)) AND 0x7fffffff = x AND 0x7fffffff"
  "((0x80000000 :: u32) OR (x AND 0x7fffffff)) AND 0x80000000 \<noteq> 0"
proof -
  have "bit (((0x80000000 :: u32) OR (x AND 0x7fffffff)) AND 0x80000000) 31" by (simp add: bit_simps)
  then show "((0x80000000 :: u32) OR (x AND 0x7fffffff)) AND 0x80000000 \<noteq> 0" by auto
  have "((0x80000000 :: u32) OR y) AND m = (0x80000000 AND m) OR (y AND m)" for y m by (rule bit.conj_disj_distrib2)
  then show "((0x80000000 :: u32) OR (x AND 0x7fffffff)) AND 0x7fffffff = x AND 0x7fffffff"
    by (simp add: and.assoc)
qed

lemma srtcp_step:
  assumes "works cr" and "same_keys s r" and "8 \<le> length p"
    and "replay_take r (get32 p 4) (rtcp_index s AND 0x7fffffff) = (True, r')"
  shows "\<exists>q. srtcp_protect cr s p (length p + 14) = (Some q, s\<lparr>rtcp_index := rtcp_index s + 1\<rparr>) \<and>
    srtcp_unprotect cr r q = (Some p, r') \<and> length q = length p + 14"
proof -
  let ?i = "rtcp_index s AND 0x7fffffff"
  let ?iv = "make_iv (rtcp_salt s) (segment p 4 4) (ucast ?i)"
  obtain y where y: "aes_ctr cr (rtcp_aes s) ?iv (drop 8 p) = Some y" "length y = length p - 8"
      "aes_ctr cr (rtcp_aes s) ?iv y = Some (drop 8 p)"
    using assms(1) unfolding works_def by (metis length_drop)
  define a where "a = take 8 p @ y"
  have a: "length a = length p" "take 8 a = take 8 p" "drop 8 a = y" using assms(3) y(2) by (auto simp: a_def)
  obtain t where t: "hmac_sha1 cr (rtcp_auth s) (a @ put32 (0x80000000 OR ?i)) = Some t" "length t = 20"
    using assms(1) unfolding works_def by blast
  define q where "q = a @ put32 (0x80000000 OR ?i) @ take 10 t"
  have q: "length q = length p + 14" using a t by (simp add: q_def)
  have prot: "srtcp_protect cr s p (length p + 14) = (Some q, s\<lparr>rtcp_index := rtcp_index s + 1\<rparr>)"
    using assms(3) y(1) t(1) by (simp add: srtcp_protect_def Let_def q_def a_def)
  have head: "take (length p + 4) q = a @ put32 (0x80000000 OR ?i)" "drop (length p + 4) q = take 10 t"
    using a by (simp_all add: q_def)
  have "get32 q (length p) = 0x80000000 OR ?i" using a(1) get32_put32 unfolding q_def by blast
  moreover have "get32 q 4 = get32 p 4"
  proof -
    have "get32 q 4 = get32 (take 8 p) 4" using a assms(3) get32_front [of 4 "take 8 p"] by (simp add: q_def a_def)
    also have "\<dots> = get32 (take 8 p @ drop 8 p) 4" using assms(3) by (subst get32_front) auto
    finally show ?thesis by simp
  qed
  moreover have "segment q 4 4 = segment p 4 4" "segment q 8 (length p - 8) = y" "take 8 q = take 8 p"
    using a assms(3) y(2) by (auto simp: q_def a_def segment_def take_drop)
  moreover have "same t (take 10 t) 10" using t(2) by (simp add: same_iff)
  moreover have k: "rtcp_aes r' = rtcp_aes s" "rtcp_salt r' = rtcp_salt s" "rtcp_auth r = rtcp_auth s"
    using replay_take_keys [OF assms(4,2)] assms(2) by (auto simp: same_keys_def)
  ultimately have "srtcp_unprotect cr r q = (Some p, r')"
    using q head t(1) y(3) assms(3,4)
    by (simp add: srtcp_unprotect_def Let_def index_bits)
  then show ?thesis using prot q by blast
qed

text \<open>One sender counting up: its index is new to the receiver, and stays so.\<close>

definition ahead_of :: "('a, 'h) srtp_ctx \<Rightarrow> u32 \<Rightarrow> nat \<Rightarrow> bool" where
  "ahead_of r ssrc n \<longleftrightarrow> in_seen (slot0 r) \<longrightarrow> in_ssrc (slot0 r) = ssrc \<and> unat (in_max (slot0 r)) < n"

lemma ahead_take:
  assumes "ahead_of r ssrc (unat i)"
  shows "\<exists>r'. replay_take r ssrc i = (True, r') \<and> ahead_of r' ssrc (unat i + 1)"
proof (cases "in_seen (slot0 r)")
  case True
  then have "in_ssrc (slot0 r) = ssrc" "i > in_max (slot0 r)"
    using assms by (simp_all add: ahead_of_def word_less_nat_alt)
  then show ?thesis using True by (simp add: replay_take_def slot_take_def window_take_def ahead_of_def Let_def)
qed (simp add: replay_take_def slot_take_def window_take_def ahead_of_def)

lemma low_index: "n < 2 ^ 31 \<Longrightarrow> (of_nat n :: u32) AND 0x7fffffff = of_nat n \<and> unat (of_nat n :: u32) = n"
proof -
  assume n: "n < 2 ^ 31"
  then have u: "unat (of_nat n :: u32) = n" by (simp add: unsigned_of_nat take_bit_nat_eq_self)
  have "(of_nat n :: u32) AND mask 31 = of_nat n"
    unfolding take_bit_eq_mask [symmetric] using n u by (simp add: word_unat_eq_iff unsigned_take_bit_eq take_bit_nat_eq_self)
  then show ?thesis using u by (simp add: mask_eq_exp_minus_1)
qed

lemma srtcp_run:
  "works cr \<Longrightarrow> same_keys s r \<Longrightarrow> rtcp_index s = of_nat n \<Longrightarrow> n + length ps \<le> 2 ^ 31 \<Longrightarrow>
   (\<forall>p \<in> set ps. 8 \<le> length p \<and> get32 p 4 = ssrc) \<Longrightarrow> ahead_of r ssrc n \<Longrightarrow>
   \<exists>qs. srtcp_send cr s ps = map Some qs \<and> srtcp_receive cr r qs = map Some ps \<and>
     map length qs = map (\<lambda>p. length p + 14) ps"
proof (induction ps arbitrary: s r n)
  case (Cons p ps)
  have p: "8 \<le> length p" "get32 p 4 = ssrc" using Cons.prems(5) by simp_all
  have n: "rtcp_index s AND 0x7fffffff = of_nat n" "unat (of_nat n :: u32) = n"
    using low_index [of n] Cons.prems(3,4) by simp_all
  obtain r' where r': "replay_take r ssrc (of_nat n) = (True, r')" "ahead_of r' ssrc (n + 1)"
    using ahead_take [of r ssrc "of_nat n"] Cons.prems(6) n(2) by auto
  let ?s = "s\<lparr>rtcp_index := rtcp_index s + 1\<rparr>"
  obtain q where q: "srtcp_protect cr s p (length p + 14) = (Some q, ?s)" "srtcp_unprotect cr r q = (Some p, r')"
      "length q = length p + 14"
    using srtcp_step [OF Cons.prems(1,2) p(1), of r'] r'(1) n(1) p(2) by auto
  have "same_keys ?s r'" using replay_take_keys [OF r'(1), of s] Cons.prems(2) by (simp add: same_keys_def)
  moreover have "rtcp_index ?s = of_nat (n + 1)" using Cons.prems(3) by simp
  ultimately obtain qs where "srtcp_send cr ?s ps = map Some qs" "srtcp_receive cr r' qs = map Some ps"
      "map length qs = map (\<lambda>p. length p + 14) ps"
    using Cons.IH [of ?s r' "n + 1"] Cons.prems(1,4,5) r'(2) by auto
  then show ?case using q by (intro exI [of _ "q # qs"]) simp
qed simp

text \<open>
  C17. Reports arrive: with a cipher that undoes itself, every compound RTCP packet of a stream, up to
  \<open>2 ^ 31\<close> of them, is protected, grows by the fourteen bytes of the trailer, and a peer set up with the same master key
  decrypts all of them in order to exactly the packets that were sent.
\<close>

theorem srtcp_roundtrip:
  assumes "works cr" and "srtp_init cr key salt = Some c" and "length ps \<le> 2 ^ 31"
    and "\<forall>p \<in> set ps. 8 \<le> length p \<and> get32 p 4 = ssrc"
  shows "\<exists>qs. srtcp_send cr c ps = map Some qs \<and> srtcp_receive cr c qs = map Some ps \<and>
     map length qs = map (\<lambda>p. length p + 14) ps"
proof -
  have "same_length cr" using assms(1) unfolding works_def same_length_def by (metis option.inject)
  note c = init_ctx [OF assms(2) this]
  show ?thesis
    using srtcp_run [of cr c c 0 ps ssrc] assms c by (simp add: same_keys_def ahead_of_def no_sender_def)
qed

theorem srtcp_roundtrip_witness:
  "\<exists>c qs. srtcp_receive test_crypto c qs = [Some [1, 2, 3, 4, 0, 0, 0, 7, 9], Some [5, 6, 7, 8, 0, 0, 0, 7]]"
proof -
  obtain c where c: "srtp_init test_crypto (replicate 16 1) (replicate 14 2) = Some c"
    by (simp add: srtp_init_def srtp_kdf_def test_crypto_def)
  have twice: "map2 (\<lambda>b i. b XOR f i) (map2 (\<lambda>b i. b XOR f i) x [0..<length x]) [0..<length x] = x"
    for x :: bytes and f by (rule nth_equalityI) (simp_all add: xor.assoc)
  have w: "works test_crypto" by (simp add: works_def test_crypto_def twice)
  have s: "\<forall>p \<in> set [[1, 2, 3, 4, 0, 0, 0, 7, 9], [5, 6, 7, 8, 0, 0, 0, 7]]. 8 \<le> length p \<and> get32 p 4 = be32 0 0 0 7"
    by (simp add: get32_def)
  from srtcp_roundtrip [OF w c _ s] show ?thesis by auto
qed

end
