(* ===== verification/Sctp.thy ===== *)
theory Sctp
  imports Prelude
begin

text \<open>
  components/kvm_webrtc/sctp.c: the receiving half of SCTP behind a WebRTC data channel. The state is
  the association; \<open>sctp_input\<close> takes a packet and gives the messages handed to the callback, in order,
  and the answer, empty for none. Every read of the packet is checked: \<open>None\<close> is a read outside it.
\<close>

section \<open>The association and the answer\<close>

record sctp_assoc =
  local_port :: u16
  peer_port :: u16
  my_vtag :: u32
  peer_vtag :: u32
  my_tsn :: u32
  up :: bool
  have_tsn :: bool
  cum_tsn :: u32
  ahead :: u32
  unacked :: u8

definition sctp_init :: "u16 \<Rightarrow> u32 \<Rightarrow> u32 \<Rightarrow> sctp_assoc" where
  "sctp_init port vtag tsn = \<lparr>local_port = port, peer_port = 0, my_vtag = (if vtag \<noteq> 0 then vtag else 1),
     peer_vtag = 0, my_tsn = tsn, up = False, have_tsn = False, cum_tsn = 0, ahead = 0, unacked = 0\<rparr>"

definition crc_bit :: "u32 \<Rightarrow> u32" where
  "crc_bit c = drop_bit 1 c XOR (0x82f63b78 AND (0 - (c AND 1)))"

definition sctp_crc32c :: "bytes \<Rightarrow> u32" where
  "sctp_crc32c p = NOT (fold (\<lambda>b c. (crc_bit ^^ 8) (c XOR ucast b)) p 0xffffffff)"

text \<open>The answer being built: what is written so far, the twelve bytes of the common header first.\<close>

record out =
  o_b :: bytes
  o_cap :: nat
  o_full :: bool

definition out_start :: "nat \<Rightarrow> out" where
  "out_start cap = \<lparr>o_b = replicate 12 0, o_cap = cap, o_full = False\<rparr>"

text \<open>A chunk with its value, padded with zeros to a multiple of four; whether there was room.\<close>

definition chunk :: "out \<Rightarrow> u8 \<Rightarrow> bytes \<Rightarrow> bool \<times> out" where
  "chunk ou type value =
     (let n = 4 + length value;
          padded = (n + 3) div 4 * 4
      in if o_full ou \<or> length (o_b ou) + padded > o_cap ou then (False, ou\<lparr>o_full := True\<rparr>)
         else (True, ou\<lparr>o_b := o_b ou @ [type, 0] @ put16 (of_nat n) @ value @ replicate (padded - n) 0\<rparr>))"

section \<open>Transmission sequence numbers\<close>

definition tsn_diff :: "u32 \<Rightarrow> u32 \<Rightarrow> int" where
  "tsn_diff a b = sint (a - b)"

function advance :: "sctp_assoc \<Rightarrow> sctp_assoc" where
  "advance a = (if ahead a AND 1 \<noteq> 0 then advance (a\<lparr>cum_tsn := cum_tsn a + 1, ahead := drop_bit 1 (ahead a)\<rparr>) else a)"
  by pat_completeness auto
termination
proof (relation "measure (\<lambda>a. unat (ahead a))")
  fix a :: sctp_assoc
  assume "ahead a AND 1 \<noteq> 0"
  then have "ahead a \<noteq> 0" by auto
  then have "unat (ahead a) \<noteq> 0" by (simp add: unat_eq_0)
  then have "unat (ahead a) div 2 < unat (ahead a)" by simp
  then show "(a\<lparr>cum_tsn := cum_tsn a + 1, ahead := drop_bit 1 (ahead a)\<rparr>, a) \<in> measure (\<lambda>a. unat (ahead a))"
    by (simp add: drop_bit_eq_div unat_div_distrib)
qed simp

declare advance.simps [simp del]

definition take_tsn :: "sctp_assoc \<Rightarrow> u32 \<Rightarrow> bool \<times> sctp_assoc" where
  "take_tsn a tsn =
     (let d = tsn_diff tsn (cum_tsn a)
      in if d \<le> 0 \<or> d > 32 then (False, a)
         else let b = push_bit (nat (d - 1)) 1
              in if ahead a AND b \<noteq> 0 then (False, a) else (True, advance (a\<lparr>ahead := ahead a OR b\<rparr>)))"

text \<open>What FORWARD TSN does to the counters.\<close>

definition forward_tsn :: "sctp_assoc \<Rightarrow> u32 \<Rightarrow> sctp_assoc" where
  "forward_tsn a tsn =
     (let d = tsn_diff tsn (cum_tsn a)
      in advance (if d > 32 then a\<lparr>cum_tsn := cum_tsn a + of_int d, ahead := 0\<rparr>
                  else if d > 0 then a\<lparr>cum_tsn := cum_tsn a + of_int d,
                                       ahead := if d = 32 then 0 else drop_bit (nat d) (ahead a)\<rparr>
                  else a))"

section \<open>The chunks the device sends\<close>

function run_end :: "u32 \<Rightarrow> nat \<Rightarrow> nat" where
  "run_end h i = (if i < 32 \<and> bit h i then run_end h (i + 1) else i)"
  by pat_completeness auto
termination by (relation "measure (\<lambda>(h, i). 32 - i)") auto

declare run_end.simps [simp del]

lemma run_end_ge: "i \<le> run_end h i"
  by (induction h i rule: run_end.induct) (subst run_end.simps, auto)

lemma run_end_gt: "i < 32 \<Longrightarrow> bit h i \<Longrightarrow> i < run_end h i"
  using run_end_ge [of "i + 1" h] by (subst run_end.simps) simp

function gap_blocks :: "u32 \<Rightarrow> nat \<Rightarrow> nat \<Rightarrow> (u16 \<times> u16) list" where
  "gap_blocks h i n =
     (if i < 32 \<and> n < 16
      then if \<not> bit h i then gap_blocks h (i + 1) n
           else let e = run_end h i in (of_nat (i + 1), of_nat e) # gap_blocks h e (n + 1)
      else [])"
  by pat_completeness auto
termination by (relation "measure (\<lambda>(h, i, n). 32 - i)") (auto intro: diff_less_mono2 run_end_gt)

declare gap_blocks.simps [simp del]

definition put_gap :: "u16 \<times> u16 \<Rightarrow> bytes" where
  "put_gap g = put16 (fst g) @ put16 (snd g)"

definition put_sack :: "sctp_assoc \<Rightarrow> out \<Rightarrow> sctp_assoc \<times> out" where
  "put_sack a ou =
     (let gaps = gap_blocks (ahead a) 0 0;
          (room, o') = chunk ou 3 (put32 (cum_tsn a) @ put32 65536 @ put16 (of_nat (length gaps)) @ put16 0 @
                                   concat (map put_gap gaps))
      in (if room then a\<lparr>unacked := 0\<rparr> else a, o'))"

definition put_init_ack :: "sctp_assoc \<Rightarrow> out \<Rightarrow> out" where
  "put_init_ack a ou =
     snd (chunk ou 2 (put32 (my_vtag a) @ put32 65536 @ put16 16 @ put16 16 @ put32 (my_tsn a) @
       put16 7 @ put16 12 @ put32 (my_vtag a) @ put32 (peer_vtag a) @
       put16 0xc000 @ put16 4 @ put16 0x8008 @ put16 5 @ [192, 0, 0, 0]))"

text \<open>The common header, and the checksum in little-endian order, once the chunks are in.\<close>

definition finish :: "sctp_assoc \<Rightarrow> out \<Rightarrow> bytes" where
  "finish a ou =
     (if o_full ou \<or> length (o_b ou) = 12 then []
      else let head = put16 (local_port a) @ put16 (peer_port a) @ put32 (peer_vtag a);
               body = drop 12 (o_b ou);
               crc = sctp_crc32c (head @ put32 0 @ body)
           in head @ rev (put32 crc) @ body)"

section \<open>Taking a packet\<close>

type_synonym msg = "u16 \<times> u32 \<times> bytes"

record inp =
  in_a :: sctp_assoc
  in_o :: out
  in_sack :: bool
  in_msgs :: "msg list"

text \<open>After a chunk: the next one, the answer as it is, or no answer at all.\<close>

datatype after = Go | Leave | Quit

definition on_init :: "bytes \<Rightarrow> u32 \<Rightarrow> nat \<Rightarrow> nat \<Rightarrow> inp \<Rightarrow> (after \<times> inp) option" where
  "on_init p vtag v vlen s =
     (if vtag \<noteq> 0 \<or> vlen < 16 then Some (Quit, s)
      else do {
        tag \<leftarrow> rd32 p v;
        if tag = 0 then Some (Quit, s)
        else do {
          port \<leftarrow> rd16 p 0;
          tsn \<leftarrow> rd32 p (v + 12);
          let a = (in_a s)\<lparr>peer_port := port, peer_vtag := tag, cum_tsn := tsn - 1, ahead := 0,
                    have_tsn := True, up := False\<rparr>;
          Some (Leave, s\<lparr>in_a := a, in_o := put_init_ack a (in_o s)\<rparr>)
        }
      })"

definition on_data :: "bytes \<Rightarrow> nat \<Rightarrow> nat \<Rightarrow> nat \<Rightarrow> inp \<Rightarrow> (after \<times> inp) option" where
  "on_data p off v vlen s =
     (if have_tsn (in_a s) \<and> vlen \<ge> 12
      then do {
        flags \<leftarrow> rd8 p (off + 1);
        tsn \<leftarrow> rd32 p v;
        stream \<leftarrow> rd16 p (v + 4);
        ppid \<leftarrow> rd32 p (v + 8);
        data \<leftarrow> rd_run p (v + 12) (vlen - 12);
        let (new, a) = take_tsn (in_a s) tsn;
        let msgs = (if new \<and> flags AND 3 = 3 then in_msgs s @ [(stream, ppid, data)] else in_msgs s);
        let a1 = a\<lparr>unacked := unacked a + 1\<rparr>;
        let sack = (in_sack s \<or> unacked a1 \<ge> 4 \<or> ahead a1 \<noteq> 0);
        Some (Go, s\<lparr>in_a := a1, in_msgs := msgs, in_sack := sack\<rparr>)
      } else Some (Go, s))"

definition on_forward :: "bytes \<Rightarrow> nat \<Rightarrow> nat \<Rightarrow> inp \<Rightarrow> (after \<times> inp) option" where
  "on_forward p v vlen s =
     (if have_tsn (in_a s) \<and> vlen \<ge> 4
      then do { tsn \<leftarrow> rd32 p v; Some (Go, s\<lparr>in_a := forward_tsn (in_a s) tsn, in_sack := True\<rparr>) }
      else Some (Go, s))"

definition on_chunk :: "bytes \<Rightarrow> u32 \<Rightarrow> nat \<Rightarrow> u8 \<Rightarrow> nat \<Rightarrow> inp \<Rightarrow> (after \<times> inp) option" where
  "on_chunk p vtag off type clen s =
     (let v = off + 4; vlen = clen - 4; a = in_a s; ou = in_o s
      in if type = 1 then on_init p vtag v vlen s
         else if vtag \<noteq> my_vtag a then Some (Quit, s)
         else if type = 10 then Some (Go, s\<lparr>in_a := a\<lparr>up := True\<rparr>, in_o := snd (chunk ou 11 [])\<rparr>)
         else if type = 0 then on_data p off v vlen s
         else if type = 192 then on_forward p v vlen s
         else if type = 4 then do { data \<leftarrow> rd_run p v vlen; Some (Go, s\<lparr>in_o := snd (chunk ou 5 data)\<rparr>) }
         else if type = 7 then Some (Go, s\<lparr>in_a := a\<lparr>up := False\<rparr>, in_o := snd (chunk ou 8 [])\<rparr>)
         else if type = 6 then Some (Quit, s\<lparr>in_a := a\<lparr>up := False\<rparr>\<rparr>)
         else Some (Go, s))"

function chunk_loop :: "bytes \<Rightarrow> u32 \<Rightarrow> nat \<Rightarrow> inp \<Rightarrow> (bool \<times> inp) option" where
  "chunk_loop p vtag off s =
     (if off + 4 \<le> length p
      then do {
        type \<leftarrow> rd8 p off;
        len \<leftarrow> rd16 p (off + 2);
        let clen = unat len;
        if clen < 4 \<or> off + clen > length p then Some (True, s)
        else do {
          (next, s1) \<leftarrow> on_chunk p vtag off type clen s;
          (case next of
             Go \<Rightarrow> chunk_loop p vtag (off + (clen + 3) div 4 * 4) s1
           | Leave \<Rightarrow> Some (True, s1)
           | Quit \<Rightarrow> Some (False, s1))
        }
      } else Some (True, s))"
  by pat_completeness auto
termination by (relation "measure (\<lambda>(p, vtag, off, s). length p - off)") auto

declare chunk_loop.simps [simp del]

definition sctp_input :: "sctp_assoc \<Rightarrow> bytes \<Rightarrow> nat \<Rightarrow> (sctp_assoc \<times> msg list \<times> bytes) option" where
  "sctp_input a p cap =
     (if length p < 16 \<or> cap < 12 then Some (a, [], [])
      else do {
        vtag \<leftarrow> rd32 p 4;
        (answer, s) \<leftarrow> chunk_loop p vtag 12 \<lparr>in_a = a, in_o = out_start cap, in_sack = False, in_msgs = []\<rparr>;
        if \<not> answer then Some (in_a s, in_msgs s, [])
        else let (a1, o1) = (if in_sack s then put_sack (in_a s) (in_o s) else (in_a s, in_o s))
             in Some (a1, in_msgs s, finish a1 o1)
      })"

definition sctp_sack :: "sctp_assoc \<Rightarrow> nat \<Rightarrow> sctp_assoc \<times> bytes" where
  "sctp_sack a cap =
     (if \<not> up a \<or> unacked a = 0 \<or> cap < 12 then (a, [])
      else let (a1, o1) = put_sack a (out_start cap) in (a1, finish a1 o1))"

section \<open>Every length is checked before it is read\<close>

definition out_ok :: "nat \<Rightarrow> out \<Rightarrow> bool" where
  "out_ok cap ou \<longleftrightarrow> o_cap ou = cap \<and> 12 \<le> length (o_b ou) \<and> length (o_b ou) \<le> cap \<and> length (o_b ou) mod 4 = 0"

lemma chunk_ok: "out_ok cap ou \<Longrightarrow> out_ok cap (snd (chunk ou t v))"
proof -
  assume o: "out_ok cap ou"
  have p: "n \<le> (n + 3) div 4 * 4" for n :: nat by linarith
  have m: "(k + j * 4) mod 4 = k mod 4" for k j :: nat by simp
  show ?thesis using o p [of "4 + length v"] m [of "length (o_b ou)" "(4 + length v + 3) div 4"]
    by (auto simp: chunk_def out_ok_def Let_def)
qed

lemma put_sack_ok: "out_ok cap ou \<Longrightarrow> out_ok cap (snd (put_sack a ou))"
  unfolding put_sack_def Let_def by (auto simp: case_prod_beta intro: chunk_ok)

lemma finish_ok: "out_ok cap ou \<Longrightarrow> finish a ou = [] \<or> 12 < length (finish a ou) \<and> length (finish a ou) \<le> cap \<and> length (finish a ou) mod 4 = 0"
  by (auto simp: out_ok_def finish_def Let_def)

definition msgs_ok :: "bytes \<Rightarrow> msg list \<Rightarrow> bool" where
  "msgs_ok p ms \<longleftrightarrow> (\<forall>(st, ppid, d) \<in> set ms. \<exists>i n. i + n \<le> length p \<and> d = segment p i n)"

lemma on_chunk_ok:
  assumes "4 \<le> clen" and "off + clen \<le> length p" and "16 \<le> length p" and "out_ok cap (in_o s)" and "msgs_ok p (in_msgs s)"
  shows "\<exists>next s'. on_chunk p vtag off t clen s = Some (next, s') \<and> out_ok cap (in_o s') \<and> msgs_ok p (in_msgs s')"
proof -
  have init: "\<exists>next s'. on_init p vtag (off + 4) (clen - 4) s = Some (next, s') \<and> out_ok cap (in_o s') \<and> msgs_ok p (in_msgs s')"
    using assms unfolding on_init_def put_init_ack_def by (auto simp: read_simps chunk_ok Let_def)
  have data: "\<exists>next s'. on_data p off (off + 4) (clen - 4) s = Some (next, s') \<and> out_ok cap (in_o s') \<and> msgs_ok p (in_msgs s')"
  proof (cases "have_tsn (in_a s) \<and> clen - 4 \<ge> 12")
    case True
    then have fit: "off + 4 + 12 + (clen - 4 - 12) \<le> length p" "off + 16 \<le> length p" using assms(2) by linarith+
    then have "\<exists>i n. i + n \<le> length p \<and> segment p (off + 4 + 12) (clen - 4 - 12) = segment p i n" by blast
    then show ?thesis using True fit assms
      unfolding on_data_def by (auto simp: read_simps msgs_ok_def Let_def case_prod_beta)
  qed (use assms in \<open>auto simp: on_data_def\<close>)
  have forward: "\<exists>next s'. on_forward p (off + 4) (clen - 4) s = Some (next, s') \<and> out_ok cap (in_o s') \<and> msgs_ok p (in_msgs s')"
    using assms unfolding on_forward_def by (auto simp: read_simps)
  show ?thesis
    using init data forward assms unfolding on_chunk_def Let_def by (auto simp: read_simps chunk_ok)
qed

lemma chunk_loop_ok:
  "16 \<le> length p \<Longrightarrow> out_ok cap (in_o s) \<Longrightarrow> msgs_ok p (in_msgs s) \<Longrightarrow>
   \<exists>go s'. chunk_loop p vtag off s = Some (go, s') \<and> out_ok cap (in_o s') \<and> msgs_ok p (in_msgs s')"
proof (induction "length p - off" arbitrary: off s rule: less_induct)
  case less
  show ?case
  proof (cases "off + 4 \<le> length p")
    case True
    obtain ln where rd: "rd8 p off = Some (p ! off)" "rd16 p (off + 2) = Some ln"
      using True rd8_in [of off p] rd16_in [of "off + 2" p] by simp
    define clen where "clen = unat ln"
    show ?thesis
    proof (cases "clen < 4 \<or> off + clen > length p")
      case True
      then show ?thesis using rd less.prems by (subst chunk_loop.simps) (auto simp: Let_def clen_def [symmetric])
    next
      case False
      then obtain nx s' where s': "on_chunk p vtag off (p ! off) clen s = Some (nx, s')" "out_ok cap (in_o s')" "msgs_ok p (in_msgs s')"
        using on_chunk_ok [of clen off p cap s vtag "p ! off"] less.prems by auto
      have rec: "\<exists>go s''. chunk_loop p vtag (off + (clen + 3) div 4 * 4) s' = Some (go, s'') \<and> out_ok cap (in_o s'') \<and> msgs_ok p (in_msgs s'')"
        by (rule less.hyps) (use False less.prems s' in auto)
      have "chunk_loop p vtag off s = (case nx of Go \<Rightarrow> chunk_loop p vtag (off + (clen + 3) div 4 * 4) s' | Leave \<Rightarrow> Some (True, s') | Quit \<Rightarrow> Some (False, s'))"
        using False True rd s'(1) by (subst chunk_loop.simps) (cases nx, simp_all add: Let_def clen_def [symmetric])
      then show ?thesis using rec s' by (cases nx) auto
    qed
  qed (use less.prems in \<open>subst chunk_loop.simps, auto\<close>)
qed

text \<open>
  C18. Whatever the browser sends, \<open>sctp_input\<close> reads only bytes of the packet, hands up only runs of
  its bytes, and its answer is empty or is a header with chunks, a multiple of four bytes and no longer than the caller's buffer.
\<close>

theorem sctp_input_safe:
  "\<exists>a' msgs ans. sctp_input a p cap = Some (a', msgs, ans) \<and>
     (\<forall>(stream, ppid, d) \<in> set msgs. \<exists>i n. i + n \<le> length p \<and> d = segment p i n) \<and>
     (ans = [] \<or> 12 < length ans \<and> length ans \<le> cap \<and> length ans mod 4 = 0)"
proof (cases "length p < 16 \<or> cap < 12")
  case False
  let ?s = "\<lparr>in_a = a, in_o = out_start cap, in_sack = False, in_msgs = []\<rparr>"
  obtain vtag where v: "rd32 p 4 = Some vtag" using False by (simp add: read_simps)
  have "out_ok cap (in_o ?s)" "msgs_ok p (in_msgs ?s)" using False by (auto simp: out_ok_def out_start_def msgs_ok_def)
  then obtain go s where s: "chunk_loop p vtag 12 ?s = Some (go, s)" "out_ok cap (in_o s)" "msgs_ok p (in_msgs s)"
    using chunk_loop_ok [of p cap ?s vtag 12] False by auto
  obtain a1 o1 where e: "(if in_sack s then put_sack (in_a s) (in_o s) else (in_a s, in_o s)) = (a1, o1)" by fastforce
  then have "out_ok cap o1" using s(2) put_sack_ok [of cap "in_o s" "in_a s"] by (auto split: if_splits)
  then have f: "finish a1 o1 = [] \<or> 12 < length (finish a1 o1) \<and> length (finish a1 o1) \<le> cap \<and> length (finish a1 o1) mod 4 = 0"
    by (rule finish_ok)
  have "sctp_input a p cap = (if \<not> go then Some (in_a s, in_msgs s, []) else Some (a1, in_msgs s, finish a1 o1))"
    unfolding sctp_input_def using False v s(1) e by auto
  then show ?thesis using f s(3) unfolding msgs_ok_def by (cases go) auto
qed (auto simp: sctp_input_def)

theorem sctp_input_safe_witness:
  "\<exists>a' msgs ans. sctp_input (sctp_init 5000 7 1)
       [0x13, 0x88, 0x13, 0x88, 0, 0, 0, 7, 0, 0, 0, 0, 0, 3, 0, 20, 0, 0, 0, 1, 0, 2, 0, 0, 0, 0, 0, 51, 1, 2, 3, 4] 64 =
       Some (a', msgs, ans) \<and> (ans = [] \<or> 12 < length ans \<and> length ans \<le> 64 \<and> length ans mod 4 = 0)"
  using sctp_input_safe [of "sctp_init 5000 7 1"
    "[0x13, 0x88, 0x13, 0x88, 0, 0, 0, 7, 0, 0, 0, 0, 0, 3, 0, 20, 0, 0, 0, 1, 0, 2, 0, 0, 0, 0, 0, 51, 1, 2, 3, 4]" 64]
  by (elim exE conjE) (intro exI conjI, assumption+)

text \<open>
  A packet of another association - its verification tag is neither ours nor the 0 of an INIT -
  changes nothing, hands up nothing and is not answered.
\<close>

theorem sctp_wrong_tag:
  assumes "rd32 p 4 = Some vtag" and "vtag \<noteq> my_vtag a" and "vtag \<noteq> 0"
  shows "sctp_input a p cap = Some (a, [], [])"
proof (cases "length p < 16 \<or> cap < 12")
  case False
  let ?s = "\<lparr>in_a = a, in_o = out_start cap, in_sack = False, in_msgs = []\<rparr>"
  have quit: "on_chunk p vtag off t clen ?s = Some (Quit, ?s)" for off t clen
    using assms(2,3) by (simp add: on_chunk_def on_init_def Let_def)
  have "rd8 p 12 \<noteq> None" "rd16 p 14 \<noteq> None" using False by (simp_all add: read_simps)
  then have "\<exists>go. chunk_loop p vtag 12 ?s = Some (go, ?s)"
    using quit False by (subst chunk_loop.simps) (auto simp: Let_def)
  then show ?thesis using False assms(1) by (auto simp: sctp_input_def finish_def out_start_def)
qed (auto simp: sctp_input_def)

theorem sctp_wrong_tag_witness:
  "sctp_input (sctp_init 5000 7 1) [0, 0, 0, 0, 0, 0, 0, 9, 0, 0, 0, 0, 7, 0, 0, 4] 100 = Some (sctp_init 5000 7 1, [], [])"
proof -
  have "rd32 [0, 0, 0, 0, 0, 0, 0, 9, 0, 0, 0, 0, 7, 0, 0, 4] 4 = Some 9" by (simp add: rd32_def rd8_def be32_def)
  then show ?thesis by (rule sctp_wrong_tag) (simp_all add: sctp_init_def)
qed

section \<open>The counters are a set of numbers that do not wrap\<close>

text \<open>
  The abstract state: the numbers that have arrived, as integers, and the last one up to which none is
  missing. The association holds that one modulo \<open>2 ^ 32\<close> and the next 32 as bits.
\<close>

definition holds :: "sctp_assoc \<Rightarrow> int \<Rightarrow> int set \<Rightarrow> bool" where
  "holds a C R \<longleftrightarrow> cum_tsn a = of_int C \<and>
     R = {..C} \<union> {n. C < n \<and> n \<le> C + 32 \<and> bit (ahead a) (nat (n - C - 1))}"

definition arrived :: "sctp_assoc \<Rightarrow> int \<Rightarrow> int set \<Rightarrow> bool" where
  "arrived a C R \<longleftrightarrow> holds a C R \<and> C + 1 \<notin> R"

lemma bit_32: "\<not> bit (w :: u32) k" if "32 \<le> k"
  using that by (auto dest: bit_imp_le_length)

lemma advance_arrived: "holds a C R \<Longrightarrow> \<exists>C'. C \<le> C' \<and> arrived (advance a) C' R"
proof (induction a arbitrary: C rule: advance.induct)
  case (1 a)
  have b: "ahead a AND 1 \<noteq> 0 \<longleftrightarrow> bit (ahead a) 0"
    using bit_iff_and_push_bit_not_eq_0 [of "ahead a" 0] by simp
  let ?a = "a\<lparr>cum_tsn := cum_tsn a + 1, ahead := drop_bit 1 (ahead a)\<rparr>"
  show ?case
  proof (cases "ahead a AND 1 \<noteq> 0")
    case True
    have "n \<in> R \<longleftrightarrow> n \<le> C + 1 \<or> (C + 1 < n \<and> n \<le> C + 1 + 32 \<and> bit (drop_bit 1 (ahead a)) (nat (n - (C + 1) - 1)))" for n
    proof -
      have R: "n \<in> R \<longleftrightarrow> n \<le> C \<or> (C < n \<and> n \<le> C + 32 \<and> bit (ahead a) (nat (n - C - 1)))"
        using 1(2) by (auto simp: holds_def)
      consider "n \<le> C" | "n = C + 1" | "C + 1 < n" by linarith
      then show ?thesis
      proof cases
        case 3
        then have "Suc (nat (n - (C + 1) - 1)) = nat (n - C - 1)" by simp
        then have "bit (drop_bit 1 (ahead a)) (nat (n - (C + 1) - 1)) = bit (ahead a) (nat (n - C - 1))"
          by (simp add: bit_drop_bit_eq)
        moreover have "\<not> n \<le> C + 32 \<Longrightarrow> \<not> bit (ahead a) (nat (n - C - 1))" by (intro bit_32) simp
        ultimately show ?thesis using R 3 by auto
      qed (use R True b in auto)
    qed
    then have "holds ?a (C + 1) R" using 1(2) by (auto simp: holds_def)
    then obtain C' where "C + 1 \<le> C'" "arrived (advance ?a) C' R" using 1(1) [OF True] by blast
    then show ?thesis using True by (subst advance.simps) (intro exI [of _ C'], simp)
  next
    case False
    then have "C + 1 \<notin> R" using 1(2) b by (auto simp: holds_def)
    then show ?thesis using 1(2) False by (subst advance.simps) (auto simp: arrived_def)
  qed
qed

lemma tsn_diff_int:
  "cum_tsn a = of_int C \<Longrightarrow> C - 2 ^ 31 \<le> n \<Longrightarrow> n < C + 2 ^ 31 \<Longrightarrow> tsn_diff (of_int n) (cum_tsn a) = n - C"
proof -
  assume a: "cum_tsn a = of_int C" "C - 2 ^ 31 \<le> n" "n < C + 2 ^ 31"
  have "tsn_diff (of_int n) (cum_tsn a) = sint (of_int (n - C) :: u32)" by (simp add: tsn_diff_def a(1))
  also have "\<dots> = signed_take_bit 31 (n - C)" by (simp add: signed_of_int del: of_int_diff)
  also have "\<dots> = n - C" using a(2,3) by (intro signed_take_bit_int_eq_self) simp_all
  finally show ?thesis .
qed

lemma take_tsn_arrived:
  assumes "arrived a C R" and "C - 2 ^ 31 \<le> n" and "n < C + 2 ^ 31" and "take_tsn a (of_int n) = (new, a')"
  shows "new \<longleftrightarrow> n \<notin> R \<and> n \<le> C + 32"
    and "\<exists>C'. C \<le> C' \<and> arrived a' C' (if new then insert n R else R)"
proof -
  have h: "cum_tsn a = of_int C" "\<And>m. m \<in> R \<longleftrightarrow> m \<le> C \<or> (C < m \<and> m \<le> C + 32 \<and> bit (ahead a) (nat (m - C - 1)))"
    using assms(1) by (auto simp: arrived_def holds_def)
  note d = tsn_diff_int [OF h(1) assms(2,3)]
  let ?k = "nat (n - C - 1)"
  have bt: "ahead a AND push_bit ?k 1 \<noteq> 0 \<longleftrightarrow> bit (ahead a) ?k" by (simp only: bit_iff_and_push_bit_not_eq_0)
  have t: "take_tsn a (of_int n) = (if n - C \<le> 0 \<or> n - C > 32 then (False, a) else if bit (ahead a) ?k then (False, a)
      else (True, advance (a\<lparr>ahead := ahead a OR push_bit ?k 1\<rparr>)))"
    unfolding take_tsn_def d Let_def bt ..
  have "(new \<longleftrightarrow> n \<notin> R \<and> n \<le> C + 32) \<and> (\<exists>C'. C \<le> C' \<and> arrived a' C' (if new then insert n R else R))"
  proof (cases "n \<le> C \<or> n > C + 32 \<or> bit (ahead a) ?k")
    case True
    then have "new = False" "a' = a"
      using assms(4) unfolding t by (auto split: if_splits)
    then show ?thesis using True h(2) [of n] assms(1) by auto
  next
    case False
    then have r: "new" "a' = advance (a\<lparr>ahead := ahead a OR push_bit ?k 1\<rparr>)"
      using assms(4) unfolding t by (auto split: if_splits)
    have k: "?k < 32" using False by linarith
    have "m \<in> insert n R \<longleftrightarrow> m \<le> C \<or> (C < m \<and> m \<le> C + 32 \<and> bit (ahead a OR push_bit ?k 1) (nat (m - C - 1)))" for m
    proof -
      have "bit (ahead a OR push_bit ?k 1) (nat (m - C - 1)) \<longleftrightarrow> bit (ahead a) (nat (m - C - 1)) \<or> nat (m - C - 1) = ?k"
        using k by (auto simp: bit_simps)
      moreover have "C < m \<Longrightarrow> nat (m - C - 1) = ?k \<longleftrightarrow> m = n" using False by linarith
      ultimately show ?thesis using h(2) [of m] False by auto
    qed
    then have "holds (a\<lparr>ahead := ahead a OR push_bit ?k 1\<rparr>) C (insert n R)" using h(1) by (auto simp: holds_def)
    then show ?thesis using advance_arrived r h(2) [of n] False by auto
  qed
  then show "new \<longleftrightarrow> n \<notin> R \<and> n \<le> C + 32" "\<exists>C'. C \<le> C' \<and> arrived a' C' (if new then insert n R else R)" by blast+
qed

lemma forward_tsn_arrived:
  assumes "arrived a C R" and "C - 2 ^ 31 \<le> n" and "n < C + 2 ^ 31"
  shows "\<exists>C'. C \<le> C' \<and> arrived (forward_tsn a (of_int n)) C' (R \<union> {..n})"
proof -
  have h: "cum_tsn a = of_int C" "\<And>m. m \<in> R \<longleftrightarrow> m \<le> C \<or> (C < m \<and> m \<le> C + 32 \<and> bit (ahead a) (nat (m - C - 1)))"
    using assms(1) by (auto simp: arrived_def holds_def)
  note d = tsn_diff_int [OF h(1) assms(2,3)]
  let ?b = "if n - C > 32 then a\<lparr>cum_tsn := cum_tsn a + of_int (n - C), ahead := 0\<rparr>
            else if n - C > 0 then a\<lparr>cum_tsn := cum_tsn a + of_int (n - C),
                                     ahead := if n - C = 32 then 0 else drop_bit (nat (n - C)) (ahead a)\<rparr>
            else a"
  have f: "forward_tsn a (of_int n) = advance ?b" by (simp only: forward_tsn_def d Let_def)
  have "holds ?b (max C n) (R \<union> {..n})"
  proof (cases "n \<le> C")
    case True
    then have "x \<le> n \<Longrightarrow> x \<in> R" for x using h(2) [of x] by simp
    then have "R \<union> {..n} = R" by blast
    moreover have "?b = a" using True by simp
    moreover have "max C n = C" using True by simp
    ultimately have "R \<union> {..n} = R" "?b = a" "max C n = C" by (simp_all only:)
    then show ?thesis using assms(1) unfolding arrived_def by (simp only:)
  next
    case False
    have hb: "ahead ?b = (if n - C \<ge> 32 then 0 else drop_bit (nat (n - C)) (ahead a))" using False by simp
    have "bit (ahead ?b) (nat (m - n - 1)) \<longleftrightarrow> m \<le> C + 32 \<and> bit (ahead a) (nat (m - C - 1))" if "n < m" for m
      unfolding hb
    proof -
      have "nat (n - C) + nat (m - n - 1) = nat (m - C - 1)" using that False by simp
      moreover have "bit (ahead a) (nat (m - C - 1)) \<Longrightarrow> m \<le> C + 32" 
        using bit_32 [of "nat (m - C - 1)" "ahead a"] by linarith
      ultimately show "bit (if n - C \<ge> 32 then 0 else drop_bit (nat (n - C)) (ahead a)) (nat (m - n - 1)) \<longleftrightarrow>
          m \<le> C + 32 \<and> bit (ahead a) (nat (m - C - 1))"
        using that by (cases "n - C \<ge> 32") (auto simp: bit_drop_bit_eq)
    qed
    note above = this
    have "m \<in> R \<union> {..n} \<longleftrightarrow> m \<le> n \<or> (n < m \<and> m \<le> n + 32 \<and> bit (ahead ?b) (nat (m - n - 1)))" for m
    proof (cases "n < m")
      case True
      then have "m \<in> R \<union> {..n} \<longleftrightarrow> m \<le> C + 32 \<and> bit (ahead a) (nat (m - C - 1))" using h(2) [of m] False by simp
      also have "\<dots> \<longleftrightarrow> m \<le> n + 32 \<and> bit (ahead ?b) (nat (m - n - 1))" unfolding above [OF True] using False by linarith
      finally show ?thesis using True by simp
    qed simp
    then have "R \<union> {..n} = {..n} \<union> {m. n < m \<and> m \<le> n + 32 \<and> bit (ahead ?b) (nat (m - n - 1))}" by blast
    moreover have "cum_tsn ?b = of_int n" "max C n = n" using h(1) False by simp_all
    ultimately show ?thesis unfolding holds_def by (simp only:)
  qed
  then obtain C' where "max C n \<le> C'" "arrived (advance ?b) C' (R \<union> {..n})" using advance_arrived by blast
  moreover from this have "C \<le> C'" by simp
  ultimately show ?thesis unfolding f by blast
qed

text \<open>A run of arriving and given-up numbers, and the arrivals that were new.\<close>

datatype tsn_op = Arrive int | Forget int

fun tsn_run :: "sctp_assoc \<Rightarrow> tsn_op list \<Rightarrow> int list \<times> sctp_assoc" where
  "tsn_run a [] = ([], a)"
| "tsn_run a (Arrive n # ops) =
     (let (new, a1) = take_tsn a (of_int n); (ns, a2) = tsn_run a1 ops in (if new then n # ns else ns, a2))"
| "tsn_run a (Forget n # ops) = tsn_run (forward_tsn a (of_int n)) ops"

fun op_tsn :: "tsn_op \<Rightarrow> int" where
  "op_tsn (Arrive n) = n"
| "op_tsn (Forget n) = n"

definition forgotten :: "tsn_op list \<Rightarrow> int set" where
  "forgotten ops = {m. \<exists>n. Forget n \<in> set ops \<and> m \<le> n}"

lemma forgotten_simps [simp]:
  "forgotten [] = {}" "forgotten (Arrive n # ops) = forgotten ops" "forgotten (Forget n # ops) = {..n} \<union> forgotten ops"
  by (auto simp: forgotten_def)

lemma tsn_run_arrived:
  "arrived a C R \<Longrightarrow> L \<le> C \<Longrightarrow> R \<subseteq> {..L + 2 ^ 30} \<Longrightarrow>
   (\<forall>x \<in> set ops. L - 2 ^ 30 \<le> op_tsn x \<and> op_tsn x \<le> L + 2 ^ 30) \<Longrightarrow>
   tsn_run a ops = (ns, a') \<Longrightarrow>
   distinct ns \<and> set ns \<inter> R = {} \<and> (\<forall>n \<in> set ns. Arrive n \<in> set ops) \<and>
   (\<exists>C'. C \<le> C' \<and> arrived a' C' (R \<union> set ns \<union> forgotten ops))"
proof (induction a ops arbitrary: C R ns a' rule: tsn_run.induct)
  case (1 a)
  then show ?case by auto
next
  case (2 a n ops)
  obtain new a1 where t: "take_tsn a (of_int n) = (new, a1)" by fastforce
  obtain ms a2 where r: "tsn_run a1 ops = (ms, a2)" by fastforce
  have "C \<in> R" using 2(2) by (auto simp: arrived_def holds_def)
  then have near: "C - 2 ^ 31 \<le> n" "n < C + 2 ^ 31" using 2(3-5) by auto
  let ?R = "if new then insert n R else R"
  note s = take_tsn_arrived [OF 2(2) near t]
  obtain C1 where c1: "C \<le> C1" "arrived a1 C1 ?R" using s(2) by blast
  have "?R \<subseteq> {..L + 2 ^ 30}" using 2(4,5) by auto
  from 2(1) [OF t [symmetric] refl c1(2) _ this _ r] obtain C2 where
    I: "distinct ms" "set ms \<inter> ?R = {}" "\<forall>m \<in> set ms. Arrive m \<in> set ops" "C1 \<le> C2" "arrived a2 C2 (?R \<union> set ms \<union> forgotten ops)"
    using 2(3,5) c1(1) by auto
  have e: "ns = (if new then n # ms else ms)" "a' = a2" using 2(6) t r by auto
  show ?case
  proof (cases new)
    case True
    then show ?thesis using I e s(1) c1(1) by auto
  next
    case False
    then show ?thesis using I e c1(1) by auto
  qed
next
  case (3 a n ops)
  have "C \<in> R" using 3(2) by (auto simp: arrived_def holds_def)
  then have near: "C - 2 ^ 31 \<le> n" "n < C + 2 ^ 31" using 3(3-5) by auto
  obtain C1 where c1: "C \<le> C1" "arrived (forward_tsn a (of_int n)) C1 (R \<union> {..n})"
    using forward_tsn_arrived [OF 3(2) near] by blast
  have "R \<union> {..n} \<subseteq> {..L + 2 ^ 30}" using 3(4,5) by auto
  from 3(1) [OF c1(2) _ this] obtain C2 where
    I: "distinct ns" "set ns \<inter> (R \<union> {..n}) = {}" "\<forall>m \<in> set ns. Arrive m \<in> set ops" "C1 \<le> C2"
      "arrived a' C2 (R \<union> {..n} \<union> set ns \<union> forgotten ops)"
    using 3(3,5,6) c1(1) by auto
  have "R \<union> {..n} \<union> set ns \<union> forgotten ops = R \<union> set ns \<union> forgotten (Forget n # ops)" by auto
  then show ?case using I c1(1) by auto
qed

text \<open>
  C19. The association refines a set of integers: for any interleaving of DATA and FORWARD TSN whose
  numbers stay within \<open>2 ^ 30\<close> of the start, wrapping past \<open>2 ^ 32\<close> or not, each number is accepted at most
  once and never after it was acknowledged or given up, and afterwards the counters stand for exactly
  what had arrived, what was accepted and what was given up; the acknowledged number only grows.
\<close>

theorem tsn_run_refines:
  assumes "arrived a C {..C}" and "\<forall>x \<in> set ops. \<bar>op_tsn x - C\<bar> \<le> 2 ^ 30" and "tsn_run a ops = (ns, a')"
  shows "distinct ns \<and> (\<forall>n \<in> set ns. C < n \<and> Arrive n \<in> set ops) \<and>
    (\<exists>C' \<ge> C. arrived a' C' ({..C} \<union> set ns \<union> forgotten ops))"
proof -
  have b: "\<forall>x \<in> set ops. C - 2 ^ 30 \<le> op_tsn x \<and> op_tsn x \<le> C + 2 ^ 30" using assms(2) by auto
  show ?thesis using tsn_run_arrived [OF assms(1) _ _ b assms(3)] by auto
qed

theorem tsn_run_refines_witness:
  "let a = (sctp_init 5000 7 1)\<lparr>have_tsn := True, cum_tsn := 0xfffffffe\<rparr>;
       r = tsn_run a [Arrive 0x100000000, Arrive 0xffffffff, Arrive 0x100000000]
   in fst r = [0x100000000, 0xffffffff] \<and> cum_tsn (snd r) = 0 \<and> distinct (fst r)"
proof -
  let ?a = "(sctp_init 5000 7 1)\<lparr>have_tsn := True, cum_tsn := 0xfffffffe\<rparr>"
  have a: "arrived ?a 0xfffffffe {..0xfffffffe}" by (auto simp: arrived_def holds_def sctp_init_def)
  have r: "tsn_run ?a [Arrive 0x100000000, Arrive 0xffffffff, Arrive 0x100000000] =
    ([0x100000000, 0xffffffff], ?a\<lparr>cum_tsn := 0\<rparr>)" by code_simp
  have near: "\<forall>x \<in> set [Arrive 0x100000000, Arrive 0xffffffff, Arrive 0x100000000]. \<bar>op_tsn x - 0xfffffffe\<bar> \<le> 2 ^ 30"
    by simp
  from tsn_run_refines [OF a near r] r show ?thesis by (simp add: Let_def)
qed

section \<open>What a SACK says\<close>

lemma run_end_spec:
  "i \<le> 32 \<Longrightarrow> run_end h i \<le> 32 \<and> (\<forall>k. i \<le> k \<and> k < run_end h i \<longrightarrow> bit h k) \<and> \<not> bit h (run_end h i)"
proof (induction h i rule: run_end.induct)
  case (1 h i)
  show ?case
  proof (cases "i < 32 \<and> bit h i")
    case True
    then have "run_end h i = run_end h (i + 1)" by (subst run_end.simps) simp
    moreover have "i \<le> k \<Longrightarrow> i + 1 \<le> k \<or> k = i" for k by auto
    ultimately show ?thesis using 1 True by auto
  next
    case False
    then have "run_end h i = i" by (subst run_end.simps) (simp only: if_False)
    then show ?thesis using False 1(2) bit_32 [of i h] by fastforce
  qed
qed

definition in_gaps :: "(u16 \<times> u16) list \<Rightarrow> nat \<Rightarrow> bool" where
  "in_gaps gs k \<longleftrightarrow> (\<exists>(s, e) \<in> set gs. unat s \<le> k \<and> k \<le> unat e)"

lemma in_gaps_simps [simp]:
  "\<not> in_gaps [] k" "in_gaps (g # gs) k \<longleftrightarrow> (unat (fst g) \<le> k \<and> k \<le> unat (snd g)) \<or> in_gaps gs k"
  by (auto simp: in_gaps_def case_prod_beta)

text \<open>Sixteen blocks are always enough for 32 bits: two runs have a hole between them.\<close>

definition room_left :: "u32 \<Rightarrow> nat \<Rightarrow> nat \<Rightarrow> bool" where
  "room_left h i n \<longleftrightarrow> n + (if bit h i then (33 - i) div 2 else (32 - i) div 2) \<le> 16"

lemma gap_blocks_spec:
  "i \<le> 32 \<Longrightarrow> room_left h i n \<Longrightarrow>
   n + length (gap_blocks h i n) \<le> 16 \<and> (\<forall>k. in_gaps (gap_blocks h i n) (k + 1) \<longleftrightarrow> i \<le> k \<and> bit h k) \<and>
   \<not> in_gaps (gap_blocks h i n) 0"
proof (induction h i n rule: gap_blocks.induct)
  case (1 h i n)
  consider (past) "i = 32" | (hole) "i < 32" "\<not> bit h i" | (block) "i < 32" "bit h i" using 1(3) by force
  then show ?case
  proof cases
    case past
    then have "gap_blocks h i n = []" by (subst gap_blocks.simps) simp
    moreover have "32 \<le> k \<Longrightarrow> \<not> bit h k" for k by (rule bit_32)
    ultimately show ?thesis using 1(4) past by (auto simp: room_left_def split: if_splits)
  next
    case hole
    have r: "room_left h (i + 1) n" using hole 1(4) by (auto simp: room_left_def)
    show ?thesis
    proof (cases "n < 16")
      case True
      have g: "gap_blocks h i n = gap_blocks h (i + 1) n" using hole True by (subst gap_blocks.simps) simp
      have "i \<le> k \<and> bit h k \<longleftrightarrow> i + 1 \<le> k \<and> bit h k" for k using hole(2) by (cases "k = i") auto
      then show ?thesis using 1(1) [OF _ hole(2)] r hole(1) True unfolding g by simp
    next
      case False
      then have "n = 16" "i = 31" using 1(4) hole by (auto simp: room_left_def)
      then have "gap_blocks h i n = []" by (subst gap_blocks.simps) simp
      moreover have "31 \<le> k \<Longrightarrow> \<not> bit h k" for k using bit_32 [of k h] hole(2) \<open>i = 31\<close> by (cases "k = 31") auto
      ultimately show ?thesis using \<open>n = 16\<close> \<open>i = 31\<close> by auto
    qed
  next
    case block
    have n: "n < 16" using 1(4) block by (auto simp: room_left_def)
    define e where "e = run_end h i"
    have e: "e \<le> 32" "i < e" "\<And>k. i \<le> k \<Longrightarrow> k < e \<Longrightarrow> bit h k" "\<not> bit h e"
      using run_end_spec [of i h] run_end_gt [OF block] block(1) by (auto simp: e_def)
    have g: "gap_blocks h i n = (of_nat (i + 1), of_nat e) # gap_blocks h e (n + 1)"
      using block n by (subst gap_blocks.simps) (simp add: e_def Let_def)
    have "room_left h e (n + 1)" using 1(4) block e by (auto simp: room_left_def)
    note IH = 1(2) [OF _ _ e_def e(1) this]
    have IH: "n + 1 + length (gap_blocks h e (n + 1)) \<le> 16" "\<And>k. in_gaps (gap_blocks h e (n + 1)) (k + 1) \<longleftrightarrow> e \<le> k \<and> bit h k"
        "\<not> in_gaps (gap_blocks h e (n + 1)) 0"
      using IH block n by auto
    have small: "unat (of_nat k :: u16) = k" if "k \<le> 32" for k
      using that by (simp add: unsigned_of_nat take_bit_nat_eq_self)
    have u: "unat (of_nat (i + 1) :: u16) = i + 1" "unat (of_nat e :: u16) = e"
      using small [of "i + 1"] small [of e] e(1) block(1) by simp_all
    have "in_gaps (gap_blocks h i n) (k + 1) \<longleftrightarrow> i \<le> k \<and> bit h k" for k
    proof -
      have "in_gaps (gap_blocks h i n) (k + 1) \<longleftrightarrow> (i \<le> k \<and> k < e) \<or> (e \<le> k \<and> bit h k)"
        unfolding g in_gaps_simps fst_conv snd_conv u IH(2) by auto
      then show ?thesis using e(2) e(3) [of k] by force
    qed
    moreover have "\<not> in_gaps (gap_blocks h i n) 0" unfolding g in_gaps_simps fst_conv snd_conv u using IH(3) by simp
    moreover have "n + length (gap_blocks h i n) \<le> 16" unfolding g using IH(1) by simp
    ultimately show ?thesis by blast
  qed
qed

text \<open>The receiver's reading of a packet that holds one SACK, from RFC 4960 3.3.4.\<close>

definition read_sack :: "bytes \<Rightarrow> (u32 \<times> (u16 \<times> u16) list) option" where
  "read_sack p = do {
     t \<leftarrow> rd8 p 12;
     len \<leftarrow> rd16 p 14;
     cum \<leftarrow> rd32 p 16;
     n \<leftarrow> rd16 p 24;
     gaps \<leftarrow> map_opt (\<lambda>i. do { s \<leftarrow> rd16 p (28 + 4 * i); e \<leftarrow> rd16 p (30 + 4 * i); Some (s, e) }) [0..<unat n];
     if t = 3 \<and> unat len = 16 + 4 * unat n \<and> length p = 28 + 4 * unat n then Some (cum, gaps) else None
   }"

lemma length_gaps [simp]: "length (concat (map put_gap gs)) = 4 * length gs"
  by (induction gs) (auto simp: put_gap_def)

lemma read_gaps:
  "length a = i \<Longrightarrow>
   map_opt (\<lambda>k. do { s \<leftarrow> rd16 (a @ concat (map put_gap gs)) (i + 4 * k); e \<leftarrow> rd16 (a @ concat (map put_gap gs)) (i + 2 + 4 * k); Some (s, e) })
     [0..<length gs] = Some gs"
proof -
  assume a: "length a = i"
  have g: "rd16 (a @ concat (map put_gap gs)) (i + 4 * k) = Some (fst (gs ! k)) \<and>
      rd16 (a @ concat (map put_gap gs)) (i + 2 + 4 * k) = Some (snd (gs ! k))" if "k < length gs" for k
  proof -
    have "concat (map put_gap gs) = concat (map put_gap (take k gs)) @ put_gap (gs ! k) @ concat (map put_gap (drop (Suc k) gs))"
      using id_take_nth_drop [OF that] by (metis concat.simps(2) concat_append map_append list.simps(9))
    then have e: "a @ concat (map put_gap gs) = (a @ concat (map put_gap (take k gs))) @ put16 (fst (gs ! k)) @
        put16 (snd (gs ! k)) @ concat (map put_gap (drop (Suc k) gs))" by (simp add: put_gap_def)
    have l: "length (a @ concat (map put_gap (take k gs))) = i + 4 * k" using a that by simp
    have "rd16 (((a @ concat (map put_gap (take k gs))) @ put16 (fst (gs ! k))) @ put16 (snd (gs ! k)) @
        concat (map put_gap (drop (Suc k) gs))) (i + 2 + 4 * k) = Some (snd (gs ! k))"
      by (rule rd16_at) (use l in simp)
    then show ?thesis unfolding e using rd16_at [OF l] by simp
  qed
  have "map_opt (\<lambda>k. do { s \<leftarrow> rd16 (a @ concat (map put_gap gs)) (i + 4 * k); e \<leftarrow> rd16 (a @ concat (map put_gap gs)) (i + 2 + 4 * k); Some (s, e) })
     [0..<length gs] = Some (map (\<lambda>k. gs ! k) [0..<length gs])"
    by (rule map_opt_Some) (use g in simp)
  then show ?thesis by (simp add: map_nth)
qed

lemma arrived_gaps:
  assumes "arrived a C R"
  shows "R = {..C} \<union> {C + int k | k. in_gaps (gap_blocks (ahead a) 0 0) k}"
proof -
  define gs where "gs = gap_blocks (ahead a) 0 0"
  have "room_left (ahead a) 0 0" by (simp add: room_left_def)
  note g = gap_blocks_spec [of 0 "ahead a" 0, OF _ this, folded gs_def, simplified]
  have "m \<in> R \<longleftrightarrow> m \<le> C \<or> (\<exists>k. m = C + int k \<and> in_gaps gs k)" for m
  proof -
    have R: "m \<in> R \<longleftrightarrow> m \<le> C \<or> (C < m \<and> m \<le> C + 32 \<and> bit (ahead a) (nat (m - C - 1)))"
      using assms by (auto simp: arrived_def holds_def)
    show ?thesis
    proof
      assume "m \<in> R"
      then consider "m \<le> C" | "C < m" "bit (ahead a) (nat (m - C - 1))" using R by blast
      then show "m \<le> C \<or> (\<exists>k. m = C + int k \<and> in_gaps gs k)"
      proof cases
        case 2
        then have "m = C + int (nat (m - C - 1) + 1)" "in_gaps gs (nat (m - C - 1) + 1)" using g by simp_all
        then show ?thesis unfolding gs_def by blast
      qed simp
    next
      assume "m \<le> C \<or> (\<exists>k. m = C + int k \<and> in_gaps gs k)"
      then consider "m \<le> C" | k where "m = C + int k" "in_gaps gs k" by blast
      then show "m \<in> R"
      proof cases
        case 2
        then obtain j where j: "k = j + 1" using g by (cases k) auto
        then have b: "bit (ahead a) j" using g 2(2) by simp
        then have "j < 32" using bit_32 [of j "ahead a"] by linarith
        then show ?thesis unfolding R using b 2(1) j by simp
      qed (simp add: R)
    qed
  qed
  then show ?thesis unfolding gs_def by blast
qed

text \<open>
  C20. The SACK is exact: when it is due and the buffer has room for sixteen blocks, the packet is written, the
  count of unacknowledged packets starts anew, and whoever reads the cumulative number and the gap blocks
  from the packet learns precisely the set of numbers that have arrived - the sixteen blocks the code allows never cut any off.
\<close>

theorem sctp_sack_exact:
  assumes "arrived a C R" and "up a" and "unacked a \<noteq> 0" and "92 \<le> cap"
  shows "\<exists>p gaps. sctp_sack a cap = (a\<lparr>unacked := 0\<rparr>, p) \<and> read_sack p = Some (of_int C, gaps) \<and>
    R = {..C} \<union> {C + int k | k. in_gaps gaps k}"
proof -
  define gs where "gs = gap_blocks (ahead a) 0 0"
  have "room_left (ahead a) 0 0" by (simp add: room_left_def)
  note g = gap_blocks_spec [of 0 "ahead a" 0, OF _ this, folded gs_def, simplified]
  have n: "length gs \<le> 16" using g by simp
  define v where "v = put32 (cum_tsn a) @ put32 65536 @ put16 (of_nat (length gs)) @ put16 0 @ concat (map put_gap gs)"
  have lv: "length v = 12 + 4 * length gs" by (simp add: v_def)
  define o1 where "o1 = (out_start cap)\<lparr>o_b := replicate 12 0 @ [3, 0] @ put16 (of_nat (4 + length v)) @ v\<rparr>"
  have pad: "(4 + length v + 3) div 4 * 4 = 4 + length v" by (simp add: lv)
  have c: "chunk (out_start cap) 3 v = (True, o1)"
    unfolding chunk_def Let_def pad using lv n assms(4) by (simp add: out_start_def o1_def)
  then have sack: "put_sack a (out_start cap) = (a\<lparr>unacked := 0\<rparr>, o1)"
    unfolding put_sack_def Let_def gs_def [symmetric] v_def [symmetric] by simp
  define p where "p = finish (a\<lparr>unacked := 0\<rparr>) o1"
  obtain crc where fin: "p = put16 (local_port a) @ put16 (peer_port a) @ put32 (peer_vtag a) @ rev (put32 crc) @
      [3, 0] @ put16 (of_nat (4 + length v)) @ v"
    by (simp add: p_def finish_def o1_def out_start_def Let_def)
  have un: "unat (of_nat (length gs) :: u16) = length gs" "unat (of_nat (4 + length v) :: u16) = 16 + 4 * length gs"
    using n by (simp_all add: unsigned_of_nat take_bit_nat_eq_self lv del: of_nat_add)
  define h where "h = put16 (local_port a) @ put16 (peer_port a) @ put32 (peer_vtag a) @ rev (put32 crc)"
  have h: "length h = 12" by (simp add: h_def)
  have "rd8 p 12 = Some 3" using h by (simp add: rd8_def fin nth_append h_def [symmetric] flip: append_assoc)
  moreover have "rd16 p 14 = Some (of_nat (4 + length v))"
    using rd16_at [of "h @ [3, 0]" 14] h by (simp add: fin h_def)
  moreover have "rd32 p 16 = Some (cum_tsn a)"
    using rd32_at [of "h @ [3, 0] @ put16 (of_nat (4 + length v))" 16] h by (simp add: fin h_def v_def)
  moreover have "rd16 p 24 = Some (of_nat (length gs))"
    using rd16_at [of "h @ [3, 0] @ put16 (of_nat (4 + length v)) @ put32 (cum_tsn a) @ put32 65536" 24] h
    by (simp add: fin h_def v_def)
  moreover have "map_opt (\<lambda>k. do { s \<leftarrow> rd16 p (28 + 4 * k); e \<leftarrow> rd16 p (30 + 4 * k); Some (s, e) }) [0..<length gs] = Some gs"
    using read_gaps [of "h @ [3, 0] @ put16 (of_nat (4 + length v)) @ put32 (cum_tsn a) @ put32 65536 @
        put16 (of_nat (length gs)) @ put16 0" 28 gs] h by (simp add: fin h_def v_def)
  moreover have "length p = 28 + 4 * length gs" using h lv by (simp add: fin h_def)
  ultimately have "read_sack p = Some (cum_tsn a, gs)" unfolding read_sack_def using un by simp
  moreover have "sctp_sack a cap = (a\<lparr>unacked := 0\<rparr>, p)" using assms sack by (simp add: sctp_sack_def p_def)
  moreover have "R = {..C} \<union> {C + int k | k. in_gaps gs k}" using arrived_gaps [OF assms(1)] by (simp only: gs_def)
  moreover have "cum_tsn a = of_int C" using assms(1) by (simp add: arrived_def holds_def)
  ultimately show ?thesis by auto
qed

theorem sctp_sack_exact_witness:
  "\<exists>p gaps. read_sack p = Some (5, gaps) \<and>
     {..5} \<union> {n. 5 < n \<and> n \<le> 5 + 32 \<and> bit (6 :: u32) (nat (n - 5 - 1))} = {..5 :: int} \<union> {5 + int k | k. in_gaps gaps k}"
proof -
  let ?a = "(sctp_init 5000 7 1)\<lparr>have_tsn := True, up := True, cum_tsn := 5, ahead := 6, unacked := 1\<rparr>"
  have "arrived ?a 5 ({..5} \<union> {n. 5 < n \<and> n \<le> 5 + 32 \<and> bit (6 :: u32) (nat (n - 5 - 1))})"
    by (simp add: arrived_def holds_def)
  from sctp_sack_exact [OF this, of 92] show ?thesis by (simp add: sctp_init_def) blast
qed

end
