(* ===== verification/Mmc.thy ===== *)
theory Mmc
  imports Prelude
begin

text \<open>
  components/kvm_hid/mmc.c: the MMC commands of the virtual optical drive. A reply is built whole in
  a scratch buffer of zeros and cut to what the host asked for. A command that fails gives its sense data.
\<close>

section \<open>The drive\<close>

record mmc_media =
  present :: bool
  blocks :: u64
  media_id :: u32

record mmc_events =
  seen :: bool
  seen_present :: bool
  seen_id :: u32
  pending :: u8

record mmc_sense =
  key :: u8
  asc :: u8
  ascq :: u8

datatype mmc_result = Data bytes | Failed mmc_sense | Not_mmc

definition no_events :: mmc_events where
  "no_events = \<lparr>seen = False, seen_present = False, seen_id = 0, pending = 0\<rparr>"

definition fail :: "u8 \<Rightarrow> u8 \<Rightarrow> mmc_result" where
  "fail k a = Failed \<lparr>key = k, asc = a, ascq = 0\<rparr>"

definition no_medium :: mmc_result where
  "no_medium = fail 0x02 0x3A"

definition bad_field :: mmc_result where
  "bad_field = fail 0x05 0x24"

definition copy_out :: "nat \<Rightarrow> bytes \<Rightarrow> mmc_result" where
  "copy_out cap r = Data (take cap r)"

text \<open>A scratch buffer of zeros with fields written into it.\<close>

definition scratch :: "nat \<Rightarrow> (nat \<times> bytes) list \<Rightarrow> bytes" where
  "scratch n parts = fold (\<lambda>(off, v) r. blit r off v) parts (replicate n 0)"

definition lba32 :: "u64 \<Rightarrow> u32" where
  "lba32 v = (if v > 0xFFFFFFFF then 0xFFFFFFFF else ucast v)"

definition is_dvd :: "mmc_media \<Rightarrow> bool" where
  "is_dvd m \<longleftrightarrow> blocks m > 460800"

definition msf :: "u32 \<Rightarrow> bytes" where
  "msf lba =
     (let top = 256 * 60 * 75 - 1;
          f = (if lba < top - 150 then lba + 150 else top)
      in [0, ucast (f div (60 * 75)), ucast ((f div 75) mod 60), ucast (f mod 75)])"

definition address :: "u32 \<Rightarrow> bool \<Rightarrow> bytes" where
  "address lba use_msf = (if use_msf then msf lba else put32 lba)"

section \<open>READ TOC\<close>

definition toc_format :: "bytes \<Rightarrow> u8" where
  "toc_format cdb = (let f = cdb ! 2 AND 0x0F in if f = 0 then drop_bit 6 (cdb ! 9) else f)"

definition toc_tracks :: "u8 \<Rightarrow> u32 \<Rightarrow> bool \<Rightarrow> bytes" where
  "toc_tracks track leadout use_msf =
     (let entry = (\<lambda>number lba. [0, 0x14, number, 0] @ address lba use_msf);
          first = (if track \<le> 1 then entry 1 0 else []);
          body = first @ entry 0xAA leadout
      in put16 (of_nat (4 + length body) - 2) @ [1, 1] @ body)"

definition toc_session :: "bool \<Rightarrow> bytes" where
  "toc_session use_msf = put16 (12 - 2) @ [1, 1, 0, 0x14, 1, 0] @ address 0 use_msf"

definition toc_row :: "u32 \<Rightarrow> u8 \<times> u8 \<times> u8 \<times> u8 \<Rightarrow> bytes" where
  "toc_row leadout = (\<lambda>(point, pmin, psec, pframe).
     let t = (if point = 0xA2 then tl (msf leadout) else [pmin, psec, pframe])
     in [1, 0x14, 0, point, 0, 0, 0, 0] @ t)"

definition toc_raw :: "u32 \<Rightarrow> bytes" where
  "toc_raw leadout =
     (let body = concat (map (toc_row leadout) [(0xA0, 1, 0, 0), (0xA1, 1, 0, 0), (0xA2, 0, 0, 0), (0x01, 0, 2, 0)])
      in put16 (of_nat (4 + length body) - 2) @ [1, 1] @ body)"

definition read_toc :: "bytes \<Rightarrow> mmc_media \<Rightarrow> nat \<Rightarrow> mmc_result" where
  "read_toc cdb m cap =
     (if \<not> present m then no_medium
      else let use_msf = (cdb ! 1 AND 0x02 \<noteq> 0);
               format = toc_format cdb;
               track = cdb ! 6;
               leadout = lba32 (blocks m)
           in if format = 0 then if track > 1 \<and> track \<noteq> 0xAA then bad_field
                                 else copy_out cap (toc_tracks track leadout use_msf)
              else if format = 1 then copy_out cap (toc_session use_msf)
              else if format = 2 then copy_out cap (toc_raw leadout)
              else bad_field)"

section \<open>GET CONFIGURATION\<close>

record feature =
  code :: u16
  version :: u8
  current :: bool
  data :: bytes

definition features :: "mmc_media \<Rightarrow> feature list" where
  "features m =
     (let dvd_in = (present m \<and> is_dvd m); cd_in = (present m \<and> \<not> dvd_in)
      in [\<lparr>code = 0x0000, version = 0, current = True,
            data = put16 0x0010 @ [if dvd_in then 1 else 0, 0] @ put16 0x0008 @ [if cd_in then 1 else 0, 0]\<rparr>,
          \<lparr>code = 0x0001, version = 1, current = True, data = put32 8 @ [0x01, 0, 0, 0]\<rparr>,
          \<lparr>code = 0x0002, version = 1, current = True, data = [0x02, 0, 0, 0]\<rparr>,
          \<lparr>code = 0x0003, version = 0, current = True, data = [push_bit 5 1 OR 0x08, 0, 0, 0]\<rparr>,
          \<lparr>code = 0x0010, version = 0, current = present m, data = put32 2048 @ put16 (if dvd_in then 16 else 1) @ [0, 0]\<rparr>,
          \<lparr>code = 0x001E, version = 0, current = cd_in, data = [0, 0, 0, 0]\<rparr>,
          \<lparr>code = 0x001F, version = 0, current = dvd_in, data = [0, 0, 0, 0]\<rparr>])"

definition pick :: "u8 \<Rightarrow> u16 \<Rightarrow> feature \<Rightarrow> bool" where
  "pick rt start f = (if rt = 2 then code f = start else code f \<ge> start \<and> (rt = 0 \<or> current f))"

definition put_feature :: "feature \<Rightarrow> bytes" where
  "put_feature f = put16 (code f) @
     [push_bit 2 (version f) OR (if code f \<le> 0x0003 then 0x02 else 0) OR (if current f then 1 else 0),
      of_nat (length (data f))] @ data f"

definition get_configuration :: "bytes \<Rightarrow> mmc_media \<Rightarrow> nat \<Rightarrow> mmc_result" where
  "get_configuration cdb m cap =
     (let rt = cdb ! 1 AND 0x03;
          start = be16 (cdb ! 2) (cdb ! 3)
      in if rt = 3 then bad_field
         else let profile = (if \<not> present m then 0x0000 else if is_dvd m then 0x0010 else 0x0008);
                  body = concat (map put_feature (filter (pick rt start) (features m)))
              in copy_out cap (put32 (of_nat (8 + length body) - 4) @ [0, 0] @ put16 profile @ body))"

section \<open>GET EVENT STATUS NOTIFICATION\<close>

definition track_media :: "mmc_media \<Rightarrow> mmc_events \<Rightarrow> mmc_events" where
  "track_media m ev =
     (if \<not> seen ev
      then \<lparr>seen = True, seen_present = present m, seen_id = media_id m, pending = (if present m then 2 else 0)\<rparr>
      else if present m \<noteq> seen_present ev \<or> (present m \<and> media_id m \<noteq> seen_id ev)
      then ev\<lparr>pending := (if present m then 2 else 3), seen_present := present m, seen_id := media_id m\<rparr>
      else ev)"

definition get_event_status :: "bytes \<Rightarrow> mmc_media \<Rightarrow> mmc_events \<Rightarrow> nat \<Rightarrow> mmc_result \<times> mmc_events" where
  "get_event_status cdb m ev cap =
     (if cdb ! 1 AND 0x01 = 0 then (bad_field, ev)
      else let ev = track_media m ev
           in if cdb ! 4 AND 0x10 = 0 then (copy_out cap (put16 2 @ [0x80, 0x10]), ev)
              else (copy_out cap (put16 6 @ [4, 0x10, pending ev, if present m then 0x02 else 0x00, 0, 0]),
                    ev\<lparr>pending := 0\<rparr>))"

section \<open>The other replies\<close>

definition read_disc_information :: "bytes \<Rightarrow> mmc_media \<Rightarrow> nat \<Rightarrow> mmc_result" where
  "read_disc_information cdb m cap =
     (if cdb ! 1 AND 0x07 \<noteq> 0 then bad_field
      else if \<not> present m then no_medium
      else copy_out cap (scratch 34 [(0, put16 32), (2, [0x0E, 1, 1, 1, 1]), (8, [0x00]), (16, replicate 8 0xFF)]))"

definition read_track_information :: "bytes \<Rightarrow> mmc_media \<Rightarrow> nat \<Rightarrow> mmc_result" where
  "read_track_information cdb m cap =
     (if \<not> present m then no_medium
      else let type = cdb ! 1 AND 0x03;
               n = be32 (cdb ! 2) (cdb ! 3) (cdb ! 4) (cdb ! 5)
           in if (type = 1 \<and> n \<noteq> 1) \<or> (type = 0 \<and> n \<ge> lba32 (blocks m)) \<or> type > 1 then bad_field
              else copy_out cap (scratch 36 [(0, put16 34), (2, [1, 1]), (5, [0x04, 0x01]), (8, put32 0), (24, put32 (lba32 (blocks m)))]))"

definition mode_sense10 :: "bytes \<Rightarrow> nat \<Rightarrow> mmc_result" where
  "mode_sense10 cdb cap =
     (let page = cdb ! 2 AND 0x3F
      in if page \<noteq> 0x2A \<and> page \<noteq> 0x3F then bad_field
         else copy_out cap (scratch 30 [(8, [0x2A, 20, 0x08]), (14, [push_bit 5 1 OR 0x08]), (16, put16 0x2B7), (20, put16 0x2B7),
                              (0, put16 (30 - 2))]))"

definition mechanism_status :: "nat \<Rightarrow> mmc_result" where
  "mechanism_status cap = copy_out cap (scratch 8 [])"

definition mmc_command :: "bytes \<Rightarrow> mmc_media \<Rightarrow> mmc_events \<Rightarrow> nat \<Rightarrow> mmc_result \<times> mmc_events" where
  "mmc_command cdb m ev cap =
     (let op = cdb ! 0
      in if op = 0x43 then (read_toc cdb m cap, ev)
         else if op = 0x46 then (get_configuration cdb m cap, ev)
         else if op = 0x4A then get_event_status cdb m ev cap
         else if op = 0x51 then (read_disc_information cdb m cap, ev)
         else if op = 0x52 then (read_track_information cdb m cap, ev)
         else if op = 0x5A then (mode_sense10 cdb cap, ev)
         else if op = 0xBB then (Data [], ev)
         else if op = 0xBD then (mechanism_status cap, ev)
         else (Not_mmc, ev))"

section \<open>Addresses\<close>

text \<open>
  An address in minutes, seconds and frames is in range and counts exactly: 75 frames a second, 60
  seconds a minute, two seconds of lead-in, and past the last address one byte of minutes can hold the
  largest one instead of a small one.
\<close>

theorem msf_counts:
  "\<exists>M S F. msf lba = [0, M, S, F] \<and> unat S < 60 \<and> unat F < 75 \<and>
     (unat M * 60 + unat S) * 75 + unat F = min (unat lba + 150) (256 * 60 * 75 - 1)"
proof -
  define f :: u32 where "f = (if lba < 1151999 - 150 then lba + 150 else 1151999)"
  have f: "unat f = min (unat lba + 150) 1151999"
    by (auto simp: f_def word_less_nat_alt unat_word_ariths not_less)
  have u: "unat (ucast (x :: u32) :: u8) = unat x" if "unat x < 256" for x
    using that by (simp add: unsigned_ucast_eq take_bit_nat_eq_self)
  have M: "unat (ucast (f div 4500) :: u8) = unat f div 4500"
    using f by (subst u) (auto simp: unat_div_distrib)
  have S: "unat (ucast ((f div 75) mod 60) :: u8) = unat f div 75 mod 60"
  proof (subst u)
    have "unat f div 75 mod 60 < 60" by simp
    then show "unat (f div 75 mod 60) < 256" by (simp add: unat_div_distrib unat_mod_distrib)
  qed (simp add: unat_div_distrib unat_mod_distrib)
  have F: "unat (ucast (f mod 75) :: u8) = unat f mod 75"
  proof (subst u)
    have "unat f mod 75 < 75" by simp
    then show "unat (f mod 75) < 256" by (simp add: unat_mod_distrib)
  qed (simp add: unat_mod_distrib)
  have m: "msf lba = [0, ucast (f div 4500), ucast ((f div 75) mod 60), ucast (f mod 75)]"
    by (simp add: msf_def Let_def f_def)
  have "(unat f div 4500 * 60 + unat f div 75 mod 60) * 75 + unat f mod 75 = unat f"
  proof -
    have "unat f div 4500 = unat f div 75 div 60" by (simp add: div_mult2_eq [of _ 75 60, simplified])
    then show ?thesis by simp
  qed
  then show ?thesis unfolding m using M S F f by auto
qed

section \<open>Replies are whole and say how long they are\<close>

text \<open>The length a reply announces in its first bytes, by the command it answers.\<close>

definition announced :: "u8 \<Rightarrow> bytes \<Rightarrow> nat" where
  "announced op r = (if op = 0x46 then unat (be32 (r ! 0) (r ! 1) (r ! 2) (r ! 3)) + 4 else unat (be16 (r ! 0) (r ! 1)) + 2)"

definition whole :: "u8 \<Rightarrow> bytes \<Rightarrow> bool" where
  "whole op r \<longleftrightarrow> length r \<le> 92 \<and> (op \<in> {0xBB, 0xBD} \<or> announced op r = length r)"

lemma be16_put: "unat (be16 ((put16 (of_nat n) @ r) ! 0) ((put16 (of_nat n) @ r) ! 1)) = n" if "n < 65536"
proof -
  have "be16 ((put16 v @ r) ! 0) ((put16 v @ r) ! 1) = v" for v by (simp add: put16_def be16_put16)
  then show ?thesis using that by (simp add: unsigned_of_nat take_bit_nat_eq_self)
qed

lemma whole_put16:
  assumes "op \<noteq> 0x46" and "length r = n" and "n < 91" and "v = (of_nat n :: u16)"
  shows "whole op (put16 v @ r)"
  using assms be16_put [of n r] by (simp add: whole_def announced_def)

lemma msf_length [simp]: "length (msf l) = 4"
  by (simp add: msf_def Let_def)

lemma address_length [simp]: "length (address l u) = 4"
  by (simp add: address_def)

lemma toc_row_length [simp]: "length (toc_row l x) = 11"
  by (simp add: toc_row_def Let_def split: prod.splits)

lemma whole_toc:
  "whole 0x43 (toc_tracks t l u)" "whole 0x43 (toc_session u)" "whole 0x43 (toc_raw l)"
proof -
  show "whole 0x43 (toc_tracks t l u)"
    unfolding toc_tracks_def Let_def by (rule whole_put16) (auto simp del: put16_def)
  show "whole 0x43 (toc_session u)"
    unfolding toc_session_def by (rule whole_put16 [where n = 10]) auto
  show "whole 0x43 (toc_raw l)"
    unfolding toc_raw_def Let_def by (rule whole_put16 [where n = 46]) auto
qed

lemma scratch_whole:
  "whole 0x51 (scratch 34 [(0, put16 32), (2, [0x0E, 1, 1, 1, 1]), (8, [0x00]), (16, replicate 8 0xFF)])"
  "whole 0x52 (scratch 36 [(0, put16 34), (2, [1, 1]), (5, [0x04, 0x01]), (8, put32 0), (24, put32 v)])"
  "whole 0x5A (scratch 30 [(8, [0x2A, 20, 0x08]), (14, [push_bit 5 1 OR 0x08]), (16, put16 0x2B7), (20, put16 0x2B7),
      (0, put16 (30 - 2))])"
  by (simp_all add: whole_def announced_def scratch_def length_blit nth_blit put16_def be16_def)

lemma features_length: "length (concat (map put_feature (filter P (features m)))) \<le> 84"
proof -
  have "length (concat (map put_feature (filter P fs))) \<le> length (concat (map put_feature fs))" for fs
    by (induction fs) auto
  also have "length (concat (map put_feature (features m))) = 68"
    by (simp add: features_def put_feature_def Let_def)
  finally show ?thesis by simp
qed

lemma be32_put: "unat (be32 ((put32 (of_nat n) @ r) ! 0) ((put32 (of_nat n) @ r) ! 1) ((put32 (of_nat n) @ r) ! 2)
    ((put32 (of_nat n) @ r) ! 3)) = n" if "n < 4294967296"
proof -
  have "be32 ((put32 v @ r) ! 0) ((put32 v @ r) ! 1) ((put32 v @ r) ! 2) ((put32 v @ r) ! 3) = v" for v
    by (simp add: put32_def be32_put32)
  then show ?thesis using that by (simp add: unsigned_of_nat take_bit_nat_eq_self)
qed

lemma configuration_whole:
  assumes "length body \<le> 84"
  shows "whole 0x46 (put32 (of_nat (8 + length body) - 4) @ [0, 0] @ put16 p @ body)"
proof -
  have "(of_nat (8 + length body) - 4 :: u32) = of_nat (4 + length body)" by simp
  then show ?thesis using assms be32_put [of "4 + length body" "[0, 0] @ put16 p @ body"]
    by (simp add: whole_def announced_def)
qed

definition cut :: "nat \<Rightarrow> mmc_result \<Rightarrow> mmc_result" where
  "cut n r = (case r of Data d \<Rightarrow> Data (take n d) | _ \<Rightarrow> r)"

definition result_whole :: "u8 \<Rightarrow> mmc_result \<Rightarrow> bool" where
  "result_whole op r \<longleftrightarrow> (case r of Data d \<Rightarrow> whole op d | _ \<Rightarrow> True)"

lemma result_whole_simps [simp]:
  "result_whole op no_medium" "result_whole op bad_field" "result_whole op Not_mmc" "result_whole op (Data d) = whole op d"
  by (simp_all add: result_whole_def no_medium_def bad_field_def fail_def)

lemma cut_simps [simp]:
  "cut n no_medium = no_medium" "cut n bad_field = bad_field" "cut n Not_mmc = Not_mmc" "cut n (Data d) = Data (take n d)"
  by (simp_all add: cut_def no_medium_def bad_field_def fail_def)

text \<open>A reply that is the start of one whole reply, the same for every length asked for.\<close>

definition cuts_whole :: "u8 \<Rightarrow> (nat \<Rightarrow> mmc_result) \<Rightarrow> bool" where
  "cuts_whole op f \<longleftrightarrow> (\<forall>c. f c = cut c (f 92)) \<and> result_whole op (f 92)"

named_theorems cuts_intro \<open>replies that are cut from a whole one\<close>

lemma cuts_const [cuts_intro]:
  "cuts_whole op (\<lambda>_. no_medium)" "cuts_whole op (\<lambda>_. bad_field)" "cuts_whole op (\<lambda>_. Not_mmc)"
  by (simp_all add: cuts_whole_def)

lemma cuts_if [cuts_intro]:
  "(b \<Longrightarrow> cuts_whole op f) \<Longrightarrow> (\<not> b \<Longrightarrow> cuts_whole op g) \<Longrightarrow> cuts_whole op (\<lambda>c. if b then f c else g c)"
  by (cases b) simp_all

lemma cuts_copy [cuts_intro]: "whole op r \<Longrightarrow> cuts_whole op (\<lambda>c. copy_out c r)"
  by (simp add: cuts_whole_def copy_out_def whole_def)

lemma cuts_replies:
  "cuts_whole 0x43 (read_toc cdb m)" "cuts_whole 0x46 (get_configuration cdb m)"
  "cuts_whole 0x51 (read_disc_information cdb m)" "cuts_whole 0x52 (read_track_information cdb m)"
  "cuts_whole 0x5A (mode_sense10 cdb)" "cuts_whole 0xBD mechanism_status"
proof -
  show "cuts_whole 0x43 (read_toc cdb m)"
    unfolding read_toc_def Let_def by (intro cuts_intro whole_toc)
  show "cuts_whole 0x46 (get_configuration cdb m)"
    unfolding get_configuration_def Let_def by (intro cuts_intro configuration_whole features_length)
  show "cuts_whole 0x51 (read_disc_information cdb m)"
    unfolding read_disc_information_def by (intro cuts_intro scratch_whole)
  show "cuts_whole 0x52 (read_track_information cdb m)"
    unfolding read_track_information_def Let_def by (intro cuts_intro scratch_whole)
  show "cuts_whole 0x5A (mode_sense10 cdb)"
    unfolding mode_sense10_def Let_def by (intro cuts_intro scratch_whole)
  show "cuts_whole 0xBD mechanism_status"
    unfolding mechanism_status_def by (intro cuts_intro) (simp add: whole_def scratch_def)
qed

lemma cuts_events:
  "cuts_whole 0x4A (\<lambda>c. fst (get_event_status cdb m ev c))"
  "snd (get_event_status cdb m ev c) = snd (get_event_status cdb m ev 92)"
proof -
  have "whole 0x4A (put16 2 @ [0x80, 0x10])" "whole 0x4A (put16 6 @ [4, 0x10, p, x, 0, 0])" for p x
    by (auto intro!: whole_put16)
  then show "cuts_whole 0x4A (\<lambda>c. fst (get_event_status cdb m ev c))"
    unfolding get_event_status_def Let_def if_distrib [of fst] fst_conv by (intro cuts_intro)
  show "snd (get_event_status cdb m ev c) = snd (get_event_status cdb m ev 92)"
    by (simp add: get_event_status_def Let_def)
qed

text \<open>
  Replies are cut, never wrong: for every command block, medium and event state there is one reply,
  of at most 92 bytes, that does not depend on how much the host asked for and announces exactly its own
  length; the host gets its first \<open>cap\<close> bytes, or the same failure whatever the length.
\<close>

theorem mmc_reply_whole:
  "\<exists>full. result_whole (cdb ! 0) full \<and> mmc_command cdb m ev cap = (cut cap full, snd (mmc_command cdb m ev cap)) \<and>
     snd (mmc_command cdb m ev cap) = snd (mmc_command cdb m ev cap2)"
proof (intro exI conjI)
  let ?f = "fst (mmc_command cdb m ev 92)"
  have "cuts_whole (cdb ! 0) (\<lambda>c. fst (mmc_command cdb m ev c))"
  proof -
    have "cuts_whole op (\<lambda>_. Data [])" if "op = 0xBB" for op
      using that by (simp add: cuts_whole_def whole_def)
    then show ?thesis
      unfolding mmc_command_def Let_def if_distrib [of fst] fst_conv
      by (intro cuts_if) (simp_all add: cuts_replies cuts_events(1) cuts_const)
  qed
  then have c: "fst (mmc_command cdb m ev cap) = cut cap ?f" and w: "result_whole (cdb ! 0) ?f"
    unfolding cuts_whole_def by blast+
  show "result_whole (cdb ! 0) ?f" by (rule w)
  show "mmc_command cdb m ev cap = (cut cap ?f, snd (mmc_command cdb m ev cap))" unfolding c [symmetric] by simp
  show "snd (mmc_command cdb m ev cap) = snd (mmc_command cdb m ev cap2)"
    using cuts_events(2) [of cdb m ev cap] cuts_events(2) [of cdb m ev cap2] by (simp add: mmc_command_def Let_def)
qed

section \<open>The host knows which disc is in\<close>

text \<open>
  What a host believes after a reply to a poll for media events: a new medium is the one in the drive
  now, a removal leaves none, no event changes nothing.
\<close>

definition host_learns :: "mmc_media \<Rightarrow> bytes \<Rightarrow> u32 option \<Rightarrow> u32 option" where
  "host_learns m r b = (if r ! 4 = 2 then Some (media_id m) else if r ! 4 = 3 then None else b)"

definition media_poll :: "bytes \<Rightarrow> bool" where
  "media_poll cdb \<longleftrightarrow> cdb ! 0 = 0x4A \<and> cdb ! 1 AND 0x01 \<noteq> 0 \<and> cdb ! 4 AND 0x10 \<noteq> 0"

fun host_run :: "(bytes \<times> mmc_media) list \<Rightarrow> mmc_events \<Rightarrow> u32 option \<Rightarrow> mmc_events \<times> u32 option" where
  "host_run [] ev b = (ev, b)"
| "host_run ((cdb, m) # cs) ev b =
     (case mmc_command cdb m ev 8 of
        (Data r, ev1) \<Rightarrow> host_run cs ev1 (if media_poll cdb then host_learns m r b else b)
      | (_, ev1) \<Rightarrow> host_run cs ev1 b)"

text \<open>While nothing is pending the host's belief is what the drive last saw; a pending event will make it so.\<close>

definition told :: "mmc_events \<Rightarrow> u32 option \<Rightarrow> bool" where
  "told ev b \<longleftrightarrow> (if seen ev then (pending ev = 0 \<and> b = (if seen_present ev then Some (seen_id ev) else None)) \<or>
       (pending ev = 2 \<and> seen_present ev) \<or> (pending ev = 3 \<and> \<not> seen_present ev)
     else b = None)"

lemma told_track: "told ev b \<Longrightarrow> told (track_media m ev) b"
  by (auto simp: told_def track_media_def split: if_splits)

lemma told_step: "told ev b \<Longrightarrow> \<not> media_poll cdb \<Longrightarrow> told (snd (mmc_command cdb m ev cap)) b"
  by (auto simp: mmc_command_def get_event_status_def media_poll_def told_track Let_def)

lemma poll_reply:
  assumes "media_poll cdb"
  shows "mmc_command cdb m ev 8 = (Data (put16 6 @ [4, 0x10, pending (track_media m ev), if present m then 0x02 else 0x00, 0, 0]),
     (track_media m ev)\<lparr>pending := 0\<rparr>)"
  using assms by (simp add: mmc_command_def get_event_status_def media_poll_def copy_out_def Let_def)

lemma told_poll:
  assumes "told ev b" and "r = put16 6 @ [4, 0x10, pending (track_media m ev), x, 0, 0]"
  shows "host_learns m r b = (if present m then Some (media_id m) else None)"
    and "told ((track_media m ev)\<lparr>pending := 0\<rparr>) (host_learns m r b)"
proof -
  have p: "r ! 4 = pending (track_media m ev)" by (simp add: assms(2) put16_def)
  show l: "host_learns m r b = (if present m then Some (media_id m) else None)"
    using assms(1) unfolding host_learns_def p by (auto simp: told_def track_media_def)
  show "told ((track_media m ev)\<lparr>pending := 0\<rparr>) (host_learns m r b)"
    unfolding l by (auto simp: told_def track_media_def)
qed

lemma told_run: "told ev b \<Longrightarrow> (case host_run cs ev b of (ev', b') \<Rightarrow> told ev' b')"
proof (induction cs ev b rule: host_run.induct)
  case (2 cdb m cs ev b)
  show ?case
  proof (cases "media_poll cdb")
    case True
    then show ?thesis
      using 2(1) [OF poll_reply [OF True, symmetric] refl] told_poll(2) [OF 2(4) refl] poll_reply [OF True, of m ev] by simp
  next
    case False
    obtain r ev1 where r: "mmc_command cdb m ev 8 = (r, ev1)" by fastforce
    then have "told ev1 b" using told_step [OF 2(4) False, of m 8] by simp
    then show ?thesis using 2(1-3) r False by (cases r) auto
  qed
qed simp

text \<open>
  C21. Discs are never confused: from power-on, through any commands with any changes of the medium
  between them - insertions, removals, an image swapped for another, polls for other classes that fetch no
  media event - a host that polls for media events and believes what they say ends each poll knowing
  exactly whether there is a disc and which one.
\<close>

theorem mmc_host_knows:
  assumes "media_poll cdb"
  shows "snd (host_run (cs @ [(cdb, m)]) no_events None) = (if present m then Some (media_id m) else None)"
proof -
  have app: "host_run (cs @ ds) ev b = (case host_run cs ev b of (ev', b') \<Rightarrow> host_run ds ev' b')" for ds ev b
    by (induction cs ev b rule: host_run.induct) (auto split: prod.splits mmc_result.splits)
  obtain ev b where run: "host_run cs no_events None = (ev, b)" by fastforce
  have "told no_events None" by (simp add: told_def no_events_def)
  then have t: "told ev b" using told_run [of no_events None cs] run by simp
  show ?thesis unfolding app run using poll_reply [OF assms, of m ev] told_poll(1) [OF t refl] assms by simp
qed

theorem mmc_host_knows_witness:
  "snd (host_run [([0x4A, 1, 0, 0, 0x10], \<lparr>present = True, blocks = 9, media_id = 1\<rparr>),
      ([0x4A, 1, 0, 0, 0x02], \<lparr>present = False, blocks = 0, media_id = 0\<rparr>),
      ([0x4A, 1, 0, 0, 0x10], \<lparr>present = True, blocks = 9, media_id = 2\<rparr>)] no_events None) = Some 2"
  using mmc_host_knows [of "[0x4A, 1, 0, 0, 0x10]" "[([0x4A, 1, 0, 0, 0x10], \<lparr>present = True, blocks = 9, media_id = 1\<rparr>),
      ([0x4A, 1, 0, 0, 0x02], \<lparr>present = False, blocks = 0, media_id = 0\<rparr>)]" "\<lparr>present = True, blocks = 9, media_id = 2\<rparr>"]
  by (simp add: media_poll_def)

end
