(* ===== verification/Keymap.thy ===== *)
theory Keymap
  imports Prelude
begin

text \<open>
  components/kvm_record/include/keymap.h and keymap_layouts.c: which character a key position types on the
  target's keyboard layout, table by table. A text is the list of its bytes as characters, in UTF-8.
\<close>

section \<open>The tables\<close>

type_synonym keymap_entry = "u8 \<times> u8 \<times> string"

definition k_en_us :: "keymap_entry list" where
  "k_en_us =
   [(0x04, 0x00, ''a''), (0x04, 0x02, ''A''), (0x05, 0x00, ''b''), (0x05, 0x02, ''B''), (0x06, 0x00, ''c''),
    (0x06, 0x02, ''C''), (0x07, 0x00, ''d''), (0x07, 0x02, ''D''), (0x08, 0x00, ''e''), (0x08, 0x02, ''E''),
    (0x09, 0x00, ''f''), (0x09, 0x02, ''F''), (0x0a, 0x00, ''g''), (0x0a, 0x02, ''G''), (0x0b, 0x00, ''h''),
    (0x0b, 0x02, ''H''), (0x0c, 0x00, ''i''), (0x0c, 0x02, ''I''), (0x0d, 0x00, ''j''), (0x0d, 0x02, ''J''),
    (0x0e, 0x00, ''k''), (0x0e, 0x02, ''K''), (0x0f, 0x00, ''l''), (0x0f, 0x02, ''L''), (0x10, 0x00, ''m''),
    (0x10, 0x02, ''M''), (0x11, 0x00, ''n''), (0x11, 0x02, ''N''), (0x12, 0x00, ''o''), (0x12, 0x02, ''O''),
    (0x13, 0x00, ''p''), (0x13, 0x02, ''P''), (0x14, 0x00, ''q''), (0x14, 0x02, ''Q''), (0x15, 0x00, ''r''),
    (0x15, 0x02, ''R''), (0x16, 0x00, ''s''), (0x16, 0x02, ''S''), (0x17, 0x00, ''t''), (0x17, 0x02, ''T''),
    (0x18, 0x00, ''u''), (0x18, 0x02, ''U''), (0x19, 0x00, ''v''), (0x19, 0x02, ''V''), (0x1a, 0x00, ''w''),
    (0x1a, 0x02, ''W''), (0x1b, 0x00, ''x''), (0x1b, 0x02, ''X''), (0x1c, 0x00, ''y''), (0x1c, 0x02, ''Y''),
    (0x1d, 0x00, ''z''), (0x1d, 0x02, ''Z''), (0x1e, 0x00, ''1''), (0x1e, 0x02, ''!''), (0x1f, 0x00, ''2''),
    (0x1f, 0x02, ''@''), (0x20, 0x00, ''3''), (0x20, 0x02, ''#''), (0x21, 0x00, ''4''), (0x21, 0x02, ''$''),
    (0x22, 0x00, ''5''), (0x22, 0x02, ''%''), (0x23, 0x00, ''6''), (0x23, 0x02, ''^''), (0x24, 0x00, ''7''),
    (0x24, 0x02, ''&''), (0x25, 0x00, ''8''), (0x25, 0x02, ''*''), (0x26, 0x00, ''9''), (0x26, 0x02, ''(''),
    (0x27, 0x00, ''0''), (0x27, 0x02, '')''), (0x2c, 0x00, [CHR 0x20]), (0x2d, 0x00, ''-''),
    (0x2d, 0x02, ''_''), (0x2e, 0x00, ''=''), (0x2e, 0x02, ''+''), (0x2f, 0x00, ''[''), (0x2f, 0x02, ''{''),
    (0x30, 0x00, '']''), (0x30, 0x02, ''}''), (0x31, 0x00, [CHR 0x5C]), (0x31, 0x02, ''|''),
    (0x33, 0x00, '';''), (0x33, 0x02, '':''), (0x34, 0x00, [CHR 0x27]), (0x34, 0x02, [CHR 0x22]),
    (0x35, 0x00, [CHR 0x60]), (0x35, 0x02, ''~''), (0x36, 0x00, '',''), (0x36, 0x02, ''<''),
    (0x37, 0x00, ''.''), (0x37, 0x02, ''>''), (0x38, 0x00, ''/''), (0x38, 0x02, ''?'')]"

definition k_ru_ru :: "keymap_entry list" where
  "k_ru_ru =
   [(0x04, 0x00, [CHR 0xD1, CHR 0x84]), (0x04, 0x02, [CHR 0xD0, CHR 0xA4]), (0x05, 0x00, [CHR 0xD0, CHR 0xB8]),
    (0x05, 0x02, [CHR 0xD0, CHR 0x98]), (0x06, 0x00, [CHR 0xD1, CHR 0x81]), (0x06, 0x02, [CHR 0xD0, CHR 0xA1]),
    (0x07, 0x00, [CHR 0xD0, CHR 0xB2]), (0x07, 0x02, [CHR 0xD0, CHR 0x92]), (0x08, 0x00, [CHR 0xD1, CHR 0x83]),
    (0x08, 0x02, [CHR 0xD0, CHR 0xA3]), (0x09, 0x00, [CHR 0xD0, CHR 0xB0]), (0x09, 0x02, [CHR 0xD0, CHR 0x90]),
    (0x0a, 0x00, [CHR 0xD0, CHR 0xBF]), (0x0a, 0x02, [CHR 0xD0, CHR 0x9F]), (0x0b, 0x00, [CHR 0xD1, CHR 0x80]),
    (0x0b, 0x02, [CHR 0xD0, CHR 0xA0]), (0x0c, 0x00, [CHR 0xD1, CHR 0x88]), (0x0c, 0x02, [CHR 0xD0, CHR 0xA8]),
    (0x0d, 0x00, [CHR 0xD0, CHR 0xBE]), (0x0d, 0x02, [CHR 0xD0, CHR 0x9E]), (0x0e, 0x00, [CHR 0xD0, CHR 0xBB]),
    (0x0e, 0x02, [CHR 0xD0, CHR 0x9B]), (0x0f, 0x00, [CHR 0xD0, CHR 0xB4]), (0x0f, 0x02, [CHR 0xD0, CHR 0x94]),
    (0x10, 0x00, [CHR 0xD1, CHR 0x8C]), (0x10, 0x02, [CHR 0xD0, CHR 0xAC]), (0x11, 0x00, [CHR 0xD1, CHR 0x82]),
    (0x11, 0x02, [CHR 0xD0, CHR 0xA2]), (0x12, 0x00, [CHR 0xD1, CHR 0x89]), (0x12, 0x02, [CHR 0xD0, CHR 0xA9]),
    (0x13, 0x00, [CHR 0xD0, CHR 0xB7]), (0x13, 0x02, [CHR 0xD0, CHR 0x97]), (0x14, 0x00, [CHR 0xD0, CHR 0xB9]),
    (0x14, 0x02, [CHR 0xD0, CHR 0x99]), (0x15, 0x00, [CHR 0xD0, CHR 0xBA]), (0x15, 0x02, [CHR 0xD0, CHR 0x9A]),
    (0x16, 0x00, [CHR 0xD1, CHR 0x8B]), (0x16, 0x02, [CHR 0xD0, CHR 0xAB]), (0x17, 0x00, [CHR 0xD0, CHR 0xB5]),
    (0x17, 0x02, [CHR 0xD0, CHR 0x95]), (0x18, 0x00, [CHR 0xD0, CHR 0xB3]), (0x18, 0x02, [CHR 0xD0, CHR 0x93]),
    (0x19, 0x00, [CHR 0xD0, CHR 0xBC]), (0x19, 0x02, [CHR 0xD0, CHR 0x9C]), (0x1a, 0x00, [CHR 0xD1, CHR 0x86]),
    (0x1a, 0x02, [CHR 0xD0, CHR 0xA6]), (0x1b, 0x00, [CHR 0xD1, CHR 0x87]), (0x1b, 0x02, [CHR 0xD0, CHR 0xA7]),
    (0x1c, 0x00, [CHR 0xD0, CHR 0xBD]), (0x1c, 0x02, [CHR 0xD0, CHR 0x9D]), (0x1d, 0x00, [CHR 0xD1, CHR 0x8F]),
    (0x1d, 0x02, [CHR 0xD0, CHR 0xAF]), (0x1e, 0x00, ''1''), (0x1e, 0x02, ''!''), (0x1f, 0x00, ''2''),
    (0x1f, 0x02, [CHR 0x22]), (0x20, 0x00, ''3''), (0x20, 0x02, [CHR 0xE2, CHR 0x84, CHR 0x96]),
    (0x21, 0x00, ''4''), (0x21, 0x02, '';''), (0x22, 0x00, ''5''), (0x22, 0x02, ''%''), (0x23, 0x00, ''6''),
    (0x23, 0x02, '':''), (0x24, 0x00, ''7''), (0x24, 0x02, ''?''), (0x25, 0x00, ''8''), (0x25, 0x02, ''*''),
    (0x26, 0x00, ''9''), (0x26, 0x02, ''(''), (0x27, 0x00, ''0''), (0x27, 0x02, '')''),
    (0x2c, 0x00, [CHR 0x20]), (0x2d, 0x00, ''-''), (0x2d, 0x02, ''_''), (0x2e, 0x00, ''=''),
    (0x2e, 0x02, ''+''), (0x2f, 0x00, [CHR 0xD1, CHR 0x85]), (0x2f, 0x02, [CHR 0xD0, CHR 0xA5]),
    (0x30, 0x00, [CHR 0xD1, CHR 0x8A]), (0x30, 0x02, [CHR 0xD0, CHR 0xAA]), (0x31, 0x00, [CHR 0x5C]),
    (0x31, 0x02, ''/''), (0x33, 0x00, [CHR 0xD0, CHR 0xB6]), (0x33, 0x02, [CHR 0xD0, CHR 0x96]),
    (0x34, 0x00, [CHR 0xD1, CHR 0x8D]), (0x34, 0x02, [CHR 0xD0, CHR 0xAD]), (0x35, 0x00, [CHR 0xD1, CHR 0x91]),
    (0x35, 0x02, [CHR 0xD0, CHR 0x81]), (0x36, 0x00, [CHR 0xD0, CHR 0xB1]), (0x36, 0x02, [CHR 0xD0, CHR 0x91]),
    (0x37, 0x00, [CHR 0xD1, CHR 0x8E]), (0x37, 0x02, [CHR 0xD0, CHR 0xAE]), (0x38, 0x00, ''.''),
    (0x38, 0x02, '','')]"

definition k_cs_cz :: "keymap_entry list" where
  "k_cs_cz =
   [(0x04, 0x00, ''a''), (0x04, 0x02, ''A''), (0x04, 0x40, ''~''), (0x05, 0x00, ''b''), (0x05, 0x02, ''B''),
    (0x06, 0x00, ''c''), (0x06, 0x02, ''C''), (0x07, 0x00, ''d''), (0x07, 0x02, ''D''), (0x08, 0x00, ''e''),
    (0x08, 0x02, ''E''), (0x09, 0x00, ''f''), (0x09, 0x02, ''F''), (0x0a, 0x00, ''g''), (0x0a, 0x02, ''G''),
    (0x0b, 0x00, ''h''), (0x0b, 0x02, ''H''), (0x0b, 0x40, [CHR 0x60]), (0x0c, 0x00, ''i''),
    (0x0c, 0x02, ''I''), (0x0d, 0x00, ''j''), (0x0d, 0x02, ''J''), (0x0e, 0x00, ''k''), (0x0e, 0x02, ''K''),
    (0x0f, 0x00, ''l''), (0x0f, 0x02, ''L''), (0x10, 0x00, ''m''), (0x10, 0x02, ''M''), (0x11, 0x00, ''n''),
    (0x11, 0x02, ''N''), (0x12, 0x00, ''o''), (0x12, 0x02, ''O''), (0x13, 0x00, ''p''), (0x13, 0x02, ''P''),
    (0x14, 0x00, ''q''), (0x14, 0x02, ''Q''), (0x14, 0x40, [CHR 0x5C]), (0x15, 0x00, ''r''),
    (0x15, 0x02, ''R''), (0x16, 0x00, ''s''), (0x16, 0x02, ''S''), (0x17, 0x00, ''t''), (0x17, 0x02, ''T''),
    (0x18, 0x00, ''u''), (0x18, 0x02, ''U''), (0x19, 0x00, ''v''), (0x19, 0x02, ''V''), (0x1a, 0x00, ''w''),
    (0x1a, 0x02, ''W''), (0x1a, 0x40, ''|''), (0x1b, 0x00, ''x''), (0x1b, 0x02, ''X''), (0x1c, 0x00, ''z''),
    (0x1c, 0x02, ''Z''), (0x1d, 0x00, ''y''), (0x1d, 0x02, ''Y''), (0x1e, 0x00, ''+''), (0x1e, 0x02, ''1''),
    (0x1f, 0x00, [CHR 0xC4, CHR 0x9B]), (0x1f, 0x02, ''2''), (0x1f, 0x40, ''@''),
    (0x20, 0x00, [CHR 0xC5, CHR 0xA1]), (0x20, 0x02, ''3''), (0x20, 0x40, ''#''),
    (0x21, 0x00, [CHR 0xC4, CHR 0x8D]), (0x21, 0x02, ''4''), (0x21, 0x40, ''$''),
    (0x22, 0x00, [CHR 0xC5, CHR 0x99]), (0x22, 0x02, ''5''), (0x23, 0x00, [CHR 0xC5, CHR 0xBE]),
    (0x23, 0x02, ''6''), (0x23, 0x40, ''^''), (0x24, 0x00, [CHR 0xC3, CHR 0xBD]), (0x24, 0x02, ''7''),
    (0x24, 0x40, ''&''), (0x25, 0x00, [CHR 0xC3, CHR 0xA1]), (0x25, 0x02, ''8''), (0x25, 0x40, ''*''),
    (0x26, 0x00, [CHR 0xC3, CHR 0xAD]), (0x26, 0x02, ''9''), (0x26, 0x40, ''{''),
    (0x27, 0x00, [CHR 0xC3, CHR 0xA9]), (0x27, 0x02, ''0''), (0x27, 0x40, ''}''), (0x2c, 0x00, [CHR 0x20]),
    (0x2d, 0x00, ''=''), (0x2d, 0x02, ''%''), (0x2f, 0x00, [CHR 0xC3, CHR 0xBA]), (0x2f, 0x02, ''/''),
    (0x2f, 0x40, ''[''), (0x30, 0x00, '')''), (0x30, 0x02, ''(''), (0x30, 0x40, '']''),
    (0x31, 0x02, [CHR 0x27]), (0x33, 0x00, [CHR 0xC5, CHR 0xAF]), (0x33, 0x02, [CHR 0x22]),
    (0x34, 0x02, ''!''), (0x35, 0x00, '';''), (0x36, 0x00, '',''), (0x36, 0x02, ''?''), (0x36, 0x40, ''<''),
    (0x37, 0x00, ''.''), (0x37, 0x02, '':''), (0x37, 0x40, ''>''), (0x38, 0x00, ''-''), (0x38, 0x02, ''_'')]"

definition k_uk_ua :: "keymap_entry list" where
  "k_uk_ua =
   [(0x04, 0x00, [CHR 0xD1, CHR 0x84]), (0x04, 0x02, [CHR 0xD0, CHR 0xA4]), (0x05, 0x00, [CHR 0xD0, CHR 0xB8]),
    (0x05, 0x02, [CHR 0xD0, CHR 0x98]), (0x06, 0x00, [CHR 0xD1, CHR 0x81]), (0x06, 0x02, [CHR 0xD0, CHR 0xA1]),
    (0x07, 0x00, [CHR 0xD0, CHR 0xB2]), (0x07, 0x02, [CHR 0xD0, CHR 0x92]), (0x08, 0x00, [CHR 0xD1, CHR 0x83]),
    (0x08, 0x02, [CHR 0xD0, CHR 0xA3]), (0x09, 0x00, [CHR 0xD0, CHR 0xB0]), (0x09, 0x02, [CHR 0xD0, CHR 0x90]),
    (0x0a, 0x00, [CHR 0xD0, CHR 0xBF]), (0x0a, 0x02, [CHR 0xD0, CHR 0x9F]), (0x0b, 0x00, [CHR 0xD1, CHR 0x80]),
    (0x0b, 0x02, [CHR 0xD0, CHR 0xA0]), (0x0c, 0x00, [CHR 0xD1, CHR 0x88]), (0x0c, 0x02, [CHR 0xD0, CHR 0xA8]),
    (0x0d, 0x00, [CHR 0xD0, CHR 0xBE]), (0x0d, 0x02, [CHR 0xD0, CHR 0x9E]), (0x0e, 0x00, [CHR 0xD0, CHR 0xBB]),
    (0x0e, 0x02, [CHR 0xD0, CHR 0x9B]), (0x0f, 0x00, [CHR 0xD0, CHR 0xB4]), (0x0f, 0x02, [CHR 0xD0, CHR 0x94]),
    (0x10, 0x00, [CHR 0xD1, CHR 0x8C]), (0x10, 0x02, [CHR 0xD0, CHR 0xAC]), (0x11, 0x00, [CHR 0xD1, CHR 0x82]),
    (0x11, 0x02, [CHR 0xD0, CHR 0xA2]), (0x12, 0x00, [CHR 0xD1, CHR 0x89]), (0x12, 0x02, [CHR 0xD0, CHR 0xA9]),
    (0x13, 0x00, [CHR 0xD0, CHR 0xB7]), (0x13, 0x02, [CHR 0xD0, CHR 0x97]), (0x14, 0x00, [CHR 0xD0, CHR 0xB9]),
    (0x14, 0x02, [CHR 0xD0, CHR 0x99]), (0x15, 0x00, [CHR 0xD0, CHR 0xBA]), (0x15, 0x02, [CHR 0xD0, CHR 0x9A]),
    (0x16, 0x00, [CHR 0xD1, CHR 0x96]), (0x16, 0x02, [CHR 0xD0, CHR 0x86]), (0x17, 0x00, [CHR 0xD0, CHR 0xB5]),
    (0x17, 0x02, [CHR 0xD0, CHR 0x95]), (0x18, 0x00, [CHR 0xD0, CHR 0xB3]), (0x18, 0x02, [CHR 0xD0, CHR 0x93]),
    (0x19, 0x00, [CHR 0xD0, CHR 0xBC]), (0x19, 0x02, [CHR 0xD0, CHR 0x9C]), (0x1a, 0x00, [CHR 0xD1, CHR 0x86]),
    (0x1a, 0x02, [CHR 0xD0, CHR 0xA6]), (0x1b, 0x00, [CHR 0xD1, CHR 0x87]), (0x1b, 0x02, [CHR 0xD0, CHR 0xA7]),
    (0x1c, 0x00, [CHR 0xD0, CHR 0xBD]), (0x1c, 0x02, [CHR 0xD0, CHR 0x9D]), (0x1d, 0x00, [CHR 0xD1, CHR 0x8F]),
    (0x1d, 0x02, [CHR 0xD0, CHR 0xAF]), (0x1e, 0x00, ''1''), (0x1e, 0x02, ''!''), (0x1f, 0x00, ''2''),
    (0x1f, 0x02, [CHR 0x22]), (0x20, 0x00, ''3''), (0x20, 0x02, [CHR 0xE2, CHR 0x84, CHR 0x96]),
    (0x21, 0x00, ''4''), (0x21, 0x02, '';''), (0x21, 0x40, ''$''), (0x22, 0x00, ''5''), (0x22, 0x02, ''%''),
    (0x23, 0x00, ''6''), (0x23, 0x02, '':''), (0x23, 0x40, ''<''), (0x24, 0x00, ''7''), (0x24, 0x02, ''?''),
    (0x24, 0x40, ''>''), (0x25, 0x00, ''8''), (0x25, 0x02, ''*''), (0x26, 0x00, ''9''), (0x26, 0x02, ''(''),
    (0x26, 0x40, ''[''), (0x26, 0x42, ''{''), (0x27, 0x00, ''0''), (0x27, 0x02, '')''), (0x27, 0x40, '']''),
    (0x27, 0x42, ''}''), (0x2c, 0x00, [CHR 0x20]), (0x2d, 0x00, ''-''), (0x2d, 0x02, ''_''),
    (0x2e, 0x00, ''=''), (0x2e, 0x02, ''+''), (0x2f, 0x00, [CHR 0xD1, CHR 0x85]),
    (0x2f, 0x02, [CHR 0xD0, CHR 0xA5]), (0x30, 0x00, [CHR 0xD1, CHR 0x97]), (0x30, 0x02, [CHR 0xD0, CHR 0x87]),
    (0x31, 0x00, [CHR 0xD2, CHR 0x91]), (0x31, 0x02, [CHR 0xD2, CHR 0x90]), (0x31, 0x40, [CHR 0x5C]),
    (0x31, 0x42, ''|''), (0x33, 0x00, [CHR 0xD0, CHR 0xB6]), (0x33, 0x02, [CHR 0xD0, CHR 0x96]),
    (0x34, 0x00, [CHR 0xD1, CHR 0x94]), (0x34, 0x02, [CHR 0xD0, CHR 0x84]), (0x35, 0x00, [CHR 0x27]),
    (0x35, 0x42, ''~''), (0x36, 0x00, [CHR 0xD0, CHR 0xB1]), (0x36, 0x02, [CHR 0xD0, CHR 0x91]),
    (0x37, 0x00, [CHR 0xD1, CHR 0x8E]), (0x37, 0x02, [CHR 0xD0, CHR 0xAE]), (0x38, 0x00, ''.''),
    (0x38, 0x02, '',''), (0x38, 0x40, ''/'')]"

definition k_lt_lt :: "keymap_entry list" where
  "k_lt_lt =
   [(0x04, 0x00, ''a''), (0x04, 0x02, ''A''), (0x05, 0x00, ''b''), (0x05, 0x02, ''B''), (0x06, 0x00, ''c''),
    (0x06, 0x02, ''C''), (0x07, 0x00, ''d''), (0x07, 0x02, ''D''), (0x08, 0x00, ''e''), (0x08, 0x02, ''E''),
    (0x09, 0x00, ''f''), (0x09, 0x02, ''F''), (0x0a, 0x00, ''g''), (0x0a, 0x02, ''G''), (0x0b, 0x00, ''h''),
    (0x0b, 0x02, ''H''), (0x0c, 0x00, ''i''), (0x0c, 0x02, ''I''), (0x0d, 0x00, ''j''), (0x0d, 0x02, ''J''),
    (0x0e, 0x00, ''k''), (0x0e, 0x02, ''K''), (0x0f, 0x00, ''l''), (0x0f, 0x02, ''L''), (0x10, 0x00, ''m''),
    (0x10, 0x02, ''M''), (0x11, 0x00, ''n''), (0x11, 0x02, ''N''), (0x12, 0x00, ''o''), (0x12, 0x02, ''O''),
    (0x13, 0x00, ''p''), (0x13, 0x02, ''P''), (0x14, 0x00, ''q''), (0x14, 0x02, ''Q''), (0x15, 0x00, ''r''),
    (0x15, 0x02, ''R''), (0x16, 0x00, ''s''), (0x16, 0x02, ''S''), (0x17, 0x00, ''t''), (0x17, 0x02, ''T''),
    (0x18, 0x00, ''u''), (0x18, 0x02, ''U''), (0x19, 0x00, ''v''), (0x19, 0x02, ''V''), (0x1a, 0x00, ''w''),
    (0x1a, 0x02, ''W''), (0x1b, 0x00, ''x''), (0x1b, 0x02, ''X''), (0x1c, 0x00, ''y''), (0x1c, 0x02, ''Y''),
    (0x1d, 0x00, ''z''), (0x1d, 0x02, ''Z''), (0x1e, 0x00, [CHR 0xC4, CHR 0x85]),
    (0x1e, 0x02, [CHR 0xC4, CHR 0x84]), (0x1e, 0x40, ''1''), (0x1e, 0x42, ''!''),
    (0x1f, 0x00, [CHR 0xC4, CHR 0x8D]), (0x1f, 0x02, [CHR 0xC4, CHR 0x8C]), (0x1f, 0x40, ''2''),
    (0x1f, 0x42, ''@''), (0x20, 0x00, [CHR 0xC4, CHR 0x99]), (0x20, 0x02, [CHR 0xC4, CHR 0x98]),
    (0x20, 0x40, ''3''), (0x20, 0x42, ''#''), (0x21, 0x00, [CHR 0xC4, CHR 0x97]),
    (0x21, 0x02, [CHR 0xC4, CHR 0x96]), (0x21, 0x40, ''4''), (0x21, 0x42, ''$''),
    (0x22, 0x00, [CHR 0xC4, CHR 0xAF]), (0x22, 0x02, [CHR 0xC4, CHR 0xAE]), (0x22, 0x40, ''5''),
    (0x22, 0x42, ''%''), (0x23, 0x00, [CHR 0xC5, CHR 0xA1]), (0x23, 0x02, [CHR 0xC5, CHR 0xA0]),
    (0x23, 0x40, ''6''), (0x23, 0x42, ''^''), (0x24, 0x00, [CHR 0xC5, CHR 0xB3]),
    (0x24, 0x02, [CHR 0xC5, CHR 0xB2]), (0x24, 0x40, ''7''), (0x24, 0x42, ''&''),
    (0x25, 0x00, [CHR 0xC5, CHR 0xAB]), (0x25, 0x02, [CHR 0xC5, CHR 0xAA]), (0x25, 0x40, ''8''),
    (0x25, 0x42, ''*''), (0x26, 0x00, [CHR 0xE2, CHR 0x80, CHR 0x9E]), (0x26, 0x02, ''(''),
    (0x26, 0x40, ''9''), (0x27, 0x00, [CHR 0xE2, CHR 0x80, CHR 0x9C]), (0x27, 0x02, '')''),
    (0x27, 0x40, ''0''), (0x2c, 0x00, [CHR 0x20]), (0x2d, 0x00, ''-''), (0x2d, 0x02, ''_''),
    (0x2e, 0x00, [CHR 0xC5, CHR 0xBE]), (0x2e, 0x02, [CHR 0xC5, CHR 0xBD]), (0x2e, 0x40, ''=''),
    (0x2e, 0x42, ''+''), (0x2f, 0x00, ''[''), (0x2f, 0x02, ''{''), (0x30, 0x00, '']''), (0x30, 0x02, ''}''),
    (0x31, 0x00, [CHR 0x5C]), (0x31, 0x02, ''|''), (0x33, 0x00, '';''), (0x33, 0x02, '':''),
    (0x34, 0x00, [CHR 0x27]), (0x34, 0x02, [CHR 0x22]), (0x35, 0x00, [CHR 0x60]), (0x35, 0x02, ''~''),
    (0x36, 0x00, '',''), (0x36, 0x02, ''<''), (0x37, 0x00, ''.''), (0x37, 0x02, ''>''), (0x38, 0x00, ''/''),
    (0x38, 0x02, ''?'')]"

definition keymap_layouts :: "(string \<times> keymap_entry list) list" where
  "keymap_layouts =
   [(''en_us'', k_en_us), (''ru_ru'', k_ru_ru), (''cs_cz'', k_cs_cz), (''uk_ua'', k_uk_ua), (''lt_lt'', k_lt_lt)]"

section \<open>What the tables promise\<close>

fun ascending :: "keymap_entry list \<Rightarrow> bool" where
  "ascending ((h1, m1, s1) # (h2, m2, s2) # es) = ((h1 < h2 \<or> h1 = h2 \<and> m1 < m2) \<and> ascending ((h2, m2, s2) # es))"
| "ascending _ = True"

text \<open>Exactly one character in UTF-8, of at most three bytes.\<close>

definition utf8_char :: "string \<Rightarrow> bool" where
  "utf8_char s = (case map of_char s of [a] \<Rightarrow> (0x20 :: nat) \<le> a \<and> a < 0x7F
     | [a, b] \<Rightarrow> 0xC2 \<le> a \<and> a < 0xE0 \<and> 0x80 \<le> b \<and> b < 0xC0
     | [a, b, c] \<Rightarrow> 0xE1 \<le> a \<and> a < 0xF0 \<and> 0x80 \<le> b \<and> b < 0xC0 \<and> 0x80 \<le> c \<and> c < 0xC0 | _ \<Rightarrow> False)"

text \<open>A key of the letter block with the modifiers the lookup asks for; not Enter, Esc, Backspace or Tab.\<close>

definition entry_ok :: "keymap_entry \<Rightarrow> bool" where
  "entry_ok = (\<lambda>(h, m, s). (h \<ge> 0x04 \<and> h \<le> 0x27 \<or> h \<ge> 0x2c \<and> h \<le> 0x38) \<and> (m = 0 \<or> m = 0x02 \<or> m = 0x40 \<or> m = 0x42) \<and> utf8_char s)"

definition position :: "keymap_entry \<Rightarrow> u8 \<times> u8" where
  "position = (\<lambda>(h, m, s). (h, m))"

lemma ascending_above: "ascending ((h, m, s) # es) \<Longrightarrow> (h', m') \<in> position ` set es \<Longrightarrow> h < h' \<or> h = h' \<and> m < m'"
proof (induction es arbitrary: h m s)
  case (Cons e es)
  obtain h2 m2 s2 where e: "e = (h2, m2, s2)" by (cases e)
  then have lt: "h < h2 \<or> h = h2 \<and> m < m2" and asc: "ascending ((h2, m2, s2) # es)" using Cons.prems(1) by simp_all
  show ?case
  proof (cases "(h', m') \<in> position ` set es")
    case True
    then show ?thesis using Cons.IH [OF asc] lt by (metis order.strict_trans)
  next
    case False
    then show ?thesis using Cons.prems(2) lt e by (simp add: position_def)
  qed
qed simp

lemma ascending_distinct: "ascending es \<Longrightarrow> distinct (map position es)"
proof (induction es)
  case (Cons e es)
  obtain h m s where e: "e = (h, m, s)" by (cases e)
  have "ascending es" using Cons.prems e by (cases es) auto
  moreover have "(h, m) \<notin> position ` set es" using ascending_above Cons.prems e by blast
  ultimately show ?case using Cons.IH e by (simp add: position_def)
qed simp

lemma tables_ascending: "ascending k_en_us" "ascending k_ru_ru" "ascending k_cs_cz" "ascending k_uk_ua" "ascending k_lt_lt"
  unfolding k_en_us_def k_ru_ru_def k_cs_cz_def k_uk_ua_def k_lt_lt_def by code_simp+

lemma tables_entries: "list_all entry_ok k_en_us" "list_all entry_ok k_ru_ru" "list_all entry_ok k_cs_cz"
  "list_all entry_ok k_uk_ua" "list_all entry_ok k_lt_lt"
  unfolding k_en_us_def k_ru_ru_def k_cs_cz_def k_uk_ua_def k_lt_lt_def by code_simp+

text \<open>
  The five layouts are well-formed: their names differ, no layout gives one key with one set of
  modifiers two characters, so the order of a table does not matter to the lookup, and every entry is one
  UTF-8 character on a key of the letter block, with modifiers the lookup can ask for.
\<close>

theorem keymaps_wellformed:
  "distinct (map fst keymap_layouts) \<and>
   list_all (\<lambda>(name, es). distinct (map position es) \<and> list_all entry_ok es) keymap_layouts"
proof -
  have "distinct (map fst keymap_layouts)" by (simp add: keymap_layouts_def)
  then show ?thesis
    using tables_entries tables_ascending [THEN ascending_distinct] by (simp add: keymap_layouts_def)
qed

end
