(* ===== verification/Keylog.thy ===== *)
theory Keylog
  imports Keymap
begin

text \<open>
  components/kvm_record/keylog.c: the reports that go to the target, as lines under a recording. The
  state is \<open>keylog_t\<close>, with the cues its callback has been given, in order, in \<open>cues\<close>. Times are microseconds of a clock
  that does not wrap in a lifetime and are integers here.
\<close>

section \<open>Names of keys\<close>

datatype keylog_mode = Off | Masked | Full

datatype pending_kind = Pending_none | Pending_text | Pending_label

type_synonym cue = "int \<times> int \<times> string"

record keylog =
  mode :: keylog_mode
  clicks :: bool
  layout :: nat
  prev_mod :: u8
  prev_keys :: bytes
  mods_alone :: u8
  key_since_mods :: bool
  prev_buttons :: u8
  prev_consumer :: u16
  pending :: pending_kind
  text_buf :: string
  label :: string
  cnt :: nat
  start_us :: int
  last_us :: int
  cues :: "cue list"

abbreviation "window_us \<equiv> (1500000 :: int)"
abbreviation "linger_us \<equiv> (1500000 :: int)"
abbreviation "mod_shift \<equiv> (0x22 :: u8)"
abbreviation "mod_ctrl \<equiv> (0x11 :: u8)"
abbreviation "mod_lalt \<equiv> (0x04 :: u8)"
abbreviation "mod_ralt \<equiv> (0x40 :: u8)"
abbreviation "mod_gui \<equiv> (0x88 :: u8)"

definition dot :: string where
  "dot = [CHR 0xE2, CHR 0x80, CHR 0xA2]"

definition enter_sign :: string where
  "enter_sign = [CHR 0xE2, CHR 0x86, CHR 0xB5]"

definition backspace_sign :: string where
  "backspace_sign = [CHR 0xE2, CHR 0x86, CHR 0x90]"

text \<open>\<open>snprintf(buf, cap, "%s", s)\<close> and \<open>strncat(out, s, cap - strlen(out) - 1)\<close>.\<close>

definition c_trunc :: "nat \<Rightarrow> string \<Rightarrow> string" where
  "c_trunc cap s = take (cap - 1) s"

definition c_strncat :: "nat \<Rightarrow> string \<Rightarrow> string \<Rightarrow> string" where
  "c_strncat cap out s = out @ take (cap - length out - 1) s"

definition hex_digit :: "nat \<Rightarrow> char" where
  "hex_digit n = (if n < 10 then char_of (48 + n) else char_of (87 + n))"

text \<open>\<open>%0*x\<close>: at least so many hexadecimal digits.\<close>

function show_hex :: "nat \<Rightarrow> nat \<Rightarrow> string" where
  "show_hex width n = (if n < 16 \<and> width \<le> 1 then [hex_digit n] else show_hex (width - 1) (n div 16) @ [hex_digit (n mod 16)])"
  by pat_completeness auto
termination
proof (relation "measure (\<lambda>(width, n). width + n)")
  fix width n :: nat
  assume "\<not> (n < 16 \<and> width \<le> 1)"
  then have "n div 16 < n \<and> width - 1 \<le> width \<or> n div 16 \<le> n \<and> width - 1 < width" by auto
  then show "((width - 1, n div 16), (width, n)) \<in> measure (\<lambda>(width, n). width + n)" by auto
qed simp

declare show_hex.simps [simp del]

definition key_names :: "(u8 \<times> string) list" where
  "key_names =
     [(0x28, ''Enter''), (0x29, ''Esc''), (0x2a, ''Backspace''), (0x2b, ''Tab''), (0x2c, ''Space''), (0x2d, ''-''),
      (0x2e, ''=''), (0x2f, ''[''), (0x30, '']''), (0x31, [CHR 0x5C]), (0x33, '';''), (0x34, [CHR 0x27]),
      (0x35, [CHR 0x60]), (0x36, '',''), (0x37, ''.''), (0x38, ''/''), (0x39, ''CapsLock''), (0x46, ''PrintScreen''),
      (0x47, ''ScrollLock''), (0x48, ''Pause''), (0x49, ''Insert''), (0x4a, ''Home''), (0x4b, ''PageUp''),
      (0x4c, ''Delete''), (0x4d, ''End''), (0x4e, ''PageDown''), (0x4f, ''Right''), (0x50, ''Left''), (0x51, ''Down''),
      (0x52, ''Up''), (0x53, ''NumLock''), (0x54, ''Num /''), (0x55, ''Num *''), (0x56, ''Num -''), (0x57, ''Num +''),
      (0x58, ''Num Enter''), (0x63, ''Num .''), (0x65, ''Menu'')]"

definition key_name :: "u8 \<Rightarrow> string" where
  "key_name k =
     (if 0x04 \<le> k \<and> k \<le> 0x1d then [char_of (65 + unat (k - 0x04))]
      else if 0x1e \<le> k \<and> k \<le> 0x27 then [if k = 0x27 then CHR ''0'' else char_of (49 + unat (k - 0x1e))]
      else if 0x3a \<le> k \<and> k \<le> 0x45 then ''F'' @ show_nat (1 + unat (k - 0x3a))
      else if 0x68 \<le> k \<and> k \<le> 0x73 then ''F'' @ show_nat (13 + unat (k - 0x68))
      else if 0x59 \<le> k \<and> k \<le> 0x62 then ''Num '' @ [if k = 0x62 then CHR ''0'' else char_of (49 + unat (k - 0x59))]
      else case map_of key_names k of Some n \<Rightarrow> n | None \<Rightarrow> ''Key 0x'' @ show_hex 2 (unat k))"

definition keypad_char :: "u8 \<Rightarrow> string option" where
  "keypad_char k =
     (if 0x59 \<le> k \<and> k \<le> 0x62 then Some [if k = 0x62 then CHR ''0'' else char_of (49 + unat (k - 0x59))]
      else map_of [(0x54, ''/''), (0x55, ''*''), (0x56, ''-''), (0x57, ''+''), (0x63, ''.'')] k)"

definition typed_char :: "nat \<Rightarrow> u8 \<Rightarrow> u8 \<Rightarrow> string option" where
  "typed_char l k md =
     (case keypad_char k of
        Some c \<Rightarrow> Some c
      | None \<Rightarrow>
          let want = (if md AND mod_shift \<noteq> 0 then 0x02 else 0) OR (md AND mod_ralt)
          in map_option (\<lambda>(h, m, s). s) (find (\<lambda>(h, m, s). h = k \<and> m = want) (snd (keymap_layouts ! l))))"

section \<open>Cues\<close>

definition flush :: "keylog \<Rightarrow> keylog" where
  "flush k =
     (if pending k = Pending_none then k
      else let line = c_trunc 224 (if pending k = Pending_text then ''Typed: '' @ text_buf k
                        else if cnt k > 1 then label k @ '' x'' @ show_nat (cnt k) else label k)
           in k\<lparr>pending := Pending_none, cues := cues k @ [(start_us k, last_us k + linger_us, line)]\<rparr>)"

definition add_text :: "int \<Rightarrow> string \<Rightarrow> bool \<Rightarrow> keylog \<Rightarrow> keylog" where
  "add_text t s ends_line k =
     (let k1 = (if pending k \<noteq> Pending_text \<or> t - last_us k > window_us \<or> length (text_buf k) + length s + 1 \<ge> 192
                then (flush k)\<lparr>pending := Pending_text, text_buf := [], start_us := t\<rparr> else k);
          k2 = k1\<lparr>text_buf := c_strncat 192 (text_buf k1) s, last_us := t\<rparr>
      in if ends_line then flush k2 else k2)"

definition add_label :: "int \<Rightarrow> string \<Rightarrow> keylog \<Rightarrow> keylog" where
  "add_label t l k =
     (if pending k = Pending_label \<and> t - last_us k \<le> window_us \<and> label k = l
      then k\<lparr>cnt := cnt k + 1, last_us := t\<rparr>
      else (flush k)\<lparr>pending := Pending_label, label := c_trunc 64 l, cnt := 1, start_us := t, last_us := t\<rparr>)"

definition mod_prefix :: "nat \<Rightarrow> u8 \<Rightarrow> bool \<Rightarrow> string" where
  "mod_prefix cap md with_shift =
     (let o1 = (if md AND mod_ctrl \<noteq> 0 then c_strncat cap [] ''Ctrl+'' else []);
          o2 = (if md AND mod_lalt \<noteq> 0 then c_strncat cap o1 ''Alt+'' else o1);
          o3 = (if md AND mod_ralt \<noteq> 0 then c_strncat cap o2 ''AltGr+'' else o2);
          o4 = (if md AND mod_gui \<noteq> 0 then c_strncat cap o3 ''Win+'' else o3)
      in if with_shift \<and> md AND mod_shift \<noteq> 0 then c_strncat cap o4 ''Shift+'' else o4)"

text \<open>The layout with the given name, the last one of that name, else the first of all.\<close>

definition find_layout :: "string option \<Rightarrow> nat" where
  "find_layout name = fold (\<lambda>i l. if name = Some (fst (keymap_layouts ! i)) then i else l) [0..<length keymap_layouts] 0"

definition keylog_init :: "keylog_mode \<Rightarrow> bool \<Rightarrow> string option \<Rightarrow> keylog" where
  "keylog_init m c name = \<lparr>mode = m, clicks = c, layout = find_layout name, prev_mod = 0, prev_keys = replicate 6 0,
     mods_alone = 0, key_since_mods = False, prev_buttons = 0, prev_consumer = 0, pending = Pending_none,
     text_buf = [], label = [], cnt = 0, start_us = 0, last_us = 0, cues = []\<rparr>"

section \<open>The keyboard\<close>

definition is_command :: "u8 \<Rightarrow> bool" where
  "is_command md \<longleftrightarrow> md AND (mod_ctrl OR mod_lalt OR mod_gui) \<noteq> 0"

definition press_label :: "int \<Rightarrow> u8 \<Rightarrow> u8 \<Rightarrow> keylog \<Rightarrow> keylog" where
  "press_label t k md l =
     (let shift_shown = (is_command md \<or> typed_char (layout l) k 0 = None)
      in add_label t (c_trunc 64 (mod_prefix 40 md shift_shown @ c_trunc 16 (key_name k))) l)"

definition press :: "int \<Rightarrow> u8 \<Rightarrow> u8 \<Rightarrow> keylog \<Rightarrow> keylog" where
  "press t k md l =
     (let fresh = (pending l = Pending_text \<and> t - last_us l \<le> window_us)
      in if is_command md then press_label t k md l
         else if k = 0x28 \<or> k = 0x58 then if fresh then add_text t enter_sign True l else add_label t ''Enter'' l
         else if k = 0x2a \<and> fresh then add_text t backspace_sign False l
         else case typed_char (layout l) k md of
                Some ch \<Rightarrow> add_text t (if mode l = Full then ch else dot) False l
              | None \<Rightarrow> press_label t k md l)"

text \<open>The keys of a report, one after the other, against the keys that were down before it.\<close>

fun press_keys :: "int \<Rightarrow> u8 \<Rightarrow> bytes \<Rightarrow> bool \<Rightarrow> keylog \<Rightarrow> bool \<times> keylog" where
  "press_keys t md [] any l = (any, l)"
| "press_keys t md (k # ks) any l =
     (if k < 0x04 then press_keys t md ks any l
      else press_keys t md ks True
             (if k \<in> set (prev_keys l) then l else (press t k md l)\<lparr>key_since_mods := True\<rparr>))"

text \<open>A modifier pressed and let go on its own.\<close>

definition lone_mods :: "int \<Rightarrow> u8 \<Rightarrow> bool \<Rightarrow> keylog \<Rightarrow> keylog" where
  "lone_mods t md any l =
     (let l2 = l\<lparr>mods_alone := mods_alone l OR (md AND NOT (prev_mod l))\<rparr>
      in if md = 0 \<and> \<not> any
         then let alone = mods_alone l2 AND (mod_ctrl OR mod_lalt OR mod_ralt OR mod_gui)
              in (if alone \<noteq> 0 \<and> \<not> key_since_mods l2 then add_label t (butlast (mod_prefix 40 alone False)) l2 else l2)
                 \<lparr>mods_alone := 0, key_since_mods := False\<rparr>
         else l2)"

definition keylog_keyboard :: "int \<Rightarrow> u8 \<Rightarrow> bytes \<Rightarrow> keylog \<Rightarrow> keylog" where
  "keylog_keyboard t md ks l =
     (if mode l = Off then l
      else let (any, l1) = press_keys t md ks False l
           in (lone_mods t md any l1)\<lparr>prev_mod := md, prev_keys := ks\<rparr>)"

section \<open>The mouse, the media keys and the clock\<close>

definition click_label :: "string \<Rightarrow> int \<Rightarrow> int \<Rightarrow> string" where
  "click_label name x y =
     (if x \<ge> 0 \<and> y \<ge> 0 then name @ '' click ('' @ show_nat (nat x) @ '', '' @ show_nat (nat y) @ '')''
      else name @ '' click'')"

definition keylog_mouse :: "int \<Rightarrow> u8 \<Rightarrow> int \<Rightarrow> int \<Rightarrow> keylog \<Rightarrow> keylog" where
  "keylog_mouse t buttons x y l =
     (if mode l = Off then l
      else let down = buttons AND NOT (prev_buttons l);
               l1 = l\<lparr>prev_buttons := buttons\<rparr>
           in if \<not> clicks l \<or> down = 0 then l1
              else fold (\<lambda>(b, name) l. if bit down b then add_label t (c_trunc 64 (click_label name x y)) l else l)
                     [(0, ''Left''), (1, ''Right''), (2, ''Middle''), (3, ''Back''), (4, ''Forward'')] l1)"

definition consumer_names :: "(u16 \<times> string) list" where
  "consumer_names = [(0xe9, ''Volume up''), (0xea, ''Volume down''), (0xe2, ''Mute''), (0xcd, ''Play/Pause''),
     (0xb5, ''Next track''), (0xb6, ''Previous track''), (0xb7, ''Stop'')]"

definition keylog_consumer :: "int \<Rightarrow> u16 \<Rightarrow> keylog \<Rightarrow> keylog" where
  "keylog_consumer t usage l =
     (if mode l = Off then l
      else let l1 = l\<lparr>prev_consumer := usage\<rparr>
           in if usage = 0 \<or> usage = prev_consumer l then l1
              else add_label t (case map_of consumer_names usage of Some n \<Rightarrow> n
                      | None \<Rightarrow> c_trunc 32 (''Media key 0x'' @ show_hex 3 (unat usage))) l1)"

definition keylog_tick :: "int \<Rightarrow> keylog \<Rightarrow> keylog" where
  "keylog_tick now l = (if pending l \<noteq> Pending_none \<and> now - last_us l > window_us then flush l else l)"

definition keylog_flush :: "keylog \<Rightarrow> keylog" where
  "keylog_flush l = flush l"

section \<open>A masked log does not tell what is typed\<close>

datatype input = Keys int u8 bytes | Mouse int u8 int int | Consumer int u16 | Tick int | Flush

fun keylog_step :: "input \<Rightarrow> keylog \<Rightarrow> keylog" where
  "keylog_step (Keys t md ks) l = keylog_keyboard t md ks l"
| "keylog_step (Mouse t b x y) l = keylog_mouse t b x y l"
| "keylog_step (Consumer t u) l = keylog_consumer t u l"
| "keylog_step (Tick t) l = keylog_tick t l"
| "keylog_step Flush l = keylog_flush l"

text \<open>A key that types a character, pressed without a command modifier.\<close>

definition secret :: "nat \<Rightarrow> u8 \<Rightarrow> u8 \<Rightarrow> bool" where
  "secret lay md k \<longleftrightarrow> 0x04 \<le> k \<and> k \<noteq> 0x28 \<and> k \<noteq> 0x58 \<and> k \<noteq> 0x2a \<and> \<not> is_command md \<and> typed_char lay k md \<noteq> None"

text \<open>
  Two inputs that agree in everything but which characters are typed: the same times, modifiers,
  clicks and media keys, the same slots filled, the same presses new, and each new press the same key or
  in both a key that types a character.
\<close>

definition alike_key :: "nat \<Rightarrow> u8 \<Rightarrow> bytes \<Rightarrow> bytes \<Rightarrow> u8 \<Rightarrow> u8 \<Rightarrow> bool" where
  "alike_key lay md prev prev' a b \<longleftrightarrow>
     (if a < 0x04 then b < 0x04
      else 0x04 \<le> b \<and> (a \<in> set prev \<longleftrightarrow> b \<in> set prev') \<and>
           (a \<in> set prev \<or> a = b \<or> secret lay md a \<and> secret lay md b))"

fun alike :: "nat \<Rightarrow> bytes \<Rightarrow> bytes \<Rightarrow> input list \<Rightarrow> input list \<Rightarrow> bool" where
  "alike lay prev prev' [] is' = (is' = [])"
| "alike lay prev prev' (Keys t md ks # is) is' =
     (case is' of Keys t' md' ks' # is'' \<Rightarrow>
        t' = t \<and> md' = md \<and> list_all2 (alike_key lay md prev prev') ks ks' \<and> alike lay ks ks' is is'' | _ \<Rightarrow> False)"
| "alike lay prev prev' (i # is) is' = (case is' of i' # is'' \<Rightarrow> i' = i \<and> alike lay prev prev' is is'' | [] \<Rightarrow> False)"

abbreviation with_keys :: "bytes \<Rightarrow> keylog \<Rightarrow> keylog" where
  "with_keys p l \<equiv> l\<lparr>prev_keys := p\<rparr>"

named_theorems keys_apart \<open>operations that do not look at the previous keys\<close>

lemma swap_keys [keys_apart]:
  "(with_keys p l)\<lparr>pending := a\<rparr> = with_keys p (l\<lparr>pending := a\<rparr>)"
  "(with_keys p l)\<lparr>text_buf := b\<rparr> = with_keys p (l\<lparr>text_buf := b\<rparr>)"
  "(with_keys p l)\<lparr>start_us := c\<rparr> = with_keys p (l\<lparr>start_us := c\<rparr>)"
  "(with_keys p l)\<lparr>last_us := c\<rparr> = with_keys p (l\<lparr>last_us := c\<rparr>)"
  "(with_keys p l)\<lparr>prev_buttons := d\<rparr> = with_keys p (l\<lparr>prev_buttons := d\<rparr>)"
  "(with_keys p l)\<lparr>prev_consumer := e\<rparr> = with_keys p (l\<lparr>prev_consumer := e\<rparr>)"
  "(with_keys p l)\<lparr>label := b\<rparr> = with_keys p (l\<lparr>label := b\<rparr>)"
  "(with_keys p l)\<lparr>cnt := n\<rparr> = with_keys p (l\<lparr>cnt := n\<rparr>)"
  "(with_keys p l)\<lparr>cues := f\<rparr> = with_keys p (l\<lparr>cues := f\<rparr>)"
  "(with_keys p l)\<lparr>key_since_mods := g\<rparr> = with_keys p (l\<lparr>key_since_mods := g\<rparr>)"
  "(with_keys p l)\<lparr>mods_alone := d\<rparr> = with_keys p (l\<lparr>mods_alone := d\<rparr>)"
  "(with_keys p l)\<lparr>prev_mod := d\<rparr> = with_keys p (l\<lparr>prev_mod := d\<rparr>)"
  by simp_all

lemma flush_keys [keys_apart]: "flush (with_keys p l) = with_keys p (flush l)"
  by (simp add: flush_def Let_def)

lemma add_text_keys [keys_apart]: "add_text t s e (with_keys p l) = with_keys p (add_text t s e l)"
  by (simp add: add_text_def keys_apart Let_def)

lemma add_label_keys [keys_apart]: "add_label t s (with_keys p l) = with_keys p (add_label t s l)"
  by (simp add: add_label_def keys_apart)

lemma press_label_keys [keys_apart]: "press_label t k md (with_keys p l) = with_keys p (press_label t k md l)"
  by (simp add: press_label_def add_label_keys Let_def)

lemma press_keys_apart [keys_apart]: "press t k md (with_keys p l) = with_keys p (press t k md l)"
  by (simp add: press_def keys_apart Let_def split: option.split)

lemma lone_mods_keys [keys_apart]: "lone_mods t md any (with_keys p l) = with_keys p (lone_mods t md any l)"
  by (simp add: lone_mods_def Let_def keys_apart)

lemma mouse_keys [keys_apart]: "keylog_mouse t b x y (with_keys p l) = with_keys p (keylog_mouse t b x y l)"
  by (simp add: keylog_mouse_def Let_def keys_apart)

lemma consumer_keys [keys_apart]: "keylog_consumer t u (with_keys p l) = with_keys p (keylog_consumer t u l)"
  by (simp add: keylog_consumer_def Let_def keys_apart)

lemma tick_keys [keys_apart]: "keylog_tick t (with_keys p l) = with_keys p (keylog_tick t l)"
  by (simp add: keylog_tick_def flush_keys)

text \<open>What the operations leave alone.\<close>

named_theorems kept \<open>fields that an operation keeps\<close>

lemma flush_kept [kept]: "mode (flush l) = mode l" "layout (flush l) = layout l" "prev_keys (flush l) = prev_keys l"
  by (simp_all add: flush_def Let_def)

lemma add_text_kept [kept]: "mode (add_text t s e l) = mode l" "layout (add_text t s e l) = layout l"
    "prev_keys (add_text t s e l) = prev_keys l"
  by (simp_all add: add_text_def flush_kept Let_def)

lemma add_label_kept [kept]: "mode (add_label t s l) = mode l" "layout (add_label t s l) = layout l"
    "prev_keys (add_label t s l) = prev_keys l"
  by (simp_all add: add_label_def flush_kept)

lemma press_kept [kept]: "mode (press t k md l) = mode l" "layout (press t k md l) = layout l"
    "prev_keys (press t k md l) = prev_keys l"
  by (simp_all add: press_def press_label_def kept Let_def split: option.split)

lemma press_keys_kept [kept]:
  "mode (snd (press_keys t md ks any l)) = mode l" "layout (snd (press_keys t md ks any l)) = layout l"
  "prev_keys (snd (press_keys t md ks any l)) = prev_keys l"
  by (induction t md ks any l rule: press_keys.induct) (simp_all add: kept)

lemma lone_mods_kept [kept]:
  "mode (lone_mods t md any l) = mode l" "layout (lone_mods t md any l) = layout l"
  "prev_keys (lone_mods t md any l) = prev_keys l"
  by (simp_all add: lone_mods_def Let_def kept)

lemma keyboard_kept [kept]:
  "mode (keylog_keyboard t md ks l) = mode l" "layout (keylog_keyboard t md ks l) = layout l"
  "mode l \<noteq> Off \<Longrightarrow> prev_keys (keylog_keyboard t md ks l) = ks"
  by (simp_all add: keylog_keyboard_def case_prod_beta Let_def kept)

lemma mouse_kept [kept]: "mode (keylog_mouse t b x y l) = mode l" "layout (keylog_mouse t b x y l) = layout l"
    "prev_keys (keylog_mouse t b x y l) = prev_keys l"
  by (simp_all add: keylog_mouse_def Let_def kept)

lemma consumer_kept [kept]: "mode (keylog_consumer t u l) = mode l" "layout (keylog_consumer t u l) = layout l"
    "prev_keys (keylog_consumer t u l) = prev_keys l"
  by (simp_all add: keylog_consumer_def Let_def kept)

lemma tick_kept [kept]: "mode (keylog_tick t l) = mode l" "layout (keylog_tick t l) = layout l"
    "prev_keys (keylog_tick t l) = prev_keys l"
  by (simp_all add: keylog_tick_def kept)

lemma press_secret: "mode l = Masked \<Longrightarrow> secret (layout l) md k \<Longrightarrow> press t k md l = add_text t dot False l"
  by (auto simp: press_def secret_def Let_def)

lemma press_keys_alike:
  "mode l = Masked \<Longrightarrow> list_all2 (alike_key (layout l) md (prev_keys l) p) ks ks' \<Longrightarrow>
   press_keys t md ks' any (with_keys p l) = (fst (press_keys t md ks any l), with_keys p (snd (press_keys t md ks any l)))"
proof (induction t md ks any l arbitrary: ks' rule: press_keys.induct)
  case (2 t md k ks any l)
  then obtain k' qs where q: "ks' = k' # qs" "alike_key (layout l) md (prev_keys l) p k k'"
    "list_all2 (alike_key (layout l) md (prev_keys l) p) ks qs" by (auto simp: list_all2_Cons1)
  show ?case
  proof (cases "k < 0x04")
    case True
    then show ?thesis using 2 q by (simp add: alike_key_def)
  next
    case False
    then have k': "\<not> k' < 0x04" "k \<in> set (prev_keys l) \<longleftrightarrow> k' \<in> set p"
      using q(2) by (auto simp: alike_key_def not_less)
    show ?thesis
    proof (cases "k \<in> set (prev_keys l)")
      case True
      then show ?thesis using 2(2)[OF False] 2(3) q k' False by simp
    next
      case new: False
      then have "k = k' \<or> secret (layout l) md k \<and> secret (layout l) md k'"
        using q(2) False by (auto simp: alike_key_def)
      then have "press t k' md l = press t k md l" using press_secret 2(3) by auto
      then show ?thesis
        using 2(2)[OF False, of qs] 2(3) q k' False new by (simp add: kept keys_apart)
    qed
  qed
qed simp

lemma keyboard_alike:
  assumes "mode l = Masked" and "list_all2 (alike_key (layout l) md (prev_keys l) p) ks ks'"
  shows "keylog_keyboard t md ks' (with_keys p l) = with_keys ks' (keylog_keyboard t md ks l)"
  using press_keys_alike [OF assms, of t False] assms(1)
  by (simp add: keylog_keyboard_def case_prod_beta Let_def keys_apart)

lemma alike_run:
  "alike lay prev p is is' \<Longrightarrow> mode l = Masked \<Longrightarrow> lay = layout l \<Longrightarrow> prev = prev_keys l \<Longrightarrow>
   \<exists>r. fold keylog_step is' (with_keys p l) = with_keys r (fold keylog_step is l)"
proof (induction lay prev p "is" is' arbitrary: l rule: alike.induct)
  case (2 lay prev prev' t md ks "is" is')
  obtain ks' is'' where i: "is' = Keys t md ks' # is''" "list_all2 (alike_key lay md prev prev') ks ks'"
    "alike lay ks ks' is is''" using 2(2) by (auto split: list.splits input.splits)
  have "keylog_keyboard t md ks' (with_keys prev' l) = with_keys ks' (keylog_keyboard t md ks l)"
    using keyboard_alike i(2) 2(3-5) by blast
  then show ?case using 2(1) [OF i(1) refl i(3), of "keylog_keyboard t md ks l"] 2(3,4) i(1) by (simp add: kept)
qed (auto simp: keys_apart kept keylog_flush_def split: list.splits)

text \<open>
  C22. In masked mode the log keeps the secret: two inputs that differ only in which characters are
  typed - keys of the layout pressed without Ctrl, Alt or Win - and agree in everything else give the
  same cues, at the same times, whatever clicks, shortcuts and ticks lie between.
\<close>

theorem masked_log_hides:
  assumes "alike (find_layout name) (replicate 6 0) (replicate 6 0) is is'"
  shows "cues (fold keylog_step is' (keylog_init Masked c name)) = cues (fold keylog_step is (keylog_init Masked c name))"
proof -
  let ?l = "keylog_init Masked c name"
  have l: "mode ?l = Masked" "find_layout name = layout ?l" "replicate 6 0 = prev_keys ?l"
    and same: "with_keys (replicate 6 0) ?l = ?l" by (simp_all add: keylog_init_def)
  from alike_run [OF assms l] obtain r where "fold keylog_step is' ?l = with_keys r (fold keylog_step is ?l)"
    unfolding same by blast
  then show ?thesis by simp
qed

theorem masked_log_hides_witness:
  "cues (fold keylog_step [Keys 0 0 [20, 0, 0, 0, 0, 0], Keys 9 0 (replicate 6 0), Keys 10 2 [20, 0, 0, 0, 0, 0], Flush]
       (keylog_init Masked True (Some ''en_us''))) =
   cues (fold keylog_step [Keys 0 0 [4, 0, 0, 0, 0, 0], Keys 9 0 (replicate 6 0), Keys 10 2 [5, 0, 0, 0, 0, 0], Flush]
       (keylog_init Masked True (Some ''en_us'')))"
proof (rule masked_log_hides)
  show "alike (find_layout (Some ''en_us'')) (replicate 6 0) (replicate 6 0)
     [Keys 0 0 [4, 0, 0, 0, 0, 0], Keys 9 0 (replicate 6 0), Keys 10 2 [5, 0, 0, 0, 0, 0], Flush]
     [Keys 0 0 [20, 0, 0, 0, 0, 0], Keys 9 0 (replicate 6 0), Keys 10 2 [20, 0, 0, 0, 0, 0], Flush]"
    by code_simp
qed

section \<open>A full log loses nothing\<close>

text \<open>The text of a line of typing, without its heading, and all that has been typed so far.\<close>

definition typed_lines :: "cue list \<Rightarrow> string" where
  "typed_lines cs = concat (map (\<lambda>(s, e, line). drop 7 line) cs)"

definition typed_so_far :: "keylog \<Rightarrow> string" where
  "typed_so_far l = typed_lines (cues l) @ (if pending l = Pending_text then text_buf l else [])"

text \<open>Only lines of typing so far, each within its buffer.\<close>

definition typing_only :: "keylog \<Rightarrow> bool" where
  "typing_only l \<longleftrightarrow> pending l \<noteq> Pending_label \<and> (pending l = Pending_text \<longrightarrow> length (text_buf l) \<le> 191) \<and>
     (\<forall>(s, e, line) \<in> set (cues l). take 7 line = ''Typed: '' \<and> length line \<le> 198)"

lemma typing_flush: "typing_only l \<Longrightarrow> typing_only (flush l) \<and> typed_so_far (flush l) = typed_so_far l \<and> pending (flush l) = Pending_none"
  by (cases "pending l") (auto simp: typing_only_def typed_so_far_def typed_lines_def flush_def c_trunc_def)

lemma typing_closed:
  assumes "typing_only l"
  shows "typed_lines (cues (flush l)) = typed_so_far l"
proof -
  have "pending (flush l) = Pending_none" and t: "typed_so_far (flush l) = typed_so_far l"
    using typing_flush [OF assms] by blast+
  then have "typed_so_far (flush l) = typed_lines (cues (flush l))" by (simp add: typed_so_far_def)
  then show ?thesis using t by (simp only:)
qed

lemma typing_add:
  assumes "typing_only l" and "length s \<le> 3"
  shows "typing_only (add_text t s False l) \<and> typed_so_far (add_text t s False l) = typed_so_far l @ s"
proof -
  note f = typing_flush [OF assms(1)]
  have s: "c_strncat 192 b s = b @ s" if "length b + length s \<le> 191" for b
    using that by (simp add: c_strncat_def)
  show ?thesis
  proof (cases "pending l \<noteq> Pending_text \<or> t - last_us l > window_us \<or> length (text_buf l) + length s + 1 \<ge> 192")
    case True
    then have e: "add_text t s False l = (flush l)\<lparr>pending := Pending_text, text_buf := s, start_us := t, last_us := t\<rparr>"
      using s [of "[]"] assms(2) by (simp add: add_text_def)
    have p: "typed_so_far (flush l) = typed_lines (cues (flush l))" using f by (simp add: typed_so_far_def)
    show ?thesis using f assms(2) p unfolding e by (auto simp: typing_only_def typed_so_far_def)
  next
    case False
    then have e: "add_text t s False l = l\<lparr>text_buf := text_buf l @ s, last_us := t\<rparr>"
      using s by (simp add: add_text_def)
    show ?thesis using False assms(1) unfolding e by (auto simp: typing_only_def typed_so_far_def)
  qed
qed

text \<open>The layouts' characters are short.\<close>

lemma typed_char_short:
  assumes "l < length keymap_layouts" and "typed_char l k md = Some s"
  shows "length s \<le> 3"
proof (cases "keypad_char k")
  case None
  then obtain h m where "(h, m, s) \<in> set (snd (keymap_layouts ! l))"
    using assms(2) by (auto simp: typed_char_def Let_def find_Some_iff) (metis nth_mem)
  moreover have "\<forall>es \<in> set (map snd keymap_layouts). list_all entry_ok es"
    using tables_entries by (simp add: keymap_layouts_def)
  then have "list_all entry_ok (snd (keymap_layouts ! l))" using assms(1) by simp
  ultimately have "utf8_char s" by (auto simp: list_all_iff entry_ok_def)
  then show ?thesis by (auto simp: utf8_char_def split: list.splits)
next
  case (Some c)
  then have "s = c" using assms(2) by (simp add: typed_char_def)
  then show ?thesis using Some by (auto simp: keypad_char_def split: if_splits)
qed

lemma find_layout_less: "find_layout name < length keymap_layouts"
proof -
  have "fold (\<lambda>i l. if P i then i else l) is l < n" if "\<forall>i \<in> set is. i < n" "l < n" for P "is" and l n :: nat
    using that by (induction "is" arbitrary: l) auto
  moreover have "0 < length keymap_layouts" by (simp add: keymap_layouts_def)
  ultimately show ?thesis by (simp add: find_layout_def)
qed

text \<open>A key struck: pressed with its modifiers, then everything let go.\<close>

definition keystroke :: "int \<times> u8 \<times> u8 \<Rightarrow> input list" where
  "keystroke = (\<lambda>(t, md, k). [Keys t md [k, 0, 0, 0, 0, 0], Keys t 0 (replicate 6 0)])"

definition at_rest :: "keylog \<Rightarrow> bool" where
  "at_rest l \<longleftrightarrow> mode l = Full \<and> layout l < length keymap_layouts \<and> prev_keys l = replicate 6 0 \<and> prev_mod l = 0 \<and>
     mods_alone l = 0 \<and> \<not> key_since_mods l"

lemma add_text_rest: "prev_mod (add_text t s False l) = prev_mod l" "mods_alone (add_text t s False l) = mods_alone l"
    "key_since_mods (add_text t s False l) = key_since_mods l"
  by (simp_all add: add_text_def flush_def Let_def)

lemma no_keys: "press_keys t md (replicate n 0) any l = (any, l)"
  by (induction n) simp_all

lemma strike:
  assumes "at_rest l" and "typing_only l" and "secret (layout l) md k"
    and l'_def: "l' = fold keylog_step (keystroke (t, md, k)) l"
  shows "at_rest l' \<and> typing_only l' \<and> layout l' = layout l \<and>
    typed_so_far l' = typed_so_far l @ the (typed_char (layout l) k md)"
proof -
  obtain s where s: "typed_char (layout l) k md = Some s" using assms(3) by (auto simp: secret_def)
  let ?a = "add_text t s False l"
  have k: "\<not> k < 0x04" "\<not> is_command md" "k \<noteq> 0x28" "k \<noteq> 0x58" "k \<noteq> 0x2a"
    using assms(3) by (auto simp: secret_def not_less)
  have "press t k md l = ?a" using k s assms(1) by (simp add: press_def at_rest_def Let_def)
  moreover have "k \<notin> set (prev_keys l)" using k(1) assms(1) by (auto simp: at_rest_def)
  ultimately have pk: "press_keys t md [k, 0, 0, 0, 0, 0] False l = (True, ?a\<lparr>key_since_mods := True\<rparr>)"
    using k(1) by simp
  define l1 where "l1 = ?a\<lparr>key_since_mods := True, mods_alone := md, prev_mod := md, prev_keys := [k, 0, 0, 0, 0, 0]\<rparr>"
  have l1: "keylog_keyboard t md [k, 0, 0, 0, 0, 0] l = l1"
    using assms(1) by (simp add: keylog_keyboard_def pk lone_mods_def l1_def at_rest_def add_text_rest kept del: press_keys.simps)
  have "press_keys t 0 (replicate 6 0) False l1 = (False, l1)" by (rule no_keys)
  then have "keylog_keyboard t 0 (replicate 6 0) l1 =
      l1\<lparr>mods_alone := 0, key_since_mods := False, prev_mod := 0, prev_keys := replicate 6 0\<rparr>"
    using assms(1) by (simp add: keylog_keyboard_def lone_mods_def l1_def at_rest_def kept Let_def)
  then have l': "l' = ?a\<lparr>mods_alone := 0, key_since_mods := False, prev_mod := 0, prev_keys := replicate 6 0\<rparr>"
    by (simp add: l'_def keystroke_def l1) (simp add: l1_def)
  have "length s \<le> 3" using typed_char_short s assms(1) by (auto simp: at_rest_def)
  note a = typing_add [OF assms(2) this, of t]
  have "typing_only l' = typing_only ?a" "typed_so_far l' = typed_so_far ?a"
    unfolding l' by (simp_all add: typing_only_def typed_so_far_def)
  then show ?thesis using a assms(1) s unfolding l' by (simp add: at_rest_def kept)
qed

text \<open>
  In full mode nothing typed is lost or shown twice: for any keys of the layout struck one after the
  other, at any times, the cues after the last one is closed are all lines of typing that fit their buffers, and
  read one after the other they are exactly the characters of the keys, however they were split by
  pauses or by the length of a line.
\<close>

theorem full_log_complete:
  assumes "\<forall>(t, md, k) \<in> set ks. secret (find_layout name) md k"
  shows "(\<forall>(s, e, line) \<in> set (cues (keylog_flush (fold keylog_step (concat (map keystroke ks)) (keylog_init Full c name)))).
      take 7 line = ''Typed: '' \<and> length line \<le> 198) \<and>
    typed_lines (cues (keylog_flush (fold keylog_step (concat (map keystroke ks)) (keylog_init Full c name)))) =
      concat (map (\<lambda>(t, md, k). the (typed_char (find_layout name) k md)) ks)"
proof -
  have run: "at_rest (fold keylog_step (concat (map keystroke ks)) l) \<and>
      typing_only (fold keylog_step (concat (map keystroke ks)) l) \<and>
      typed_so_far (fold keylog_step (concat (map keystroke ks)) l) =
        typed_so_far l @ concat (map (\<lambda>(t, md, k). the (typed_char (layout l) k md)) ks)"
    if "at_rest l" "typing_only l" "\<forall>(t, md, k) \<in> set ks. secret (layout l) md k" for l
    using that
  proof (induction ks arbitrary: l)
    case (Cons x ks)
    obtain t md k where x: "x = (t, md, k)" by (cases x)
    then have s: "secret (layout l) md k" using Cons.prems(3) by simp
    note st = strike [OF Cons.prems(1,2) s refl, of t]
    show ?case using Cons.IH [of "fold keylog_step (keystroke (t, md, k)) l"] st Cons.prems(3) x by simp
  qed simp
  let ?l = "keylog_init Full c name"
  have "at_rest ?l" "typing_only ?l" "layout ?l = find_layout name" "typed_so_far ?l = []"
    using find_layout_less by (auto simp: at_rest_def typing_only_def typed_so_far_def typed_lines_def keylog_init_def)
  then have r: "typing_only (fold keylog_step (concat (map keystroke ks)) ?l)"
      "typed_so_far (fold keylog_step (concat (map keystroke ks)) ?l) =
        concat (map (\<lambda>(t, md, k). the (typed_char (find_layout name) k md)) ks)"
    using run [of ?l] assms by auto
  note f = typing_flush [OF r(1)]
  have "\<forall>(s, e, line) \<in> set (cues (keylog_flush (fold keylog_step (concat (map keystroke ks)) ?l))).
      take 7 line = ''Typed: '' \<and> length line \<le> 198"
    using f by (simp add: keylog_flush_def typing_only_def)
  moreover have "typed_lines (cues (keylog_flush (fold keylog_step (concat (map keystroke ks)) ?l))) =
      concat (map (\<lambda>(t, md, k). the (typed_char (find_layout name) k md)) ks)"
    using typing_closed [OF r(1)] r(2) by (simp add: keylog_flush_def)
  ultimately show ?thesis by blast
qed

theorem full_log_complete_witness:
  "typed_lines (cues (keylog_flush (fold keylog_step (concat (map keystroke [(0, 0, 4), (5, 2, 5), (2000000, 0, 6)]))
     (keylog_init Full True (Some ''en_us''))))) = ''aBc''"
proof -
  have l: "find_layout (Some ''en_us'') = 0" by code_simp
  have s: "secret 0 0 4" "secret 0 2 5" "secret 0 0 6" by code_simp+
  have "\<forall>(t, md, k) \<in> set [(0, 0, 4), (5, 2, 5), (2000000, 0, 6)]. secret (find_layout (Some ''en_us'')) md k"
    unfolding l using s by simp
  note full_log_complete [OF this, of True]
  moreover have "typed_char 0 4 0 = Some ''a''" "typed_char 0 5 2 = Some ''B''" "typed_char 0 6 0 = Some ''c''" by code_simp+
  ultimately show ?thesis unfolding l by simp
qed

end
