(* ===== verification/Stun.thy ===== *)
theory Stun
  imports Srtp
begin

text \<open>
  components/kvm_webrtc/stun.c: the STUN messages of ICE. The HMAC is the one of wr_crypto.h, as in
  SRTP. Every read of the packet is checked: the outer \<open>None\<close> is a read outside it, \<open>Some None\<close> is the
  return of -1.
\<close>

section \<open>Messages\<close>

record stun_req =
  txid :: bytes
  use_candidate :: bool

definition fp_bit :: "u32 \<Rightarrow> u32" where
  "fp_bit c = drop_bit 1 c XOR (0xEDB88320 AND (0 - (c AND 1)))"

definition crc_more :: "u32 \<Rightarrow> bytes \<Rightarrow> u32" where
  "crc_more c p = fold (\<lambda>b c. (fp_bit ^^ 8) (c XOR ucast b)) p c"

definition stun_crc32 :: "bytes \<Rightarrow> u32" where
  "stun_crc32 p = NOT (crc_more 0xFFFFFFFF p)"

definition stun_is :: "bytes \<Rightarrow> bool option" where
  "stun_is p =
     (if length p < 20 then Some False
      else do { b \<leftarrow> rd8 p 0; if b < 4 then do { m \<leftarrow> rd32 p 4; Some (m = 0x2112A442) } else Some False })"

text \<open>The header with another length in it.\<close>

definition header_for :: "bytes \<Rightarrow> u16 \<Rightarrow> bytes" where
  "header_for p n = take 2 p @ put16 n @ segment p 4 16"

text \<open>What is signed: the message up to an offset, with a header that ends after MESSAGE-INTEGRITY.\<close>

definition signed_part :: "bytes \<Rightarrow> nat \<Rightarrow> bytes option" where
  "signed_part p stop = do {
     h \<leftarrow> rd_run p 0 20;
     b \<leftarrow> rd_run p 20 (stop - 20);
     Some (header_for h (of_nat (stop - 20 + 24)) @ b)
   }"

definition fingerprint :: "bytes \<Rightarrow> nat \<Rightarrow> u32 option" where
  "fingerprint p off = do {
     h \<leftarrow> rd_run p 0 20;
     b \<leftarrow> rd_run p 20 (off - 20);
     Some (NOT (crc_more (crc_more 0xFFFFFFFF (header_for h (of_nat (off - 20 + 8)))) b) XOR 0x5354554E)
   }"

section \<open>Checking a Binding request\<close>

record stun_st =
  user_ok :: bool
  mi_ok :: bool
  use_cand :: bool

definition on_username :: "bytes \<Rightarrow> bytes \<Rightarrow> nat \<Rightarrow> nat \<Rightarrow> bool option" where
  "on_username p ufrag v alen =
     (if alen > length ufrag
      then do {
        u \<leftarrow> rd_run p v (length ufrag);
        if u = ufrag then do { c \<leftarrow> rd8 p (v + length ufrag); Some (c = 58) } else Some False
      } else Some False)"

definition on_attr ::
    "('a, 'h) crypto \<Rightarrow> 'h \<Rightarrow> bytes \<Rightarrow> bytes \<Rightarrow> nat \<Rightarrow> u16 \<Rightarrow> nat \<Rightarrow> stun_st \<Rightarrow> stun_st option option" where
  "on_attr cr pwd ufrag p off type alen s =
     (let v = off + 4
      in if mi_ok s \<and> type \<noteq> 0x8028 then Some None
         else if type = 0x0006 then do { ok \<leftarrow> on_username p ufrag v alen; Some (Some (s\<lparr>user_ok := ok\<rparr>)) }
         else if type = 0x0025 then Some (Some (s\<lparr>use_cand := True\<rparr>))
         else if type = 0x0008
         then if alen \<noteq> 20 then Some None
              else do {
                m \<leftarrow> signed_part p off;
                tag \<leftarrow> rd_run p v 20;
                Some (case hmac_sha1 cr pwd m of
                        None \<Rightarrow> None
                      | Some mac \<Rightarrow> if same mac tag 20 then Some (s\<lparr>mi_ok := True\<rparr>) else None)
              }
         else if type = 0x8028
         then if alen \<noteq> 4 then Some None
              else do {
                c \<leftarrow> fingerprint p off;
                f \<leftarrow> rd32 p v;
                Some (if c \<noteq> f then None else Some s)
              }
         else Some (Some s))"

definition padded :: "nat \<Rightarrow> nat" where
  "padded n = (n + 3) div 4 * 4"

function attr_loop ::
    "('a, 'h) crypto \<Rightarrow> 'h \<Rightarrow> bytes \<Rightarrow> bytes \<Rightarrow> nat \<Rightarrow> nat \<Rightarrow> stun_st \<Rightarrow> stun_st option option" where
  "attr_loop cr pwd ufrag p fin off s =
     (if off + 4 \<le> fin
      then do {
        type \<leftarrow> rd16 p off;
        len \<leftarrow> rd16 p (off + 2);
        let alen = unat len;
        if off + 4 + padded alen > fin then Some None
        else do {
          r \<leftarrow> on_attr cr pwd ufrag p off type alen s;
          (case r of None \<Rightarrow> Some None | Some s1 \<Rightarrow> attr_loop cr pwd ufrag p fin (off + (4 + padded alen)) s1)
        }
      } else Some (Some s))"
  by pat_completeness auto
termination by (relation "measure (\<lambda>(cr, pwd, ufrag, p, fin, off, s). fin - off)") auto

declare attr_loop.simps [simp del]

text \<open>The body of a Binding request: where it ends, when there is one.\<close>

definition binding_end :: "bytes \<Rightarrow> nat option option" where
  "binding_end p = do {
     is \<leftarrow> stun_is p;
     if \<not> is then Some None
     else do {
       type \<leftarrow> rd16 p 0;
       if type \<noteq> 0x0001 then Some None
       else do {
         body \<leftarrow> rd16 p 2;
         if body AND 3 \<noteq> 0 \<or> 20 + unat body > length p then Some None else Some (Some (20 + unat body))
       }
     }
   }"

definition stun_check_binding :: "('a, 'h) crypto \<Rightarrow> 'h \<Rightarrow> bytes \<Rightarrow> bytes \<Rightarrow> stun_req option option" where
  "stun_check_binding cr pwd ufrag p = do {
     e \<leftarrow> binding_end p;
     (case e of
        None \<Rightarrow> Some None
      | Some fin \<Rightarrow> do {
          r \<leftarrow> attr_loop cr pwd ufrag p fin 20 \<lparr>user_ok = False, mi_ok = False, use_cand = False\<rparr>;
          (case r of
             None \<Rightarrow> Some None
           | Some s \<Rightarrow>
               if \<not> user_ok s \<or> \<not> mi_ok s then Some None
               else do { t \<leftarrow> rd_run p 8 12; Some (Some \<lparr>txid = t, use_candidate = use_cand s\<rparr>) })
        })
   }"

section \<open>Telling the sessions apart\<close>

function ufrag_loop :: "bytes \<Rightarrow> nat \<Rightarrow> nat \<Rightarrow> nat \<Rightarrow> bytes option option" where
  "ufrag_loop p cap fin off =
     (if off + 4 \<le> fin
      then do {
        len \<leftarrow> rd16 p (off + 2);
        let alen = unat len;
        if off + 4 + padded alen > fin then Some None
        else do {
          type \<leftarrow> rd16 p off;
          if type = 0x0006
          then do {
            v \<leftarrow> rd_run p (off + 4) alen;
            let n = (if 58 \<in> set v then length (takeWhile (\<lambda>b. b \<noteq> 58) v) else 0);
            Some (if n = 0 \<or> n \<ge> cap then None else Some (take n v))
          }
          else ufrag_loop p cap fin (off + (4 + padded alen))
        }
      } else Some None)"
  by pat_completeness auto
termination by (relation "measure (\<lambda>(p, cap, fin, off). fin - off)") auto

declare ufrag_loop.simps [simp del]

definition stun_local_ufrag :: "bytes \<Rightarrow> nat \<Rightarrow> bytes option option" where
  "stun_local_ufrag p cap = do {
     e \<leftarrow> binding_end p;
     (case e of None \<Rightarrow> Some None | Some fin \<Rightarrow> ufrag_loop p cap fin 20)
   }"

section \<open>The response\<close>

text \<open>Address and port in network order, as bytes.\<close>

definition stun_build_success :: "('a, 'h) crypto \<Rightarrow> 'h \<Rightarrow> bytes \<Rightarrow> bytes \<Rightarrow> bytes \<Rightarrow> nat \<Rightarrow> bytes option" where
  "stun_build_success cr pwd tx ip port cap =
     (if cap < 64 then None
      else let p = put16 0x0101 @ put16 44 @ put32 0x2112A442 @ take 12 tx @
                   put16 0x0020 @ put16 8 @ [0, 0x01, port ! 0 XOR 0x21, port ! 1 XOR 0x12,
                     ip ! 0 XOR 0x21, ip ! 1 XOR 0x12, ip ! 2 XOR 0xA4, ip ! 3 XOR 0x42] @
                   put16 0x0008 @ put16 20
           in do {
             m \<leftarrow> signed_part p 32;
             mac \<leftarrow> hmac_sha1 cr pwd m;
             let q = p @ take 20 mac;
             Some (q @ put16 0x8028 @ put16 4 @ put32 (stun_crc32 q XOR 0x5354554E))
           })"

section \<open>No read outside the packet\<close>

lemma padded_ge: "n \<le> padded n"
  by (simp add: padded_def)

lemma binding_end_in:
  "\<exists>e. binding_end p = Some e \<and> (\<forall>fin. e = Some fin \<longrightarrow> 20 \<le> fin \<and> fin \<le> length p)"
proof (cases "length p < 20")
  case False
  then have "rd8 p 0 = Some (p ! 0)" "\<exists>m. rd32 p 4 = Some m" "\<exists>t. rd16 p 0 = Some t" "\<exists>n. rd16 p 2 = Some n"
    by (auto intro!: exI rd8_in rd16_in rd32_in)
  then show ?thesis using False by (auto simp: binding_end_def stun_is_def)
qed (simp add: binding_end_def stun_is_def)

lemma on_attr_in:
  assumes "20 \<le> off" and "off + 4 + padded alen \<le> length p"
  shows "on_attr cr pwd ufrag p off type alen s \<noteq> None"
proof -
  have r: "off + 4 + alen \<le> length p" using assms(2) padded_ge [of alen] by linarith
  have sp: "signed_part p off \<noteq> None" "fingerprint p off \<noteq> None"
    using assms r by (simp_all add: signed_part_def fingerprint_def read_simps)
  have "\<exists>ok. on_username p ufrag (off + 4) alen = Some ok"
  proof (cases "alen > length ufrag")
    case True
    then have "rd_run p (off + 4) (length ufrag) = Some (segment p (off + 4) (length ufrag))"
        "rd8 p (off + 4 + length ufrag) = Some (p ! (off + 4 + length ufrag))"
      using r by (auto intro: rd_run_in rd8_in)
    then have "on_username p ufrag (off + 4) alen =
        Some (segment p (off + 4) (length ufrag) = ufrag \<and> p ! (off + 4 + length ufrag) = 58)"
      using True by (simp add: on_username_def)
    then show ?thesis by blast
  next
    case False
    then have "on_username p ufrag (off + 4) alen = Some False" by (simp add: on_username_def)
    then show ?thesis by blast
  qed
  then show ?thesis using sp r unfolding on_attr_def Let_def by (auto simp: read_simps)
qed

lemma attr_loop_in:
  "20 \<le> off \<Longrightarrow> fin \<le> length p \<Longrightarrow> attr_loop cr pwd ufrag p fin off s \<noteq> None"
proof (induction "fin - off" arbitrary: off s rule: less_induct)
  case less
  show ?case
  proof (cases "off + 4 \<le> fin")
    case True
    obtain t n where rd: "rd16 p off = Some t" "rd16 p (off + 2) = Some n"
      using True less.prems(2) by (simp add: read_simps)
    show ?thesis
    proof (cases "off + 4 + padded (unat n) > fin")
      case False
      then have "on_attr cr pwd ufrag p off t (unat n) s \<noteq> None"
        using less.prems by (intro on_attr_in) simp_all
      then obtain r where r: "on_attr cr pwd ufrag p off t (unat n) s = Some r" by blast
      have "attr_loop cr pwd ufrag p fin (off + (4 + padded (unat n))) s1 \<noteq> None" for s1
        by (rule less.hyps) (use False True less.prems in simp_all)
      then show ?thesis using rd r False True by (subst attr_loop.simps) (simp split: option.split)
    qed (use rd True in \<open>subst attr_loop.simps, simp\<close>)
  qed (subst attr_loop.simps, simp)
qed

lemma ufrag_loop_in:
  "20 \<le> off \<Longrightarrow> fin \<le> length p \<Longrightarrow> ufrag_loop p cap fin off \<noteq> None"
proof (induction "fin - off" arbitrary: off rule: less_induct)
  case less
  show ?case
  proof (cases "off + 4 \<le> fin")
    case True
    obtain t n where rd: "rd16 p off = Some t" "rd16 p (off + 2) = Some n"
      using True less.prems(2) by (simp add: read_simps)
    show ?thesis
    proof (cases "off + 4 + padded (unat n) > fin")
      case False
      then have "off + 4 + unat n \<le> length p" using padded_ge [of "unat n"] less.prems by linarith
      then have v: "rd_run p (off + 4) (unat n) \<noteq> None" by (simp add: read_simps)
      have "ufrag_loop p cap fin (off + (4 + padded (unat n))) \<noteq> None"
        by (rule less.hyps) (use False True less.prems in simp_all)
      then show ?thesis using rd v False True by (subst ufrag_loop.simps) (auto simp: Let_def)
    qed (use rd True in \<open>subst ufrag_loop.simps, simp\<close>)
  qed (subst ufrag_loop.simps, simp)
qed

text \<open>
  C23. Whatever the packet, its length and its attributes' lengths, neither the check of a Binding
  request nor the search for its user name reads a byte outside the packet.
\<close>

theorem stun_reads_inside:
  "stun_check_binding cr pwd ufrag p \<noteq> None \<and> stun_local_ufrag p cap \<noteq> None"
proof -
  obtain e where e: "binding_end p = Some e" "\<And>fin. e = Some fin \<Longrightarrow> 20 \<le> fin \<and> fin \<le> length p"
    using binding_end_in [of p] by blast
  show ?thesis
  proof (cases e)
    case (Some fin)
    then have f: "20 \<le> fin" "fin \<le> length p" using e(2) by simp_all
    have "attr_loop cr pwd ufrag p fin 20 s \<noteq> None" "ufrag_loop p cap fin 20 \<noteq> None" for s
      using attr_loop_in [of 20] ufrag_loop_in [of 20] f by auto
    moreover from this(1) obtain r where
      r: "attr_loop cr pwd ufrag p fin 20 \<lparr>user_ok = False, mi_ok = False, use_cand = False\<rparr> = Some r" by blast
    moreover have "rd_run p 8 12 = Some (segment p 8 12)" using f by (intro rd_run_in) simp
    ultimately show ?thesis using e(1) Some
      by (cases r) (simp_all add: stun_check_binding_def stun_local_ufrag_def)
  qed (use e(1) in \<open>simp add: stun_check_binding_def stun_local_ufrag_def\<close>)
qed

section \<open>What is accepted is signed\<close>

text \<open>An attribute on the wire: type, value and padding.\<close>

definition encode :: "u16 \<times> bytes \<times> bytes \<Rightarrow> bytes" where
  "encode = (\<lambda>(t, v, pad). put16 t @ put16 (of_nat (length v)) @ v @ pad)"

text \<open>What an attribute before MESSAGE-INTEGRITY says.\<close>

definition absorb :: "bytes \<Rightarrow> u16 \<times> bytes \<times> bytes \<Rightarrow> stun_st \<Rightarrow> stun_st" where
  "absorb ufrag = (\<lambda>(t, v, pad) s.
     if t = 0x0006 then s\<lparr>user_ok := (take (length ufrag + 1) v = ufrag @ [58])\<rparr>
     else if t = 0x0025 then s\<lparr>use_cand := True\<rparr> else s)"

lemma put16_be16: "put16 (be16 a b) = [a, b]"
proof -
  have "ucast (drop_bit 8 (be16 a b)) = a" by (rule bit_word_eqI) (auto simp: be16_def bit_simps dest: bit_imp_le_length)
  moreover have "ucast (be16 a b) = b" by (rule bit_word_eqI) (auto simp: be16_def bit_simps)
  ultimately show ?thesis by (simp add: put16_def)
qed

lemma rd16_put16: "rd16 p i = Some v \<Longrightarrow> i + 2 \<le> length p \<and> put16 v = segment p i 2"
proof -
  assume r: "rd16 p i = Some v"
  then have l: "i + 2 \<le> length p" by (auto simp: rd16_def rd8_def bind_eq_Some_conv split: if_splits)
  then have "put16 v = [p ! i, p ! (i + 1)]" using r put16_be16 by (simp add: read_simps) blast
  also have "\<dots> = segment p i 2"
    using l by (simp add: segment_def numeral_2_eq_2 take_Suc_conv_app_nth)
  finally show ?thesis using l by blast
qed

lemma segment_encode:
  assumes "rd16 p off = Some t" and "rd16 p (off + 2) = Some n" and "off + 4 + padded (unat n) \<le> length p"
  shows "segment p off (4 + padded (unat n)) =
     encode (t, segment p (off + 4) (unat n), segment p (off + 4 + unat n) (padded (unat n) - unat n))"
proof -
  let ?n = "unat n"
  have "off + 4 + ?n \<le> length p" using assms(3) padded_ge [of ?n] by linarith
  then have l: "of_nat (length (segment p (off + 4) ?n)) = n" by (simp add: buf_simps)
  have "segment p off 2 @ segment p (off + 2) 2 @ segment p (off + 4) ?n @ segment p (off + 4 + ?n) (padded ?n - ?n) =
      segment p off (4 + (?n + (padded ?n - ?n)))"
  proof -
    have "segment p off 2 @ segment p (off + 2) 2 = segment p off 4"
      using segment_append_segment [of p off 2 2] by simp
    moreover have "segment p (off + 4) ?n @ segment p (off + 4 + ?n) (padded ?n - ?n) = segment p (off + 4) (?n + (padded ?n - ?n))"
      by (rule segment_append_segment)
    ultimately show ?thesis by (metis append.assoc segment_append_segment)
  qed
  then show ?thesis
    using rd16_put16 [OF assms(1)] rd16_put16 [OF assms(2)] padded_ge [of ?n] l
    by (simp add: encode_def)
qed

lemma username_value:
  assumes "on_username p ufrag v alen = Some ok" and "v + alen \<le> length p"
  shows "ok \<longleftrightarrow> take (length ufrag + 1) (segment p v alen) = ufrag @ [58]"
proof (cases "alen > length ufrag")
  case True
  then have "rd_run p v (length ufrag) = Some (segment p v (length ufrag))" "rd8 p (v + length ufrag) = Some (p ! (v + length ufrag))"
    using assms(2) by (auto intro: rd_run_in rd8_in)
  then have "ok \<longleftrightarrow> segment p v (length ufrag) = ufrag \<and> p ! (v + length ufrag) = 58"
    using assms(1) True by (auto simp: on_username_def split: if_splits)
  moreover have "take (length ufrag + 1) (segment p v alen) = segment p v (length ufrag) @ [p ! (v + length ufrag)]"
    using True assms(2) by (simp add: segment_def take_Suc_conv_app_nth min_def)
  ultimately show ?thesis by simp
next
  case False
  then have "\<not> ok" using assms(1) by (simp add: on_username_def)
  moreover have "length (take (length ufrag + 1) (segment p v alen)) < length (ufrag @ [58])"
    using False assms(2) by (simp add: buf_simps)
  ultimately show ?thesis by force
qed

text \<open>One attribute: an ordinary one is absorbed, MESSAGE-INTEGRITY is verified, after it nothing changes.\<close>

definition verified :: "('a, 'h) crypto \<Rightarrow> 'h \<Rightarrow> bytes \<Rightarrow> nat \<Rightarrow> bool" where
  "verified cr pwd p mi \<longleftrightarrow> mi + 24 \<le> length p \<and>
     (\<exists>m mac. signed_part p mi = Some m \<and> hmac_sha1 cr pwd m = Some mac \<and> take 20 mac = segment p (mi + 4) 20)"

definition mac_long :: "('a, 'h) crypto \<Rightarrow> bool" where
  "mac_long cr \<longleftrightarrow> (\<forall>h m t. hmac_sha1 cr h m = Some t \<longrightarrow> length t = 20)"

lemma on_attr_cases:
  assumes "on_attr cr pwd ufrag p off t alen s = Some (Some s1)" and "off + 4 + alen \<le> length p" and "mac_long cr"
  shows "(mi_ok s \<and> s1 = s) \<or>
    (\<not> mi_ok s \<and> s1 = absorb ufrag (t, segment p (off + 4) alen, pad) s) \<or>
    (\<not> mi_ok s \<and> verified cr pwd p off \<and> s1 = s\<lparr>mi_ok := True\<rparr>)"
proof (cases "mi_ok s")
  case True
  then show ?thesis using assms(1)
    by (auto simp: on_attr_def Let_def bind_eq_Some_conv split: if_splits)
next
  case False
  consider (user) "t = 0x0006" | (tag) "t = 0x0008" | (other) "t \<noteq> 0x0006" "t \<noteq> 0x0008" by blast
  then show ?thesis
  proof cases
    case user
    then obtain ok where ok: "on_username p ufrag (off + 4) alen = Some ok" "s1 = s\<lparr>user_ok := ok\<rparr>"
      using assms(1) False by (auto simp: on_attr_def Let_def bind_eq_Some_conv)
    then show ?thesis using user False username_value [OF ok(1) assms(2)] by (simp add: absorb_def)
  next
    case tag
    then obtain m mac where m: "alen = 20" "signed_part p off = Some m" "hmac_sha1 cr pwd m = Some mac"
        "rd_run p (off + 4) 20 = Some (segment p (off + 4) 20)" "same mac (segment p (off + 4) 20) 20" "s1 = s\<lparr>mi_ok := True\<rparr>"
      using assms(1,2) False rd_run_in [of "off + 4" 20 p]
      by (auto simp: on_attr_def Let_def bind_eq_Some_conv split: if_splits option.splits)
    have "length mac = 20" using m(3) assms(3) by (auto simp: mac_long_def)
    moreover have "length (segment p (off + 4) 20) = 20" using assms(2) m(1) by (simp add: buf_simps)
    ultimately have "take 20 mac = segment p (off + 4) 20" using m(5) by (simp add: same_iff)
    then have "verified cr pwd p off" using m assms(2) unfolding verified_def by auto
    then show ?thesis using m(6) False by simp
  next
    case other
    then show ?thesis using assms(1) False
      by (auto simp: on_attr_def absorb_def Let_def bind_eq_Some_conv split: if_splits)
  qed
qed

text \<open>The attributes up to a verified MESSAGE-INTEGRITY, and the state they leave.\<close>

definition signed_attrs ::
    "('a, 'h) crypto \<Rightarrow> 'h \<Rightarrow> bytes \<Rightarrow> bytes \<Rightarrow> nat \<Rightarrow> stun_st \<Rightarrow> stun_st \<Rightarrow> bool" where
  "signed_attrs cr pwd ufrag p off s s' \<longleftrightarrow>
     (\<exists>mi l. off \<le> mi \<and> segment p off (mi - off) = concat (map encode l) \<and> verified cr pwd p mi \<and>
        s' = (fold (absorb ufrag) l s)\<lparr>mi_ok := True\<rparr>)"

lemma absorb_mi [simp]: "mi_ok (absorb ufrag x s) = mi_ok s"
  by (auto simp: absorb_def split: prod.splits)

lemma attr_loop_signed:
  "attr_loop cr pwd ufrag p fin off s = Some (Some s') \<Longrightarrow> fin \<le> length p \<Longrightarrow> mac_long cr \<Longrightarrow>
   (mi_ok s \<longrightarrow> s' = s) \<and> (\<not> mi_ok s \<and> mi_ok s' \<longrightarrow> signed_attrs cr pwd ufrag p off s s')"
proof (induction "fin - off" arbitrary: off s rule: less_induct)
  case less
  show ?case
  proof (cases "off + 4 \<le> fin")
    case True
    obtain t n where rd: "rd16 p off = Some t" "rd16 p (off + 2) = Some n"
      using True less.prems(2) by (simp add: read_simps)
    let ?n = "unat n"
    let ?next = "off + (4 + padded ?n)"
    have unf: "attr_loop cr pwd ufrag p fin off s =
       (if off + 4 + padded ?n > fin then Some None
        else Option.bind (on_attr cr pwd ufrag p off t ?n s)
          (\<lambda>r. case r of None \<Rightarrow> Some None | Some s1 \<Rightarrow> attr_loop cr pwd ufrag p fin ?next s1))"
      using True rd by (subst attr_loop.simps) (simp add: Let_def)
    obtain s1 where s1: "off + 4 + padded ?n \<le> fin" "on_attr cr pwd ufrag p off t ?n s = Some (Some s1)"
        "attr_loop cr pwd ufrag p fin ?next s1 = Some (Some s')"
      using less.prems(1) [unfolded unf] by (auto simp: bind_eq_Some_conv split: if_splits option.splits)
    have in_p: "off + 4 + ?n \<le> length p" "off + 4 + padded ?n \<le> length p"
      using s1(1) less.prems(2) padded_ge [of ?n] by linarith+
    define pad where "pad = segment p (off + 4 + ?n) (padded ?n - ?n)"
    define x where "x = (t, segment p (off + 4) ?n, pad)"
    have enc: "segment p off (4 + padded ?n) = encode x"
      using segment_encode [OF rd in_p(2)] by (simp add: x_def pad_def)
    have IH: "(mi_ok s1 \<longrightarrow> s' = s1) \<and> (\<not> mi_ok s1 \<and> mi_ok s' \<longrightarrow> signed_attrs cr pwd ufrag p ?next s1 s')"
      by (rule less.hyps) (use s1 less.prems True in simp_all)
    from on_attr_cases [OF s1(2) in_p(1) less.prems(3), of pad]
    consider (after) "mi_ok s" "s1 = s" | (before) "\<not> mi_ok s" "s1 = absorb ufrag x s" |
      (at) "\<not> mi_ok s" "verified cr pwd p off" "s1 = s\<lparr>mi_ok := True\<rparr>" unfolding x_def by blast
    then show ?thesis
    proof cases
      case before
      then have "signed_attrs cr pwd ufrag p ?next s1 s'" if "mi_ok s'" using IH that by simp
      moreover have "signed_attrs cr pwd ufrag p off s s'" if next_ok: "signed_attrs cr pwd ufrag p ?next s1 s'"
      proof -
        obtain mi l where l: "?next \<le> mi" "segment p ?next (mi - ?next) = concat (map encode l)" "verified cr pwd p mi"
            "s' = (fold (absorb ufrag) l s1)\<lparr>mi_ok := True\<rparr>" using next_ok unfolding signed_attrs_def by blast
        have "segment p off (mi - off) = segment p off (4 + padded ?n) @ segment p ?next (mi - ?next)"
          using l(1) segment_append_segment [of p off "4 + padded ?n" "mi - ?next"] by simp
        then have "segment p off (mi - off) = concat (map encode (x # l))" using enc l(2) by simp
        moreover have "s' = (fold (absorb ufrag) (x # l) s)\<lparr>mi_ok := True\<rparr>" using l(4) before by simp
        ultimately show ?thesis unfolding signed_attrs_def using l(1,3) by (intro exI [of _ mi] exI [of _ "x # l"]) simp
      qed
      ultimately show ?thesis using before by blast
    next
      case at
      have "signed_attrs cr pwd ufrag p off s s1"
        unfolding signed_attrs_def using at by (intro exI [of _ off] exI [of _ "[]"]) simp
      then show ?thesis using IH at by simp
    qed (use IH in simp)
  next
    case False
    then have "s' = s" using less.prems(1) by (subst (asm) attr_loop.simps) simp
    then show ?thesis by simp
  qed
qed

lemma absorb_fold:
  "use_cand (fold (absorb ufrag) l s) \<longleftrightarrow> use_cand s \<or> (\<exists>v pad. (0x0025, v, pad) \<in> set l)"
  "user_ok (fold (absorb ufrag) l s) \<Longrightarrow> user_ok s \<or> (\<exists>v pad. (0x0006, v, pad) \<in> set l \<and> take (length ufrag + 1) v = ufrag @ [58])"
proof (induction l arbitrary: s)
  case (Cons x l)
  obtain t v pad where x: "x = (t, v, pad)" by (cases x)
  {
    case 1
    show ?case using Cons.IH(1) [of "absorb ufrag x s"] by (auto simp: x absorb_def)
  next
    case 2
    then have "user_ok (absorb ufrag x s) \<or> (\<exists>v pad. (0x0006, v, pad) \<in> set l \<and> take (length ufrag + 1) v = ufrag @ [58])"
      using Cons.IH(2) by simp
    then show ?case by (auto simp: x absorb_def split: if_splits)
  }
qed simp_all

text \<open>
  C24. Only what the browser signed counts: an accepted request carries a MESSAGE-INTEGRITY whose tag
  is our HMAC of the header, the transaction id in it, and of the attributes before it, one of those is
  a user name that starts with our own fragment and a colon, and the pair is nominated exactly when
  USE-CANDIDATE is among those signed attributes - never because of anything that follows.
\<close>

theorem stun_accepts_signed:
  assumes "stun_check_binding cr pwd ufrag p = Some (Some req)" and "mac_long cr"
  shows "\<exists>mi l mac. 20 \<le> mi \<and> mi + 24 \<le> length p \<and>
    hmac_sha1 cr pwd (header_for (take 20 p) (of_nat (mi + 4)) @ concat (map encode l)) = Some mac \<and>
    mac = segment p (mi + 4) 20 \<and> segment p 20 (mi - 20) = concat (map encode l) \<and>
    txid req = drop 8 (header_for (take 20 p) (of_nat (mi + 4))) \<and>
    (use_candidate req \<longleftrightarrow> (\<exists>v pad. (0x0025, v, pad) \<in> set l)) \<and>
    (\<exists>v pad. (0x0006, v, pad) \<in> set l \<and> take (length ufrag + 1) v = ufrag @ [58])"
proof -
  let ?s = "\<lparr>user_ok = False, mi_ok = False, use_cand = False\<rparr>"
  obtain fin s where f: "binding_end p = Some (Some fin)" "attr_loop cr pwd ufrag p fin 20 ?s = Some (Some s)"
      "user_ok s" "mi_ok s" "rd_run p 8 12 = Some (txid req)" "use_candidate req = use_cand s"
    using assms(1) by (auto simp: stun_check_binding_def bind_eq_Some_conv split: option.splits if_splits)
  have "fin \<le> length p" using binding_end_in [of p] f(1) by auto
  then have "signed_attrs cr pwd ufrag p 20 ?s s" using attr_loop_signed [OF f(2)] f(4) assms(2) by simp
  then obtain mi l where l: "20 \<le> mi" "segment p 20 (mi - 20) = concat (map encode l)" "verified cr pwd p mi"
      "s = (fold (absorb ufrag) l ?s)\<lparr>mi_ok := True\<rparr>" unfolding signed_attrs_def by blast
  obtain m mac where m: "mi + 24 \<le> length p" "signed_part p mi = Some m" "hmac_sha1 cr pwd m = Some mac" "take 20 mac = segment p (mi + 4) 20"
    using l(3) by (auto simp: verified_def)
  have len: "mi - 20 + 24 = mi + 4" using l(1) by simp
  have "m = header_for (take 20 p) (of_nat (mi + 4)) @ concat (map encode l)"
    using m(2) l(1,2) m(1) unfolding signed_part_def len by (auto simp: bind_eq_Some_conv rd_run_def segment_def split: if_splits)
  moreover have "mac = segment p (mi + 4) 20" using m(3,4) assms(2) by (auto simp: mac_long_def)
  moreover have "txid req = drop 8 (header_for (take 20 p) (of_nat (mi + 4)))"
    using f(5) m(1) l(1) by (auto simp: header_for_def rd_run_def segment_def drop_take split: if_splits)
  moreover have "use_candidate req \<longleftrightarrow> (\<exists>v pad. (0x0025, v, pad) \<in> set l)" using absorb_fold(1) [of ufrag l ?s] l(4) f(6) by simp
  moreover have "\<exists>v pad. (0x0006, v, pad) \<in> set l \<and> take (length ufrag + 1) v = ufrag @ [58]"
    using absorb_fold(2) [of ufrag l ?s] l(4) f(3) by simp
  ultimately show ?thesis using l(1,2) m(1,3) by blast
qed

definition test_request :: bytes where
  "test_request = [0, 1, 0, 32, 0x21, 0x12, 0xA4, 0x42, 0, 0, 0, 0, 0, 0, 0, 0, 0, 0, 0, 0,
     0, 6, 0, 3, 117, 58, 120, 0, 0, 8, 0, 20,
     28, 28, 28, 28, 28, 28, 28, 28, 28, 28, 106, 106, 106, 106, 106, 106, 106, 106, 106, 106]"

lemma test_request_ok:
  "stun_check_binding test_crypto [] [117] test_request =
     Some (Some \<lparr>txid = [0, 0, 0, 0, 0, 0, 0, 0, 0, 0, 0, 0], use_candidate = False\<rparr>)"
  unfolding test_request_def by code_simp

lemma test_mac_long: "mac_long test_crypto"
  by (auto simp: mac_long_def test_crypto_def)

theorem stun_accepts_signed_witness:
  "\<exists>mi l v pad. segment test_request 20 (mi - 20) = concat (map encode l) \<and> mi + 24 \<le> length test_request \<and>
     (0x0006, v, pad) \<in> set l \<and> take (length [117 :: u8] + 1) v = [117] @ [58]"
  using stun_accepts_signed [OF test_request_ok test_mac_long] by blast

section \<open>The response\<close>

text \<open>What a client reads from a response: the address the request came from, xored with the cookie.\<close>

definition mapped_address :: "bytes \<Rightarrow> bytes" where
  "mapped_address p = map2 (XOR) (segment p 26 6) (take 2 (put32 0x2112A442) @ put32 0x2112A442)"

lemma crc_more_append: "crc_more c (a @ b) = crc_more (crc_more c a) b"
  by (simp add: crc_more_def)

text \<open>
  The answer reaches its client: with room for it and a working HMAC the response has 64 bytes, is a
  Binding success with the transaction id of the request, its mapped address gives back the address and port the
  request came from, its MESSAGE-INTEGRITY is the HMAC of what precedes it under the rule the check uses,
  and its FINGERPRINT is the one the check computes.
\<close>

theorem stun_response_read:
  assumes "stun_build_success cr pwd tx ip port cap = Some r"
    and "length tx = 12" and "length ip = 4" and "length port = 2" and "mac_long cr"
  shows "length r = 64 \<and> stun_is r = Some True \<and> rd16 r 0 = Some 0x0101 \<and> rd16 r 2 = Some 44 \<and> segment r 8 12 = tx \<and>
    segment r 20 6 = put16 0x0020 @ put16 8 @ [0, 1] \<and> mapped_address r = port @ ip \<and>
    segment r 32 4 = put16 0x0008 @ put16 20 \<and>
    (\<exists>m. signed_part r 32 = Some m \<and> hmac_sha1 cr pwd m = Some (segment r 36 20)) \<and>
    segment r 56 4 = put16 0x8028 @ put16 4 \<and> fingerprint r 56 = rd32 r 60"
proof -
  obtain i0 i1 i2 i3 where ip: "ip = [i0, i1, i2, i3]"
    using assms(3) by (auto simp: numeral_eq_Suc length_Suc_conv)
  obtain q0 q1 where port: "port = [q0, q1]" using assms(4) by (auto simp: numeral_eq_Suc length_Suc_conv)
  define p where "p = [0x01, 0x01, 0, 44, 0x21, 0x12, 0xA4, 0x42] @ tx @ [0, 0x20, 0, 8, 0, 0x01, q0 XOR 0x21, q1 XOR 0x12,
     i0 XOR 0x21, i1 XOR 0x12, i2 XOR 0xA4, i3 XOR 0x42, 0, 8, 0, 20]"
  have lp: "length p = 36" using assms(2) by (simp add: p_def)
  have lits: "put16 0x0101 = [1, 1]" "put16 44 = [0, 44]" "put32 0x2112A442 = [0x21, 0x12, 0xA4, 0x42]" "put16 0x0020 = [0, 0x20]"
      "put16 8 = [0, 8]" "put16 0x0008 = [0, 8]" "put16 20 = [0, 20]" "put16 0x8028 = [0x80, 0x28]" "put16 4 = [0, 4]" "put16 36 = [0, 36]"
    by (simp_all add: put16_def put32_def)
  define m where "m = header_for (take 20 p) 36 @ segment p 20 12"
  have "signed_part p 32 = Some m" using lp by (simp add: signed_part_def rd_run_def m_def segment_def)
  then obtain mac where mac: "hmac_sha1 cr pwd m = Some mac" and
      r: "r = p @ take 20 mac @ [0x80, 0x28, 0, 4] @ put32 (stun_crc32 (p @ take 20 mac) XOR 0x5354554E)"
    using assms(1,2) unfolding stun_build_success_def
    by (auto simp: ip port lits p_def bind_eq_Some_conv Let_def split: if_splits)
  have lm: "length mac = 20" using mac assms(5) by (auto simp: mac_long_def)
  define f where "f = stun_crc32 (p @ mac) XOR 0x5354554E"
  have r: "r = p @ mac @ [0x80, 0x28, 0, 4] @ put32 f" using r lm by (simp add: f_def)
  have lr: "length r = 64" using lp lm by (simp add: r)
  have sp: "signed_part r 32 = Some m" using lp lr by (simp add: signed_part_def rd_run_def m_def segment_def r)
  have "fingerprint r 56 = Some (NOT (crc_more (crc_more 0xFFFFFFFF (take 20 p)) (drop 20 p @ mac)) XOR 0x5354554E)"
  proof -
    have "header_for (segment r 0 20) 44 = take 20 p"
      using assms(2) by (simp add: header_for_def r p_def segment_def lits)
    moreover have "segment r 20 36 = drop 20 p @ mac" using lp lm by (simp add: segment_def r)
    ultimately show ?thesis using lr by (simp add: fingerprint_def rd_run_def)
  qed
  also have "\<dots> = Some f"
  proof -
    have "crc_more (crc_more 0xFFFFFFFF (take 20 p)) (drop 20 p @ mac) = crc_more 0xFFFFFFFF (p @ mac)"
      unfolding crc_more_append [symmetric] append_assoc [symmetric] append_take_drop_id ..
    then show ?thesis by (simp add: f_def stun_crc32_def)
  qed
  finally have fp: "fingerprint r 56 = Some f" .
  have "rd32 r 60 = Some f" using rd32_at [of "p @ mac @ [0x80, 0x28, 0, 4]" 60 f "[]"] lp lm by (simp add: r)
  moreover have "stun_is r = Some True" "rd16 r 0 = Some 0x0101" "rd16 r 2 = Some 44"
    using lr by (simp_all add: stun_is_def rd16_def rd32_def rd8_def be16_def be32_def r p_def)
  moreover have "segment r 8 12 = tx" "segment r 20 6 = [0, 0x20, 0, 8, 0, 1]" "segment r 32 4 = [0, 8, 0, 20]"
      "segment r 56 4 = [0x80, 0x28, 0, 4]" "segment r 36 20 = mac"
    using assms(2) lm lp by (simp_all add: segment_def r p_def)
  moreover have "mapped_address r = port @ ip"
    using assms(2) by (simp add: mapped_address_def segment_def r p_def lits port ip xor.assoc)
  ultimately show ?thesis using lr sp mac fp by (simp add: lits)
qed

theorem stun_response_read_witness:
  "\<exists>r. stun_build_success test_crypto [] (replicate 12 7) [192, 168, 1, 2] [4, 210] 64 = Some r \<and>
     mapped_address r = [4, 210, 192, 168, 1, 2]"
proof -
  obtain r where r: "stun_build_success test_crypto [] (replicate 12 7) [192, 168, 1, 2] [4, 210] 64 = Some r"
    by (simp add: stun_build_success_def signed_part_def rd_run_def test_crypto_def Let_def)
  from stun_response_read [OF r _ _ _ test_mac_long] r show ?thesis by simp
qed

end
