(* ===== verification/Webrtc.thy ===== *)
theory Webrtc
  imports Rtp_H264 Srtp
begin

text \<open>
  The sender's path of components/kvm_webrtc: the packets of \<open>rtp_h264_send\<close>, frame after frame, are
  what \<open>srtp_protect\<close> is given in the packetizer's callback. Here is what the two components owe each other: every
  packet is one the protection accepts, and their sequence numbers count up by one.
\<close>

text \<open>Frames one after the other, each over a link that may refuse packets as it likes.\<close>

fun send_frames :: "rtp_h264 \<Rightarrow> (refuse \<times> bytes \<times> u32) list \<Rightarrow> bytes list" where
  "send_frames st [] = []"
| "send_frames st ((refuse, au, ts) # fs) =
     (case rtp_h264_send refuse st au ts of (res, st1, out) \<Rightarrow> out @ send_frames st1 fs)"

lemma header_accepted:
  assumes "rtp_header st m ts = (h, st')"
  shows "rtp_accepts (h @ r) (length (h @ r) + 10)" and "rtp_seq (h @ r) = rt_seq st" and "rt_seq st' = rt_seq st + 1"
proof -
  define b where "b = [if rt_playout_ext st \<noteq> 0 then 0x90 else 0x80, (if m then 0x80 else 0) OR (rt_pt st AND 0x7f)] @
      put16 (rt_seq st) @ put32 ts @ put32 (rt_ssrc st)"
  have b: "length b = 12" by (simp add: b_def)
  have h: "h = b @ (if rt_playout_ext st = 0 then [] else [0xbe, 0xde, 0, 1, push_bit 4 (rt_playout_ext st) OR 2, 0, 0, 0])"
    and s: "st' = st\<lparr>rt_seq := rt_seq st + 1\<rparr>"
    using assms by (auto simp: rtp_header_def b_def Let_def split: if_splits)
  show "rt_seq st' = rt_seq st + 1" by (simp add: s)
  show "rtp_seq (h @ r) = rt_seq st" by (simp add: h b_def rtp_seq_def put16_def be16_put16)
  show "rtp_accepts (h @ r) (length (h @ r) + 10)"
  proof (cases "rt_playout_ext st = 0")
    case True
    then show ?thesis by (simp add: h b_def rtp_accepts_def rtp_header_len_def)
  next
    case False
    have "be16 0 1 = 1" by (simp add: be16_def)
    moreover have "(b @ [0xbe, 0xde, 0, 1, push_bit 4 (rt_playout_ext st) OR 2, 0, 0, 0] @ r) ! 14 = 0"
        "(b @ [0xbe, 0xde, 0, 1, push_bit 4 (rt_playout_ext st) OR 2, 0, 0, 0] @ r) ! 15 = 1" using b by (simp_all add: nth_append)
    moreover have "(b @ x) ! 0 = 0x90" for x using False by (simp add: b_def)
    ultimately show ?thesis using False b by (simp add: h rtp_accepts_def rtp_header_len_def)
  qed
qed

text \<open>So many packets are out and the next number is the state's.\<close>

definition counted :: "u16 \<Rightarrow> rtp_h264 \<Rightarrow> bytes list \<Rightarrow> bool" where
  "counted seq st out \<longleftrightarrow> consecutive seq out \<and> rt_seq st = seq + of_nat (length out)"

lemma consecutive_append:
  "consecutive seq (ps @ qs) \<longleftrightarrow> consecutive seq ps \<and> consecutive (seq + of_nat (length ps)) qs"
  by (induction seq ps rule: consecutive.induct) (auto simp: algebra_simps)

lemma counted_packet:
  "counted seq st out \<Longrightarrow> rtp_header st m ts = (h, st') \<Longrightarrow> counted seq st' (out @ [h @ r])"
  using header_accepted(1,2) [of st m ts h st' r] header_accepted(3) [of st m ts h st'] by (simp add: counted_def consecutive_append algebra_simps)

lemma fu_loop_counted:
  "counted seq st out \<Longrightarrow> fu_loop refuse nh fin ts rest first st out = (ok, st', out') \<Longrightarrow> counted seq st' out'"
proof (induction "length rest" arbitrary: rest first st out rule: less_induct)
  case less
  show ?case
  proof (cases "rest = [] \<or> rt_max_payload st < 3")
    case True
    then show ?thesis using less.prems by (subst (asm) fu_loop.simps) auto
  next
    case False
    define n where "n = (if length rest > rt_max_payload st - 2 then rt_max_payload st - 2 else length rest)"
    obtain h st1 where h: "rtp_header st (fin \<and> n \<ge> length rest) ts = (h, st1)" by fastforce
    define pkt where "pkt = h @ [(nh AND 0xe0) OR 28, (if first then 0x80 else 0) OR (if n \<ge> length rest then 0x40 else 0) OR
        (nh AND 0x1f)] @ take n rest"
    have c: "counted seq st1 (out @ [pkt])" unfolding pkt_def by (rule counted_packet [OF less.prems(1) h])
    have unf: "fu_loop refuse nh fin ts rest first st out = (if refuse out pkt then (False, st1, out @ [pkt])
        else fu_loop refuse nh fin ts (drop n rest) False st1 (out @ [pkt]))"
      using False h by (subst fu_loop.simps) (simp add: Let_def n_def [symmetric] pkt_def)
    have shorter: "length (drop n rest) < length rest" using False by (auto simp: n_def)
    show ?thesis
    proof (cases "refuse out pkt")
      case False
      then have "fu_loop refuse nh fin ts (drop n rest) False st1 (out @ [pkt]) = (ok, st', out')"
        using less.prems(2) unf by simp
      then show ?thesis by (rule less.hyps [OF shorter c])
    qed (use less.prems(2) unf c in simp)
  qed
qed

lemma send_unit_counted:
  "counted seq st out \<Longrightarrow> send_unit refuse ts nal fin st out = (ok, st', out') \<Longrightarrow> counted seq st' out'"
  using fu_loop_counted counted_packet
  by (fastforce simp: send_unit_def Let_def split: if_splits prod.splits)

lemma nal_loop_counted:
  "counted seq st out \<Longrightarrow> nal_loop refuse ts au nal st out = (ok, st', out') \<Longrightarrow> counted seq st' out'"
proof (induction "length au - nal" arbitrary: nal st out rule: less_induct)
  case less
  obtain e sc where e: "next_start au nal = (e, sc)" by fastforce
  obtain ok1 st1 out1 where u: "send_unit refuse ts (unit_at au nal e) (e \<ge> length au) st out = (ok1, st1, out1)"
    by (metis prod_cases3)
  have c: "counted seq st1 out1" by (rule send_unit_counted [OF less.prems(1) u])
  have step: "nal_loop refuse ts au nal st out =
      (if \<not> ok1 then (False, st1, out1) else if e < length au then nal_loop refuse ts au (e + sc) st1 out1 else (True, st1, out1))"
    using e u by (subst nal_loop.simps) (simp add: Let_def)
  have "length au - (e + sc) < length au - nal" if "e < length au"
    using next_start_bounds [OF e] that by auto
  then show ?case using less.hyps c less.prems(2) unfolding step by (auto split: if_splits)
qed

lemma send_counted:
  assumes "rtp_h264_send refuse st au ts = (res, st', pkts)"
  shows "consecutive (rt_seq st) pkts \<and> rt_seq st' = rt_seq st + of_nat (length pkts)"
proof -
  have c: "counted (rt_seq st) st []" by (simp add: counted_def)
  show ?thesis using assms nal_loop_counted [OF c]
    by (auto simp: rtp_h264_send_def counted_def Let_def split: if_splits prod.splits)
qed

lemma send_frames_consecutive: "consecutive (rt_seq st) (send_frames st fs)"
proof (induction st fs rule: send_frames.induct)
  case (2 st refuse au ts fs)
  obtain res st1 pkts where s: "rtp_h264_send refuse st au ts = (res, st1, pkts)" by (metis prod_cases3)
  then show ?case using 2 send_counted [OF s] by (simp add: consecutive_append)
qed simp

text \<open>
  C25. The device never encrypts two of its packets with one keystream: whatever frames it sends over whatever
  link, the packets the packetizer hands to \<open>srtp_protect\<close> (those of frames given up on the way as well) are
  encrypted with pairwise distinct counter blocks, up to \<open>2 ^ 48\<close> of them.
\<close>

theorem stream_keystream_unique:
  assumes "srtp_init cr mk ms = Some c" and "same_length cr"
    and "unat (rt_seq st) + length (send_frames st fs) \<le> 2 ^ 48"
  shows "distinct (rtp_ivs cr c (send_frames st fs))"
  using ivs_from_start [OF assms(1,2) send_frames_consecutive assms(3)] by blast

theorem stream_keystream_unique_witness:
  "\<exists>c. srtp_init test_crypto (replicate 16 1) (replicate 14 2) = Some c \<and>
     distinct (rtp_ivs test_crypto c (send_frames \<lparr>rt_ssrc = 7, rt_seq = 65535, rt_pt = 96, rt_max_payload = 4, rt_playout_ext = 0\<rparr>
       [(\<lambda>out p. False, [0, 0, 1, 0x65, 1, 2, 3, 4, 5], 9)]))"
proof -
  let ?st = "\<lparr>rt_ssrc = 7, rt_seq = 65535, rt_pt = 96, rt_max_payload = 4, rt_playout_ext = 0\<rparr> :: rtp_h264"
  let ?fs = "[(\<lambda>out p. False, [0, 0, 1, 0x65, 1, 2, 3, 4, 5], 9)] :: (refuse \<times> bytes \<times> u32) list"
  obtain c where c: "srtp_init test_crypto (replicate 16 1) (replicate 14 2) = Some c"
    by (simp add: srtp_init_def srtp_kdf_def test_crypto_def)
  have l: "same_length test_crypto" by (auto simp: same_length_def test_crypto_def)
  have n: "length (send_frames ?st ?fs) = 3" by code_simp
  show ?thesis using stream_keystream_unique [OF c l, of ?st ?fs] c n by simp
qed

end
