(* ===== verification/Totp.thy ===== *)
theory Totp
  imports Prelude
begin

text \<open>
  components/kvm_web/totp.c: the six digits of an authenticator app, with SHA-1 and HMAC of their own. The code
  hashes a stream, byte after byte through a block buffer; the theorems compare it with the functions as FIPS 180-4,
  RFC 2104 and RFC 4226 define them, on whole messages. The padding loop of \<open>sha1_final\<close> runs until the
  buffer stands at 56, which nothing in the loop bounds: it is a partial function, and that it ends is
  a theorem.
\<close>

section \<open>SHA-1 as the code computes it\<close>

record sha1 =
  sh_h :: "u32 list"
  sh_len :: u64
  sh_buf :: bytes
  sh_fill :: nat

definition rol :: "u32 \<Rightarrow> nat \<Rightarrow> u32" where
  "rol x n = push_bit n x OR drop_bit (32 - n) x"

definition word_at :: "bytes \<Rightarrow> nat \<Rightarrow> u32" where
  "word_at p i = be32 (p ! (i * 4)) (p ! (i * 4 + 1)) (p ! (i * 4 + 2)) (p ! (i * 4 + 3))"

definition expand :: "u32 list \<Rightarrow> nat \<Rightarrow> u32 list" where
  "expand w i = w @ [rol (w ! (i - 3) XOR w ! (i - 8) XOR w ! (i - 14) XOR w ! (i - 16)) 1]"

definition message_words :: "bytes \<Rightarrow> u32 list" where
  "message_words p = foldl expand (map (word_at p) [0..<16]) [16..<80]"

definition round_fk :: "nat \<Rightarrow> u32 \<Rightarrow> u32 \<Rightarrow> u32 \<Rightarrow> u32 \<times> u32" where
  "round_fk i b c d =
     (if i < 20 then ((b AND c) OR (NOT b AND d), 0x5A827999)
      else if i < 40 then (b XOR c XOR d, 0x6ED9EBA1)
      else if i < 60 then ((b AND c) OR (b AND d) OR (c AND d), 0x8F1BBCDC)
      else (b XOR c XOR d, 0xCA62C1D6))"

type_synonym five = "u32 \<times> u32 \<times> u32 \<times> u32 \<times> u32"

definition sha1_round :: "u32 list \<Rightarrow> five \<Rightarrow> nat \<Rightarrow> five" where
  "sha1_round w = (\<lambda>(a, b, c, d, e) i.
     let (f, k) = round_fk i b c d; t = rol a 5 + f + e + k + w ! i in (t, a, rol b 30, c, d))"

definition sha1_block :: "sha1 \<Rightarrow> bytes \<Rightarrow> sha1" where
  "sha1_block s p =
     (let h = sh_h s;
          (a, b, c, d, e) = foldl (sha1_round (message_words p)) (h ! 0, h ! 1, h ! 2, h ! 3, h ! 4) [0..<80]
      in s\<lparr>sh_h := [h ! 0 + a, h ! 1 + b, h ! 2 + c, h ! 3 + d, h ! 4 + e]\<rparr>)"

definition sha1_init :: sha1 where
  "sha1_init = \<lparr>sh_h = [0x67452301, 0xEFCDAB89, 0x98BADCFE, 0x10325476, 0xC3D2E1F0], sh_len = 0,
     sh_buf = replicate 64 0, sh_fill = 0\<rparr>"

definition sha1_byte :: "sha1 \<Rightarrow> u8 \<Rightarrow> sha1" where
  "sha1_byte s b =
     (let s1 = s\<lparr>sh_buf := (sh_buf s)[sh_fill s := b], sh_fill := sh_fill s + 1\<rparr>
      in if sh_fill s1 = 64 then (sha1_block s1 (sh_buf s1))\<lparr>sh_fill := 0\<rparr> else s1)"

definition sha1_update :: "sha1 \<Rightarrow> bytes \<Rightarrow> sha1" where
  "sha1_update s p = foldl sha1_byte (s\<lparr>sh_len := sh_len s + of_nat (length p)\<rparr>) p"

partial_function (option) pad_loop :: "sha1 \<Rightarrow> sha1 option" where
  "pad_loop s = (if sh_fill s \<noteq> 56 then pad_loop (sha1_update s [0]) else Some s)"

declare pad_loop.simps [code]

definition put64 :: "u64 \<Rightarrow> bytes" where
  "put64 v = map (\<lambda>i. ucast (drop_bit (56 - 8 * i) v)) [0..<8]"

definition sha1_final :: "sha1 \<Rightarrow> bytes option" where
  "sha1_final s =
     (let bits = sh_len s * 8
      in do {
        s1 \<leftarrow> pad_loop (sha1_update s [0x80]);
        Some (concat (map put32 (sh_h (sha1_update s1 (put64 bits)))))
      })"

section \<open>The one-time password\<close>

text \<open>The key in its block of 64 bytes: hashed when it is longer.\<close>

definition hmac_key :: "bytes \<Rightarrow> bytes option" where
  "hmac_key key =
     (if length key > 64
      then do { h \<leftarrow> sha1_final (sha1_update sha1_init key); Some (blit (replicate 64 0) 0 h) }
      else Some (blit (replicate 64 0) 0 key))"

definition totp_hmac_sha1 :: "bytes \<Rightarrow> bytes \<Rightarrow> bytes option" where
  "totp_hmac_sha1 key msg = do {
     k \<leftarrow> hmac_key key;
     inner \<leftarrow> sha1_final (sha1_update (sha1_update sha1_init (map (\<lambda>b. b XOR 0x36) k)) msg);
     sha1_final (sha1_update (sha1_update sha1_init (map (\<lambda>b. b XOR 0x5c) k)) inner)
   }"

definition totp_code :: "bytes \<Rightarrow> u64 \<Rightarrow> nat \<Rightarrow> u32 option" where
  "totp_code secret counter digits = do {
     mac \<leftarrow> totp_hmac_sha1 secret (put64 counter);
     let off = unat (mac ! 19 AND 0x0f);
     let bin = be32 (mac ! off AND 0x7f) (mac ! (off + 1)) (mac ! (off + 2)) (mac ! (off + 3));
     let m = foldl (\<lambda>m i. m * 10) 1 [0..<digits];
     Some (bin mod m)
   }"

text \<open>One of the three candidate steps; the result is the step the code is taken for, if any yet.\<close>

definition totp_try :: "bytes \<Rightarrow> u64 \<Rightarrow> u32 \<Rightarrow> u64 \<Rightarrow> int \<Rightarrow> u64 option \<Rightarrow> u64 option option" where
  "totp_try secret now code last_used d used = do {
     let step = now + of_int d;
     c \<leftarrow> totp_code secret step 6;
     Some (if c = code \<and> step > last_used \<and> used = None then Some step else used)
   }"

definition totp_check :: "bytes \<Rightarrow> u64 \<Rightarrow> u32 \<Rightarrow> u64 \<Rightarrow> u64 option option" where
  "totp_check secret unix_time code last_used =
     (let now = unix_time div 30
      in do {
        u \<leftarrow> totp_try secret now code last_used (-1) None;
        u \<leftarrow> totp_try secret now code last_used 0 u;
        totp_try secret now code last_used 1 u
      })"

section \<open>Base32\<close>

definition abc :: string where
  "abc = ''ABCDEFGHIJKLMNOPQRSTUVWXYZ234567''"

record b32 =
  b_out :: string
  b_acc :: u32
  b_bits :: nat

function b32_drain :: "nat \<Rightarrow> b32 \<Rightarrow> b32" where
  "b32_drain cap s =
     (if 5 \<le> b_bits s \<and> length (b_out s) + 1 < cap
      then b32_drain cap (s\<lparr>b_out := b_out s @ [abc ! unat (drop_bit (b_bits s - 5) (b_acc s) AND 31)], b_bits := b_bits s - 5\<rparr>)
      else s)"
  by pat_completeness auto
termination by (relation "measure (\<lambda>(cap, s). b_bits s)") auto

declare b32_drain.simps [simp del]

definition b32_byte :: "nat \<Rightarrow> b32 \<Rightarrow> u8 \<Rightarrow> b32" where
  "b32_byte cap s b = b32_drain cap (s\<lparr>b_acc := push_bit 8 (b_acc s) OR ucast b, b_bits := b_bits s + 8\<rparr>)"

definition totp_base32 :: "bytes \<Rightarrow> nat \<Rightarrow> string" where
  "totp_base32 p cap =
     (let s = foldl (b32_byte cap) \<lparr>b_out = [], b_acc = 0, b_bits = 0\<rparr> p
      in if b_bits s > 0 \<and> length (b_out s) + 1 < cap
         then b_out s @ [abc ! unat (push_bit (5 - b_bits s) (b_acc s) AND 31)]
         else b_out s)"

section \<open>The functions of the standards\<close>

text \<open>FIPS 180-4, section 4.1.1, 4.2.1 and 6.1.2: the functions, the constants, the schedule and a block.\<close>

definition fips_f :: "nat \<Rightarrow> u32 \<Rightarrow> u32 \<Rightarrow> u32 \<Rightarrow> u32" where
  "fips_f t x y z =
     (if t \<le> 19 then (x AND y) XOR (NOT x AND z)
      else if 40 \<le> t \<and> t \<le> 59 then (x AND y) XOR (x AND z) XOR (y AND z)
      else x XOR y XOR z)"

definition fips_K :: "nat \<Rightarrow> u32" where
  "fips_K t = [0x5a827999, 0x6ed9eba1, 0x8f1bbcdc, 0xca62c1d6] ! (t div 20)"

fun fips_W :: "u32 list \<Rightarrow> nat \<Rightarrow> u32" where
  "fips_W M t = (if t < 16 then M ! t
     else word_rotl 1 (fips_W M (t - 3) XOR fips_W M (t - 8) XOR fips_W M (t - 14) XOR fips_W M (t - 16)))"

declare fips_W.simps [simp del]

primrec fips_vars :: "u32 list \<Rightarrow> five \<Rightarrow> nat \<Rightarrow> five" where
  "fips_vars M v 0 = v"
| "fips_vars M v (Suc t) = (case fips_vars M v t of (a, b, c, d, e) \<Rightarrow>
     (word_rotl 5 a + fips_f t b c d + e + fips_K t + fips_W M t, a, word_rotl 30 b, c, d))"

fun fips_block :: "u32 list \<Rightarrow> bytes \<Rightarrow> u32 list" where
  "fips_block H p = (case fips_vars (map (word_at p) [0..<16]) (H ! 0, H ! 1, H ! 2, H ! 3, H ! 4) 80 of
     (a, b, c, d, e) \<Rightarrow> map2 (+) [a, b, c, d, e] H)"

text \<open>Section 5.1.1 and 5.2.1: a message is padded and cut into blocks of 64 bytes.\<close>

definition fips_pad :: "bytes \<Rightarrow> bytes" where
  "fips_pad m = m @ [0x80] @ replicate ((119 - length m mod 64) mod 64) 0 @ put64 (of_nat (8 * length m))"

definition blocks :: "bytes \<Rightarrow> bytes list" where
  "blocks m = map (\<lambda>i. segment m (64 * i) 64) [0..<length m div 64]"

definition fips_sha1 :: "bytes \<Rightarrow> bytes" where
  "fips_sha1 m = concat (map put32 (foldl fips_block
     [0x67452301, 0xefcdab89, 0x98badcfe, 0x10325476, 0xc3d2e1f0] (blocks (fips_pad m))))"

text \<open>RFC 2104 and RFC 4226, section 5.3: dynamic truncation takes the last 31 bits of four bytes of the tag.\<close>

definition hmac_with :: "(bytes \<Rightarrow> bytes) \<Rightarrow> bytes \<Rightarrow> bytes \<Rightarrow> bytes" where
  "hmac_with H K m =
     (let K1 = (if length K > 64 then H K else K);
          B = K1 @ replicate (64 - length K1) 0
      in H (map (\<lambda>b. b XOR 0x5c) B @ H (map (\<lambda>b. b XOR 0x36) B @ m)))"

definition hmac_ref :: "bytes \<Rightarrow> bytes \<Rightarrow> bytes" where
  "hmac_ref = hmac_with fips_sha1"

definition hotp_ref :: "bytes \<Rightarrow> u64 \<Rightarrow> nat \<Rightarrow> nat" where
  "hotp_ref K c digits =
     (let mac = hmac_ref K (put64 c); off = unat (take_bit 4 (mac ! 19))
      in unat (take_bit 31 (be32 (mac ! off) (mac ! (off + 1)) (mac ! (off + 2)) (mac ! (off + 3)))) mod 10 ^ digits)"

section \<open>The stream hashes what the standard hashes\<close>

lemma rol_rotl: "0 < n \<Longrightarrow> n < 32 \<Longrightarrow> rol x n = word_rotl n x"
proof (rule bit_word_eqI)
  fix k
  assume n: "0 < n" "n < 32" and k: "k < LENGTH(32)"
  have off: "\<not> bit x i" if "32 \<le> i" for i using that by (auto dest: bit_imp_le_length)
  have "(k + 32 - n) mod 32 = (if n \<le> k then k - n else 32 + k - n)"
    using n k by (auto simp: mod_if)
  moreover have "bit (word_rotl n x) k \<longleftrightarrow> bit x ((k + 32 - n) mod 32)" using n k by (simp add: bit_word_rotl_iff)
  ultimately show "bit (rol x n) k \<longleftrightarrow> bit (word_rotl n x) k"
    using n k off [of "32 + k - n"] by (auto simp: rol_def bit_simps)
qed

lemma fips_choice: "(b AND c) OR (NOT b AND d) = (b AND c) XOR (NOT b AND (d :: u32))"
  by (rule bit_word_eqI) (auto simp: bit_simps)

lemma fips_majority: "(b AND c) OR (b AND d) OR (c AND d) = (b AND c) XOR (b AND d) XOR (c AND (d :: u32))"
  by (rule bit_word_eqI) (auto simp: bit_simps)

lemma round_fk_fips:
  assumes "t < 80"
  shows "round_fk t b c d = (fips_f t b c d, fips_K t)"
proof -
  consider "t < 20" "t div 20 = 0" | "20 \<le> t" "t < 40" "t div 20 = 1"
    | "40 \<le> t" "t < 60" "t div 20 = 2" | "60 \<le> t" "t div 20 = 3"
    using assms by linarith
  then show ?thesis
    by cases (simp_all add: round_fk_def fips_f_def fips_K_def fips_choice fips_majority)
qed

lemma message_words_fips: "t < 80 \<Longrightarrow> message_words p ! t = fips_W (map (word_at p) [0..<16]) t"
proof -
  let ?M = "map (word_at p) [0..<16]"
  have "length (foldl expand ?M [16..<n]) = n \<and> (\<forall>t < n. foldl expand ?M [16..<n] ! t = fips_W ?M t)"
    if "16 \<le> n" for n using that
  proof (induction n rule: nat_induct_at_least)
    case base
    show ?case by (simp add: fips_W.simps del: upt_Suc upt_rec_numeral)
  next
    case (Suc n)
    let ?w = "foldl expand ?M [16..<n]"
    have w: "foldl expand ?M [16..<Suc n] = expand ?w n" using Suc.hyps by (simp del: upt_rec_numeral)
    have "rol (?w ! (n - 3) XOR ?w ! (n - 8) XOR ?w ! (n - 14) XOR ?w ! (n - 16)) 1 = fips_W ?M n"
      using Suc by (subst fips_W.simps) (simp add: rol_rotl del: upt_rec_numeral)
    then show ?case using Suc.IH unfolding w expand_def by (auto simp: nth_append less_Suc_eq simp del: upt_rec_numeral)
  qed
  then show "t < 80 \<Longrightarrow> message_words p ! t = fips_W ?M t" unfolding message_words_def by (simp del: upt_Suc upt_rec_numeral)
qed

lemma sha1_block_fips:
  assumes "length (sh_h s) = 5"
  shows "sha1_block s p = s\<lparr>sh_h := fips_block (sh_h s) p\<rparr>"
proof -
  obtain h0 h1 h2 h3 h4 where h: "sh_h s = [h0, h1, h2, h3, h4]"
    using assms by (auto simp: eval_nat_numeral length_Suc_conv)
  have "foldl (sha1_round (message_words p)) v [0..<n] = fips_vars (map (word_at p) [0..<16]) v n" if "n \<le> 80" for n v
    using that
  proof (induction n)
    case (Suc n)
    then show ?case
      by (simp add: sha1_round_def round_fk_fips message_words_fips rol_rotl Let_def split: prod.split)
  qed simp
  from this [of 80] show ?thesis
    unfolding sha1_block_def fips_block.simps h by (simp add: add.commute Let_def del: upt_Suc split: prod.split)
qed

text \<open>
  What the state holds of the message so far: the part behind its last full block stands in the buffer, the
  blocks before it have gone through the compression.
\<close>

definition absorbed :: "sha1 \<Rightarrow> bytes \<Rightarrow> bool" where
  "absorbed s m \<longleftrightarrow> length (sh_buf s) = 64 \<and> sh_fill s = length m mod 64 \<and>
     take (sh_fill s) (sh_buf s) = drop (64 * (length m div 64)) m \<and> length (sh_h s) = 5 \<and>
     sh_h s = foldl fips_block (sh_h sha1_init) (blocks m)"

lemma length_fips_block [simp]: "length H = 5 \<Longrightarrow> length (fips_block H p) = 5"
  by (simp split: prod.split)

declare fips_block.simps [simp del]

lemma absorbed_init: "absorbed sha1_init []"
  by (simp add: absorbed_def sha1_init_def blocks_def)

lemma blocks_snoc:
  "blocks (m @ [b]) = (if length m mod 64 = 63 then blocks m @ [drop (64 * (length m div 64)) m @ [b]] else blocks m)"
proof -
  let ?q = "length m div 64"
  have seg: "segment (m @ [b]) (64 * i) 64 = segment m (64 * i) 64" if "i < ?q" for i
  proof -
    have "64 * (i + 1) \<le> 64 * ?q" using that by (intro mult_le_mono2) simp
    moreover have "64 * ?q \<le> length m" by simp
    ultimately have "64 * (i + 1) \<le> length m" by (rule le_trans)
    then have "64 * i + 64 \<le> length m" by simp
    then show ?thesis by (simp add: segment_def)
  qed
  show ?thesis
  proof (cases "length m mod 64 = 63")
    case True
    then have n: "length m = 64 * ?q + 63" by (metis mult_div_mod_eq)
    then have "Suc (length m) = 64 * (?q + 1)" by simp
    then have "Suc (length m) div 64 = Suc ?q" by simp
    moreover have "segment (m @ [b]) (64 * ?q) 64 = drop (64 * ?q) m @ [b]"
      using n by (simp add: segment_def)
    ultimately show ?thesis using True seg by (simp add: blocks_def)
  next
    case False
    then have "Suc (length m) mod 64 \<noteq> 0" by (simp add: mod_Suc)
    then have "Suc (length m) div 64 = ?q" by (simp add: div_Suc)
    then show ?thesis using False seg by (simp add: blocks_def)
  qed
qed

lemma absorbed_byte:
  assumes "absorbed s m"
  shows "absorbed (sha1_byte s b) (m @ [b])" and "sh_len (sha1_byte s b) = sh_len s"
proof -
  let ?f = "length m mod 64" and ?q = "length m div 64"
  have a: "length (sh_buf s) = 64" "sh_fill s = ?f" "take (sh_fill s) (sh_buf s) = drop (64 * ?q) m" "length (sh_h s) = 5"
      "sh_h s = foldl fips_block (sh_h sha1_init) (blocks m)"
    using assms unfolding absorbed_def by blast+
  have f: "?f < 64" by simp
  have buf: "take (?f + 1) ((sh_buf s)[?f := b]) = drop (64 * ?q) m @ [b]"
    using a(1,3) f unfolding a(2) by (simp add: take_Suc_conv_app_nth)
  show "sh_len (sha1_byte s b) = sh_len s"
    by (simp add: sha1_byte_def sha1_block_def Let_def split: prod.split)
  show "absorbed (sha1_byte s b) (m @ [b])"
  proof (cases "?f = 63")
    case True
    then have full: "(sh_buf s)[63 := b] = drop (64 * ?q) m @ [b]" using buf a(1) by simp
    have n: "Suc (length m) mod 64 = 0" using True by (simp add: mod_Suc)
    then have "64 * (Suc (length m) div 64) = Suc (length m)" by (metis add.right_neutral mult_div_mod_eq)
    moreover have "length m - 64 * ?q = 63" using True by (simp add: minus_mult_div_eq_mod)
    ultimately show ?thesis using a True n full
      by (simp add: absorbed_def sha1_byte_def Let_def sha1_block_fips blocks_snoc)
  next
    case False
    then have n: "Suc (length m) mod 64 = ?f + 1" "Suc (length m) div 64 = ?q" by (simp_all add: mod_Suc div_Suc)
    have "64 * ?q \<le> length m" by simp
    then show ?thesis using a False n buf
      by (simp add: absorbed_def sha1_byte_def Let_def blocks_snoc)
  qed
qed

lemma absorbed_len [simp]: "absorbed (s\<lparr>sh_len := l\<rparr>) m = absorbed s m"
  by (cases s) (simp only: absorbed_def sha1.simps sha1.update_convs)

lemma absorbed_update:
  assumes "absorbed s m" and "sh_len s = of_nat (length m)"
  shows "absorbed (sha1_update s p) (m @ p) \<and> sh_len (sha1_update s p) = of_nat (length (m @ p))"
proof -
  have "absorbed s m \<Longrightarrow> absorbed (foldl sha1_byte s p) (m @ p) \<and> sh_len (foldl sha1_byte s p) = sh_len s" for s m
  proof (induction p arbitrary: s m)
    case (Cons b p)
    show ?case using Cons.IH [OF absorbed_byte(1) [OF Cons.prems, of b]] absorbed_byte(2) [OF Cons.prems, of b] by simp
  qed simp
  from this [of "s\<lparr>sh_len := sh_len s + of_nat (length p)\<rparr>" m] show ?thesis using assms by (simp add: sha1_update_def)
qed

lemma zeros_needed: "f < 64 \<Longrightarrow> (120 - f) mod 64 = (if f \<le> 56 then 56 - f else 120 - (f :: nat))"
  by (simp add: le_mod_geq)

lemma zeros_step: "f < 64 \<Longrightarrow> f \<noteq> 56 \<Longrightarrow> (120 - f) mod 64 = Suc ((120 - Suc f mod 64) mod 64)"
proof -
  assume f: "f < 64" "f \<noteq> 56"
  then consider "f = 63" | "f < 56" | "56 < f" "f < 63" by linarith
  then show ?thesis
  proof cases
    case 2
    then have "Suc f mod 64 = Suc f" by simp
    then show ?thesis using 2 zeros_needed [of f] zeros_needed [of "Suc f"] by simp
  next
    case 3
    then have "Suc f mod 64 = Suc f" by simp
    then show ?thesis using 3 zeros_needed [of f] zeros_needed [of "Suc f"] by simp
  qed simp
qed

text \<open>The padding loop ends: it adds zeros until the buffer stands at 56.\<close>

lemma pad_loop_ends:
  assumes "absorbed s m" and "sh_len s = of_nat (length m)"
  shows "\<exists>s1. pad_loop s = Some s1 \<and> absorbed s1 (m @ replicate ((120 - length m mod 64) mod 64) 0)"
  using assms
proof (induction "(120 - length m mod 64) mod 64" arbitrary: s m rule: less_induct)
  case less
  let ?f = "length m mod 64"
  have f: "sh_fill s = ?f" "?f < 64" using less.prems by (simp_all add: absorbed_def)
  show ?case
  proof (cases "?f = 56")
    case True
    then show ?thesis using less.prems f by (subst pad_loop.simps) simp
  next
    case False
    let ?m = "m @ [0]" and ?k = "(120 - ?f) mod 64"
    have k: "?k = Suc ((120 - length ?m mod 64) mod 64)"
      using zeros_step [OF f(2) False] by (simp add: mod_Suc_eq)
    have u: "absorbed (sha1_update s [0]) ?m" "sh_len (sha1_update s [0]) = of_nat (length ?m)"
      using absorbed_update [OF less.prems] by blast+
    have "\<exists>s1. pad_loop (sha1_update s [0]) = Some s1 \<and> absorbed s1 (?m @ replicate ((120 - length ?m mod 64) mod 64) 0)"
      by (rule less.hyps [OF _ u]) (use k in simp)
    then show ?thesis using False f(1) unfolding k by (subst pad_loop.simps) simp
  qed
qed

lemma sha1_final_fips:
  assumes "absorbed s m" and "sh_len s = of_nat (length m)"
  shows "sha1_final s = Some (fips_sha1 m)"
proof -
  let ?m1 = "m @ [0x80]"
  have u: "absorbed (sha1_update s [0x80]) ?m1" "sh_len (sha1_update s [0x80]) = of_nat (length ?m1)"
    using absorbed_update [OF assms] by blast+
  let ?z = "replicate ((120 - length ?m1 mod 64) mod 64) 0 :: bytes"
  obtain s1 where s1: "pad_loop (sha1_update s [0x80]) = Some s1" "absorbed s1 (?m1 @ ?z)"
    using pad_loop_ends [OF u] by blast
  have k: "(120 - length ?m1 mod 64) mod 64 = (119 - length m mod 64) mod 64"
    using mod_Suc [of "length m" 64] by (auto split: if_splits)
  let ?s2 = "sha1_update s1 (put64 (sh_len s * 8))"
  have "absorbed (s1\<lparr>sh_len := of_nat (length (?m1 @ ?z))\<rparr>) (?m1 @ ?z)" using s1(2) by (simp only: absorbed_len)
  then have "absorbed (sha1_update (s1\<lparr>sh_len := of_nat (length (?m1 @ ?z))\<rparr>) (put64 (sh_len s * 8))) ((?m1 @ ?z) @ put64 (sh_len s * 8))"
    by (rule conjunct1 [OF absorbed_update]) simp
  moreover have "sh_h (foldl sha1_byte (s1\<lparr>sh_len := l\<rparr>) p) = sh_h (foldl sha1_byte s1 p)" for l p
  proof -
    have "sha1_byte (t\<lparr>sh_len := l\<rparr>) b = (sha1_byte t b)\<lparr>sh_len := l\<rparr>" for t b l
      by (simp add: sha1_byte_def sha1_block_def Let_def split: prod.split)
    then have "foldl sha1_byte (t\<lparr>sh_len := l\<rparr>) p = (foldl sha1_byte t p)\<lparr>sh_len := l\<rparr>" for t
      by (induction p arbitrary: t) simp_all
    then show ?thesis by simp
  qed
  ultimately have h: "sh_h ?s2 = foldl fips_block (sh_h sha1_init) (blocks ((?m1 @ ?z) @ put64 (sh_len s * 8)))"
    unfolding absorbed_def sha1_update_def by simp
  have "put64 (sh_len s * 8) = put64 (of_nat (8 * length m))" using assms(2) by (simp add: mult.commute)
  then have "(?m1 @ ?z) @ put64 (sh_len s * 8) = fips_pad m" unfolding k fips_pad_def by simp
  then show ?thesis using s1(1) h by (simp add: sha1_final_def fips_sha1_def sha1_init_def Let_def)
qed

lemma sha1_stream:
  "sha1_final (foldl sha1_update sha1_init parts) = Some (fips_sha1 (concat parts))"
proof -
  have "absorbed (foldl sha1_update s parts) (m @ concat parts) \<and> sh_len (foldl sha1_update s parts) = of_nat (length (m @ concat parts))"
    if "absorbed s m" "sh_len s = of_nat (length m)" for s m
    using that
  proof (induction parts arbitrary: s m)
    case (Cons p parts)
    show ?case using Cons.IH [of "sha1_update s p" "m @ p"] absorbed_update [OF Cons.prems, of p] by simp
  qed simp
  from this [OF absorbed_init] show ?thesis using sha1_final_fips by (simp add: sha1_init_def)
qed

lemma length_fips_sha1 [simp]: "length (fips_sha1 m) = 20"
proof -
  have "length H = 5 \<Longrightarrow> length (foldl fips_block H bs) = 5" for H bs
    by (induction bs arbitrary: H) simp_all
  moreover have "length (concat (map put32 H)) = 4 * length H" for H by (induction H) simp_all
  ultimately show ?thesis by (simp add: fips_sha1_def)
qed

lemma totp_hmac_ref: "totp_hmac_sha1 key msg = Some (hmac_ref key msg)"
proof -
  have one: "sha1_final (sha1_update sha1_init p) = Some (fips_sha1 p)" for p
    using sha1_stream [of "[p]"] by simp
  have two: "sha1_final (sha1_update (sha1_update sha1_init p) q) = Some (fips_sha1 (p @ q))" for p q
    using sha1_stream [of "[p, q]"] by simp
  have "hmac_key key = (let K = (if length key > 64 then fips_sha1 key else key) in Some (K @ replicate (64 - length K) 0))"
    by (simp add: hmac_key_def one blit_def Let_def)
  then show ?thesis by (simp add: totp_hmac_sha1_def hmac_ref_def hmac_with_def one two Let_def)
qed

lemma power_of_ten: "foldl (\<lambda>m i. m * 10) 1 [0..<d] = (10 :: u32) ^ d"
  by (induction d) (simp_all add: mult.commute)

lemma drop_sign: "be32 (a AND 0x7f) b c d = take_bit 31 (be32 a b c d)"
proof -
  have a: "a AND 0x7f = take_bit 7 a" by (simp add: take_bit_eq_mask mask_eq_exp_minus_1)
  have top: "take_bit 31 (push_bit 24 (ucast a) :: u32) = push_bit 24 (ucast (take_bit 7 a))"
    by (rule bit_word_eqI) (auto simp: bit_simps)
  have rest: "take_bit 31 (push_bit 16 (ucast b) :: u32) = push_bit 16 (ucast b)"
      "take_bit 31 (push_bit 8 (ucast c) :: u32) = push_bit 8 (ucast c)" "take_bit 31 (ucast d :: u32) = ucast d"
    by (rule bit_word_eqI; auto simp: bit_simps dest: bit_imp_le_length)+
  show ?thesis unfolding be32_def a take_bit_or top rest ..
qed

lemma totp_code_ref:
  assumes "digits \<le> 9"
  shows "\<exists>c. totp_code secret counter digits = Some c \<and> unat c = hotp_ref secret counter digits"
proof -
  have "(10 :: nat) ^ digits \<le> 10 ^ 9" using assms by (intro power_increasing) simp_all
  then have "unat (of_nat (10 ^ digits) :: u32) = 10 ^ digits" by (simp add: unat_of_nat del: of_nat_power)
  then have "unat ((10 :: u32) ^ digits) = 10 ^ digits" by simp
  moreover have "x AND 0x0f = take_bit 4 x" for x :: u8
    by (simp add: take_bit_eq_mask mask_eq_exp_minus_1)
  ultimately show ?thesis
    by (simp add: totp_code_def totp_hmac_ref hotp_ref_def power_of_ten drop_sign unat_mod Let_def)
qed

section \<open>Which code is taken\<close>

text \<open>The code of a step, and the steps a code is tried for, in the order of the loop.\<close>

definition step_code :: "bytes \<Rightarrow> u64 \<Rightarrow> u32" where
  "step_code secret step = of_nat (hotp_ref secret step 6)"

definition window :: "u64 \<Rightarrow> u64 list" where
  "window t = [t div 30 - 1, t div 30, t div 30 + 1]"

lemma totp_code_step: "totp_code secret step 6 = Some (step_code secret step)"
proof -
  obtain c where c: "totp_code secret step 6 = Some c" "unat c = hotp_ref secret step 6"
    using totp_code_ref [of 6 secret step] by auto
  then have "step_code secret step = c" by (simp add: step_code_def flip: c(2))
  then show ?thesis using c(1) by simp
qed

lemma totp_check_find:
  "totp_check secret t code last_used = Some (find (\<lambda>step. step_code secret step = code \<and> step > last_used) (window t))"
  by (simp add: totp_check_def totp_try_def totp_code_step window_def Let_def)

lemma find_in: "find P xs = Some x \<Longrightarrow> P x \<and> x \<in> set xs"
  by (induction xs) (auto split: if_splits)

section \<open>Base32 is read back\<close>

text \<open>The decoder of RFC 4648: digits of 32, the bits beyond the last whole byte dropped.\<close>

definition b32_digit :: "char \<Rightarrow> nat" where
  "b32_digit ch = length (takeWhile (\<lambda>x. x \<noteq> ch) abc)"

definition b32_value :: "string \<Rightarrow> nat" where
  "b32_value s = foldl (\<lambda>v ch. 32 * v + b32_digit ch) 0 s"

definition be_bytes :: "nat \<Rightarrow> nat \<Rightarrow> bytes" where
  "be_bytes n v = map (\<lambda>i. of_nat (v div 256 ^ (n - 1 - i))) [0..<n]"

definition b32_decode :: "string \<Rightarrow> bytes" where
  "b32_decode s = be_bytes (5 * length s div 8) (b32_value s div 2 ^ (5 * length s mod 8))"

definition be_value :: "bytes \<Rightarrow> nat" where
  "be_value p = foldl (\<lambda>v b. 256 * v + unat b) 0 p"

lemma be_value_snoc [simp]: "be_value (p @ [b]) = 256 * be_value p + unat b"
  by (simp add: be_value_def)

lemma b32_value_snoc [simp]: "b32_value (s @ [ch]) = 32 * b32_value s + b32_digit ch"
  by (simp add: b32_value_def)

lemma of_nat_256 [simp]: "256 * w = (0 :: u8)"
proof -
  have "(256 :: u8) = 0" by simp
  then show ?thesis by (simp only: mult_zero_left)
qed

lemma be_bytes_value: "be_bytes (length p) (be_value p) = p"
proof (induction p rule: rev_induct)
  case (snoc b p)
  have "(256 * be_value p + unat b) div 256 ^ (length p - i) = be_value p div 256 ^ (length p - 1 - i)" if "i < length p" for i
  proof -
    have "length p - i = Suc (length p - 1 - i)" using that by simp
    then have "(256 * be_value p + unat b) div 256 ^ (length p - i) = (256 * be_value p + unat b) div 256 div 256 ^ (length p - 1 - i)"
      by (simp add: div_mult2_eq)
    then show ?thesis by simp
  qed
  then have "be_bytes (length (p @ [b])) (be_value (p @ [b])) = be_bytes (length p) (be_value p) @ [b]"
    by (simp add: be_bytes_def of_nat_256)
  then show ?case using snoc.IH by simp
qed (simp add: be_bytes_def)

lemma b32_digit_abc: "d < 32 \<Longrightarrow> b32_digit (abc ! d) = d"
proof -
  have "list_all (\<lambda>d. b32_digit (abc ! d) = d) [0..<32]" by code_simp
  then show "d < 32 \<Longrightarrow> ?thesis" by (simp add: list_all_iff del: upt_rec_numeral)
qed

lemma whole32: "take_bit 32 (unat (x :: u32)) = unat x"
  by (rule take_bit_nat_eq_self) (use unsigned_less [of x] in \<open>simp\<close>)

lemma whole8: "take_bit 32 (unat (x :: u8)) = unat x"
  by (rule take_bit_nat_eq_self) (rule less_trans [OF unat_u8], simp)

lemma and_31: "unat (x AND 31) = unat (x :: u32) mod 32"
proof -
  have "x AND 31 = take_bit 5 x" by (simp add: take_bit_eq_mask mask_eq_exp_minus_1)
  then show ?thesis by (simp only: unsigned_take_bit_eq) (simp add: take_bit_eq_mod)
qed

text \<open>The digits written and the bits left over are the number read so far.\<close>

definition b32_inv :: "bytes \<Rightarrow> b32 \<Rightarrow> bool" where
  "b32_inv p s \<longleftrightarrow> 5 * length (b_out s) + b_bits s = 8 * length p \<and>
     be_value p = b32_value (b_out s) * 2 ^ b_bits s + unat (b_acc s) mod 2 ^ b_bits s"

lemma b32_drain_inv:
  "b32_inv p s \<Longrightarrow> b_bits s \<le> 12 \<Longrightarrow> 8 * length p < 5 * cap \<Longrightarrow> b32_inv p (b32_drain cap s) \<and> b_bits (b32_drain cap s) < 5"
proof (induction cap s rule: b32_drain.induct)
  case (1 cap s)
  show ?case
  proof (cases "5 \<le> b_bits s")
    case True
    have room: "length (b_out s) + 1 < cap" using 1(2,4) True by (simp add: b32_inv_def)
    define k where "k = b_bits s - 5"
    have k: "b_bits s = k + 5" using True by (simp add: k_def)
    let ?d = "unat (drop_bit k (b_acc s) AND 31)"
    let ?s = "s\<lparr>b_out := b_out s @ [abc ! ?d], b_bits := k\<rparr>"
    have d: "?d = (unat (b_acc s) div 2 ^ k) mod 32" by (simp only: and_31 unsigned_drop_bit_eq) (simp add: drop_bit_eq_div whole32)
    have "unat (b_acc s) mod 2 ^ (k + 5) = (unat (b_acc s) div 2 ^ k mod 32) * 2 ^ k + unat (b_acc s) mod 2 ^ k"
      using mod_mult2_eq [of "unat (b_acc s)" "2 ^ k" 32] by (simp add: power_add)
    then have "be_value p = (32 * b32_value (b_out s) + ?d) * 2 ^ k + unat (b_acc s) mod 2 ^ k"
      using 1(2) unfolding b32_inv_def k d by (simp add: power_add algebra_simps)
    moreover have "b32_digit (abc ! ?d) = ?d" by (rule b32_digit_abc) (simp add: d)
    moreover have "5 * length (b_out s) + k + 5 = 8 * length p" using 1(2) k by (simp add: b32_inv_def)
    ultimately have "b32_inv p ?s" by (simp add: b32_inv_def)
    then have "b32_inv p (b32_drain cap ?s) \<and> b_bits (b32_drain cap ?s) < 5"
      using 1(1) [OF conjI [OF True room], folded k_def] 1(3,4) k by simp
    then show ?thesis using True room by (subst (1 2) b32_drain.simps) (simp add: k_def)
  next
    case False
    then show ?thesis using 1(2) by (subst (1 2) b32_drain.simps) simp
  qed
qed

lemma unat_push_byte: "unat (push_bit 8 a OR ucast (b :: u8) :: u32) mod 2 ^ (k + 8) = 256 * (unat a mod 2 ^ k) + unat b" if "k + 8 \<le> 32"
proof -
  have "push_bit 8 a AND ucast b = (0 :: u32)"
    by (rule bit_word_eqI) (auto simp: bit_simps dest: bit_imp_le_length)
  then have "push_bit 8 a OR ucast b = push_bit 8 a + (ucast b :: u32)" by (simp only: disjunctive_add_eq_or)
  then have "unat (push_bit 8 a OR ucast b :: u32) = (256 * unat a + unat b) mod 2 ^ 32"
    by (simp add: unat_word_ariths push_bit_eq_mult unsigned_ucast_eq mod_simps mult.commute whole8)
  moreover have "(2 :: nat) ^ (k + 8) dvd 2 ^ 32" using that by (rule le_imp_power_dvd)
  ultimately have "unat (push_bit 8 a OR ucast b :: u32) mod 2 ^ (k + 8) = (256 * unat a + unat b) mod 2 ^ (k + 8)"
    by (simp add: mod_mod_cancel)
  also have "\<dots> = 256 * (unat a mod 2 ^ k) + unat b"
    using mod_mult2_eq [of "256 * unat a + unat b" 256 "2 ^ k"] by (simp add: power_add mult.commute)
  finally show ?thesis .
qed

lemma b32_byte_inv:
  assumes "b32_inv p s" and "b_bits s < 5" and "8 * length (p @ [b]) < 5 * cap"
  shows "b32_inv (p @ [b]) (b32_byte cap s b) \<and> b_bits (b32_byte cap s b) < 5"
proof -
  have "b32_inv (p @ [b]) (s\<lparr>b_acc := push_bit 8 (b_acc s) OR ucast b, b_bits := b_bits s + 8\<rparr>)"
    using assms(1,2) unat_push_byte [of "b_bits s" "b_acc s" b] by (simp add: b32_inv_def power_add algebra_simps)
  then show ?thesis using b32_drain_inv assms(2,3) by (simp add: b32_byte_def)
qed

lemma b32_bytes_inv:
  "8 * length p < 5 * cap \<Longrightarrow> b32_inv p (foldl (b32_byte cap) \<lparr>b_out = [], b_acc = 0, b_bits = 0\<rparr> p) \<and>
     b_bits (foldl (b32_byte cap) \<lparr>b_out = [], b_acc = 0, b_bits = 0\<rparr> p) < 5"
proof (induction p rule: rev_induct)
  case (snoc b p)
  then show ?case using b32_byte_inv [of p _ b cap] by simp
qed (simp add: b32_inv_def be_value_def b32_value_def)

lemma stream_absorbed:
  "absorbed (foldl sha1_update sha1_init parts) (concat parts) \<and>
   sh_len (foldl sha1_update sha1_init parts) = of_nat (length (concat parts))"
proof (induction parts rule: rev_induct)
  case (snoc p parts)
  then show ?case using absorbed_update [of _ "concat parts" p] by simp
qed (simp add: absorbed_init, simp add: sha1_init_def)

lemma zeros_fill: "(n + (120 - n mod 64) mod 64) mod 64 = (56 :: nat)"
proof -
  have "n mod 64 + (120 - n mod 64) mod 64 = 56 \<or> n mod 64 + (120 - n mod 64) mod 64 = 120"
    using zeros_needed [of "n mod 64"] by auto
  then have "(n mod 64 + (120 - n mod 64) mod 64) mod 64 = 56" by auto
  then show ?thesis by (simp only: mod_add_left_eq)
qed

lemma find_least: "find P xs = Some x \<Longrightarrow> sorted xs \<Longrightarrow> y \<in> set xs \<Longrightarrow> P y \<Longrightarrow> x \<le> y"
  by (induction xs) (auto split: if_splits)

text \<open>The step of a clock at most half a minute off is in the window, which is in order unless the clock stands at its start or end.\<close>

lemma window_steps:
  assumes "30 \<le> t" and "t < 2 ^ 63" and "tu \<le> t + 30" and "t \<le> tu + 30"
  shows "tu div 30 \<in> set (window t)" and "sorted (window t)"
proof -
  define n where "n = unat t"
  define m where "m = unat tu"
  have n: "30 \<le> n" "n < 2 ^ 63" using assms(1,2) by (simp_all add: n_def word_le_nat_alt word_less_nat_alt)
  have p: "unat (t + 30) = n + 30" using n(2) by (simp add: unat_word_ariths n_def)
  then have m: "m \<le> n + 30" using assms(3) by (simp add: word_le_nat_alt m_def)
  then have "unat (tu + 30) = m + 30" using n(2) by (simp add: unat_word_ariths m_def)
  then have m': "n \<le> m + 30" using assms(4) by (simp add: word_le_nat_alt n_def)
  have q: "unat (t div 30) = n div 30" "unat (tu div 30) = m div 30" by (simp_all add: unat_div n_def m_def)
  have "1 \<le> n div 30" "n div 30 < 2 ^ 63" using n by linarith+
  then have s: "unat (t div 30 - 1) = n div 30 - 1" "unat (t div 30 + 1) = n div 30 + 1"
    using q(1) by (simp_all add: unat_sub word_le_nat_alt unat_word_ariths)
  have "m div 30 = n div 30 - 1 \<or> m div 30 = n div 30 \<or> m div 30 = n div 30 + 1" using m m' by linarith
  then show "tu div 30 \<in> set (window t)" by (auto simp: window_def word_unat_eq_iff s q)
  show "sorted (window t)" by (simp add: window_def word_le_nat_alt s q)
qed

lemma b32_fits: "length (b_out s) \<le> cap - 1 \<Longrightarrow> length (b_out (b32_drain cap s)) \<le> cap - 1"
proof (induction cap s rule: b32_drain.induct)
  case (1 cap s)
  show ?case
  proof (cases "5 \<le> b_bits s \<and> length (b_out s) + 1 < cap")
    case True
    then have "Suc (length (b_out s)) \<le> cap - 1" by linarith
    then show ?thesis using 1(1) [OF True] True by (subst b32_drain.simps) simp
  next
    case False
    then show ?thesis using 1(2) by (subst b32_drain.simps) (simp only: if_not_P [OF False] if_False)
  qed
qed

lemma base32_fits: "length (totp_base32 p cap) \<le> cap - 1"
proof -
  have "length (b_out s) \<le> cap - 1 \<Longrightarrow> length (b_out (foldl (b32_byte cap) s p)) \<le> cap - 1" for s
  proof (induction p arbitrary: s)
    case (Cons b p)
    have "length (b_out (b32_byte cap s b)) \<le> cap - 1"
      unfolding b32_byte_def by (rule b32_fits) (use Cons.prems in simp)
    then show ?case using Cons.IH by simp
  qed simp
  from this [of "\<lparr>b_out = [], b_acc = 0, b_bits = 0\<rparr>"] show ?thesis by (auto simp: totp_base32_def Let_def)
qed

lemma base32_decode:
  assumes "(8 * length p + 4) div 5 < cap"
  shows "b32_decode (totp_base32 p cap) = p \<and> length (totp_base32 p cap) = (8 * length p + 4) div 5"
proof -
  define s where "s = foldl (b32_byte cap) \<lparr>b_out = [], b_acc = 0, b_bits = 0\<rparr> p"
  have s: "5 * length (b_out s) + b_bits s = 8 * length p" "b_bits s < 5"
      "be_value p = b32_value (b_out s) * 2 ^ b_bits s + unat (b_acc s) mod 2 ^ b_bits s"
    using b32_bytes_inv [of p cap] assms by (simp_all add: b32_inv_def s_def)
  show ?thesis
  proof (cases "b_bits s = 0")
    case True
    then have "5 * length (b_out s) = 8 * length p" using s(1) by simp
    then show ?thesis using True s(3) be_bytes_value [of p]
      by (simp add: totp_base32_def s_def [symmetric] b32_decode_def Let_def)
  next
    case False
    define k where "k = 5 - b_bits s"
    have k: "b_bits s + k = 5" "0 < k" "k < 5" using s(2) False by (simp_all add: k_def)
    let ?d = "unat (push_bit k (b_acc s) AND 31)"
    have len: "5 * Suc (length (b_out s)) = 8 * length p + k" using s(1) k by simp
    have "8 * length p + 4 = 5 * Suc (length (b_out s)) + (4 - k)" using len k by simp
    then have n: "(8 * length p + 4) div 5 = Suc (length (b_out s))" using k by simp
    have out: "totp_base32 p cap = b_out s @ [abc ! ?d]"
      using assms False n by (simp add: totp_base32_def s_def [symmetric] k_def [symmetric] Let_def)
    have "unat (push_bit k (b_acc s)) mod 2 ^ 5 = unat (b_acc s) * 2 ^ k mod 2 ^ 5"
      by (simp only: unsigned_push_bit_eq) (simp add: take_bit_eq_mod push_bit_eq_mult mod_mod_cancel)
    also have "\<dots> = unat (b_acc s) mod 2 ^ b_bits s * 2 ^ k"
      using mult_mod_left [of "unat (b_acc s)" "2 ^ b_bits s" "2 ^ k"] by (simp add: power_add [symmetric] k(1))
    finally have d: "?d = unat (b_acc s) mod 2 ^ b_bits s * 2 ^ k" by (simp add: and_31)
    have "b32_digit (abc ! ?d) = ?d" by (rule b32_digit_abc) (simp add: and_31)
    moreover have "(32 :: nat) = 2 ^ b_bits s * 2 ^ k" by (simp add: power_add [symmetric] k(1))
    ultimately have "b32_value (b_out s @ [abc ! ?d]) = be_value p * 2 ^ k"
      using d by (simp only: b32_value_snoc s(3)) (simp add: algebra_simps)
    moreover have "(8 * length p + k) div 8 = length p" "(8 * length p + k) mod 8 = k" using k(3) by simp_all
    ultimately show ?thesis using len be_bytes_value [of p] by (simp add: out n b32_decode_def)
  qed
qed

section \<open>Properties\<close>

text \<open>
  C33. The padding loop of \<open>sha1_final\<close> ends: after any number of calls of \<open>sha1_update\<close>, with any
  bytes, it stops with the buffer at 56 and the chaining words those of a message padded with zeros; so the hash is finished, and what it
  gives are the twenty bytes that FIPS 180-4 defines of the bytes put together, however they were split.
\<close>

theorem sha1_padding_ends:
  "(\<exists>s1. pad_loop (foldl sha1_update sha1_init parts) = Some s1 \<and> sh_fill s1 = 56 \<and>
     sh_h s1 = sh_h (foldl sha1_update sha1_init (parts @ [replicate ((120 - length (concat parts) mod 64) mod 64) 0]))) \<and>
   (\<exists>d. sha1_final (foldl sha1_update sha1_init parts) = Some d \<and> length d = 20 \<and> d = fips_sha1 (concat parts))"
proof (rule conjI)
  let ?s = "foldl sha1_update sha1_init parts" and ?z = "replicate ((120 - length (concat parts) mod 64) mod 64) (0 :: u8)"
  have s: "absorbed ?s (concat parts)" "sh_len ?s = of_nat (length (concat parts))" using stream_absorbed [of parts] by blast+
  obtain s1 where s1: "pad_loop ?s = Some s1" "absorbed s1 (concat parts @ ?z)" using pad_loop_ends [OF s] by blast
  have "absorbed (sha1_update ?s ?z) (concat parts @ ?z)" using absorbed_update [OF s] by blast
  then have "sh_h s1 = sh_h (sha1_update ?s ?z)" using s1(2) unfolding absorbed_def by metis
  moreover have "sh_fill s1 = 56"
    using s1(2) zeros_fill [of "length (concat parts)"] unfolding absorbed_def by (metis length_append length_replicate)
  ultimately show "\<exists>s1. pad_loop ?s = Some s1 \<and> sh_fill s1 = 56 \<and> sh_h s1 = sh_h (foldl sha1_update sha1_init (parts @ [?z]))"
    using s1(1) by (simp only: foldl_append foldl.simps) blast
  show "\<exists>d. sha1_final ?s = Some d \<and> length d = 20 \<and> d = fips_sha1 (concat parts)" by (simp add: sha1_stream)
qed

text \<open>
  C32. A code is the one of RFC 4226 over HMAC-SHA1 of FIPS 180-4: the byte-wise hash, its padding, the key's
  block and the truncation compute, for up to nine digits, exactly the value of the standards.
\<close>

theorem totp_code_rfc:
  assumes "digits \<le> 9"
  shows "\<exists>c. totp_code secret counter digits = Some c \<and> unat c = hotp_ref secret counter digits"
  by (rule totp_code_ref [OF assms])

theorem totp_code_rfc_witness: "hotp_ref (replicate 20 0x31) 1 6 < 1000000 \<and> (\<exists>c. totp_code (replicate 20 0x31) 1 6 = Some c)"
  using totp_code_rfc [of 6 "replicate 20 0x31" 1] by (auto simp: hotp_ref_def Let_def)

text \<open>
  A right code lets its user in: whose clock is at most half a minute off, and who types the code of a step
  newer than the last one used, is accepted, for a step not newer than that one and newer than the last.
\<close>

theorem totp_lets_in:
  assumes "30 \<le> t" and "t < 2 ^ 63" and "tu \<le> t + 30" and "t \<le> tu + 30" and "last_used < tu div 30"
  shows "\<exists>used. totp_check secret t (step_code secret (tu div 30)) last_used = Some (Some used) \<and>
    last_used < used \<and> used \<le> tu div 30 \<and> step_code secret used = step_code secret (tu div 30)"
proof -
  have tu: "tu div 30 \<in> set (window t)" and order: "sorted (window t)"
    using window_steps [OF assms(1-4)] by blast+
  obtain used where f: "find (\<lambda>step. step_code secret step = step_code secret (tu div 30) \<and> step > last_used) (window t) = Some used"
    using tu assms(5) by (cases "find (\<lambda>step. step_code secret step = step_code secret (tu div 30) \<and> step > last_used) (window t)")
      (auto simp: find_None_iff)
  then have "used \<le> tu div 30" by (rule find_least [OF _ order tu]) (simp add: assms(5))
  then show ?thesis using f find_in [OF f] by (simp add: totp_check_find)
qed

theorem totp_lets_in_witness:
  "\<exists>used. totp_check (replicate 20 0x31) 1234567890 (step_code (replicate 20 0x31) (1234567915 div 30)) 5 = Some (Some used)"
  using totp_lets_in [of 1234567890 1234567915 5 "replicate 20 0x31"] by fastforce

text \<open>
  The secret shown for the authenticator app is read back by any base32 decoder, and what is written never
  overruns the buffer: with room for the string and its terminator the string is whole, without it, it is cut.
\<close>

theorem base32_roundtrip:
  "length (totp_base32 p cap) \<le> cap - 1 \<and>
   ((8 * length p + 4) div 5 < cap \<longrightarrow> b32_decode (totp_base32 p cap) = p \<and> length (totp_base32 p cap) = (8 * length p + 4) div 5)"
  using base32_fits base32_decode by blast

theorem base32_roundtrip_witness: "b32_decode (totp_base32 [0x66, 0x6f, 0x6f, 0x62, 0x61, 0x72] 64) = [0x66, 0x6f, 0x6f, 0x62, 0x61, 0x72]"
  using base32_roundtrip [of "[0x66, 0x6f, 0x6f, 0x62, 0x61, 0x72]" 64] by simp

end
