(* ===== verification/Two_Factor.thy ===== *)
theory Two_Factor
  imports Totp
begin

text \<open>
  components/kvm_web/auth.c, the second factor of a sign-in: a code of \<open>Totp\<close>, or one of eight recovery codes
  kept as the first halves of their SHA-256. SHA-256 is the platform's, behind a call that may fail: the parameter
  \<open>sha\<close>. What goes to flash besides is not part of the state, its result is not looked at. The outer option
  of the result is the padding loop of SHA-1, which is known to end.
\<close>

section \<open>The code\<close>

type_synonym sha256 = "bytes \<Rightarrow> bytes option"

record two_fa =
  tf_secret :: bytes
  tf_last :: u64
  tf_rcodes :: "bytes list"

definition equal_ct :: "bytes \<Rightarrow> bytes \<Rightarrow> nat \<Rightarrow> bool" where
  "equal_ct a b n \<longleftrightarrow> fold (\<lambda>i d. d OR ((a ! i) XOR (b ! i))) [0..<n] 0 = 0"

definition code_time :: "int \<Rightarrow> int \<Rightarrow> u64" where
  "code_time now browser_time =
     (if now \<ge> 1735689600 then of_int now
      else if browser_time \<ge> 1735689600 \<and> browser_time < 4102444800 then of_int browser_time
      else 0)"

definition rc_upper :: "char \<Rightarrow> char" where
  "rc_upper c = (if 97 \<le> (of_char c :: nat) \<and> (of_char c :: nat) \<le> 122 then char_of (of_char c - 32 :: nat) else c)"

fun rc_loop :: "string \<Rightarrow> string \<Rightarrow> string option" where
  "rc_loop [] out = Some out"
| "rc_loop (c # cs) out =
     (if c = CHR ''-'' \<or> c = CHR '' '' then rc_loop cs out
      else if length out = 8 then None
      else rc_loop cs (out @ [rc_upper c]))"

definition rc_normalize :: "string \<Rightarrow> string option" where
  "rc_normalize s = (case rc_loop s [] of None \<Rightarrow> None | Some out \<Rightarrow> if length out = 8 then Some out else None)"

definition no_hash :: bytes where
  "no_hash = replicate 16 0"

definition rc_find :: "bytes list \<Rightarrow> bytes \<Rightarrow> nat option" where
  "rc_find codes h = foldl (\<lambda>hit i.
     if \<not> equal_ct (codes ! i) no_hash 16 \<and> equal_ct (codes ! i) h 16 \<and> hit = None then Some i else hit) None [0..<8]"

definition second_factor_ok :: "sha256 \<Rightarrow> int \<Rightarrow> int \<Rightarrow> string \<Rightarrow> two_fa \<Rightarrow> (bool \<times> two_fa) option" where
  "second_factor_ok sha now browser_time code s =
     (let digits = length (takeWhile c_isdigit code)
      in if digits = 6 \<and> length code = digits
         then let t = code_time now browser_time
              in if t = 0 then Some (False, s)
                 else do {
                   r \<leftarrow> totp_check (tf_secret s) t (of_int (fst (strtol code))) (tf_last s);
                   Some (case r of None \<Rightarrow> (False, s) | Some used \<Rightarrow> (True, s\<lparr>tf_last := used\<rparr>))
                 }
         else Some (case rc_normalize code of
             None \<Rightarrow> (False, s)
           | Some norm \<Rightarrow> (case sha (map of_char norm) of
               None \<Rightarrow> (False, s)
             | Some h \<Rightarrow> (case rc_find (tf_rcodes s) h of
                 None \<Rightarrow> (False, s)
               | Some i \<Rightarrow> (True, s\<lparr>tf_rcodes := (tf_rcodes s)[i := no_hash]\<rparr>)))))"

text \<open>
  Eight fresh recovery codes from as many random bytes each; the result is the JSON text shown, and the state.
  Whether the flash took them is the parameter \<open>stored\<close>.
\<close>

definition rc_alphabet :: string where
  "rc_alphabet = ''ABCDEFGHJKLMNPQRSTUVWXYZ23456789''"

definition rc_make :: "bytes \<Rightarrow> string" where
  "rc_make rnd = map (\<lambda>b. rc_alphabet ! unat (b AND 31)) rnd"

definition rc_shown :: "string \<Rightarrow> string" where
  "rc_shown c = take 4 c @ ''-'' @ drop 4 c"

definition rcodes_text :: "string list \<Rightarrow> string" where
  "rcodes_text cs =
     ''['' @ concat (map (\<lambda>(i, c). (if i = 0 then [] else '','') @ [CHR 0x22] @ rc_shown c @ [CHR 0x22]) (enumerate 0 cs)) @ '']''"

definition rcodes_make :: "sha256 \<Rightarrow> bool \<Rightarrow> bytes list \<Rightarrow> two_fa \<Rightarrow> (string \<times> two_fa) option" where
  "rcodes_make sha stored rnd s = do {
     let cs = map rc_make rnd;
     hs \<leftarrow> map_opt (\<lambda>c. sha (map of_char c)) cs;
     if stored then Some (rcodes_text cs, s\<lparr>tf_rcodes := map (take 16) hs\<rparr>) else None
   }"

section \<open>Nothing is used twice\<close>

text \<open>What a sign-in uses up: a time step or a recovery code's slot. The operation on the state that both paths come to.\<close>

datatype factor = Step u64 | Slot nat

definition spent :: "two_fa \<Rightarrow> factor \<Rightarrow> bool" where
  "spent s k = (case k of Step n \<Rightarrow> n \<le> tf_last s | Slot i \<Rightarrow> 8 \<le> i \<or> tf_rcodes s ! i = no_hash)"

definition use :: "factor \<Rightarrow> two_fa \<Rightarrow> bool \<times> two_fa" where
  "use k s = (if spent s k then (False, s) else (True, case k of
     Step n \<Rightarrow> s\<lparr>tf_last := n\<rparr> | Slot i \<Rightarrow> s\<lparr>tf_rcodes := (tf_rcodes s)[i := no_hash]\<rparr>))"

definition codes_ok :: "two_fa \<Rightarrow> bool" where
  "codes_ok s \<longleftrightarrow> length (tf_rcodes s) = 8 \<and> list_all (\<lambda>h. length h = 16) (tf_rcodes s)"

lemma use_spec:
  assumes "codes_ok s" and "use k s = (new, s')"
  shows "codes_ok s'" and "new \<Longrightarrow> \<not> spent s k" and "spent s j \<Longrightarrow> spent s' j" and "new \<Longrightarrow> spent s' k"
proof -
  have "codes_ok s' \<and> (new \<longrightarrow> \<not> spent s k) \<and> (spent s j \<longrightarrow> spent s' j) \<and> (new \<longrightarrow> spent s' k)"
  proof (cases "spent s k")
    case True
    then show ?thesis using assms by (simp add: use_def)
  next
    case False
    then have r: "new" "s' = (case k of Step n \<Rightarrow> s\<lparr>tf_last := n\<rparr> | Slot i \<Rightarrow> s\<lparr>tf_rcodes := (tf_rcodes s)[i := no_hash]\<rparr>)"
      using assms(2) by (simp_all add: use_def)
    show ?thesis
    proof (cases k)
      case (Step n)
      then show ?thesis using False r assms(1) by (auto simp: spent_def codes_ok_def split: factor.splits)
    next
      case (Slot i)
      then show ?thesis using False r assms(1)
        by (auto simp: spent_def codes_ok_def nth_list_update list_all_length no_hash_def split: factor.splits)
    qed
  qed
  then show "codes_ok s'" "new \<Longrightarrow> \<not> spent s k" "spent s j \<Longrightarrow> spent s' j" "new \<Longrightarrow> spent s' k" by blast+
qed

interpretation sign_in: accept_once codes_ok use spent
  by unfold_locales (use use_spec in blast)+

lemma equal_ct_iff: "n \<le> length a \<Longrightarrow> n \<le> length b \<Longrightarrow> equal_ct a b n \<longleftrightarrow> take n a = take n b"
  unfolding equal_ct_def by (rule fold_xor_eq)

lemma rc_find_first:
  "foldl (\<lambda>hit i. if P i \<and> Q i \<and> hit = None then Some i else hit) None [0..<n] = find (\<lambda>i. P i \<and> Q i) [0..<n]"
proof (induction n)
  case (Suc n)
  have "find R (xs @ [x]) = (case find R xs of None \<Rightarrow> if R x then Some x else None | Some y \<Rightarrow> Some y)" for R xs and x :: nat
    by (induction xs) auto
  then show ?case using Suc by (auto split: option.split)
qed simp

lemma rc_find_spec: "rc_find codes h = find (\<lambda>i. \<not> equal_ct (codes ! i) no_hash 16 \<and> equal_ct (codes ! i) h 16) [0..<8]"
  unfolding rc_find_def by (rule rc_find_first)

lemma find_SomeD: "find P xs = Some x \<Longrightarrow> P x \<and> x \<in> set xs"
  by (induction xs) (auto split: if_splits)

text \<open>A sign-in is refused and changes nothing, or it uses one factor that was not spent.\<close>

lemma second_factor_use:
  assumes "codes_ok s"
  shows "\<exists>ok s'. second_factor_ok sha now bt code s = Some (ok, s') \<and>
    (if ok then \<exists>k. use k s = (True, s') else s' = s)"
proof (cases "length (takeWhile c_isdigit code) = 6 \<and> length code = 6")
  case True
  let ?t = "code_time now bt"
  show ?thesis
  proof (cases "?t = 0")
    case False
    obtain r where r: "totp_check (tf_secret s) ?t (of_int (fst (strtol code))) (tf_last s) = Some r"
      using totp_check_find by blast
    show ?thesis
    proof (cases r)
      case None
      then have "second_factor_ok sha now bt code s = Some (False, s)" using True False r by (simp add: second_factor_ok_def)
      then show ?thesis by auto
    next
      case (Some used)
      then have "tf_last s < used" using r totp_check_find find_SomeD by fastforce
      then have "use (Step used) s = (True, s\<lparr>tf_last := used\<rparr>)" by (simp add: use_def spent_def)
      then show ?thesis using True False r Some by (auto simp: second_factor_ok_def)
    qed
  next
    case True
    then have "second_factor_ok sha now bt code s = Some (False, s)"
      using \<open>length (takeWhile c_isdigit code) = 6 \<and> length code = 6\<close> by (simp add: second_factor_ok_def)
    then show ?thesis by auto
  qed
next
  case False
  have "\<exists>k. use k s = (True, s\<lparr>tf_rcodes := (tf_rcodes s)[i := no_hash]\<rparr>)" if "rc_find (tf_rcodes s) h = Some i" for h i
  proof -
    have i: "i < 8" "\<not> equal_ct (tf_rcodes s ! i) no_hash 16" using find_SomeD [OF that [unfolded rc_find_spec]] by auto
    moreover have "length (tf_rcodes s ! i) = 16" using assms i(1) by (simp add: codes_ok_def list_all_length)
    ultimately have "\<not> spent s (Slot i)" by (auto simp: spent_def equal_ct_iff no_hash_def)
    then show ?thesis by (auto simp: use_def)
  qed
  then show ?thesis using False by (auto simp: second_factor_ok_def Let_def split: option.split)
qed

text \<open>
  The factors a history of attempts uses up, one for each that succeeds, read off the change of the state: the new last step, or the slots
  that are now empty.
\<close>

definition used_up :: "two_fa \<Rightarrow> two_fa \<Rightarrow> factor" where
  "used_up s s' = (if tf_last s' \<noteq> tf_last s then Step (tf_last s')
     else Slot (hd (filter (\<lambda>i. tf_rcodes s' ! i \<noteq> tf_rcodes s ! i) [0..<8])))"

fun sign_ins :: "sha256 \<Rightarrow> two_fa \<Rightarrow> (int \<times> int \<times> string) list \<Rightarrow> factor list" where
  "sign_ins sha s [] = []"
| "sign_ins sha s ((now, bt, code) # as) =
     (case second_factor_ok sha now bt code s of
        None \<Rightarrow> []
      | Some (ok, s') \<Rightarrow> (if ok then [used_up s s'] else []) @ sign_ins sha s' as)"

lemma used_up_use: "codes_ok s \<Longrightarrow> use k s = (True, s') \<Longrightarrow> used_up s s' = k"
proof (cases k)
  case (Slot i)
  assume s: "codes_ok s" and u: "use k s = (True, s')"
  have i: "i < 8" "tf_rcodes s ! i \<noteq> no_hash" "s' = s\<lparr>tf_rcodes := (tf_rcodes s)[i := no_hash]\<rparr>"
    using u Slot by (auto simp: use_def spent_def split: if_splits)
  have "filter (\<lambda>j. (tf_rcodes s)[i := no_hash] ! j \<noteq> tf_rcodes s ! j) [0..<8] = filter (\<lambda>j. j = i) [0..<8]"
  proof (intro filter_cong refl)
    fix j
    assume "j \<in> set [0..<8]"
    then show "((tf_rcodes s)[i := no_hash] ! j \<noteq> tf_rcodes s ! j) = (j = i)"
      using i(2) s by (cases "j = i") (auto simp: codes_ok_def)
  qed
  also have "\<dots> = [i]" using i(1) by (auto simp: numeral_upt)
  finally show "used_up s s' = k" using Slot by (simp add: used_up_def i(3))
qed (auto simp: use_def spent_def used_up_def split: if_splits)

lemma sign_ins_accepted:
  "codes_ok s \<Longrightarrow> \<exists>ks. sign_ins sha s as = accepted_keys use s ks"
proof (induction as arbitrary: s)
  case Nil
  have "accepted_keys use s [] = []" by simp
  then show ?case by (metis sign_ins.simps(1))
next
  case (Cons a as)
  obtain now bt code where a: "a = (now, bt, code)" by (cases a)
  obtain ok s' where r: "second_factor_ok sha now bt code s = Some (ok, s')" "if ok then \<exists>k. use k s = (True, s') else s' = s"
    using second_factor_use [OF Cons.prems] by blast
  show ?case
  proof (cases ok)
    case True
    then obtain k where k: "use k s = (True, s')" using r(2) by auto
    have "codes_ok s'" by (rule use_spec(1) [OF Cons.prems k])
    then obtain ks where "sign_ins sha s' as = accepted_keys use s' ks" using Cons.IH by blast
    then have "sign_ins sha s (a # as) = accepted_keys use s (k # ks)"
      using True r(1) k used_up_use [OF Cons.prems k] by (simp add: a)
    then show ?thesis by blast
  next
    case False
    then show ?thesis using Cons r by (simp add: a)
  qed
qed

section \<open>A recovery code works as it is shown\<close>

text \<open>What of a typed text counts: not its hyphens and blanks, and not the case of its letters.\<close>

definition typed_code :: "string \<Rightarrow> string" where
  "typed_code s = map rc_upper (filter (\<lambda>c. c \<noteq> CHR ''-'' \<and> c \<noteq> CHR '' '') s)"

lemma rc_loop_typed: "length (out @ typed_code s) \<le> 8 \<Longrightarrow> rc_loop s out = Some (out @ typed_code s)"
proof (induction s arbitrary: out)
  case (Cons c s)
  show ?case
  proof (cases "c = CHR ''-'' \<or> c = CHR '' ''")
    case True
    then show ?thesis using Cons by (auto simp: typed_code_def)
  next
    case False
    then have "typed_code (c # s) = rc_upper c # typed_code s" by (simp add: typed_code_def)
    then show ?thesis using Cons.prems Cons.IH [of "out @ [rc_upper c]"] False by simp
  qed
qed (simp add: typed_code_def)

lemma rc_normalize_typed: "length (typed_code s) = 8 \<Longrightarrow> rc_normalize s = Some (typed_code s)"
  by (simp add: rc_normalize_def rc_loop_typed)

lemma rc_make_chars: "c \<in> set (rc_make r) \<Longrightarrow> c \<noteq> CHR ''-'' \<and> c \<noteq> CHR '' '' \<and> rc_upper c = c"
proof -
  assume "c \<in> set (rc_make r)"
  then obtain b :: u8 where c: "c = rc_alphabet ! unat (b AND 31)" by (auto simp: rc_make_def)
  have "b AND 31 = take_bit 5 b" by (simp add: take_bit_eq_mask mask_eq_exp_minus_1)
  then have "unat (b AND 31) = unat b mod 32" by (simp only: unsigned_take_bit_eq) (simp add: take_bit_eq_mod)
  then have n: "unat (b AND 31) < 32" by simp
  have "list_all (\<lambda>n. rc_alphabet ! n \<noteq> CHR ''-'' \<and> rc_alphabet ! n \<noteq> CHR '' '' \<and> rc_upper (rc_alphabet ! n) = rc_alphabet ! n) [0..<32]"
    by code_simp
  from list_all_upt [OF this _ n] show ?thesis using c by simp
qed

lemma rc_shown_typed: "typed_code (rc_shown (rc_make r)) = rc_make r"
proof -
  have "typed_code s = s" if "set s \<subseteq> set (rc_make r)" for s
    using that rc_make_chars [of _ r] by (induction s) (auto simp: typed_code_def)
  moreover have "typed_code (a @ ''-'' @ b) = typed_code a @ typed_code b" for a b by (simp add: typed_code_def)
  moreover have "set (take 4 (rc_make r)) \<subseteq> set (rc_make r)" "set (drop 4 (rc_make r)) \<subseteq> set (rc_make r)"
    by (rule set_take_subset, rule set_drop_subset)
  ultimately show ?thesis by (simp add: rc_shown_def)
qed

lemma map_opt_nth: "map_opt f xs = Some ys \<Longrightarrow> i < length xs \<Longrightarrow> f (xs ! i) = Some (ys ! i)"
  by (induction xs arbitrary: ys i) (auto simp: nth_Cons' split: option.splits)

section \<open>Properties\<close>

text \<open>
  C31. No second factor works twice: in any history of sign-ins, at whatever times and with whatever codes,
  the time steps and recovery codes used up are pairwise different, and none was used up before.
\<close>

theorem two_factor_once:
  assumes "codes_ok s"
  shows "distinct (sign_ins sha s as) \<and> \<not> list_ex (spent s) (sign_ins sha s as)"
proof -
  obtain ks where "sign_ins sha s as = accepted_keys use s ks" using sign_ins_accepted [OF assms] by blast
  then show ?thesis using sign_in.accepted_new [OF assms] by (auto simp: list_ex_iff)
qed

text \<open>
  A fresh recovery code works as it is shown, and however it is typed: with or without its hyphen, with blanks,
  in either case, it signs in, whatever the clock says.
\<close>

theorem recovery_code_works:
  assumes "rcodes_make sha True rnd s = Some (shown, s1)" and "length rnd = 8" and "i < 8" and "length (rnd ! i) = 8"
    and "\<And>c h. sha c = Some h \<Longrightarrow> length h = 32 \<and> take 16 h \<noteq> no_hash"
    and "typed_code typed = rc_make (rnd ! i)"
  shows "\<exists>s2. second_factor_ok sha now bt typed s1 = Some (True, s2)"
proof -
  obtain hs where hs: "map_opt (\<lambda>c. sha (map of_char c)) (map rc_make rnd) = Some hs" "s1 = s\<lparr>tf_rcodes := map (take 16) hs\<rparr>"
    using assms(1) by (auto simp: rcodes_make_def Let_def split: Option.bind_splits)
  have len: "length hs = 8" using map_opt_length [OF hs(1)] assms(2) by simp
  have h: "sha (map of_char (rc_make (rnd ! j))) = Some (hs ! j)" if "j < 8" for j
    using map_opt_nth [OF hs(1), of j] that assms(2) by simp
  have n: "rc_normalize typed = Some (rc_make (rnd ! i))"
    using rc_normalize_typed [of typed] assms(4,6) by (simp add: rc_make_def)
  have "length (typed_code typed) \<le> length typed" by (simp add: typed_code_def)
  then have "length typed \<noteq> 6" using assms(4,6) by (simp add: rc_make_def)
  moreover have "rc_find (map (take 16) hs) (hs ! i) \<noteq> None"
  proof -
    have "length (hs ! i) = 32" "take 16 (hs ! i) \<noteq> no_hash" using assms(5) [OF h [OF assms(3)]] by blast+
    then have "\<not> equal_ct (map (take 16) hs ! i) no_hash 16 \<and> equal_ct (map (take 16) hs ! i) (hs ! i) 16"
      using len assms(3) by (simp add: equal_ct_iff no_hash_def)
    then show ?thesis using assms(3) unfolding rc_find_spec find_None_iff by fastforce
  qed
  ultimately show ?thesis using n h [OF assms(3)] hs(2) by (auto simp: second_factor_ok_def Let_def)
qed

text \<open>A digest to evaluate the model on.\<close>

definition test_sha :: sha256 where
  "test_sha m = Some (replicate 31 (of_nat (length m) + sum_list m OR 1) @ [7])"

theorem two_factor_once_witness:
  "distinct (sign_ins test_sha \<lparr>tf_secret = [1], tf_last = 5, tf_rcodes = replicate 8 no_hash\<rparr> [(0, 0, ''ABCD-EFGH''), (0, 0, ''ABCD-EFGH'')])"
  by (rule conjunct1 [OF two_factor_once]) (simp add: codes_ok_def no_hash_def list_all_iff)

theorem recovery_code_works_witness:
  "\<exists>shown s1 s2. rcodes_make test_sha True (replicate 8 [0, 1, 2, 3, 4, 5, 6, 7]) \<lparr>tf_secret = [1], tf_last = 5, tf_rcodes = replicate 8 no_hash\<rparr> = Some (shown, s1) \<and>
     second_factor_ok test_sha 0 0 ''abcd efgh'' s1 = Some (True, s2)"
proof -
  let ?s = "\<lparr>tf_secret = [1], tf_last = 5, tf_rcodes = replicate 8 no_hash\<rparr>" and ?rnd = "replicate 8 [0, 1, 2, 3, 4, 5, 6, 7]"
  have "map_opt (\<lambda>c. test_sha (map of_char c)) (map rc_make ?rnd) \<noteq> None"
    by (rule map_opt_total) (simp add: test_sha_def)
  then obtain shown s1 where m: "rcodes_make test_sha True ?rnd ?s = Some (shown, s1)" by (auto simp: rcodes_make_def Let_def)
  have one: "length h = 32 \<and> take 16 h \<noteq> no_hash" if "test_sha c = Some h" for c h
  proof -
    define b where "b = of_nat (length c) + sum_list c"
    have h: "h = replicate 31 (b OR 1) @ [7]" using that unfolding test_sha_def b_def by (rule option.inject [THEN iffD1, symmetric])
    have "bit (b OR 1) 0" by (simp add: bit_simps)
    then have "b OR 1 \<noteq> 0" by (metis bit_0_eq bot_apply bot_bool_def)
    then show ?thesis by (simp add: h no_hash_def)
  qed
  have "typed_code ''abcd efgh'' = rc_make (?rnd ! 0)" by code_simp
  from recovery_code_works [OF m _ _ _ one this] show ?thesis using m by fastforce
qed

end
