(* ===== verification/Sessions.thy ===== *)
theory Sessions
  imports Two_Factor
begin

text \<open>
  components/kvm_web/auth.c, the sign-ins: the table of eight sessions, each the SHA-256 of the token its browser
  holds, with what that sign-in may do; and the table of WebSockets that were opened under one. Times are
  microseconds since the start, which do not wrap. The theorems compare the table with the plain notion of
  a sign-in: a map from tokens to rights and an expiry.
\<close>

section \<open>The session table\<close>

record session =
  s_hash :: bytes
  s_expires :: int
  s_used :: int
  s_must :: bool
  s_view :: bool

type_synonym table = "session list"

definition no_session :: session where
  "no_session = \<lparr>s_hash = replicate 32 0, s_expires = 0, s_used = 0, s_must = False, s_view = False\<rparr>"

definition session_ttl :: int where
  "session_ttl = 12 * 60 * 60 * 1000000"

definition sha_of :: "sha256 \<Rightarrow> string \<Rightarrow> bytes option" where
  "sha_of sha token = sha (map of_char token)"

text \<open>Sixteen random bytes in hexadecimal.\<close>

definition hex_digit :: "nat \<Rightarrow> char" where
  "hex_digit n = ''0123456789abcdef'' ! n"

definition token_text :: "bytes \<Rightarrow> string" where
  "token_text raw = concat (map (\<lambda>b. [hex_digit (unat (drop_bit 4 b)), hex_digit (unat (b AND 15))]) raw)"

text \<open>
  The slot for a new session: one that is free or has expired, else the one that has been idle longest. Should the
  hash fail, the slot gets what the stack held, \<open>junk\<close>.
\<close>

definition free_slot :: "int \<Rightarrow> table \<Rightarrow> nat option" where
  "free_slot now t = find (\<lambda>i. s_expires (t ! i) < now) [0..<8]"

definition quietest :: "table \<Rightarrow> nat" where
  "quietest t = fst (foldl (\<lambda>(slot, q) i. if s_used (t ! i) < q then (i, s_used (t ! i)) else (slot, q)) (0, s_used (t ! 0)) [1..<8])"

definition session_create :: "sha256 \<Rightarrow> int \<Rightarrow> bytes \<Rightarrow> bool \<Rightarrow> bool \<Rightarrow> string \<Rightarrow> table \<Rightarrow> table" where
  "session_create sha now junk must view token t =
     (let h = (case sha_of sha token of Some h \<Rightarrow> h | None \<Rightarrow> junk);
          slot = (case free_slot now t of Some i \<Rightarrow> i | None \<Rightarrow> quietest t)
      in t[slot := \<lparr>s_hash = h, s_expires = now + session_ttl, s_used = now, s_must = must, s_view = view\<rparr>])"

function find_loop :: "int \<Rightarrow> bytes \<Rightarrow> nat \<Rightarrow> table \<Rightarrow> nat option \<times> table" where
  "find_loop now h i t =
     (if i < 8 then
        if s_expires (t ! i) = 0 then find_loop now h (i + 1) t
        else if s_expires (t ! i) < now then find_loop now h (i + 1) (t[i := no_session])
        else if equal_ct (s_hash (t ! i)) h 32
        then (Some i, t[i := (t ! i)\<lparr>s_used := now, s_expires := now + session_ttl\<rparr>])
        else find_loop now h (i + 1) t
      else (None, t))"
  by pat_completeness auto
termination by (relation "measure (\<lambda>(now, h, i, t). 8 - i)") auto

declare find_loop.simps [simp del]

definition session_find :: "sha256 \<Rightarrow> int \<Rightarrow> string \<Rightarrow> table \<Rightarrow> nat option \<times> table" where
  "session_find sha now token t =
     (if length token \<noteq> 32 then (None, t)
      else case sha_of sha token of None \<Rightarrow> (None, t) | Some h \<Rightarrow> find_loop now h 0 t)"

text \<open>Signing out, and a new password, which signs everyone out.\<close>

definition session_drop :: "sha256 \<Rightarrow> int \<Rightarrow> string \<Rightarrow> table \<Rightarrow> table" where
  "session_drop sha now token t =
     (case session_find sha now token t of (Some i, t1) \<Rightarrow> t1[i := no_session] | (None, t1) \<Rightarrow> t1)"

definition sessions_empty :: table where
  "sessions_empty = replicate 8 no_session"

text \<open>By its hash, as a WebSocket is remembered.\<close>

definition session_alive :: "int \<Rightarrow> bytes \<Rightarrow> table \<Rightarrow> bool" where
  "session_alive now h t =
     (if h = replicate 32 0 then False
      else find (\<lambda>i. s_expires (t ! i) > now \<and> equal_ct (s_hash (t ! i)) h 32) [0..<8] \<noteq> None)"

definition session_view_only :: "int \<Rightarrow> bytes \<Rightarrow> table \<Rightarrow> bool" where
  "session_view_only now h t =
     (case find (\<lambda>i. s_expires (t ! i) > now \<and> equal_ct (s_hash (t ! i)) h 32) [0..<8] of
        None \<Rightarrow> False | Some i \<Rightarrow> s_view (t ! i))"

section \<open>In flash\<close>

type_synonym saved = "bytes \<times> u8"

definition sessions_save :: "int \<Rightarrow> table \<Rightarrow> saved list" where
  "sessions_save now t =
     map (\<lambda>s. (s_hash s, (if s_must s then 1 else 0) OR (if s_view s then 2 else 0))) (filter (\<lambda>s. s_expires s > now) t)"

definition sessions_load :: "int \<Rightarrow> saved list \<Rightarrow> table \<Rightarrow> table" where
  "sessions_load now blob t =
     foldl (\<lambda>t i. t[i := \<lparr>s_hash = fst (blob ! i), s_expires = now + session_ttl, s_used = 0,
       s_must = bit (snd (blob ! i)) 0, s_view = bit (snd (blob ! i)) 1\<rparr>]) t [0..<min (length blob) 8]"

section \<open>The WebSockets\<close>

text \<open>The descriptors that were let in, -1 for a free place, and the session each was opened under.\<close>

record sockets =
  ws_authed :: "int list"
  ws_session :: "bytes list"

definition no_sockets :: sockets where
  "no_sockets = \<lparr>ws_authed = replicate 8 (-1), ws_session = replicate 8 (replicate 32 0)\<rparr>"

definition mark_socket :: "int \<Rightarrow> bytes \<Rightarrow> sockets \<Rightarrow> sockets" where
  "mark_socket fd session w =
     (if fd < 0 then w
      else case find (\<lambda>i. ws_authed w ! i = fd) [0..<8] of
          Some i \<Rightarrow> w\<lparr>ws_authed := (ws_authed w)[i := fd], ws_session := (ws_session w)[i := session]\<rparr>
        | None \<Rightarrow> (case find (\<lambda>i. ws_authed w ! i < 0) [0..<8] of
            Some i \<Rightarrow> w\<lparr>ws_authed := (ws_authed w)[i := fd], ws_session := (ws_session w)[i := session]\<rparr>
          | None \<Rightarrow> w))"

definition socket_session :: "int \<Rightarrow> sockets \<Rightarrow> bytes option" where
  "socket_session fd w =
     (if fd < 0 then None else map_option (\<lambda>i. ws_session w ! i) (find (\<lambda>i. ws_authed w ! i = fd) [0..<8]))"

definition forget_socket :: "int \<Rightarrow> sockets \<Rightarrow> sockets" where
  "forget_socket fd w = (if fd < 0 then w else w\<lparr>ws_authed := map (\<lambda>f. if f = fd then -1 else f) (ws_authed w)\<rparr>)"

definition socket_ok :: "bool \<Rightarrow> int \<Rightarrow> sockets \<Rightarrow> bool" where
  "socket_ok required fd w \<longleftrightarrow> \<not> required \<or> (0 \<le> fd \<and> find (\<lambda>i. ws_authed w ! i = fd) [0..<8] \<noteq> None)"

definition socket_view_only :: "bool \<Rightarrow> int \<Rightarrow> int \<Rightarrow> sockets \<Rightarrow> table \<Rightarrow> bool" where
  "socket_view_only required now fd w t \<longleftrightarrow> required \<and>
     (case socket_session fd w of None \<Rightarrow> False | Some h \<Rightarrow> session_view_only now h t)"

text \<open>A new password closes everything: the sessions and the sockets opened under them.\<close>

definition session_clear_all :: "table \<times> sockets \<Rightarrow> table \<times> sockets" where
  "session_clear_all = (\<lambda>(t, w). (sessions_empty, w\<lparr>ws_authed := replicate 8 (-1)\<rparr>))"

section \<open>What a sign-in is\<close>

text \<open>
  Histories of the table, and the notion it implements: a token has rights until its expiry, which every use
  moves; signing out takes them away, a new password takes all.
\<close>

datatype op = Sign_in bool bool string | Ask string | Sign_out string | New_password

type_synonym grants = "string \<Rightarrow> (bool \<times> bool \<times> int) option"

definition op_step :: "sha256 \<Rightarrow> bytes \<Rightarrow> int \<times> op \<Rightarrow> table \<Rightarrow> table" where
  "op_step sha junk = (\<lambda>(now, p) t. case p of
     Sign_in must view tk \<Rightarrow> session_create sha now junk must view tk t
   | Ask tk \<Rightarrow> snd (session_find sha now tk t)
   | Sign_out tk \<Rightarrow> session_drop sha now tk t
   | New_password \<Rightarrow> sessions_empty)"

definition grant_step :: "int \<times> op \<Rightarrow> grants \<Rightarrow> grants" where
  "grant_step = (\<lambda>(now, p) A. case p of
     Sign_in must view tk \<Rightarrow> A(tk \<mapsto> (must, view, now + session_ttl))
   | Ask tk \<Rightarrow> (case A tk of None \<Rightarrow> A
       | Some (must, view, e) \<Rightarrow> if e < now then A else A(tk \<mapsto> (must, view, now + session_ttl)))
   | Sign_out tk \<Rightarrow> A(tk := None)
   | New_password \<Rightarrow> Map.empty)"

definition table_after :: "sha256 \<Rightarrow> bytes \<Rightarrow> (int \<times> op) list \<Rightarrow> table" where
  "table_after sha junk h = fold (op_step sha junk) h sessions_empty"

definition granted :: "(int \<times> op) list \<Rightarrow> grants" where
  "granted h = fold grant_step h Map.empty"

text \<open>The tokens given out, and all that occur; what is expected of the hash on them.\<close>

fun given :: "(int \<times> op) list \<Rightarrow> string list" where
  "given [] = []"
| "given ((now, p) # h) = (case p of Sign_in must view tk \<Rightarrow> tk # given h | _ \<Rightarrow> given h)"

fun named :: "(int \<times> op) list \<Rightarrow> string list" where
  "named [] = []"
| "named ((now, p) # h) = (case p of Sign_in must view tk \<Rightarrow> tk # named h | Ask tk \<Rightarrow> tk # named h
     | Sign_out tk \<Rightarrow> tk # named h | New_password \<Rightarrow> named h)"

definition hash_tells_apart :: "sha256 \<Rightarrow> string set \<Rightarrow> bool" where
  "hash_tells_apart sha T \<longleftrightarrow> (\<forall>tk \<in> T. \<exists>h. sha_of sha tk = Some h \<and> length h = 32) \<and> inj_on (sha_of sha) T"

section \<open>The table implements it\<close>

abbreviation live :: "table \<Rightarrow> nat \<Rightarrow> bool" where
  "live t i \<equiv> i < 8 \<and> s_expires (t ! i) \<noteq> 0"

definition stands_for :: "sha256 \<Rightarrow> string set \<Rightarrow> table \<Rightarrow> grants \<Rightarrow> bool" where
  "stands_for sha T t A \<longleftrightarrow> length t = 8 \<and>
     (\<forall>i. live t i \<longrightarrow> (\<exists>tk \<in> T. sha_of sha tk = Some (s_hash (t ! i)) \<and> length tk = 32 \<and>
        A tk = Some (s_must (t ! i), s_view (t ! i), s_expires (t ! i)))) \<and>
     (\<forall>i j. live t i \<longrightarrow> live t j \<longrightarrow> s_hash (t ! i) = s_hash (t ! j) \<longrightarrow> i = j)"

lemma from_next: "P (i :: nat) \<Longrightarrow> \<forall>k. i + 1 \<le> k \<longrightarrow> P k \<Longrightarrow> \<forall>k \<ge> i. P k"
  by (metis Suc_eq_plus1 Suc_leI le_neq_implies_less)

lemma find_loop_spec:
  assumes "length t = 8" and "length h = 32" and "\<And>k. live t k \<Longrightarrow> length (s_hash (t ! k)) = 32"
    and "find_loop now h i t = (r, t')"
  shows "length t' = 8 \<and> (case r of
      None \<Rightarrow> (\<forall>k < 8. t' ! k = t ! k \<or> t' ! k = no_session) \<and> (\<forall>k. i \<le> k \<longrightarrow> live t' k \<longrightarrow> s_hash (t' ! k) \<noteq> h)
    | Some k \<Rightarrow> i \<le> k \<and> live t k \<and> s_hash (t ! k) = h \<and> now \<le> s_expires (t ! k) \<and>
        t' ! k = (t ! k)\<lparr>s_used := now, s_expires := now + session_ttl\<rparr> \<and>
        (\<forall>j < 8. j \<noteq> k \<longrightarrow> t' ! j = t ! j \<or> t' ! j = no_session))"
  using assms
proof (induction now h i t rule: find_loop.induct)
  case (1 now h i t)
  note len = 1(4) and hlen = 1(5) and hashes = 1(6) and res = 1(7)
  consider (out) "8 \<le> i" | (free) "i < 8" "s_expires (t ! i) = 0" | (old) "live t i" "s_expires (t ! i) < now"
    | (hit) "live t i" "now \<le> s_expires (t ! i)" "s_hash (t ! i) = h"
    | (other) "live t i" "now \<le> s_expires (t ! i)" "s_hash (t ! i) \<noteq> h" by fastforce
  then show ?case
  proof cases
    case out
    then show ?thesis using res len by (subst (asm) find_loop.simps) auto
  next
    case free
    then have "find_loop now h (i + 1) t = (r, t')" using res by (subst (asm) find_loop.simps) simp
    note IH = 1(1) [OF free len hlen hashes this]
    show ?thesis
    proof (cases r)
      case None
      then have "t' ! i = t ! i \<or> t' ! i = no_session" using IH free(1) by simp
      then have "\<not> live t' i" using free(2) by (auto simp: no_session_def)
      then show ?thesis using from_next [of "\<lambda>k. live t' k \<longrightarrow> s_hash (t' ! k) \<noteq> h" i] IH unfolding None option.case by blast
    next
      case (Some k)
      then show ?thesis using IH by simp
    qed
  next
    case old
    let ?t = "t[i := no_session]"
    have f: "find_loop now h (i + 1) ?t = (r, t')" using res old by (subst (asm) find_loop.simps) simp
    have len': "length ?t = 8" using len by simp
    have hs: "live ?t k \<Longrightarrow> length (s_hash (?t ! k)) = 32" for k
      using hashes [of k] len by (cases "k = i") (auto simp: no_session_def)
    have IH: "length t' = 8 \<and> (case r of
      None \<Rightarrow> (\<forall>k < 8. t' ! k = ?t ! k \<or> t' ! k = no_session) \<and> (\<forall>k. i + 1 \<le> k \<longrightarrow> live t' k \<longrightarrow> s_hash (t' ! k) \<noteq> h)
    | Some k \<Rightarrow> i + 1 \<le> k \<and> live ?t k \<and> s_hash (?t ! k) = h \<and> now \<le> s_expires (?t ! k) \<and>
        t' ! k = (?t ! k)\<lparr>s_used := now, s_expires := now + session_ttl\<rparr> \<and>
        (\<forall>j < 8. j \<noteq> k \<longrightarrow> t' ! j = ?t ! j \<or> t' ! j = no_session))"
      by (rule 1(2)) (use old len' hlen hs f in auto)
    have ti: "?t ! k = (if k = i then no_session else t ! k)" if "k < 8" for k using that len by simp
    show ?thesis
    proof (cases r)
      case None
      then have "t' ! i = no_session" using IH ti [of i] old by auto
      then have "\<not> live t' i" by (simp add: no_session_def)
      moreover have "\<forall>k < 8. t' ! k = t ! k \<or> t' ! k = no_session" using IH None ti by (auto split: if_splits)
      ultimately show ?thesis using from_next [of "\<lambda>k. live t' k \<longrightarrow> s_hash (t' ! k) \<noteq> h" i] IH unfolding None option.case by blast
    next
      case (Some k)
      then have "i < k" "k < 8" "?t ! k = t ! k" using IH ti by auto
      moreover have "\<forall>j < 8. j \<noteq> k \<longrightarrow> t' ! j = t ! j \<or> t' ! j = no_session" using IH Some ti by (auto split: if_splits)
      ultimately show ?thesis using IH Some by simp
    qed
  next
    case hit
    then have "equal_ct (s_hash (t ! i)) h 32" using hlen by (simp add: equal_ct_iff)
    then have "(r, t') = (Some i, t[i := (t ! i)\<lparr>s_used := now, s_expires := now + session_ttl\<rparr>])"
      using res hit by (subst (asm) find_loop.simps) simp
    then show ?thesis using hit len by simp
  next
    case other
    have n: "\<not> equal_ct (s_hash (t ! i)) h 32" using other hlen hashes [of i] by (simp add: equal_ct_iff)
    then have f: "find_loop now h (i + 1) t = (r, t')" using res other by (subst (asm) find_loop.simps) simp
    have IH: "length t' = 8 \<and> (case r of
      None \<Rightarrow> (\<forall>k < 8. t' ! k = t ! k \<or> t' ! k = no_session) \<and> (\<forall>k. i + 1 \<le> k \<longrightarrow> live t' k \<longrightarrow> s_hash (t' ! k) \<noteq> h)
    | Some k \<Rightarrow> i + 1 \<le> k \<and> live t k \<and> s_hash (t ! k) = h \<and> now \<le> s_expires (t ! k) \<and>
        t' ! k = (t ! k)\<lparr>s_used := now, s_expires := now + session_ttl\<rparr> \<and>
        (\<forall>j < 8. j \<noteq> k \<longrightarrow> t' ! j = t ! j \<or> t' ! j = no_session))"
      by (rule 1(3)) (use other n len hlen hashes f in auto)
    show ?thesis
    proof (cases r)
      case None
      then have "t' ! i = t ! i \<or> t' ! i = no_session" using IH other(1) by simp
      then have "live t' i \<longrightarrow> s_hash (t' ! i) \<noteq> h" using other(3) by (auto simp: no_session_def)
      then show ?thesis using from_next [of "\<lambda>k. live t' k \<longrightarrow> s_hash (t' ! k) \<noteq> h" i] IH unfolding None option.case by blast
    next
      case (Some k)
      then show ?thesis using IH by simp
    qed
  qed
qed

lemma find_less8: "find P [0..<8] = Some i \<Longrightarrow> i < 8"
  using find_SomeD [of P "[0..<8]" i] by simp

lemma free_slot_less: "free_slot now t = Some i \<Longrightarrow> i < 8"
  unfolding free_slot_def by (rule find_less8)

lemma quietest_less: "quietest t < 8"
proof -
  have "fst (foldl (\<lambda>(slot, q) i. if s_used (t ! i) < q then (i, s_used (t ! i)) else (slot, q)) (a, b) xs) < 8"
    if "a < 8" "\<forall>x \<in> set xs. x < 8" for a b xs using that by (induction xs arbitrary: a b) auto
  then show ?thesis by (simp add: quietest_def)
qed

lemma stands_for_empty: "stands_for sha T sessions_empty Map.empty"
proof -
  have "\<not> live sessions_empty i" for i by (auto simp: sessions_empty_def no_session_def)
  moreover have "length sessions_empty = 8" by (simp add: sessions_empty_def)
  ultimately show ?thesis unfolding stands_for_def by blast
qed

text \<open>Slots may become free: what stands for the grants still does, also when a token without a slot loses its rights.\<close>

lemma stands_for_less:
  assumes "stands_for sha T t A" and "length t' = 8" and "\<And>k. k < 8 \<Longrightarrow> t' ! k = t ! k \<or> t' ! k = no_session"
    and "\<And>k tk. live t' k \<Longrightarrow> sha_of sha tk = Some (s_hash (t' ! k)) \<Longrightarrow> tk \<in> T \<Longrightarrow> A' tk = A tk"
  shows "stands_for sha T t' A'"
proof -
  have same: "live t k \<and> t' ! k = t ! k" if "live t' k" for k
    using assms(3) [of k] that by (auto simp: no_session_def)
  have "\<exists>tk \<in> T. sha_of sha tk = Some (s_hash (t' ! i)) \<and> length tk = 32 \<and>
      A' tk = Some (s_must (t' ! i), s_view (t' ! i), s_expires (t' ! i))" if "live t' i" for i
    using assms(1) same [OF that] assms(4) [OF that] unfolding stands_for_def by metis
  moreover have "i = j" if "live t' i" "live t' j" "s_hash (t' ! i) = s_hash (t' ! j)" for i j
    using assms(1) same [OF that(1)] same [OF that(2)] that(3) unfolding stands_for_def by metis
  ultimately show ?thesis using assms(2) unfolding stands_for_def by blast
qed

text \<open>One slot changes: it now stands for a token no other slot stands for.\<close>

lemma stands_for_slot:
  assumes "stands_for sha T t A" and "k < 8" and "tk \<in> T" and "sha_of sha tk = Some h" and "length tk = 32"
    and "\<And>i. live t i \<Longrightarrow> i \<noteq> k \<Longrightarrow> s_hash (t ! i) \<noteq> h" and "inj_on (sha_of sha) T"
    and "s_hash s = h" and "A' = A(tk \<mapsto> (s_must s, s_view s, s_expires s))"
  shows "stands_for sha T (t[k := s]) A'"
proof -
  have len: "length t = 8" using assms(1) by (simp add: stands_for_def)
  have at: "t[k := s] ! i = (if i = k then s else t ! i)" if "i < 8" for i using that len by simp
  have old: "live t i" if "live (t[k := s]) i" "i \<noteq> k" for i using that at by auto
  have "\<exists>tk \<in> T. sha_of sha tk = Some (s_hash (t[k := s] ! i)) \<and> length tk = 32 \<and>
      A' tk = Some (s_must (t[k := s] ! i), s_view (t[k := s] ! i), s_expires (t[k := s] ! i))" if l: "live (t[k := s]) i" for i
  proof (cases "i = k")
    case True
    then show ?thesis using assms(2,3,4,5,8,9) len by auto
  next
    case False
    then obtain u where u: "u \<in> T" "sha_of sha u = Some (s_hash (t ! i))" "length u = 32"
        "A u = Some (s_must (t ! i), s_view (t ! i), s_expires (t ! i))"
      using assms(1) old [OF l] unfolding stands_for_def by blast
    then have "u \<noteq> tk" using assms(4) assms(6) [OF old [OF l False] False] by auto
    then show ?thesis using u l False at assms(9) by auto
  qed
  moreover have "i = j" if "live (t[k := s]) i" "live (t[k := s]) j" "s_hash (t[k := s] ! i) = s_hash (t[k := s] ! j)" for i j
  proof (cases "i = k \<or> j = k")
    case True
    then show ?thesis using that at old assms(6,8) by (metis (no_types, lifting))
  next
    case False
    then show ?thesis using that at old assms(1) unfolding stands_for_def by (metis (no_types, lifting))
  qed
  ultimately show ?thesis using len unfolding stands_for_def by simp
qed

lemma stands_for_hash:
  assumes "stands_for sha T t A" and "hash_tells_apart sha T" and "live t i"
  shows "length (s_hash (t ! i)) = 32"
  using assms unfolding stands_for_def hash_tells_apart_def by (metis option.inject)

lemma session_find_cases:
  assumes "stands_for sha T t A" and "hash_tells_apart sha T" and "tk \<in> T" and "session_find sha now tk t = (r, t')"
  shows "(case r of
      None \<Rightarrow> length t' = 8 \<and> (\<forall>k < 8. t' ! k = t ! k \<or> t' ! k = no_session) \<and>
        (\<forall>k. live t' k \<longrightarrow> sha_of sha tk \<noteq> Some (s_hash (t' ! k)))
    | Some k \<Rightarrow> live t k \<and> sha_of sha tk = Some (s_hash (t ! k)) \<and> now \<le> s_expires (t ! k) \<and>
        A tk = Some (s_must (t ! k), s_view (t ! k), s_expires (t ! k)) \<and> length tk = 32 \<and>
        (\<exists>t1. t' = t1[k := (t ! k)\<lparr>s_used := now, s_expires := now + session_ttl\<rparr>] \<and> length t1 = 8 \<and> t1 ! k = t ! k \<and>
           (\<forall>j < 8. t1 ! j = t ! j \<or> t1 ! j = no_session)))"
proof -
  obtain h where h: "sha_of sha tk = Some h" "length h = 32" using assms(2,3) by (auto simp: hash_tells_apart_def)
  have len: "length t = 8" using assms(1) by (simp add: stands_for_def)
  show ?thesis
  proof (cases "length tk = 32")
    case False
    have "sha_of sha tk \<noteq> Some (s_hash (t ! k))" if l: "live t k" for k
    proof -
      obtain u where u: "u \<in> T" "sha_of sha u = Some (s_hash (t ! k))" "length u = 32"
        using assms(1) l unfolding stands_for_def by blast
      then show ?thesis using False assms(2,3) unfolding hash_tells_apart_def by (metis inj_on_def)
    qed
    then show ?thesis using False assms(4) len by (auto simp: session_find_def)
  next
    case True
    then have f: "find_loop now h 0 t = (r, t')" using assms(4) h(1) by (simp add: session_find_def)
    note F = find_loop_spec [OF len h(2) stands_for_hash [OF assms(1,2)] f]
    show ?thesis
    proof (cases r)
      case None
      then show ?thesis using F h(1) by auto
    next
      case (Some k)
      then have k: "live t k" "s_hash (t ! k) = h" "now \<le> s_expires (t ! k)" "length t' = 8"
          "t' ! k = (t ! k)\<lparr>s_used := now, s_expires := now + session_ttl\<rparr>"
          "\<forall>j < 8. j \<noteq> k \<longrightarrow> t' ! j = t ! j \<or> t' ! j = no_session" using F by auto
      obtain u where u: "u \<in> T" "sha_of sha u = Some h"
          "A u = Some (s_must (t ! k), s_view (t ! k), s_expires (t ! k))"
        using assms(1) k(1,2) unfolding stands_for_def by blast
      then have "u = tk" using assms(2,3) h(1) unfolding hash_tells_apart_def by (metis inj_on_def)
      moreover have "t' = (t'[k := t ! k])[k := (t ! k)\<lparr>s_used := now, s_expires := now + session_ttl\<rparr>]"
        using k(5) by (metis list_update_id list_update_overwrite)
      moreover have "\<forall>j < 8. t'[k := t ! k] ! j = t ! j \<or> t'[k := t ! k] ! j = no_session"
      proof (intro allI impI)
        fix j :: nat
        assume "j < 8"
        then show "t'[k := t ! k] ! j = t ! j \<or> t'[k := t ! k] ! j = no_session" using k(4,6) by (cases "j = k") auto
      qed
      ultimately show ?thesis using Some True k u(3) h(1) by (auto intro!: exI [of _ "t'[k := t ! k]"])
    qed
  qed
qed

lemma op_step_stands:
  assumes "stands_for sha T t A" and "hash_tells_apart sha T" and "set (named [(now, p)]) \<subseteq> T"
    and "\<And>must view tk. p = Sign_in must view tk \<Longrightarrow> length tk = 32 \<and> A tk = None"
  shows "stands_for sha T (op_step sha junk (now, p) t) (grant_step (now, p) A)"
proof -
  have len: "length t = 8" using assms(1) by (simp add: stands_for_def)
  have inj: "inj_on (sha_of sha) T" using assms(2) by (simp add: hash_tells_apart_def)
  show ?thesis
  proof (cases p)
    case (Sign_in must view tk)
    then have tk: "tk \<in> T" "length tk = 32" "A tk = None" using assms(3,4) by auto
    obtain h where h: "sha_of sha tk = Some h" using tk(1) assms(2) by (auto simp: hash_tells_apart_def)
    define slot where "slot = (case free_slot now t of Some i \<Rightarrow> i | None \<Rightarrow> quietest t)"
    have "slot < 8" unfolding slot_def using free_slot_less quietest_less by (auto split: option.split)
    moreover have "s_hash (t ! i) \<noteq> h" if "live t i" for i
    proof -
      obtain u where "u \<in> T" "sha_of sha u = Some (s_hash (t ! i))" "A u \<noteq> None"
        using assms(1) \<open>live t i\<close> unfolding stands_for_def by (metis option.distinct(1))
      then show ?thesis using tk(1,3) h inj by (metis inj_on_def)
    qed
    ultimately have "stands_for sha T (t[slot := s]) (A(tk \<mapsto> (s_must s, s_view s, s_expires s)))" if "s_hash s = h" for s
      using stands_for_slot [OF assms(1) _ tk(1) h tk(2) _ inj that] by blast
    from this [of "\<lparr>s_hash = h, s_expires = now + session_ttl, s_used = now, s_must = must, s_view = view\<rparr>"] show ?thesis
      using h by (simp add: op_step_def grant_step_def Sign_in session_create_def Let_def slot_def [symmetric])
  next
    case (Ask tk)
    then have tk: "tk \<in> T" using assms(3) by simp
    obtain r t' where f: "session_find sha now tk t = (r, t')" by fastforce
    note F = session_find_cases [OF assms(1,2) tk f]
    show ?thesis
    proof (cases r)
      case None
      have "stands_for sha T t' (grant_step (now, p) A)"
      proof (rule stands_for_less [OF assms(1)])
        fix k u
        assume "live t' k" "sha_of sha u = Some (s_hash (t' ! k))" "u \<in> T"
        then have "u \<noteq> tk" using F None by auto
        then show "grant_step (now, p) A u = A u" by (auto simp: grant_step_def Ask split: option.split)
      qed (use F None in auto)
      then show ?thesis using f by (simp add: op_step_def Ask)
    next
      case (Some k)
      then obtain t1 where k: "live t k" "sha_of sha tk = Some (s_hash (t ! k))" "now \<le> s_expires (t ! k)"
          "A tk = Some (s_must (t ! k), s_view (t ! k), s_expires (t ! k))" "length tk = 32"
          "t' = t1[k := (t ! k)\<lparr>s_used := now, s_expires := now + session_ttl\<rparr>]" "length t1 = 8" "t1 ! k = t ! k"
          "\<forall>j < 8. t1 ! j = t ! j \<or> t1 ! j = no_session" using F by auto
      have st: "stands_for sha T t1 A" by (rule stands_for_less [OF assms(1) k(7)]) (use k(9) in auto)
      have g: "grant_step (now, p) A = A(tk \<mapsto> (s_must (t ! k), s_view (t ! k), now + session_ttl))"
        using k(3,4) by (simp add: grant_step_def Ask)
      have "s_hash (t1 ! i) \<noteq> s_hash (t ! k)" if "live t1 i" "i \<noteq> k" for i
      proof -
        have "live t1 k" using k(1,8) by simp
        then show ?thesis using st that unfolding stands_for_def by (metis k(8))
      qed
      then have "stands_for sha T (t1[k := s]) (A(tk \<mapsto> (s_must s, s_view s, s_expires s)))" if "s_hash s = s_hash (t ! k)" for s
        using stands_for_slot [OF st _ tk k(2,5) _ inj that] k(1) by blast
      from this [of "(t ! k)\<lparr>s_used := now, s_expires := now + session_ttl\<rparr>"] have "stands_for sha T t' (grant_step (now, p) A)"
        using g k(6) by simp
      then show ?thesis using f by (simp add: op_step_def Ask)
    qed
  next
    case (Sign_out tk)
    then have tk: "tk \<in> T" using assms(3) by simp
    obtain r t' where f: "session_find sha now tk t = (r, t')" by fastforce
    note F = session_find_cases [OF assms(1,2) tk f]
    show ?thesis
    proof (cases r)
      case None
      have "stands_for sha T t' (grant_step (now, p) A)"
      proof (rule stands_for_less [OF assms(1)])
        fix k u
        assume "live t' k" "sha_of sha u = Some (s_hash (t' ! k))" "u \<in> T"
        then have "u \<noteq> tk" using F None by auto
        then show "grant_step (now, p) A u = A u" by (simp add: grant_step_def Sign_out)
      qed (use F None in auto)
      then show ?thesis using f None by (simp add: op_step_def Sign_out session_drop_def)
    next
      case (Some k)
      then obtain t1 where k: "live t k" "sha_of sha tk = Some (s_hash (t ! k))"
          "t' = t1[k := (t ! k)\<lparr>s_used := now, s_expires := now + session_ttl\<rparr>]" "length t1 = 8"
          "\<forall>j < 8. t1 ! j = t ! j \<or> t1 ! j = no_session" using F by auto
      have d: "op_step sha junk (now, p) t = t1[k := no_session]"
        using f Some k(3) by (simp add: op_step_def Sign_out session_drop_def)
      have at: "t1[k := no_session] ! j = t ! j \<and> j \<noteq> k \<or> t1[k := no_session] ! j = no_session" if "j < 8" for j
        using k(4,5) that by (cases "j = k") auto
      show ?thesis unfolding d
      proof (rule stands_for_less [OF assms(1)])
        fix j u
        assume j: "live (t1[k := no_session]) j" "sha_of sha u = Some (s_hash (t1[k := no_session] ! j))"
        then have "t1[k := no_session] ! j = t ! j" "j \<noteq> k" "live t j" using at [of j] by (auto simp: no_session_def)
        then have "s_hash (t ! j) \<noteq> s_hash (t ! k)" using assms(1) k(1) unfolding stands_for_def by metis
        then have "u \<noteq> tk" using j(2) k(2) \<open>t1[k := no_session] ! j = t ! j\<close> by auto
        then show "grant_step (now, p) A u = A u" by (simp add: grant_step_def Sign_out)
      qed (use k(4) at in auto)
    qed
  next
    case New_password
    then show ?thesis using stands_for_empty by (simp add: op_step_def grant_step_def)
  qed
qed

lemma named_append: "named (h @ k) = named h @ named k"
  by (induction h rule: named.induct) (auto split: op.splits)

lemma given_append: "given (h @ k) = given h @ given k"
  by (induction h rule: given.induct) (auto split: op.splits)

lemma granted_given: "granted h tk \<noteq> None \<Longrightarrow> tk \<in> set (given h)"
proof -
  have "fold grant_step h A tk \<noteq> None \<Longrightarrow> A tk \<noteq> None \<or> tk \<in> set (given h)" for A
  proof (induction h arbitrary: A)
    case (Cons x h)
    obtain now p where x: "x = (now, p)" by (cases x)
    have "grant_step (now, p) A tk \<noteq> None \<Longrightarrow> A tk \<noteq> None \<or> tk \<in> set (given [(now, p)])"
      by (cases p) (auto simp: grant_step_def split: if_splits option.splits)
    then show ?case using Cons x by (cases p) fastforce+
  qed simp
  then show "granted h tk \<noteq> None \<Longrightarrow> ?thesis" by (fastforce simp: granted_def)
qed

lemma table_stands:
  assumes "hash_tells_apart sha T" and "set (named h) \<subseteq> T" and "distinct (given h)" and "list_all (\<lambda>tk. length tk = 32) (given h)"
  shows "stands_for sha T (table_after sha junk h) (granted h)"
  using assms(2-4)
proof (induction h rule: rev_induct)
  case Nil
  show ?case using stands_for_empty by (simp add: table_after_def granted_def)
next
  case (snoc x h)
  obtain now p where x: "x = (now, p)" by (cases x)
  note app = named_append given_append
  have IH: "stands_for sha T (table_after sha junk h) (granted h)"
    using snoc.IH snoc.prems by (simp add: app)
  have "stands_for sha T (op_step sha junk (now, p) (table_after sha junk h)) (grant_step (now, p) (granted h))"
  proof (rule op_step_stands [OF IH assms(1)])
    show "set (named [(now, p)]) \<subseteq> T" using snoc.prems(1) by (simp add: app x)
    fix must view tk
    assume "p = Sign_in must view tk"
    then show "length tk = 32 \<and> granted h tk = None"
      using snoc.prems(2,3) granted_given [of h tk] by (cases "granted h tk") (auto simp: app x)
  qed
  then show ?case by (simp add: table_after_def granted_def x)
qed

section \<open>Who loses a session, and what outlives a restart\<close>

lemma quietest_least: "k < 8 \<Longrightarrow> s_used (t ! quietest t) \<le> s_used (t ! k)"
proof -
  have "(case foldl (\<lambda>(slot, q) i. if s_used (t ! i) < q then (i, s_used (t ! i)) else (slot, q)) (a, s_used (t ! a)) xs of
      (slot, q) \<Rightarrow> q = s_used (t ! slot) \<and> q \<le> s_used (t ! a) \<and> (\<forall>x \<in> set xs. q \<le> s_used (t ! x)))" for a xs
  proof (induction xs arbitrary: a)
    case (Cons x xs)
    show ?case using Cons.IH [of x] Cons.IH [of a] by (cases "s_used (t ! x) < s_used (t ! a)") (fastforce split: prod.splits)+
  qed simp
  from this [of 0 "[1..<8]"] have q: "\<forall>x \<in> set (0 # [1..<8]). s_used (t ! quietest t) \<le> s_used (t ! x)"
    by (auto simp: quietest_def split: prod.splits)
  assume "k < 8"
  then have "k \<in> set (0 # [1..<8])" by auto
  then show ?thesis using q by blast
qed

lemma flags_bits:
  "bit ((if a then 1 else 0) OR (if b then 2 else 0) :: u8) 0 = a" "bit ((if a then 1 else 0) OR (if b then 2 else 0) :: u8) 1 = b"
  by (cases a; cases b; simp)+

lemma load_nth:
  "length t = 8 \<Longrightarrow> n \<le> 8 \<Longrightarrow> length (foldl (\<lambda>t i. t[i := f i]) t [0..<n]) = 8 \<and>
     (\<forall>i < 8. foldl (\<lambda>t i. t[i := f i]) t [0..<n] ! i = (if i < n then f i else t ! i))"
  by (induction n) (auto simp: nth_list_update less_Suc_eq)


lemma found_granted:
  assumes "hash_tells_apart sha (set (named h) \<union> {tk})" and "distinct (given h)" and "list_all (\<lambda>tk. length tk = 32) (given h)"
    and "session_find sha now tk (table_after sha junk h) = (Some i, t')"
  shows "\<exists>e. granted h tk = Some (s_must (t' ! i), s_view (t' ! i), e) \<and> now \<le> e"
proof -
  have st: "stands_for sha (set (named h) \<union> {tk}) (table_after sha junk h) (granted h)"
    by (rule table_stands [OF assms(1) _ assms(2,3)]) auto
  from session_find_cases [OF st assms(1) _ assms(4)] show ?thesis by auto
qed

lemma find_cong_upd:
  assumes "length xs = 8" and "k < 8" and "\<not> P (xs ! k)" and "\<not> P x"
  shows "find (\<lambda>i. P (xs[k := x] ! i)) [0..<8] = find (\<lambda>i. P (xs ! i)) [0..<8]"
proof (rule find_cong)
  fix i :: nat
  assume "i \<in> set [0..<8]"
  then show "P (xs[k := x] ! i) = P (xs ! i)" using assms by (cases "i = k") auto
qed simp

lemma find_first: "find P [0..<n] = Some i \<longleftrightarrow> i < n \<and> P i \<and> (\<forall>j < i. \<not> P j)"
proof (induction n)
  case (Suc n)
  have "find P (xs @ [x]) = (case find P xs of None \<Rightarrow> if P x then Some x else None | Some y \<Rightarrow> Some y)" for xs and x :: nat
    by (induction xs) auto
  moreover have "find P [0..<n] = None \<longleftrightarrow> (\<forall>j < n. \<not> P j)" by (auto simp: find_None_iff)
  ultimately show ?case using Suc by (cases "find P [0..<n]") (auto simp: less_Suc_eq)
qed simp

lemma mark_map:
  assumes "length (ws_authed w) = 8" and "length (ws_session w) = 8" and "0 \<le> fd"
    and "\<exists>i < 8. ws_authed w ! i = fd \<or> ws_authed w ! i < 0"
  shows "(\<lambda>f. socket_session f (mark_socket fd h w)) = (\<lambda>f. socket_session f w)(fd \<mapsto> h)"
proof -
  define k where "k = (case find (\<lambda>i. ws_authed w ! i = fd) [0..<8] of Some i \<Rightarrow> i
     | None \<Rightarrow> the (find (\<lambda>i. ws_authed w ! i < 0) [0..<8]))"
  have k: "k < 8 \<and> (ws_authed w ! k = fd \<or> ws_authed w ! k < 0) \<and> (\<forall>j < k. ws_authed w ! j \<noteq> fd)"
    "mark_socket fd h w = w\<lparr>ws_authed := (ws_authed w)[k := fd], ws_session := (ws_session w)[k := h]\<rparr>"
  proof -
    consider (had) i where "find (\<lambda>i. ws_authed w ! i = fd) [0..<8] = Some i"
      | (new) i where "find (\<lambda>i. ws_authed w ! i = fd) [0..<8] = None" "find (\<lambda>i. ws_authed w ! i < 0) [0..<8] = Some i"
    proof (cases "find (\<lambda>i. ws_authed w ! i = fd) [0..<8]")
      case None
      then have "find (\<lambda>i. ws_authed w ! i < 0) [0..<8] \<noteq> None" using assms(4) by (auto simp: find_None_iff)
      then show ?thesis using new [OF None] by blast
    qed (rule had)
    then have "k < 8 \<and> (ws_authed w ! k = fd \<or> ws_authed w ! k < 0) \<and> (\<forall>j < k. ws_authed w ! j \<noteq> fd) \<and>
        mark_socket fd h w = w\<lparr>ws_authed := (ws_authed w)[k := fd], ws_session := (ws_session w)[k := h]\<rparr>"
    proof cases
      case (had i)
      then have "k = i" by (simp add: k_def)
      moreover have "i < 8 \<and> ws_authed w ! i = fd \<and> (\<forall>j < i. ws_authed w ! j \<noteq> fd)" using had by (simp only: find_first) simp
      ultimately show ?thesis using had assms(3) by (simp add: mark_socket_def)
    next
      case (new i)
      then have "k = i" by (simp add: k_def)
      moreover have "i < 8" "ws_authed w ! i < 0" using new(2) by (auto simp: find_first)
      moreover have "ws_authed w ! j \<noteq> fd" if "j < 8" for j using new(1) that by (auto simp: find_None_iff)
      ultimately show ?thesis using new assms(3) by (auto simp: mark_socket_def)
    qed
    then show "k < 8 \<and> (ws_authed w ! k = fd \<or> ws_authed w ! k < 0) \<and> (\<forall>j < k. ws_authed w ! j \<noteq> fd)"
      "mark_socket fd h w = w\<lparr>ws_authed := (ws_authed w)[k := fd], ws_session := (ws_session w)[k := h]\<rparr>" by blast+
  qed
  have "socket_session fd (mark_socket fd h w) = Some h"
  proof -
    have "find (\<lambda>i. (ws_authed w)[k := fd] ! i = fd) [0..<8] = Some k" using k(1) assms(1) by (auto simp: find_first)
    then show ?thesis using k assms(2,3) by (simp add: socket_session_def)
  qed
  moreover have "socket_session f (mark_socket fd h w) = socket_session f w" if "f \<noteq> fd" for f
  proof (cases "f < 0")
    case False
    have e: "find (\<lambda>i. (ws_authed w)[k := fd] ! i = f) [0..<8] = find (\<lambda>i. ws_authed w ! i = f) [0..<8]"
      using find_cong_upd [of "ws_authed w" k "\<lambda>x. x = f" fd] assms(1) k(1) that False by auto
    have "i \<noteq> k" if "find (\<lambda>i. ws_authed w ! i = f) [0..<8] = Some i" for i
      using that k(1) \<open>f \<noteq> fd\<close> False by (auto simp: find_first)
    then show ?thesis using k(2) e False
      by (cases "find (\<lambda>i. ws_authed w ! i = f) [0..<8]") (auto simp: socket_session_def)
  qed (simp add: socket_session_def)
  ultimately show ?thesis by auto
qed

lemma forget_map:
  assumes "length (ws_authed w) = 8" and "0 \<le> fd"
  shows "(\<lambda>f. socket_session f (forget_socket fd w)) = (\<lambda>f. socket_session f w)(fd := None)"
proof
  fix f
  show "socket_session f (forget_socket fd w) = ((\<lambda>f. socket_session f w)(fd := None)) f"
  proof (cases "0 \<le> f \<and> f \<noteq> fd")
    case True
    have "find (\<lambda>i. map (\<lambda>f. if f = fd then -1 else f) (ws_authed w) ! i = f) [0..<8] = find (\<lambda>i. ws_authed w ! i = f) [0..<8]"
      by (rule find_cong) (use True assms(1) in auto)
    then show ?thesis using True assms(2) by (simp add: socket_session_def forget_socket_def)
  next
    case False
    have "find (\<lambda>i. map (\<lambda>f. if f = fd then -1 else f) (ws_authed w) ! i = fd) [0..<8] = None"
      using assms by (auto simp: find_None_iff)
    then show ?thesis using False assms(2) by (cases "f = fd") (simp_all add: socket_session_def forget_socket_def)
  qed
qed

section \<open>Properties\<close>

text \<open>
  C28. The table grants nothing but sign-ins: in any history of signing in and out, of requests and new
  passwords, a token that is found was given out, with just these rights, has neither been signed out nor
  outlived its twelve hours since it was last used. What is asked of SHA-256 is that it tells the tokens at hand apart.
\<close>

theorem session_found_granted:
  assumes "hash_tells_apart sha (set (named h) \<union> {tk})" and "distinct (given h)" and "list_all (\<lambda>tk. length tk = 32) (given h)"
    and "session_find sha now tk (table_after sha junk h) = (Some i, t')"
  shows "\<exists>e. granted h tk = Some (s_must (t' ! i), s_view (t' ! i), e) \<and> now \<le> e"
  by (rule found_granted [OF assms])

theorem session_found_granted_witness:
  "\<exists>e. granted [(5, Sign_in False True (replicate 32 CHR ''a'')), (6, Ask (replicate 32 CHR ''a''))] (replicate 32 CHR ''a'') = Some (False, True, e) \<and> 7 \<le> e"
proof -
  let ?a = "replicate 32 CHR ''a''" and ?h = "[(5, Sign_in False True (replicate 32 CHR ''a'')), (6, Ask (replicate 32 CHR ''a''))]"
  have "hash_tells_apart test_sha (set (named ?h) \<union> {?a})" by (simp add: hash_tells_apart_def sha_of_def test_sha_def)
  moreover have "case session_find test_sha 7 ?a (table_after test_sha [] ?h) of
      (Some i, t') \<Rightarrow> s_view (t' ! i) \<and> \<not> s_must (t' ! i) | (None, t') \<Rightarrow> False" by code_simp
  ultimately show ?thesis using session_found_granted [of test_sha ?h ?a 7 "[]"] by (fastforce split: prod.splits option.splits)
qed

text \<open>
  A session is thrown out for a new one only if it has expired, or if every slot is taken and no other has been
  idle as long: a console being used is never the victim.
\<close>

theorem session_victim_idle:
  assumes "length t = 8" and "k < 8" and "session_create sha now junk must view token t ! k \<noteq> t ! k"
  shows "s_expires (t ! k) < now \<or> list_all (\<lambda>s. now \<le> s_expires s \<and> s_used (t ! k) \<le> s_used s) t"
proof (cases "free_slot now t")
  case None
  then have "session_create sha now junk must view token t ! k = t ! k" if "k \<noteq> quietest t"
    using that by (simp add: session_create_def Let_def)
  then have "k = quietest t" using assms(3) by blast
  moreover have "\<forall>i < 8. now \<le> s_expires (t ! i)" using None by (simp add: free_slot_def find_None_iff) (meson not_less)
  ultimately show ?thesis using quietest_least [of _ t] assms(1) by (simp add: list_all_length)
next
  case (Some i)
  then have "session_create sha now junk must view token t ! k = t ! k" if "k \<noteq> i"
    using that by (simp add: session_create_def Let_def)
  then have "k = i" using assms(3) by blast
  then show ?thesis using Some find_SomeD by (fastforce simp: free_slot_def)
qed

theorem session_victim_idle_witness:
  "list_all (\<lambda>s. 10 \<le> s_expires s \<and> 3 \<le> s_used s)
     (map (\<lambda>i. no_session\<lparr>s_expires := 20, s_used := 10 - i\<rparr>) [0, 1, 2, 3, 4, 5, 6, 7])"
proof -
  let ?t = "map (\<lambda>i. no_session\<lparr>s_expires := 20, s_used := 10 - i\<rparr>) [0, 1, 2, 3, 4, 5, 6, 7]"
  have "session_create test_sha 10 [] False False [] ?t ! 7 \<noteq> ?t ! 7" by code_simp
  from session_victim_idle [OF _ _ this] show ?thesis by simp
qed

text \<open>What a restart keeps of a session, and the list the table is after it.\<close>

definition rights :: "session \<Rightarrow> bytes \<times> bool \<times> bool" where
  "rights s = (s_hash s, s_must s, s_view s)"

definition restored :: "int \<Rightarrow> session \<Rightarrow> session" where
  "restored now s = \<lparr>s_hash = s_hash s, s_expires = now + session_ttl, s_used = 0, s_must = s_must s, s_view = s_view s\<rparr>"

lemma load_save:
  assumes "length t = 8"
  shows "sessions_load now2 (sessions_save now t) sessions_empty =
    map (restored now2) (filter (\<lambda>s. s_expires s > now) t) @ replicate (8 - length (filter (\<lambda>s. s_expires s > now) t)) no_session"
proof -
  let ?L = "filter (\<lambda>s. s_expires s > now) t" and ?b = "sessions_save now t"
  let ?f = "\<lambda>i. \<lparr>s_hash = fst (?b ! i), s_expires = now2 + session_ttl, s_used = 0, s_must = bit (snd (?b ! i)) 0, s_view = bit (snd (?b ! i)) 1\<rparr>"
  have n: "length ?L \<le> 8" using length_filter_le [of "\<lambda>s. s_expires s > now" t] assms by linarith
  then have m: "min (length ?b) 8 = length ?L" by (simp add: sessions_save_def)
  have e: "length sessions_empty = 8" by (simp add: sessions_empty_def)
  note l = load_nth [OF e n, of ?f]
  have f: "?f i = restored now2 (?L ! i)" if "i < length ?L" for i
    using that by (simp only: sessions_save_def nth_map fst_conv snd_conv flags_bits restored_def)
  show ?thesis
  proof (rule nth_equalityI)
    show "length (sessions_load now2 ?b sessions_empty) = length (map (restored now2) ?L @ replicate (8 - length ?L) no_session)"
      using l n by (simp add: sessions_load_def m)
    fix i
    assume "i < length (sessions_load now2 ?b sessions_empty)"
    then have i: "i < 8" using l by (simp add: sessions_load_def m)
    then have "sessions_load now2 ?b sessions_empty ! i = (if i < length ?L then ?f i else sessions_empty ! i)"
      using l unfolding sessions_load_def m by blast
    then show "sessions_load now2 ?b sessions_empty ! i = (map (restored now2) ?L @ replicate (8 - length ?L) no_session) ! i"
      using i f [of i] by (simp add: nth_append sessions_empty_def)
  qed
qed

text \<open>
  A restart keeps who is signed in: the sessions that were live when the table was written are, in their
  order and with just their rights, the live sessions of the table that is read; none other comes to life.
\<close>

theorem sessions_outlive_restart:
  assumes "length t = 8" and "0 \<le> now2"
  shows "map rights (filter (\<lambda>s. s_expires s \<noteq> 0) (sessions_load now2 (sessions_save now t) sessions_empty)) =
    map rights (filter (\<lambda>s. now < s_expires s) t)"
proof -
  have "s_expires (restored now2 s) \<noteq> 0" for s using assms(2) by (simp add: restored_def session_ttl_def)
  moreover have "rights (restored now2 s) = rights s" for s by (simp add: rights_def restored_def)
  ultimately show ?thesis unfolding load_save [OF assms(1)] by (simp add: no_session_def comp_def filter_empty_conv)
qed

theorem sessions_outlive_restart_witness:
  "map rights (filter (\<lambda>s. s_expires s \<noteq> 0) (sessions_load 3 (sessions_save 9 (sessions_empty[2 := \<lparr>s_hash = [1], s_expires = 10, s_used = 1, s_must = False, s_view = True\<rparr>])) sessions_empty)) = [([1], False, True)]"
proof -
  let ?t = "sessions_empty[2 := \<lparr>s_hash = [1], s_expires = 10, s_used = 1, s_must = False, s_view = True\<rparr>]"
  have "length ?t = 8" by (simp add: sessions_empty_def)
  moreover have "map rights (filter (\<lambda>s. 9 < s_expires s) ?t) = [([1], False, True)]" by code_simp
  ultimately show ?thesis using sessions_outlive_restart [of ?t 3 9] by simp
qed

text \<open>
  The WebSockets that were let in are a map from descriptors to sessions: letting one in binds its descriptor
  as long as there is a place, forgetting it unbinds it, and nothing else changes.
\<close>

theorem sockets_are_map:
  assumes "length (ws_authed w) = 8" and "length (ws_session w) = 8" and "0 \<le> fd"
  shows "(list_ex (\<lambda>f. f = fd \<or> f < 0) (ws_authed w) \<longrightarrow>
      (\<lambda>f. socket_session f (mark_socket fd h w)) = (\<lambda>f. socket_session f w)(fd \<mapsto> h)) \<and>
    (\<lambda>f. socket_session f (forget_socket fd w)) = (\<lambda>f. socket_session f w)(fd := None)"
  using mark_map [OF assms, of h] forget_map [OF assms(1,3)] assms(1) by (auto simp: list_ex_length)

theorem sockets_are_map_witness: "socket_session 57 (mark_socket 57 [1] no_sockets) = Some [1]"
proof -
  have "length (ws_authed no_sockets) = 8" "length (ws_session no_sockets) = 8" "list_ex (\<lambda>f. f = 57 \<or> f < 0) (ws_authed no_sockets)"
    by (simp_all add: no_sockets_def list_ex_iff)
  then have "(\<lambda>f. socket_session f (mark_socket 57 [1] no_sockets)) = (\<lambda>f. socket_session f no_sockets)(57 \<mapsto> [1])"
    using sockets_are_map [of no_sockets 57 "[1]"] by simp
  then show ?thesis by (metis fun_upd_same)
qed

end
