(* ===== verification/Password.thy ===== *)
theory Password
  imports Two_Factor
begin

text \<open>
  components/kvm_web/auth.c, the passwords: PBKDF2 with HMAC-SHA256 as RFC 8018 has it, assembled on the platform's
  SHA-256, and the comparisons with what is stored. SHA-256 is the parameter \<open>sha\<close>, which may fail; it is given the
  two pieces of a message as one.
\<close>

section \<open>The code\<close>

record hmac_key =
  hk_ipad :: bytes
  hk_opad :: bytes

definition hmac_key_init :: "sha256 \<Rightarrow> bytes \<Rightarrow> hmac_key option" where
  "hmac_key_init sha key = do {
     block \<leftarrow> (if length key > 64
       then do { h \<leftarrow> sha key; Some (blit (replicate 64 0) 0 h) }
       else Some (blit (replicate 64 0) 0 key));
     Some \<lparr>hk_ipad = map (\<lambda>b. b XOR 0x36) block, hk_opad = map (\<lambda>b. b XOR 0x5c) block\<rparr>
   }"

definition hmac :: "sha256 \<Rightarrow> hmac_key \<Rightarrow> bytes \<Rightarrow> bytes option" where
  "hmac sha k msg = do { inner \<leftarrow> sha (hk_ipad k @ msg); sha (hk_opad k @ inner) }"

text \<open>
  The iterations of one block: \<open>n\<close> more of them, the last value and what is accumulated, an array of 32 bytes.
\<close>

fun pb_iterate :: "sha256 \<Rightarrow> hmac_key \<Rightarrow> nat \<Rightarrow> bytes \<Rightarrow> bytes \<Rightarrow> bytes option" where
  "pb_iterate sha k 0 u acc = Some acc"
| "pb_iterate sha k (Suc n) u acc = do { v \<leftarrow> hmac sha k u; pb_iterate sha k n v (map (\<lambda>b. acc ! b XOR v ! b) [0..<32]) }"

lemma pb_iterate_length: "length acc = 32 \<Longrightarrow> pb_iterate sha k n u acc = Some r \<Longrightarrow> length r = 32"
proof (induction n arbitrary: u acc)
  case (Suc n)
  obtain v where "hmac sha k u = Some v" using Suc.prems(2) by (cases "hmac sha k u") simp_all
  then have "pb_iterate sha k n v (map (\<lambda>b. acc ! b XOR v ! b) [0..<32]) = Some r" using Suc.prems(2) by simp
  then show ?case by (rule Suc.IH [rotated]) simp
qed simp

function pb_blocks :: "sha256 \<Rightarrow> hmac_key \<Rightarrow> bytes \<Rightarrow> nat \<Rightarrow> nat \<Rightarrow> u32 \<Rightarrow> bytes \<Rightarrow> bytes option" where
  "pb_blocks sha k salt iterations out_len block out =
     (if length out < out_len then
        if length salt > 64 then None
        else (case hmac sha k (salt @ put32 block) of
            None \<Rightarrow> None
          | Some u \<Rightarrow> (case pb_iterate sha k (iterations - 1) u (map (\<lambda>b. u ! b) [0..<32]) of
              None \<Rightarrow> None
            | Some acc \<Rightarrow> pb_blocks sha k salt iterations out_len (block + 1) (out @ take (min (out_len - length out) 32) acc)))
      else Some out)"
  by pat_completeness auto
termination
  by (relation "measure (\<lambda>(sha, k, salt, iterations, out_len, block, out). out_len - length out)")
    (auto dest!: pb_iterate_length [rotated])

declare pb_blocks.simps [simp del]

definition pbkdf2 :: "sha256 \<Rightarrow> string \<Rightarrow> bytes \<Rightarrow> u32 \<Rightarrow> nat \<Rightarrow> bytes option" where
  "pbkdf2 sha password salt iterations out_len =
     (if out_len = 0 \<or> iterations = 0 then None
      else do {
        k \<leftarrow> hmac_key_init sha (map of_char password);
        pb_blocks sha k salt (unat iterations) out_len 1 []
      })"

section \<open>RFC 8018\<close>

text \<open>
  Section 5.2, with HMAC over a hash \<open>H\<close> for the pseudorandom function: the values \<open>U\<close> of a block, from 0, their exclusive-or \<open>T\<close>, and the
  first bytes of the blocks one after the other.
\<close>

fun pb_U :: "(bytes \<Rightarrow> bytes) \<Rightarrow> bytes \<Rightarrow> bytes \<Rightarrow> nat \<Rightarrow> nat \<Rightarrow> bytes" where
  "pb_U H P S i 0 = hmac_with H P (S @ put32 (of_nat i))"
| "pb_U H P S i (Suc j) = hmac_with H P (pb_U H P S i j)"

definition pb_T :: "(bytes \<Rightarrow> bytes) \<Rightarrow> bytes \<Rightarrow> bytes \<Rightarrow> nat \<Rightarrow> nat \<Rightarrow> bytes" where
  "pb_T H P S c i = map (\<lambda>b. foldl (XOR) (pb_U H P S i 0 ! b) (map (\<lambda>j. pb_U H P S i j ! b) [1..<c])) [0..<32]"

definition pbkdf2_ref :: "(bytes \<Rightarrow> bytes) \<Rightarrow> bytes \<Rightarrow> bytes \<Rightarrow> nat \<Rightarrow> nat \<Rightarrow> bytes" where
  "pbkdf2_ref H P S c dk_len = take dk_len (concat (map (pb_T H P S c) [1..<Suc ((dk_len + 31) div 32)]))"

lemma hmac_key_spec:
  assumes "\<And>m. length (H m) = 32"
  shows "\<exists>k. hmac_key_init (Some \<circ> H) P = Some k \<and> (\<forall>m. hmac (Some \<circ> H) k m = Some (hmac_with H P m))"
  using assms by (auto simp: hmac_key_init_def hmac_def hmac_with_def blit_def Let_def)

lemma pb_iterate_spec:
  assumes "\<And>m. hmac sha k m = Some (hmac_with H P m)"
  shows "pb_iterate sha k n (pb_U H P S i j) (map f [0..<32]) =
    Some (map (\<lambda>b. foldl (XOR) (f b) (map (\<lambda>j. pb_U H P S i j ! b) [Suc j..<Suc j + n])) [0..<32])"
proof (induction n arbitrary: j f)
  case (Suc n)
  have e: "map (\<lambda>b. map f [0..<32] ! b XOR pb_U H P S i (Suc j) ! b) [0..<32] = map (\<lambda>b. f b XOR pb_U H P S i (Suc j) ! b) [0..<32]"
    by (rule map_cong) (simp_all del: upt_rec_numeral)
  have "hmac sha k (pb_U H P S i j) = Some (pb_U H P S i (Suc j))" using assms by simp
  then have "pb_iterate sha k (Suc n) (pb_U H P S i j) (map f [0..<32]) =
      pb_iterate sha k n (pb_U H P S i (Suc j)) (map (\<lambda>b. f b XOR pb_U H P S i (Suc j) ! b) [0..<32])"
    by (simp only: pb_iterate.simps bind.bind_lunit e)
  moreover have "[Suc j..<Suc j + Suc n] = Suc j # [Suc (Suc j)..<Suc (Suc j) + n]" by (simp add: upt_conv_Cons del: upt_Suc)
  ultimately show ?case using Suc.IH [of "Suc j"] by (simp del: upt_rec_numeral upt_Suc)
qed (simp del: upt_rec_numeral)

lemma pb_block_spec:
  assumes "\<And>m. hmac sha k m = Some (hmac_with H P m)" and "0 < c"
  shows "pb_iterate sha k (c - 1) (pb_U H P S i 0) (map (\<lambda>b. pb_U H P S i 0 ! b) [0..<32]) = Some (pb_T H P S c i)"
  using pb_iterate_spec [OF assms(1), of "c - 1" S i 0] assms(2) by (simp add: pb_T_def del: upt_rec_numeral upt_Suc pb_U.simps)

lemma length_pb_T [simp]: "length (pb_T H P S c i) = 32"
  unfolding pb_T_def by (simp del: upt_rec_numeral)

lemma pb_blocks_spec:
  assumes "\<And>m. hmac sha k m = Some (hmac_with H P m)" and "0 < c" and "length S \<le> 64"
    and "length out \<le> dk_len" and "length out < dk_len \<Longrightarrow> length out = 32 * m" and "dk_len - length out \<le> 32 * n"
  shows "pb_blocks sha k S c dk_len (of_nat (m + 1)) out =
    Some (out @ take (dk_len - length out) (concat (map (pb_T H P S c) [m + 1..<m + 1 + n])))"
  using assms(4-6)
proof (induction n arbitrary: m out)
  case 0
  then show ?case by (subst pb_blocks.simps) simp
next
  case (Suc n)
  show ?case
  proof (cases "length out < dk_len")
    case False
    then show ?thesis using Suc.prems by (subst pb_blocks.simps) simp
  next
    case True
    define r where "r = dk_len - length out"
    let ?T = "pb_T H P S c (m + 1)" and ?out = "out @ take (min r 32) (pb_T H P S c (m + 1))"
    have u: "hmac sha k (S @ put32 (of_nat (m + 1))) = Some (pb_U H P S (m + 1) 0)" using assms(1) by simp
    have "pb_blocks sha k S c dk_len (of_nat (m + 1)) out = pb_blocks sha k S c dk_len (of_nat (m + 1) + 1) ?out"
      using True assms(3) u pb_block_spec [OF assms(1,2), of S "m + 1"]
      by (subst pb_blocks.simps) (simp add: r_def del: upt_rec_numeral pb_U.simps)
    also have "\<dots> = pb_blocks sha k S c dk_len (of_nat (Suc m + 1)) ?out" by (simp add: add.commute)
    also have "\<dots> = Some (?out @ take (dk_len - length ?out) (concat (map (pb_T H P S c) [Suc m + 1..<Suc m + 1 + n])))"
    proof (rule Suc.IH)
      show "length ?out \<le> dk_len" using True by (simp add: r_def)
      show "length ?out < dk_len \<Longrightarrow> length ?out = 32 * Suc m" using True Suc.prems(2) by (simp add: r_def min_def split: if_splits)
      show "dk_len - length ?out \<le> 32 * n" using True Suc.prems(3) unfolding r_def by simp
    qed
    also have "\<dots> = Some (out @ take r (?T @ concat (map (pb_T H P S c) [Suc m + 1..<Suc m + 1 + n])))"
      by (simp add: r_def min_def)
    also have "?T @ concat (map (pb_T H P S c) [Suc m + 1..<Suc m + 1 + n]) = concat (map (pb_T H P S c) [m + 1..<m + 1 + Suc n])"
      by (simp add: upt_conv_Cons del: upt_Suc)
    finally show ?thesis by (simp add: r_def)
  qed
qed

lemma pbkdf2_spec:
  assumes "\<And>m. length (H m) = 32" and "length salt \<le> 64" and "iterations \<noteq> 0" and "0 < out_len"
  shows "pbkdf2 (Some \<circ> H) password salt iterations out_len =
    Some (pbkdf2_ref H (map of_char password) salt (unat iterations) out_len)"
proof -
  obtain k where k: "hmac_key_init (Some \<circ> H) (map of_char password) = Some k"
      "\<And>m. hmac (Some \<circ> H) k m = Some (hmac_with H (map of_char password) m)" using hmac_key_spec [of H] assms(1) by blast
  have "0 < unat iterations" using assms(3) by (simp add: unat_gt_0)
  moreover have "out_len \<le> 32 * ((out_len + 31) div 32)" by presburger
  ultimately show ?thesis using pb_blocks_spec [OF k(2), of "unat iterations" salt "[]" out_len 0 "(out_len + 31) div 32"] assms k(1)
    by (simp add: pbkdf2_def pbkdf2_ref_def del: upt_Suc)
qed

text \<open>
  C34. The key derivation is PBKDF2: over any hash of 32 bytes that does not fail, with a salt of at most 64 bytes, it ends and gives the
  bytes that RFC 8018 defines, whatever the number of iterations and the length asked for.
\<close>

theorem pbkdf2_rfc:
  assumes "\<And>m. length (H m) = 32" and "length salt \<le> 64" and "iterations \<noteq> 0" and "0 < out_len"
  shows "pbkdf2 (Some \<circ> H) password salt iterations out_len =
    Some (pbkdf2_ref H (map of_char password) salt (unat iterations) out_len)"
  by (rule pbkdf2_spec [OF assms])

theorem pbkdf2_rfc_witness:
  "pbkdf2 (Some \<circ> (\<lambda>m. replicate 32 (sum_list m))) ''admin'' [1, 2] 2 40 =
   Some (pbkdf2_ref (\<lambda>m. replicate 32 (sum_list m)) (map of_char ''admin'') [1, 2] 2 40)"
  using pbkdf2_rfc [of "\<lambda>m. replicate 32 (sum_list m)" "[1, 2]" 2 40 "''admin''"] by simp

end
