(* ===== verification/Auth.thy ===== *)
theory Auth
  imports Sessions Password
begin

text \<open>
  components/kvm_web/auth.c, who may do what: which requests are let in, the upgrade to a WebSocket, signing in. A
  request is what the server library answers about it: \<open>rq_get\<close> is \<open>httpd_req_get_hdr_value_str\<close> with
  the name and the size of the buffer, \<open>None\<close> for anything but \<open>ESP_OK\<close>. JSON bodies are given as
  their fields. Of the clock there is one reading for each call.
\<close>

section \<open>Requests\<close>

datatype http_method = HTTP_GET | HTTP_POST | HTTP_PUT | HTTP_DELETE | HTTP_other

record request =
  rq_method :: http_method
  rq_uri :: string
  rq_get_len :: "string \<Rightarrow> nat"
  rq_get :: "string \<Rightarrow> nat \<Rightarrow> string option"
  rq_fd :: int

text \<open>\<open>strstr\<close>: the text from the first place of the pattern on.\<close>

fun c_strstr :: "string \<Rightarrow> string \<Rightarrow> string option" where
  "c_strstr pat [] = (if pat = [] then Some [] else None)"
| "c_strstr pat (c # cs) = (if take (length pat) (c # cs) = pat then Some (c # cs) else c_strstr pat cs)"

definition kvm_auth_origin_ok :: "request \<Rightarrow> bool" where
  "kvm_auth_origin_ok r =
     (case rq_get r ''Origin'' 128 of
        None \<Rightarrow> True
      | Some origin \<Rightarrow> (case rq_get r ''Host'' 96 of
          None \<Rightarrow> False
        | Some host \<Rightarrow> (case c_strstr ''://'' origin of Some s \<Rightarrow> drop 3 s | None \<Rightarrow> origin) = host))"

datatype write_verdict = Write_meant | Write_foreign_origin | Write_unmarked

definition write_verdict :: "request \<Rightarrow> write_verdict" where
  "write_verdict r =
     (if rq_method r \<noteq> HTTP_POST \<and> rq_method r \<noteq> HTTP_PUT \<and> rq_method r \<noteq> HTTP_DELETE then Write_meant
      else if \<not> kvm_auth_origin_ok r then Write_foreign_origin
      else if rq_get r ''X-ESP-KVM'' 64 \<noteq> None then Write_meant
      else case rq_get r ''Content-Type'' 64 of
          Some v \<Rightarrow> if c_strcaseeq (take 16 v) ''application/json'' then Write_meant else Write_unmarked
        | None \<Rightarrow> Write_unmarked)"

text \<open>Our cookie among those of the header: the loop over the header's text, then the call with the buffers' sizes.\<close>

definition cookie_sep :: "char \<Rightarrow> bool" where
  "cookie_sep c \<longleftrightarrow> c = CHR '' '' \<or> c = CHR '';''"

definition cookie_name :: string where
  "cookie_name = ''kvm_session=''"

function cookie_loop :: "nat \<Rightarrow> string \<Rightarrow> string option" where
  "cookie_loop out_len p =
     (if p = [] then None
      else let p = dropWhile cookie_sep p
           in if take 12 p = cookie_name
              then (let v = takeWhile (\<lambda>c. c \<noteq> CHR '';'') (drop 12 p) in if length v < out_len then Some v else None)
              else cookie_loop out_len (dropWhile (\<lambda>c. c \<noteq> CHR '';'') p))"
  by pat_completeness auto
termination
proof (relation "measure (\<lambda>(n, p). length p)")
  fix n :: nat and p q :: string
  assume p: "p \<noteq> []" and q: "q = dropWhile cookie_sep p"
  have "length (dropWhile (\<lambda>c. c \<noteq> CHR '';'') (dropWhile cookie_sep p)) < length p"
  proof (cases p)
    case (Cons c cs)
    have le: "length (dropWhile P xs) \<le> length xs" for P and xs :: string by (rule length_dropWhile_le)
    show ?thesis
    proof (cases "cookie_sep c")
      case True
      then show ?thesis using le_trans [OF le le, of _ cookie_sep cs] Cons by (simp add: less_Suc_eq_le)
    next
      case False
      then have "c \<noteq> CHR '';''" by (simp add: cookie_sep_def)
      then show ?thesis using le [of _ cs] False Cons by (simp add: less_Suc_eq_le)
    qed
  qed (use p in simp)
  then show "((n, dropWhile (\<lambda>c. c \<noteq> CHR '';'') q), n, p) \<in> measure (\<lambda>(n, p). length p)" using q by simp
qed simp

declare cookie_loop.simps [simp del]

definition cookie_token :: "bool \<Rightarrow> request \<Rightarrow> nat \<Rightarrow> string option" where
  "cookie_token mem r out_len =
     (let len = rq_get_len r ''Cookie''
      in if len = 0 \<or> len > 512 \<or> \<not> mem then None
         else case rq_get r ''Cookie'' (len + 1) of None \<Rightarrow> None | Some header \<Rightarrow> cookie_loop out_len header)"

section \<open>What a viewer may reach\<close>

definition k_view_get :: "string list" where
  "k_view_get = [
    ''/api/capabilities'', ''/api/v1/auth/session'', ''/api/v1/video/status'',
    ''/api/v1/video/frame.jpg'', ''/api/v1/system/info'', ''/api/v1/system/memory'',
    ''/api/v1/system/usbprobe'', ''/api/v1/system/install'', ''/api/v1/settings'',
    ''/api/v1/settings/schema'', ''/api/v1/profiles'', ''/api/v1/record/status'',
    ''/api/v1/captures'', ''/api/v1/captures/file'', ''/api/v1/captures/search'',
    ''/api/v1/screen/text'', ''/api/v1/audio'', ''/api/v1/audio/clip.wav'',
    ''/api/v1/cec'', ''/api/v1/storage/images'', ''/api/v1/storage/fetch'',
    ''/api/v1/regions'', ''/api/v1/runbooks/status'', ''/api/v1/schedules/status'',
    ''/api/v1/notify/status'', ''/api/v1/serial'', ''/api/v1/serial/log'',
    ''/api/v1/netlog'', ''/api/v1/netlog/log'', ''/api/v1/agent'',
    ''/api/v1/agent/info'', ''/api/v1/tls'', ''/api/v1/pins'',
    ''/api/v1/wifi/scan'', ''/api/v1/viewers'',
    ''/ws'', ''/video'', ''/audio'',
    ''/serial'', ''/stream'']"

definition path_is :: "string \<Rightarrow> string \<Rightarrow> bool" where
  "path_is uri path \<longleftrightarrow> take (length path) uri = path \<and> (length uri = length path \<or> uri ! length path = CHR ''?'')"

definition view_allowed :: "request \<Rightarrow> bool" where
  "view_allowed r =
     (if rq_method r = HTTP_GET then list_ex (path_is (rq_uri r)) k_view_get
      else rq_method r = HTTP_POST \<and>
        (path_is (rq_uri r) ''/api/v1/auth/logout'' \<or> take 14 (rq_uri r) = ''/api/v1/webrtc''))"

section \<open>The check\<close>

text \<open>What the device knows besides the request: the hash, the clock, memory for the header, and whether signing in is asked for.\<close>

record env =
  en_sha :: sha256
  en_now :: int
  en_mem :: bool
  en_required :: bool

definition kvm_auth_check :: "env \<Rightarrow> request \<Rightarrow> table \<Rightarrow> bool \<times> table" where
  "kvm_auth_check en r t =
     (if write_verdict r \<noteq> Write_meant then (False, t)
      else if \<not> en_required en then (True, t)
      else case cookie_token (en_mem en) r 33 of
          None \<Rightarrow> (False, t)
        | Some token \<Rightarrow> (case session_find (en_sha en) (en_now en) token t of
            (None, t1) \<Rightarrow> (False, t1)
          | (Some i, t1) \<Rightarrow>
              (if s_must (t1 ! i) \<and> take 13 (rq_uri r) \<noteq> ''/api/v1/auth/'' then (False, t1)
               else if s_view (t1 ! i) \<and> \<not> view_allowed r then (False, t1)
               else (True, t1))))"

definition kvm_auth_session_of :: "env \<Rightarrow> request \<Rightarrow> table \<Rightarrow> bool \<times> bytes \<times> table" where
  "kvm_auth_session_of en r t =
     (if \<not> en_required en then (True, replicate 32 0, t)
      else case cookie_token (en_mem en) r 33 of
          None \<Rightarrow> (False, replicate 32 0, t)
        | Some token \<Rightarrow> (case session_find (en_sha en) (en_now en) token t of
            (None, t1) \<Rightarrow> (False, replicate 32 0, t1)
          | (Some i, t1) \<Rightarrow> (True, s_hash (t1 ! i), t1)))"

definition request_view_only :: "env \<Rightarrow> request \<Rightarrow> table \<Rightarrow> bool \<times> table" where
  "request_view_only en r t =
     (if \<not> en_required en then (False, t)
      else case cookie_token (en_mem en) r 33 of
          None \<Rightarrow> (False, t)
        | Some token \<Rightarrow> (case session_find (en_sha en) (en_now en) token t of
            (None, t1) \<Rightarrow> (False, t1)
          | (Some i, t1) \<Rightarrow> (s_view (t1 ! i), t1)))"

text \<open>http_server.c: the upgrade of a connection to a WebSocket. From then on its descriptor is the credential.\<close>

definition ws_pre_handshake :: "env \<Rightarrow> request \<Rightarrow> table \<times> sockets \<Rightarrow> bool \<times> table \<times> sockets" where
  "ws_pre_handshake en r = (\<lambda>(t, w).
     if \<not> kvm_auth_origin_ok r then (False, t, w)
     else let (ok, t1) = kvm_auth_check en r t
          in if \<not> ok then (False, t1, w)
             else let (_, session, t2) = kvm_auth_session_of en r t1 in (True, t2, mark_socket (rq_fd r) session w))"

section \<open>Properties\<close>

text \<open>The path of the handlers a session with the default password may reach.\<close>

abbreviation auth_path :: "request \<Rightarrow> bool" where
  "auth_path r \<equiv> take 13 (rq_uri r) = ''/api/v1/auth/''"

text \<open>
  C27. What is let in was granted: when signing in is asked for, a request passes only with the token of a sign-in that is
  still in force, it is not a form of another site, a session under the default password reaches the account's own
  handlers only, and a viewer what is on the list for viewers. That holds after any history of the session table.
\<close>

theorem auth_check_granted:
  assumes "kvm_auth_check en r (table_after (en_sha en) junk h) = (True, t')" and "en_required en"
    and "distinct (given h)" and "list_all (\<lambda>tk. length tk = 32) (given h)"
    and "\<And>tk. cookie_token (en_mem en) r 33 = Some tk \<Longrightarrow> hash_tells_apart (en_sha en) (set (named h) \<union> {tk})"
  shows "\<exists>tk must view e. cookie_token (en_mem en) r 33 = Some tk \<and> granted h tk = Some (must, view, e) \<and> en_now en \<le> e \<and>
    write_verdict r = Write_meant \<and> (must \<longrightarrow> auth_path r) \<and> (view \<longrightarrow> view_allowed r)"
proof -
  obtain tk where tk: "cookie_token (en_mem en) r 33 = Some tk" "write_verdict r = Write_meant"
    using assms(1,2) by (auto simp: kvm_auth_check_def split: option.splits if_splits)
  obtain i where i: "session_find (en_sha en) (en_now en) tk (table_after (en_sha en) junk h) = (Some i, t')"
      "s_must (t' ! i) \<longrightarrow> auth_path r" "s_view (t' ! i) \<longrightarrow> view_allowed r"
    using assms(1,2) tk by (auto simp: kvm_auth_check_def split: option.splits if_splits prod.splits)
  show ?thesis using found_granted [OF assms(5) [OF tk(1)] assms(3,4) i(1)] tk i(2,3) by blast
qed

section \<open>Pages of other sites\<close>

text \<open>What the server library documents of the headers of a request: the value, if it fits the buffer.\<close>

definition has_headers :: "request \<Rightarrow> (string \<times> string) list \<Rightarrow> bool" where
  "has_headers r hs \<longleftrightarrow> rq_get r = (\<lambda>n size. case map_of hs n of None \<Rightarrow> None | Some v \<Rightarrow> if length v < size then Some v else None)"

text \<open>A browser names the page's site as scheme and authority; a scheme has no colon.\<close>

definition site_origin :: "string \<Rightarrow> string \<Rightarrow> string" where
  "site_origin scheme authority = scheme @ ''://'' @ authority"

text \<open>
  What a page of another site can have a browser send without asking first: none of our header, and as a content type
  one of three, or none.
\<close>

definition plain_form :: "(string \<times> string) list \<Rightarrow> bool" where
  "plain_form hs \<longleftrightarrow> map_of hs ''X-ESP-KVM'' = None \<and>
     (case map_of hs ''Content-Type'' of
        None \<Rightarrow> True
      | Some v \<Rightarrow> list_ex (\<lambda>t. c_strcaseeq (take (length t) v) t) [''text/plain'', ''multipart/form-data'', ''application/x-www-form-urlencoded''])"

lemma c_strstr_colon: "CHR '':'' \<notin> set a \<Longrightarrow> c_strstr (CHR '':'' # p) (a @ CHR '':'' # p @ b) = Some (CHR '':'' # p @ b)"
  by (induction a) auto

lemma origin_of_site:
  assumes "has_headers r hs" and "map_of hs ''Origin'' = Some (site_origin scheme site)" and "CHR '':'' \<notin> set scheme"
    and "map_of hs ''Host'' = Some host" and "length host < 96" and "length (site_origin scheme site) < 128"
  shows "kvm_auth_origin_ok r \<longleftrightarrow> site = host"
  using assms c_strstr_colon [of scheme "''//''" site]
  by (simp add: kvm_auth_origin_ok_def has_headers_def site_origin_def)

lemma form_unmarked:
  assumes "plain_form hs" and "map_of hs ''Content-Type'' = Some v"
  shows "\<not> c_strcaseeq (take 16 v) ''application/json''"
proof
  assume j: "c_strcaseeq (take 16 v) ''application/json''"
  have at: "c_tolower (v ! i) = c_tolower (t ! i)" if "c_strcaseeq (take n v) t" "i < length t" "i < n" for t i n
  proof -
    from that(1) have m: "map c_tolower (take n v) = map c_tolower t" by (simp add: c_strcaseeq_def)
    then have "length (take n v) = length t" by (rule map_eq_imp_length_eq)
    then show ?thesis using arg_cong [OF m, of "\<lambda>x. x ! i"] that(2,3) by simp
  qed
  have a: "c_tolower (v ! 0) = CHR ''a''" "c_tolower (v ! 12) = CHR ''j''"
    using at [OF j, of 0] at [OF j, of 12] by (simp_all add: c_tolower_def)
  from assms consider "c_strcaseeq (take 10 v) ''text/plain''" | "c_strcaseeq (take 19 v) ''multipart/form-data''"
    | "c_strcaseeq (take 33 v) ''application/x-www-form-urlencoded''" by (auto simp: plain_form_def numeral_eq_Suc)
  then show False
  proof cases
    case 1
    then show False using at [OF 1, of 0] a by (simp add: c_tolower_def)
  next
    case 2
    then show False using at [OF 2, of 0] a by (simp add: c_tolower_def)
  next
    case 3
    then show False using at [OF 3, of 12] a by (simp add: c_tolower_def)
  qed
qed


text \<open>A request that sends the headers of a list, by what the server library documents of its answers.\<close>

definition sent :: "http_method \<Rightarrow> string \<Rightarrow> (string \<times> string) list \<Rightarrow> request" where
  "sent m uri hs = \<lparr>rq_method = m, rq_uri = uri,
     rq_get_len = (\<lambda>n. case map_of hs n of None \<Rightarrow> 0 | Some v \<Rightarrow> length v),
     rq_get = (\<lambda>n size. case map_of hs n of None \<Rightarrow> None | Some v \<Rightarrow> if length v < size then Some v else None), rq_fd = 57\<rparr>"


text \<open>A header too long for its buffer reads as none, and a request with the console's mark then passes for one of the console's.\<close>

lemma long_origin_passes:
  "let hs = [(''Host'', ''kvm.local''), (''Origin'', site_origin ''https'' (replicate 120 CHR ''e'')), (''X-ESP-KVM'', ''1'')]
   in kvm_auth_origin_ok (sent HTTP_GET ''/ws'' hs) \<and> write_verdict (sent HTTP_POST ''/api/v1/settings'' hs) = Write_meant"
  by (simp add: Let_def kvm_auth_origin_ok_def write_verdict_def sent_def site_origin_def)

theorem auth_check_granted_witness:
  "\<exists>tk must view e. cookie_token True (sent HTTP_GET ''/api/v1/log'' [(''Cookie'', ''kvm_session='' @ replicate 32 CHR ''a'')]) 33 = Some tk \<and>
     granted [(5, Sign_in False False (replicate 32 CHR ''a''))] tk = Some (must, view, e) \<and> 7 \<le> e"
proof -
  let ?a = "replicate 32 CHR ''a''" and ?h = "[(5, Sign_in False False (replicate 32 CHR ''a''))]"
  let ?r = "sent HTTP_GET ''/api/v1/log'' [(''Cookie'', ''kvm_session='' @ replicate 32 CHR ''a'')]"
  let ?en = "\<lparr>en_sha = test_sha, en_now = 7, en_mem = True, en_required = True\<rparr>"
  have c: "cookie_token True ?r 33 = Some ?a" by code_simp
  have "case session_find test_sha 7 ?a (table_after test_sha [] ?h) of
      (Some i, t') \<Rightarrow> \<not> s_view (t' ! i) \<and> \<not> s_must (t' ! i) | (None, t') \<Rightarrow> False" by code_simp
  then obtain i t' where f: "session_find test_sha 7 ?a (table_after test_sha [] ?h) = (Some i, t')" "\<not> s_view (t' ! i)" "\<not> s_must (t' ! i)"
    by (auto split: prod.splits option.splits)
  have "write_verdict ?r = Write_meant" by (simp add: write_verdict_def sent_def)
  then have k: "kvm_auth_check ?en ?r (table_after (en_sha ?en) [] ?h) = (True, t')" using c f by (simp add: kvm_auth_check_def)
  have "hash_tells_apart test_sha (set (named ?h) \<union> {?a})"
    by (simp add: hash_tells_apart_def sha_of_def test_sha_def)
  then show ?thesis using auth_check_granted [OF k] c by fastforce
qed

section \<open>The cookie\<close>

text \<open>What a browser sends: its cookies, with a semicolon and a blank between them.\<close>

fun cookie_header :: "string list \<Rightarrow> string" where
  "cookie_header [] = []"
| "cookie_header [c] = c"
| "cookie_header (c # cs) = c @ ''; '' @ cookie_header cs"

definition is_cookie :: "string \<Rightarrow> bool" where
  "is_cookie c \<longleftrightarrow> c \<noteq> [] \<and> hd c \<noteq> CHR '' '' \<and> CHR '';'' \<notin> set c"

definition cookie_ref :: "nat \<Rightarrow> string list \<Rightarrow> string option" where
  "cookie_ref out_len cs =
     (case find (\<lambda>c. take 12 c = cookie_name) cs of
        None \<Rightarrow> None
      | Some c \<Rightarrow> if length (drop 12 c) < out_len then Some (drop 12 c) else None)"

lemma cookie_loop_sep: "p \<noteq> [] \<Longrightarrow> cookie_loop n ('';'' @ '' '' @ p) = cookie_loop n p"
  by (subst (1 2) cookie_loop.simps) (simp add: cookie_sep_def)

lemma cookie_start:
  assumes "is_cookie c" and "rest = [] \<or> hd rest = CHR '';''"
  shows "cookie_loop n (c @ rest) = (if take 12 c = cookie_name
    then (if length (drop 12 c) < n then Some (drop 12 c) else None) else cookie_loop n rest)"
proof -
  have first: "dropWhile cookie_sep (c @ rest) = c @ rest"
    using assms(1) by (cases c) (auto simp: is_cookie_def cookie_sep_def)
  have skip: "dropWhile (\<lambda>x. x \<noteq> CHR '';'') (c @ rest) = rest"
  proof -
    have "dropWhile (\<lambda>x. x \<noteq> CHR '';'') (c @ rest) = dropWhile (\<lambda>x. x \<noteq> CHR '';'') rest"
      using assms(1) by (intro dropWhile_append2) (auto simp: is_cookie_def)
    then show ?thesis using assms(2) by (cases rest) simp_all
  qed
  have name: "length cookie_name = 12" "CHR '';'' \<notin> set cookie_name" by (simp_all add: cookie_name_def)
  have same: "take 12 (c @ rest) = cookie_name \<longleftrightarrow> take 12 c = cookie_name"
  proof (cases "length c < 12")
    case True
    have "take 12 c \<noteq> cookie_name" using True name(1) by auto
    moreover have "take 12 (c @ rest) \<noteq> cookie_name"
    proof (cases rest)
      case Nil
      then show ?thesis using True name(1) by auto
    next
      case (Cons x xs)
      then have "CHR '';'' \<in> set (take 12 (c @ rest))" using True assms(2) by (simp add: take_Cons')
      then show ?thesis using name(2) by metis
    qed
    ultimately show ?thesis by blast
  qed simp
  have val: "takeWhile (\<lambda>x. x \<noteq> CHR '';'') (drop 12 (c @ rest)) = drop 12 c" if "take 12 c = cookie_name"
  proof -
    have "12 \<le> length c" using that name(1) by (metis length_take min.absorb_iff2 nat_le_linear)
    then have "drop 12 (c @ rest) = drop 12 c @ rest" by simp
    moreover have "\<forall>x \<in> set (drop 12 c). x \<noteq> CHR '';''" using assms(1) by (auto simp: is_cookie_def dest: in_set_dropD)
    ultimately show ?thesis using assms(2) by (cases rest) (simp_all add: takeWhile_append2)
  qed
  have "c @ rest \<noteq> []" using assms(1) by (simp add: is_cookie_def)
  then have "cookie_loop n (c @ rest) = (if take 12 c = cookie_name
    then (let v = takeWhile (\<lambda>x. x \<noteq> CHR '';'') (drop 12 (c @ rest)) in if length v < n then Some v else None)
    else cookie_loop n rest)"
    unfolding cookie_loop.simps [of n "c @ rest"] first Let_def same skip by (simp only: if_False)
  then show ?thesis unfolding Let_def using val by presburger
qed

text \<open>
  Our cookie is found wherever it stands among the browser's: the loop over the header gives what looking
  through the list of cookies gives, and nothing when ours is too long for its buffer.
\<close>

theorem cookie_loop_ref:
  assumes "list_all is_cookie cs"
  shows "cookie_loop out_len (cookie_header cs) = cookie_ref out_len cs"
  using assms
proof (induction cs rule: cookie_header.induct)
  case 1
  show ?case by (subst cookie_loop.simps) (simp add: cookie_ref_def)
next
  case (2 c)
  have "cookie_loop out_len [] = None" by (subst cookie_loop.simps) simp
  then show ?case using cookie_start [of c "[]" out_len] 2 by (simp add: cookie_ref_def)
next
  case (3 c d cs)
  have "cookie_header (d # cs) \<noteq> []" using "3.prems" by (cases cs) (auto simp: is_cookie_def)
  then have "cookie_loop out_len (''; '' @ cookie_header (d # cs)) = cookie_loop out_len (cookie_header (d # cs))"
    using cookie_loop_sep by simp
  then have "cookie_loop out_len (cookie_header (c # d # cs)) = (if take 12 c = cookie_name
      then (if length (drop 12 c) < out_len then Some (drop 12 c) else None) else cookie_ref out_len (d # cs))"
    using cookie_start [of c "''; '' @ cookie_header (d # cs)" out_len] 3 by simp
  then show ?case by (simp add: cookie_ref_def)
qed

theorem cookie_loop_ref_witness:
  "cookie_loop 33 ''theme=dark; kvm_session=0123; a=b'' = Some ''0123''"
  using cookie_loop_ref [of "[''theme=dark'', ''kvm_session=0123'', ''a=b'']" 33]
  by (simp add: is_cookie_def cookie_ref_def cookie_name_def)

end
