(* ===== verification/Account.thy ===== *)
theory Account
  imports Auth
begin

text \<open>
  components/kvm_web/auth.c, the handlers of /api/v1/auth: signing in and out, the owner's and the viewer's
  password, setting up the second factor. Their state is the module's variables. A body that could not be read or
  lacks a field is \<open>None\<close>; \<open>stored\<close> says whether the flash took what it was given, \<open>mem\<close> whether there was memory for the answer. The random bytes a handler
  draws are its arguments. The outer option is the padding loop of SHA-1.
\<close>

section \<open>The state and the passwords\<close>

record account =
  ac_table :: table
  ac_socks :: sockets
  ac_fa :: two_fa
  ac_totp_on :: bool
  ac_failures :: u32
  ac_have :: bool
  ac_salt :: bytes
  ac_hash :: bytes
  ac_iter :: u32
  ac_have_viewer :: bool
  ac_vsalt :: bytes
  ac_vhash :: bytes
  ac_enroll :: bytes
  ac_enroll_until :: int

definition password_matches :: "sha256 \<Rightarrow> account \<Rightarrow> string \<Rightarrow> bool" where
  "password_matches sha st pw =
     (if \<not> ac_have st then pw = ''admin''
      else case pbkdf2 sha pw (ac_salt st) (ac_iter st) 32 of None \<Rightarrow> False | Some c \<Rightarrow> equal_ct c (ac_hash st) 32)"

definition viewer_matches :: "sha256 \<Rightarrow> account \<Rightarrow> string \<Rightarrow> bool" where
  "viewer_matches sha st pw =
     (if \<not> ac_have_viewer st \<or> \<not> ac_have st then False
      else case pbkdf2 sha pw (ac_vsalt st) 2500 32 of None \<Rightarrow> False | Some c \<Rightarrow> equal_ct c (ac_vhash st) 32)"

definition store_password :: "sha256 \<Rightarrow> bool \<Rightarrow> bytes \<Rightarrow> string \<Rightarrow> account \<Rightarrow> account option" where
  "store_password sha stored salt pw st = do {
     h \<leftarrow> pbkdf2 sha pw salt 2500 32;
     if stored then Some (st\<lparr>ac_salt := salt, ac_hash := h, ac_iter := 2500, ac_have := True\<rparr>) else None
   }"

text \<open>The viewer's password, or none: then it is removed.\<close>

definition store_viewer :: "sha256 \<Rightarrow> bool \<Rightarrow> bytes \<Rightarrow> string option \<Rightarrow> account \<Rightarrow> account option" where
  "store_viewer sha stored salt pw st =
     (case pw of
        None \<Rightarrow> (if stored then Some (st\<lparr>ac_vsalt := replicate 16 0, ac_vhash := replicate 32 0, ac_have_viewer := False\<rparr>) else None)
      | Some p \<Rightarrow> (case pbkdf2 sha p salt 2500 32 of
          None \<Rightarrow> None
        | Some h \<Rightarrow> (if stored then Some (st\<lparr>ac_vsalt := salt, ac_vhash := h, ac_have_viewer := True\<rparr>) else None)))"

section \<open>Signing in and out\<close>

text \<open>Milliseconds to wait before an answer, after so many failures in a row.\<close>

definition login_delay :: "u32 \<Rightarrow> u32" where
  "login_delay failures =
     (if failures > 3
      then let d = push_bit (unat (if failures - 4 > 5 then 5 else failures - 4)) 500 in if d > 15000 then 15000 else d
      else 0)"

datatype login_reply = Malformed | Wrong_login | Need_code | Wrong_code | Logged_in string bool

definition auth_login_post ::
    "env \<Rightarrow> bytes \<Rightarrow> bytes \<Rightarrow> string \<Rightarrow> (string \<times> string \<times> string \<times> int) option \<Rightarrow> int \<Rightarrow> account \<Rightarrow> (login_reply \<times> account) option" where
  "auth_login_post en junk raw sec_user body now st =
     (case body of
        None \<Rightarrow> Some (Malformed, st)
      | Some (user, password, code, browser_time) \<Rightarrow>
          (let owner = (user = sec_user \<and> password_matches (en_sha en) st password);
               viewer = (\<not> owner \<and> user = ''viewer'' \<and> viewer_matches (en_sha en) st password);
               wrong = st\<lparr>ac_failures := ac_failures st + 1\<rparr>;
               enter = (\<lambda>s. let token = token_text raw; must = owner \<and> \<not> ac_have s
                  in (Logged_in token must,
                      s\<lparr>ac_failures := 0, ac_table := session_create (en_sha en) (en_now en) junk must viewer token (ac_table s)\<rparr>))
           in if \<not> owner \<and> \<not> viewer then Some (Wrong_login, wrong)
              else if owner \<and> ac_totp_on st \<and> ac_have st
              then if code = [] then Some (Need_code, st)
                   else do {
                     (ok, fa) \<leftarrow> second_factor_ok (en_sha en) now browser_time code (ac_fa st);
                     Some (if ok then enter (st\<lparr>ac_fa := fa\<rparr>) else (Wrong_code, wrong\<lparr>ac_fa := fa\<rparr>))
                   }
              else Some (enter st)))"

definition auth_logout_post :: "env \<Rightarrow> request \<Rightarrow> account \<Rightarrow> account" where
  "auth_logout_post en r st =
     (case cookie_token (en_mem en) r 33 of
        None \<Rightarrow> st
      | Some token \<Rightarrow> st\<lparr>ac_table := session_drop (en_sha en) (en_now en) token (ac_table st)\<rparr>)"

section \<open>The handlers that change the account\<close>

datatype reply = Challenge | R200 | R400 | R403 | R409 | R500

text \<open>
  A new password. \<open>net_bad\<close>: the choice of a network that the first password has to come with is missing or
  not valid.
\<close>

definition auth_password_post ::
    "env \<Rightarrow> request \<Rightarrow> bool \<Rightarrow> bytes \<Rightarrow> (string \<times> string) option \<Rightarrow> bool \<Rightarrow> account \<Rightarrow> reply \<times> account" where
  "auth_password_post en r stored salt body net_bad st =
     (let (ok, t) = kvm_auth_check en r (ac_table st); st = st\<lparr>ac_table := t\<rparr>
      in if \<not> ok then (Challenge, st)
         else case body of
             None \<Rightarrow> (R400, st)
           | Some (current, new) \<Rightarrow>
               (if length new < 8 \<or> net_bad then (R400, st)
                else if \<not> password_matches (en_sha en) st current then (R403, st)
                else case store_password (en_sha en) stored salt new st of
                    None \<Rightarrow> (R500, st)
                  | Some st1 \<Rightarrow> (let (t2, w2) = session_clear_all (ac_table st1, ac_socks st1)
                      in (R200, st1\<lparr>ac_table := t2, ac_socks := w2\<rparr>))))"

definition auth_viewer_post ::
    "env \<Rightarrow> request \<Rightarrow> bool \<Rightarrow> bytes \<Rightarrow> (string \<times> string) option \<Rightarrow> account \<Rightarrow> reply \<times> account" where
  "auth_viewer_post en r stored salt body st =
     (let (ok, t) = kvm_auth_check en r (ac_table st); st = st\<lparr>ac_table := t\<rparr>
      in if \<not> ok then (Challenge, st)
         else if \<not> ac_have st then (R409, st)
         else case body of
             None \<Rightarrow> (R400, st)
           | Some (current, new) \<Rightarrow>
               (if new \<noteq> [] \<and> length new < 8 then (R400, st)
                else if \<not> password_matches (en_sha en) st current then (R403, st)
                else if new \<noteq> [] \<and> password_matches (en_sha en) st new then (R400, st)
                else case store_viewer (en_sha en) stored salt (if new = [] then None else Some new) st of
                    None \<Rightarrow> (R500, st)
                  | Some st1 \<Rightarrow> (R200, st1\<lparr>ac_table := map (\<lambda>s. if s_view s then no_session else s) (ac_table st1)\<rparr>)))"

definition auth_2fa_begin_post :: "env \<Rightarrow> request \<Rightarrow> bool \<Rightarrow> bytes \<Rightarrow> account \<Rightarrow> reply \<times> account" where
  "auth_2fa_begin_post en r mem secret st =
     (let (ok, t) = kvm_auth_check en r (ac_table st); st = st\<lparr>ac_table := t\<rparr>
      in if \<not> ok then (Challenge, st)
         else if \<not> ac_have st then (R409, st)
         else (if mem then R200 else R500, st\<lparr>ac_enroll := secret, ac_enroll_until := en_now en + 10 * 60 * 1000000\<rparr>))"

text \<open>The password and the code of a request: the reply that ends it, or the code.\<close>

definition read_pw_and_code ::
    "sha256 \<Rightarrow> (string \<times> string \<times> int) option \<Rightarrow> account \<Rightarrow> (reply + string \<times> int) \<times> account" where
  "read_pw_and_code sha body st =
     (case body of
        None \<Rightarrow> (Inl R400, st)
      | Some (password, code, bt) \<Rightarrow>
          (if password_matches sha st password then (Inr (code, bt), st)
           else (Inl R403, st\<lparr>ac_failures := ac_failures st + 1\<rparr>)))"

text \<open>\<open>atoi\<close>.\<close>

definition c_atoi :: "string \<Rightarrow> int" where
  "c_atoi s = fst (strtol s)"

definition auth_2fa_enable_post ::
    "env \<Rightarrow> request \<Rightarrow> bool \<Rightarrow> bool \<Rightarrow> bool \<Rightarrow> bytes list \<Rightarrow> (string \<times> string \<times> int) option \<Rightarrow> int \<Rightarrow> account \<Rightarrow> (reply \<times> account) option" where
  "auth_2fa_enable_post en r mem stored codes_stored rnd body now st =
     (let (ok, t) = kvm_auth_check en r (ac_table st); st = st\<lparr>ac_table := t\<rparr>
      in if \<not> ok then Some (Challenge, st)
         else if \<not> ac_have st then Some (R409, st)
         else case read_pw_and_code (en_sha en) body st of
             (Inl rep, st1) \<Rightarrow> Some (rep, st1)
           | (Inr (code, bt), st1) \<Rightarrow>
               (if \<not> ac_enroll_until st1 > en_now en then Some (R409, st1)
                else let ct = code_time now bt
                     in if ct = 0 then Some (R403, st1)
                        else do {
                          r \<leftarrow> totp_check (ac_enroll st1) ct (of_int (c_atoi code)) 0;
                          Some (case r of
                              None \<Rightarrow> (R403, st1)
                            | Some used \<Rightarrow>
                                (if \<not> stored then (R500, st1)
                                 else case rcodes_make (en_sha en) codes_stored rnd (ac_fa st1) of
                                     None \<Rightarrow> (R500, st1)
                                   | Some (shown, fa) \<Rightarrow>
                                       (if \<not> mem then (R500, st1\<lparr>ac_fa := fa\<rparr>)
                                        else (R200, st1\<lparr>ac_fa := fa\<lparr>tf_secret := ac_enroll st1, tf_last := used\<rparr>, ac_totp_on := True,
                                          ac_enroll := replicate 20 0, ac_enroll_until := 0\<rparr>))))
                        }))"

definition auth_2fa_change ::
    "env \<Rightarrow> request \<Rightarrow> bool \<Rightarrow> bool \<Rightarrow> bytes list \<Rightarrow> (string \<times> string \<times> int) option \<Rightarrow> int \<Rightarrow> account \<Rightarrow> (reply \<times> account) option" where
  "auth_2fa_change en r disable stored rnd body now st =
     (let (ok, t) = kvm_auth_check en r (ac_table st); st = st\<lparr>ac_table := t\<rparr>
      in if \<not> ok then Some (Challenge, st)
         else if \<not> ac_totp_on st then Some (R409, st)
         else case read_pw_and_code (en_sha en) body st of
             (Inl rep, st1) \<Rightarrow> Some (rep, st1)
           | (Inr (code, bt), st1) \<Rightarrow> do {
               (ok, fa) \<leftarrow> second_factor_ok (en_sha en) now bt code (ac_fa st1);
               let st2 = st1\<lparr>ac_fa := fa\<rparr>;
               Some (if \<not> ok then (R403, st2)
                 else if disable
                 then (R200, st2\<lparr>ac_totp_on := False,
                         ac_fa := \<lparr>tf_secret = replicate 20 0, tf_last = 0, tf_rcodes = replicate 8 no_hash\<rparr>\<rparr>)
                 else case rcodes_make (en_sha en) stored rnd (ac_fa st2) of
                     None \<Rightarrow> (R500, st2)
                   | Some (shown, fa2) \<Rightarrow> (R200, st2\<lparr>ac_fa := fa2\<rparr>))
             })"

text \<open>The reset button: the device is as new. The WebSockets are not part of it.\<close>

definition auth_clear :: "account \<Rightarrow> account" where
  "auth_clear st = st\<lparr>ac_hash := replicate 32 0, ac_salt := replicate 16 0, ac_have := False,
     ac_vhash := replicate 32 0, ac_vsalt := replicate 16 0, ac_have_viewer := False, ac_failures := 0,
     ac_table := sessions_empty, ac_totp_on := False,
     ac_fa := \<lparr>tf_secret = replicate 20 0, tf_last = 0, tf_rcodes = replicate 8 no_hash\<rparr>\<rparr>"

section \<open>Properties\<close>

lemma token_text_length: "length (token_text raw) = 2 * length raw"
  by (induction raw) (simp_all add: token_text_def)

text \<open>
  What \<open>auth_login_post\<close> asks for: it makes a session for the owner's password - with a second factor not used before, when
  that is on - or, without one, for the viewer's, and then one that may only watch; an attempt that fails makes none, uses no
  factor up, and counts.
\<close>

theorem login_takes_factors:
  assumes "codes_ok (ac_fa st)" and "auth_login_post en junk raw sec_user (Some (user, pw, code, bt)) now st = Some (reply, st')"
  shows "(case reply of
      Logged_in token must \<Rightarrow> ac_failures st' = 0 \<and> token = token_text raw \<and>
        (user = sec_user \<and> password_matches (en_sha en) st pw \<and> must = (\<not> ac_have st) \<and>
           (ac_totp_on st \<and> ac_have st \<longrightarrow> (\<exists>k. use k (ac_fa st) = (True, ac_fa st'))) \<and>
           ac_table st' = session_create (en_sha en) (en_now en) junk must False token (ac_table st) \<or>
         user = ''viewer'' \<and> viewer_matches (en_sha en) st pw \<and> \<not> must \<and> ac_fa st' = ac_fa st \<and>
           ac_table st' = session_create (en_sha en) (en_now en) junk False True token (ac_table st))
    | Need_code \<Rightarrow> st' = st
    | _ \<Rightarrow> st' = st\<lparr>ac_failures := ac_failures st + 1\<rparr>)"
proof -
  obtain ok fa where f: "second_factor_ok (en_sha en) now bt code (ac_fa st) = Some (ok, fa)"
      "if ok then \<exists>k. use k (ac_fa st) = (True, fa) else fa = ac_fa st"
    using second_factor_use [OF assms(1)] by blast
  define owner where "owner = (user = sec_user \<and> password_matches (en_sha en) st pw)"
  define viewer where "viewer = (\<not> owner \<and> user = ''viewer'' \<and> viewer_matches (en_sha en) st pw)"
  note step = assms(2) [unfolded auth_login_post_def option.case prod.case Let_def, folded owner_def, folded viewer_def]
  consider (wrong) "\<not> owner" "\<not> viewer" | (ask) "owner" "ac_totp_on st \<and> ac_have st" "code = []"
    | (code) "owner" "ac_totp_on st \<and> ac_have st" "code \<noteq> []" | (plain) "owner" "\<not> (ac_totp_on st \<and> ac_have st)"
    | (watch) "\<not> owner" "viewer" by blast
  then show ?thesis
  proof cases
    case code
    then have v: "\<not> viewer" by (simp add: viewer_def)
    show ?thesis
    proof (cases ok)
      case True
      then show ?thesis using step code f v owner_def by auto
    next
      case False
      then show ?thesis using step code f v by auto
    qed
  next
    case plain
    then have v: "\<not> viewer" by (simp add: viewer_def)
    then show ?thesis using step plain owner_def by auto
  next
    case watch
    then show ?thesis using step viewer_def by auto
  qed (use step in auto)
qed

definition no_account :: account where
  "no_account = \<lparr>ac_table = sessions_empty, ac_socks = no_sockets,
     ac_fa = \<lparr>tf_secret = replicate 20 0, tf_last = 0, tf_rcodes = replicate 8 no_hash\<rparr>, ac_totp_on = False, ac_failures = 0, ac_have = False,
     ac_salt = replicate 16 0, ac_hash = replicate 32 0, ac_iter = 0, ac_have_viewer = False, ac_vsalt = replicate 16 0,
     ac_vhash = replicate 32 0, ac_enroll = replicate 20 0, ac_enroll_until = 0\<rparr>"

text \<open>
  The wait between wrong passwords grows with their number up to fifteen seconds, from the fourth on, and never
  shrinks until one is right.
\<close>

theorem login_delay_grows: "login_delay a \<le> 15000 \<and> (a \<le> b \<longrightarrow> login_delay a \<le> login_delay b) \<and> (login_delay a = 0 \<longleftrightarrow> a \<le> 3)"
proof -
  have f: "login_delay a = (if unat a \<le> 3 then 0 else if unat a = 4 then 500 else if unat a = 5 then 1000
      else if unat a = 6 then 2000 else if unat a = 7 then 4000 else if unat a = 8 then 8000 else 15000)" for a
  proof (cases "unat a \<le> 3")
    case True
    then show ?thesis by (simp add: login_delay_def word_less_nat_alt not_less)
  next
    case False
    then have "3 < a" by (simp add: word_less_nat_alt)
    moreover have d: "unat (a - 4) = unat a - 4" using False by (simp add: unat_sub word_le_nat_alt)
    ultimately have e: "login_delay a = (let d = push_bit (if unat a - 4 > 5 then 5 else unat a - 4) 500 in if d > 15000 then 15000 else d)"
      by (simp add: login_delay_def word_less_nat_alt d if_distrib [of unat])
    consider "unat a = 4" | "unat a = 5" | "unat a = 6" | "unat a = 7" | "unat a = 8" | "unat a = 9" | "9 < unat a" using False by linarith
    then show ?thesis unfolding e by cases (simp_all add: push_bit_eq_mult Let_def)
  qed
  show ?thesis unfolding f by (auto simp: word_le_nat_alt)
qed

theorem login_delay_grows_witness: "login_delay 5 \<le> login_delay 9"
  using login_delay_grows [of 5 9] by simp

text \<open>The passwords do not depend on the rest of the state.\<close>

lemma password_matches_frame [simp]:
  "password_matches sha (st\<lparr>ac_table := t\<rparr>) = password_matches sha st"
  "password_matches sha (st\<lparr>ac_socks := w\<rparr>) = password_matches sha st"
  "password_matches sha (st\<lparr>ac_fa := fa\<rparr>) = password_matches sha st"
  by (simp_all add: password_matches_def fun_eq_iff split: option.split)

text \<open>A request on the account that passed the check came from the owner's session.\<close>

lemma not_for_viewers:
  assumes "kvm_auth_check en r (table_after (en_sha en) junk h) = (True, t')" and "en_required en" and "\<not> view_allowed r"
    and "distinct (given h)" and "list_all (\<lambda>tk. length tk = 32) (given h)"
    and "\<And>tk. cookie_token (en_mem en) r 33 = Some tk \<Longrightarrow> hash_tells_apart (en_sha en) (set (named h) \<union> {tk})"
  shows "\<exists>tk must e. cookie_token (en_mem en) r 33 = Some tk \<and> granted h tk = Some (must, False, e) \<and> en_now en \<le> e"
proof -
  obtain tk where tk: "cookie_token (en_mem en) r 33 = Some tk"
    using assms(1,2) by (auto simp: kvm_auth_check_def split: option.splits if_splits)
  obtain i where i: "session_find (en_sha en) (en_now en) tk (table_after (en_sha en) junk h) = (Some i, t')" "\<not> s_view (t' ! i)"
    using assms(1,2,3) tk by (auto simp: kvm_auth_check_def split: option.splits if_splits prod.splits)
  show ?thesis using found_granted [OF assms(6) [OF tk] assms(4,5) i(1)] tk i(2) by auto
qed

lemma equal_ct_self: "equal_ct h h n"
  unfolding equal_ct_def by (induction n) simp_all

lemma stored_password_matches:
  assumes "store_password sha stored salt pw st = Some st'"
  shows "password_matches sha st' pw \<and> ac_table st' = ac_table st \<and> ac_socks st' = ac_socks st"
  using assms by (auto simp: store_password_def password_matches_def equal_ct_self split: bind_splits if_splits)

text \<open>
  C30. The password is changed only by someone who knows it, with a session of the owner's that is in force, and
  to one of eight characters or more; from then on the new one is the password, and no session and no socket of before
  is worth anything.
\<close>

theorem password_change:
  assumes "auth_password_post en r stored salt (Some (current, new)) net_bad st = (R200, st')"
    and "en_required en" and "\<not> view_allowed r"
    and "ac_table st = table_after (en_sha en) junk h" and "distinct (given h)" and "list_all (\<lambda>tk. length tk = 32) (given h)"
    and "\<And>tk. cookie_token (en_mem en) r 33 = Some tk \<Longrightarrow> hash_tells_apart (en_sha en) (set (named h) \<union> {tk})"
  shows "8 \<le> length new \<and> password_matches (en_sha en) st current \<and> password_matches (en_sha en) st' new \<and>
    (\<exists>tk must e. cookie_token (en_mem en) r 33 = Some tk \<and> granted h tk = Some (must, False, e) \<and> en_now en \<le> e) \<and>
    ac_table st' = sessions_empty \<and> \<not> socket_ok True fd (ac_socks st')"
proof -
  obtain t where ok: "kvm_auth_check en r (table_after (en_sha en) junk h) = (True, t)"
    using assms(1) unfolding assms(4) [symmetric]
    by (cases "kvm_auth_check en r (ac_table st)") (auto simp: auth_password_post_def Let_def split: if_splits)
  obtain st1 where s: "8 \<le> length new" "password_matches (en_sha en) (st\<lparr>ac_table := t\<rparr>) current"
      "store_password (en_sha en) stored salt new (st\<lparr>ac_table := t\<rparr>) = Some st1"
      "st' = st1\<lparr>ac_table := sessions_empty, ac_socks := (ac_socks st1)\<lparr>ws_authed := replicate 8 (-1)\<rparr>\<rparr>"
    using assms(1) ok unfolding assms(4) [symmetric]
    by (auto simp: auth_password_post_def Let_def session_clear_all_def split: if_splits option.splits)
  have "\<not> socket_ok True fd (ac_socks st')"
    by (auto simp: s(4) socket_ok_def find_None_iff)
  then show ?thesis using s stored_password_matches [OF s(3)] not_for_viewers [OF ok assms(2,3,5-7)] by simp
qed

text \<open>
  C29. A session that may only watch changes nothing about the account: each of its handlers refuses it, and leaves
  the account as it was but for when the session was last used.
\<close>

theorem viewer_changes_nothing:
  assumes "en_required en" and "rq_method r = HTTP_POST" and "take 13 (rq_uri r) = ''/api/v1/auth/''"
    and "\<not> path_is (rq_uri r) ''/api/v1/auth/logout''"
    and "cookie_token (en_mem en) r 33 = Some tk" and "session_find (en_sha en) (en_now en) tk (ac_table st) = (Some i, t)" and "s_view (t ! i)"
  shows "\<exists>t'. t' \<in> {ac_table st, t} \<and>
    auth_password_post en r stored salt pws net_bad st = (Challenge, st\<lparr>ac_table := t'\<rparr>) \<and>
    auth_viewer_post en r stored salt pws st = (Challenge, st\<lparr>ac_table := t'\<rparr>) \<and>
    auth_2fa_begin_post en r mem salt st = (Challenge, st\<lparr>ac_table := t'\<rparr>) \<and>
    auth_2fa_enable_post en r mem stored codes_stored rnd body now st = Some (Challenge, st\<lparr>ac_table := t'\<rparr>) \<and>
    auth_2fa_change en r disable stored rnd body now st = Some (Challenge, st\<lparr>ac_table := t'\<rparr>)"
proof -
  have "take 14 (rq_uri r) \<noteq> ''/api/v1/webrtc''"
  proof
    assume "take 14 (rq_uri r) = ''/api/v1/webrtc''"
    then have "take 13 (take 14 (rq_uri r)) = ''/api/v1/webrt''" by simp
    then show False using assms(3) by simp
  qed
  then have v: "\<not> view_allowed r" using assms(2,4) by (simp add: view_allowed_def)
  have "kvm_auth_check en r (ac_table st) = (False, if write_verdict r = Write_meant then t else ac_table st)"
    using assms(1,5-7) v by (simp add: kvm_auth_check_def)
  then obtain t' where "kvm_auth_check en r (ac_table st) = (False, t')" "t' \<in> {ac_table st, t}"
    by (cases "write_verdict r = Write_meant") simp_all
  then show ?thesis
    by (auto simp: auth_password_post_def auth_viewer_post_def auth_2fa_begin_post_def auth_2fa_enable_post_def auth_2fa_change_def)
qed

text \<open>
  What the reply to a request to turn the second factor on depends on: not on the one that is on. So a password and an
  owner's session replace a second factor without a code of it.
\<close>

lemma rcodes_make_fails: "rcodes_make sha stored rnd fa = None \<longleftrightarrow> rcodes_make sha stored rnd fa' = None"
  by (simp add: rcodes_make_def Let_def split: bind_splits)

lemma enable_asks_no_old_factor:
  "map_option fst (auth_2fa_enable_post en r mem stored codes_stored rnd body now (st\<lparr>ac_fa := fa\<rparr>)) =
   map_option fst (auth_2fa_enable_post en r mem stored codes_stored rnd body now st)"
proof -
  obtain ok t where c: "kvm_auth_check en r (ac_table st) = (ok, t)" by force
  show ?thesis
  proof (cases "ok \<and> ac_have st \<and> en_now en < ac_enroll_until st")
    case True
    show ?thesis
    proof (cases body)
      case (Some b)
      obtain pw code bt where b: "b = (pw, code, bt)" by (metis prod_cases3)
      obtain u where u: "totp_check (ac_enroll st) (code_time now bt) (of_int (c_atoi code)) 0 = Some u"
        using totp_check_find by blast
      show ?thesis
      proof (cases u)
        case (Some v)
        show ?thesis
        proof (cases "rcodes_make (en_sha en) codes_stored rnd fa")
          case None
          then have "rcodes_make (en_sha en) codes_stored rnd (ac_fa st) = None" by (subst rcodes_make_fails)
          then show ?thesis using True c u Some None \<open>body = Some b\<close> b
            by (simp add: Let_def auth_2fa_enable_post_def read_pw_and_code_def)
        next
          case (Some x)
          then have "rcodes_make (en_sha en) codes_stored rnd (ac_fa st) \<noteq> None" by (subst rcodes_make_fails [of _ _ _ _ fa]) simp
          then show ?thesis using True c u \<open>u = Some v\<close> Some \<open>body = Some b\<close> b
            by (auto simp: Let_def auth_2fa_enable_post_def read_pw_and_code_def split: prod.splits)
        qed
      qed (use True c u \<open>body = Some b\<close> b in \<open>simp add: Let_def auth_2fa_enable_post_def read_pw_and_code_def\<close>)
    qed (use True c in \<open>simp add: Let_def auth_2fa_enable_post_def read_pw_and_code_def\<close>)
  next
    case False
    then show ?thesis using c
      by (auto simp: auth_2fa_enable_post_def read_pw_and_code_def Let_def split: option.splits sum.splits prod.splits)
  qed
qed

text \<open>The state after a sign-in at 5 with the default password, by the owner or by the viewer.\<close>

definition signed_in :: "bool \<Rightarrow> account" where
  "signed_in view = no_account\<lparr>ac_table := table_after test_sha [] [(5, Sign_in False view (replicate 32 CHR ''a''))]\<rparr>"

abbreviation asked :: request where
  "asked \<equiv> sent HTTP_POST ''/api/v1/auth/password''
     [(''Cookie'', ''kvm_session='' @ replicate 32 CHR ''a''), (''Content-Type'', ''application/json; charset=utf-8'')]"

lemma test_sha_tells_one: "hash_tells_apart test_sha (set (named [(5, Sign_in False view tk)]) \<union> {tk})"
  by (simp add: hash_tells_apart_def sha_of_def test_sha_def)

lemma asked_cookie: "cookie_token True asked 33 = Some (replicate 32 CHR ''a'')"
  by code_simp

lemma asked_found:
  "\<exists>i t. session_find test_sha 7 (replicate 32 CHR ''a'') (ac_table (signed_in view)) = (Some i, t) \<and> s_view (t ! i) = view \<and> \<not> s_must (t ! i)"
proof (cases view)
  case True
  have "case session_find test_sha 7 (replicate 32 CHR ''a'') (table_after test_sha [] [(5, Sign_in False True (replicate 32 CHR ''a''))]) of
      (Some i, t) \<Rightarrow> s_view (t ! i) \<and> \<not> s_must (t ! i) | (None, t) \<Rightarrow> False" by code_simp
  then show ?thesis using True by (auto simp: signed_in_def split: prod.splits option.splits)
next
  case False
  have "case session_find test_sha 7 (replicate 32 CHR ''a'') (table_after test_sha [] [(5, Sign_in False False (replicate 32 CHR ''a''))]) of
      (Some i, t) \<Rightarrow> \<not> s_view (t ! i) \<and> \<not> s_must (t ! i) | (None, t) \<Rightarrow> False" by code_simp
  then show ?thesis using False by (auto simp: signed_in_def split: prod.splits option.splits)
qed

theorem viewer_changes_nothing_witness:
  "\<exists>t'. auth_password_post \<lparr>en_sha = test_sha, en_now = 7, en_mem = True, en_required = True\<rparr> asked True [] (Some (''admin'', ''correct horse'')) False (signed_in True) =
     (Challenge, (signed_in True)\<lparr>ac_table := t'\<rparr>)"
proof -
  obtain i t where "session_find test_sha 7 (replicate 32 CHR ''a'') (ac_table (signed_in True)) = (Some i, t)" "s_view (t ! i)"
    using asked_found [of True] by blast
  with viewer_changes_nothing [of "\<lparr>en_sha = test_sha, en_now = 7, en_mem = True, en_required = True\<rparr>" asked
      "replicate 32 CHR ''a''" "signed_in True" i t True "[]" "Some (''admin'', ''correct horse'')" False] asked_cookie
  show ?thesis by (fastforce simp: sent_def path_is_def)
qed

theorem password_change_witness:
  "\<exists>st'. auth_password_post \<lparr>en_sha = test_sha, en_now = 7, en_mem = True, en_required = True\<rparr> asked True [] (Some (''admin'', ''correct horse'')) False (signed_in False) =
     (R200, st') \<and> password_matches test_sha st' ''correct horse''"
proof -
  let ?en = "\<lparr>en_sha = test_sha, en_now = 7, en_mem = True, en_required = True\<rparr>" and ?st = "signed_in False"
  obtain i t where f: "session_find test_sha 7 (replicate 32 CHR ''a'') (ac_table ?st) = (Some i, t)" "\<not> s_view (t ! i)" "\<not> s_must (t ! i)"
    using asked_found [of False] by blast
  have "write_verdict asked = Write_meant" by code_simp
  then have c: "kvm_auth_check ?en asked (ac_table ?st) = (True, t)" using asked_cookie f by (simp add: kvm_auth_check_def)
  have "test_sha = Some \<circ> (the \<circ> test_sha)" by (simp add: fun_eq_iff test_sha_def)
  moreover have "length ((the \<circ> test_sha) m) = 32" for m by (simp add: test_sha_def)
  ultimately obtain k where k: "pbkdf2 test_sha ''correct horse'' [] 2500 32 = Some k"
    using pbkdf2_spec [of "the \<circ> test_sha" "[]" 2500 32 "''correct horse''"] by auto
  obtain st' where st': "auth_password_post ?en asked True [] (Some (''admin'', ''correct horse'')) False ?st = (R200, st')"
    using c k by (simp add: auth_password_post_def Let_def signed_in_def password_matches_def no_account_def store_password_def session_clear_all_def)
  have v: "\<not> view_allowed asked" by code_simp
  have "password_matches test_sha st' ''correct horse''"
    using password_change [OF st' _ v, of "[]" "[(5, Sign_in False False (replicate 32 CHR ''a''))]"] asked_cookie test_sha_tells_one
    by (simp add: signed_in_def)
  then show ?thesis using st' by blast
qed

end
