(* ===== verification/Guests.thy ===== *)
theory Guests
  imports Account
begin

text \<open>
  components/kvm_web/auth.c, the ways in without the owner's password: the token that opens the picture and nothing
  else, and the sign-in of a browser on the owner's tailnet; and the answer that tells a console who it is. The blob
  in flash is the token's SHA-256. \<open>url_token\<close> is what the server library's two calls find under \<open>token\<close>
  in the query, \<open>peer\<close> the user whom the VPN client names for the address of the connection. At the end
  all handlers of the accounts are put together: which of them make a session, and for what.
\<close>

section \<open>The viewing token\<close>

definition kvm_auth_token_create :: "sha256 \<Rightarrow> bool \<Rightarrow> bytes \<Rightarrow> bytes option \<Rightarrow> string option \<times> bytes option" where
  "kvm_auth_token_create sha stored raw vt =
     (let out = token_text raw
      in case sha_of sha out of
          None \<Rightarrow> (None, vt)
        | Some digest \<Rightarrow> (if stored then (Some out, Some digest) else (None, vt)))"

definition kvm_auth_token_revoke :: "bool \<Rightarrow> bytes option \<Rightarrow> bool \<times> bytes option" where
  "kvm_auth_token_revoke stored vt = (if stored then (True, None) else (False, vt))"

definition token_digest :: "bytes option \<Rightarrow> bytes option" where
  "token_digest vt = (case vt of Some d \<Rightarrow> if length d = 32 then Some d else None | None \<Rightarrow> None)"

definition token_from_request :: "request \<Rightarrow> string option \<Rightarrow> nat \<Rightarrow> string option" where
  "token_from_request r url_token out_len =
     (case rq_get r ''Authorization'' 128 of
        Some hdr \<Rightarrow>
          if c_strcaseeq (take 7 hdr) ''Bearer ''
          then (let out = take (out_len - 1) (drop 7 hdr) in if out \<noteq> [] then Some out else None)
          else (case url_token of Some out \<Rightarrow> if out \<noteq> [] then Some out else None | None \<Rightarrow> None)
      | None \<Rightarrow> (case url_token of Some out \<Rightarrow> if out \<noteq> [] then Some out else None | None \<Rightarrow> None))"

definition kvm_auth_token_ok :: "sha256 \<Rightarrow> request \<Rightarrow> string option \<Rightarrow> bytes option \<Rightarrow> bool" where
  "kvm_auth_token_ok sha r url_token vt =
     (case token_digest vt of
        None \<Rightarrow> False
      | Some want \<Rightarrow> (case token_from_request r url_token 80 of
          None \<Rightarrow> False
        | Some token \<Rightarrow> (case sha_of sha token of None \<Rightarrow> False | Some got \<Rightarrow> equal_ct got want 32)))"

section \<open>The tailnet\<close>

definition list_sep :: "char \<Rightarrow> bool" where
  "list_sep c \<longleftrightarrow> c = CHR '','' \<or> c = CHR '' ''"

function listed_loop :: "string \<Rightarrow> string \<Rightarrow> bool" where
  "listed_loop login p =
     (if p = [] then False
      else let p = dropWhile list_sep p; w = takeWhile (\<lambda>c. \<not> list_sep c) p; e = dropWhile (\<lambda>c. \<not> list_sep c) p
           in if length w = length login \<and> c_strcaseeq (take (length login) p) login then True else listed_loop login e)"
  by pat_completeness auto
termination
proof (relation "measure (\<lambda>(login, p). length p)")
  fix login p q w e :: string
  assume p: "p \<noteq> []" and q: "q = dropWhile list_sep p" and e: "e = dropWhile (\<lambda>c. \<not> list_sep c) q"
  have le: "length (dropWhile P xs) \<le> length xs" for P and xs :: string by (rule length_dropWhile_le)
  have "length e < length p"
  proof (cases p)
    case (Cons c cs)
    then show ?thesis using le_trans [OF le le, of "\<lambda>c. \<not> list_sep c" list_sep cs] le [of "\<lambda>c. \<not> list_sep c" cs]
      by (auto simp: e q less_Suc_eq_le)
  qed (use p in simp)
  then show "((login, e), login, p) \<in> measure (\<lambda>(login, p). length p)" by simp
qed simp

declare listed_loop.simps [simp del]

definition login_listed :: "string \<Rightarrow> string \<Rightarrow> bool" where
  "login_listed list login = (if login = [] then False else listed_loop login list)"

text \<open>Who is signed in: only as a viewer, or as the owner; and the session this makes.\<close>

definition tailnet_sign_in ::
    "env \<Rightarrow> bytes \<Rightarrow> bytes \<Rightarrow> bool \<Rightarrow> string \<Rightarrow> string \<Rightarrow> string option \<Rightarrow> account \<Rightarrow> bool option \<times> account" where
  "tailnet_sign_in en junk raw ts_enable owners viewers peer st =
     (if \<not> ac_have st \<or> \<not> ts_enable then (None, st)
      else if owners = [] \<and> viewers = [] then (None, st)
      else case peer of
          None \<Rightarrow> (None, st)
        | Some name \<Rightarrow>
            (if name = [] then (None, st)
             else let owner = login_listed owners name; viewer = (\<not> owner \<and> login_listed viewers name)
                  in if \<not> owner \<and> \<not> viewer then (None, st)
                     else (Some viewer, st\<lparr>ac_table :=
                       session_create (en_sha en) (en_now en) junk False viewer (token_text raw) (ac_table st)\<rparr>)))"

text \<open>Whether the console is signed in, has to change the password, may only watch.\<close>

definition auth_session_get ::
    "env \<Rightarrow> request \<Rightarrow> bytes \<Rightarrow> bytes \<Rightarrow> bool \<Rightarrow> string \<Rightarrow> string \<Rightarrow> string option \<Rightarrow> account \<Rightarrow> (bool \<times> bool \<times> bool) \<times> account" where
  "auth_session_get en r junk raw ts_enable owners viewers peer st =
     (let (found, t) = (case cookie_token (en_mem en) r 33 of
              None \<Rightarrow> (None, ac_table st)
            | Some token \<Rightarrow> session_find (en_sha en) (en_now en) token (ac_table st));
          st = st\<lparr>ac_table := t\<rparr>
      in case found of
          Some i \<Rightarrow> ((True, s_must (t ! i), s_view (t ! i)), st)
        | None \<Rightarrow>
            (if en_required en
             then (case tailnet_sign_in en junk raw ts_enable owners viewers peer st of
                 (Some view, st1) \<Rightarrow> ((True, False, view), st1)
               | (None, st1) \<Rightarrow> ((False, False, False), st1))
             else ((False, False, False), st)))"

section \<open>Properties\<close>

text \<open>A list as a person types it: names with commas and blanks before each, and at the end.\<close>

definition listing :: "(string \<times> string) list \<Rightarrow> string \<Rightarrow> string" where
  "listing names rest = concat (map (\<lambda>(s, w). s @ w) names) @ rest"

definition apart :: "(string \<times> string) list \<Rightarrow> string \<Rightarrow> bool" where
  "apart names rest \<longleftrightarrow> list_all list_sep rest \<and>
     list_all (\<lambda>(s, w). list_all list_sep s \<and> w \<noteq> [] \<and> list_all (\<lambda>c. \<not> list_sep c) w) names \<and> list_all (\<lambda>(s, w). s \<noteq> []) (tl names)"

lemma dropWhile_all: "list_all P xs \<Longrightarrow> dropWhile P (xs @ ys) = dropWhile P ys"
  by (induction xs) auto

lemma listed_loop_rest: "list_all list_sep rest \<Longrightarrow> login \<noteq> [] \<Longrightarrow> \<not> listed_loop login rest"
proof -
  assume "list_all list_sep rest" and "login \<noteq> []"
  moreover from this have d: "dropWhile list_sep rest = []" using dropWhile_all [of list_sep rest "[]"] by simp
  moreover have "\<not> listed_loop login []" by (subst listed_loop.simps) simp
  ultimately show ?thesis unfolding listed_loop.simps [of login rest] d by simp
qed

lemma listed_loop_name:
  assumes "list_all list_sep s" and "w \<noteq> []" and "list_all (\<lambda>c. \<not> list_sep c) w" and "p = [] \<or> list_sep (hd p)" and "login \<noteq> []"
  shows "listed_loop login (s @ w @ p) \<longleftrightarrow> c_strcaseeq w login \<or> listed_loop login p"
proof -
  have d: "dropWhile list_sep (s @ w @ p) = w @ p" using assms(1-3) by (cases w) (simp_all add: dropWhile_all)
  have t: "takeWhile (\<lambda>c. \<not> list_sep c) (w @ p) = w" using assms(3,4) by (cases p) (auto simp: takeWhile_append2 takeWhile_eq_all_conv list_all_iff)
  have e: "dropWhile (\<lambda>c. \<not> list_sep c) (w @ p) = p" using assms(3,4) by (cases p) (auto simp: dropWhile_all dropWhile_eq_Nil_conv list_all_iff)
  have "length w = length login \<and> c_strcaseeq (take (length login) (w @ p)) login \<longleftrightarrow> c_strcaseeq w login"
    using map_eq_imp_length_eq [of c_tolower w c_tolower login] by (auto simp: c_strcaseeq_def)
  then show ?thesis unfolding listed_loop.simps [of login "s @ w @ p"] Let_def d t e using assms(2) by auto
qed

definition on_list :: "(string \<times> string) list \<Rightarrow> string \<Rightarrow> bool" where
  "on_list names login \<longleftrightarrow> list_ex (\<lambda>(s, w). c_strcaseeq w login) names"

lemma listed_loop_listing:
  assumes "apart names rest" and "login \<noteq> []"
  shows "listed_loop login (listing names rest) \<longleftrightarrow> on_list names login"
  using assms(1)
proof (induction names)
  case Nil
  then show ?case using listed_loop_rest assms(2) by (simp add: apart_def listing_def on_list_def)
next
  case (Cons n names)
  obtain s w where n: "n = (s, w)" by force
  have "apart names rest" using Cons.prems by (cases names) (auto simp: apart_def)
  then have IH: "listed_loop login (listing names rest) \<longleftrightarrow> on_list names login" by (rule Cons.IH)
  have h: "listing names rest = [] \<or> list_sep (hd (listing names rest))"
  proof (cases names)
    case Nil
    then show ?thesis using Cons.prems by (cases rest) (auto simp: apart_def listing_def)
  next
    case (Cons m ms)
    obtain s' w' where m: "m = (s', w')" by force
    then have "s' \<noteq> []" "list_all list_sep s'" using Cons.prems Cons by (auto simp: apart_def)
    then show ?thesis using Cons m by (cases s') (auto simp: listing_def)
  qed
  have "listing (n # names) rest = s @ w @ listing names rest" by (simp add: listing_def n)
  moreover have "list_all list_sep s" "w \<noteq> []" "list_all (\<lambda>c. \<not> list_sep c) w" using Cons.prems by (auto simp: apart_def n)
  ultimately show ?case using listed_loop_name [OF _ _ _ h assms(2), of s w] IH by (auto simp: n on_list_def)
qed

text \<open>
  Only a user of the tailnet whose name stands in one of the owner's lists, in any case and between any commas and blanks, is signed in
  without a password, and only once there is one: with the owner's rights by the first list, only to watch by the second alone,
  and in the session table nothing else changes than by making that session.
\<close>

theorem tailnet_trust:
  assumes "apart owners o_rest" and "apart viewers v_rest"
  shows "tailnet_sign_in en junk raw ts_enable (listing owners o_rest) (listing viewers v_rest) (Some name) st =
    (let owner = on_list owners name; viewer = on_list viewers name
     in if ac_have st \<and> ts_enable \<and> name \<noteq> [] \<and> (owner \<or> viewer)
        then (Some (\<not> owner), st\<lparr>ac_table :=
          session_create (en_sha en) (en_now en) junk False (\<not> owner) (token_text raw) (ac_table st)\<rparr>)
        else (None, st))"
proof (cases "name = []")
  case False
  have none: "names = [] \<and> rest = []" if "listing names rest = []" "apart names rest" for names :: "(string \<times> string) list" and rest
    using that by (cases names) (auto simp: listing_def apart_def)
  have "login_listed (listing owners o_rest) name = on_list owners name"
    "login_listed (listing viewers v_rest) name = on_list viewers name"
    using listed_loop_listing assms False by (simp_all add: login_listed_def)
  moreover have "\<not> on_list owners name \<and> \<not> on_list viewers name"
    if "listing owners o_rest = []" "listing viewers v_rest = []" using none [OF that(1) assms(1)] none [OF that(2) assms(2)] by (simp add: on_list_def)
  ultimately show ?thesis using False by (auto simp: tailnet_sign_in_def Let_def)
qed (simp add: tailnet_sign_in_def)

theorem tailnet_trust_witness:
  "fst (tailnet_sign_in \<lparr>en_sha = test_sha, en_now = 7, en_mem = True, en_required = True\<rparr> [] [1] True
     ''me@home, you@work '' '''' (Some ''YOU@work'') (no_account\<lparr>ac_have := True\<rparr>)) = Some False"
proof -
  let ?o = "[('''', ''me@home''), ('', '', ''you@work'')]"
  have "apart ?o '' ''" "apart [] []" "on_list ?o ''YOU@work''" by code_simp+
  then show ?thesis
    using tailnet_trust [of ?o "'' ''" "[]" "[]" "\<lparr>en_sha = test_sha, en_now = 7, en_mem = True, en_required = True\<rparr>" "[]" "[1]" True
        "''YOU@work''" "no_account\<lparr>ac_have := True\<rparr>"]
    by (simp add: Let_def listing_def no_account_def)
qed

text \<open>What is done about the viewing token, and the token that is good after it.\<close>

datatype token_op = Make bool bytes | Revoke bool

definition token_step :: "sha256 \<Rightarrow> bytes option \<Rightarrow> token_op \<Rightarrow> bytes option" where
  "token_step sha vt a =
     (case a of Make stored raw \<Rightarrow> snd (kvm_auth_token_create sha stored raw vt) | Revoke stored \<Rightarrow> snd (kvm_auth_token_revoke stored vt))"

fun last_token :: "string option \<Rightarrow> token_op list \<Rightarrow> string option" where
  "last_token t [] = t"
| "last_token t (Make stored raw # ops) = last_token (if stored then Some (token_text raw) else t) ops"
| "last_token t (Revoke stored # ops) = last_token (if stored then None else t) ops"

lemma token_steps:
  assumes "\<And>m. sha m = Some (H m)"
  shows "foldl (token_step sha) (map_option (\<lambda>t. H (map of_char t)) t) ops = map_option (\<lambda>t. H (map of_char t)) (last_token t ops)"
proof (induction ops arbitrary: t)
  case (Cons a ops)
  have "token_step sha (map_option (\<lambda>t. H (map of_char t)) t) a = map_option (\<lambda>t. H (map of_char t)) (last_token t [a])"
    using assms by (cases a) (simp_all add: token_step_def kvm_auth_token_create_def kvm_auth_token_revoke_def Let_def sha_of_def)
  moreover have "last_token t (a # ops) = last_token (last_token t [a]) ops" by (cases a) simp_all
  ultimately show ?case using Cons.IH by simp
qed simp

text \<open>
  After any history of making and revoking it, the viewing token opens the picture exactly to who presents the one that is
  in force - up to a second text with the same hash - and to nobody when there is none.
\<close>

theorem view_token_latest:
  assumes "\<And>m. sha m = Some (H m)" and "\<And>m. length (H m) = 32"
    and "\<And>t. last_token None ops = Some t \<Longrightarrow> H (map of_char token) = H (map of_char t) \<Longrightarrow> token = t"
    and "token_from_request r url_token 80 = Some token"
  shows "kvm_auth_token_ok sha r url_token (foldl (token_step sha) None ops) \<longleftrightarrow> last_token None ops = Some token"
  using token_steps [of sha H None ops] assms
  by (cases "last_token None ops") (auto simp: kvm_auth_token_ok_def token_digest_def sha_of_def equal_ct_iff)

theorem view_token_latest_witness:
  "kvm_auth_token_ok (\<lambda>m. Some (replicate 31 0 @ [sum_list m])) (sent HTTP_GET ''/stream'' [(''Authorization'', ''bearer 0a'')]) None
     (foldl (token_step (\<lambda>m. Some (replicate 31 0 @ [sum_list m]))) None [Make True [0x0b], Revoke True, Make True [0x0a]])"
proof -
  have "token_from_request (sent HTTP_GET ''/stream'' [(''Authorization'', ''bearer 0a'')]) None 80 = Some ''0a''"
    by code_simp
  moreover have "last_token None [Make True [0x0b], Revoke True, Make True [0x0a]] = Some ''0a''" by code_simp
  ultimately show ?thesis
    by (subst view_token_latest [of _ "\<lambda>m. replicate 31 0 @ [sum_list m]" _ "''0a''"]) auto
qed


section \<open>Who signs in\<close>

text \<open>What a table lets in: of every session that is not free the hash, whether the password has to be changed, whether it may only watch.\<close>

definition signed :: "table \<Rightarrow> (bytes \<times> bool \<times> bool) set" where
  "signed t = set (map (\<lambda>s. (s_hash s, s_must s, s_view s)) (filter (\<lambda>s. s_expires s \<noteq> 0) t))"

lemma signed_free: "s_expires x = 0 \<Longrightarrow> signed (t[i := x]) \<subseteq> signed t"
  using set_update_subset_insert [of t i x] by (auto simp: signed_def)

lemma signed_put: "signed (t[i := x]) \<subseteq> insert (s_hash x, s_must x, s_view x) (signed t)"
  using set_update_subset_insert [of t i x] by (auto simp: signed_def)

lemma signed_used:
  assumes "s_expires (t ! i) \<noteq> 0"
  shows "signed (t[i := (t ! i)\<lparr>s_used := u, s_expires := e\<rparr>]) \<subseteq> signed t"
proof (cases "i < length t")
  case True
  then have "(s_hash (t ! i), s_must (t ! i), s_view (t ! i)) \<in> signed t" using assms by (auto simp: signed_def)
  then show ?thesis using signed_put [of t i "(t ! i)\<lparr>s_used := u, s_expires := e\<rparr>"] by auto
qed (simp add: list_update_beyond)

lemma find_loop_signed: "signed (snd (find_loop now h i t)) \<subseteq> signed t"
proof (induction now h i t rule: find_loop.induct)
  case (1 now h i t)
  have n: "signed (t[i := no_session]) \<subseteq> signed t" by (rule signed_free) (simp add: no_session_def)
  consider "8 \<le> i" | "i < 8" "s_expires (t ! i) = 0" | "i < 8" "s_expires (t ! i) \<noteq> 0" "s_expires (t ! i) < now"
    | "i < 8" "s_expires (t ! i) \<noteq> 0" "\<not> s_expires (t ! i) < now" "equal_ct (s_hash (t ! i)) h 32"
    | "i < 8" "s_expires (t ! i) \<noteq> 0" "\<not> s_expires (t ! i) < now" "\<not> equal_ct (s_hash (t ! i)) h 32" by linarith
  then show ?case
  proof cases
    case 3
    then have "find_loop now h i t = find_loop now h (i + 1) (t[i := no_session])" by (subst find_loop.simps) simp
    then show ?thesis using 1(2) [OF 3] n by simp
  next
    case 4
    then show ?thesis using signed_used by (subst find_loop.simps) simp
  qed (use 1 in \<open>subst find_loop.simps, simp\<close>)+
qed

lemma session_find_signed: "signed (snd (session_find sha now token t)) \<subseteq> signed t"
  using find_loop_signed by (simp add: session_find_def split: option.split)

lemma session_drop_signed: "signed (session_drop sha now token t) \<subseteq> signed t"
proof -
  obtain r t1 where f: "session_find sha now token t = (r, t1)" by fastforce
  have "signed t1 \<subseteq> signed t" using session_find_signed [of sha now token t] f by simp
  moreover have "signed (t1[i := no_session]) \<subseteq> signed t1" for i by (rule signed_free) (simp add: no_session_def)
  ultimately show ?thesis using f by (auto simp: session_drop_def split: option.split)
qed

lemma session_create_signed:
  "signed (session_create sha now junk must view token t) \<subseteq>
     insert (case sha_of sha token of Some h \<Rightarrow> h | None \<Rightarrow> junk, must, view) (signed t)"
  unfolding session_create_def Let_def by (rule order_trans [OF signed_put]) (simp split: option.split)

lemma check_signed: "signed (snd (kvm_auth_check en r t)) \<subseteq> signed t"
proof -
  have "snd (kvm_auth_check en r t) \<in> insert t {snd (session_find (en_sha en) (en_now en) tk t) | tk. True}"
    by (auto simp: kvm_auth_check_def split: option.split prod.split) (metis snd_conv)+
  then show ?thesis using session_find_signed by fastforce
qed

lemma session_of_signed: "signed (snd (snd (kvm_auth_session_of en r t))) \<subseteq> signed t"
proof -
  have "snd (snd (kvm_auth_session_of en r t)) \<in> insert t {snd (session_find (en_sha en) (en_now en) tk t) | tk. True}"
    by (auto simp: kvm_auth_session_of_def split: option.split prod.split) (metis snd_conv)+
  then show ?thesis using session_find_signed by fastforce
qed

lemma signed_none: "signed sessions_empty = {}"
  by (auto simp: signed_def sessions_empty_def no_session_def)

text \<open>Every request that reaches the accounts: the handlers of /api/v1/auth, a request to any other, a WebSocket.\<close>

datatype visit =
    Sign_in_form bytes string "(string \<times> string \<times> string \<times> int) option" int
  | Who_am_i request bytes bool string string "string option"
  | Sign_out_form request
  | Password_form request bool bytes "(string \<times> string) option" bool
  | Viewer_form request bool bytes "(string \<times> string) option"
  | Begin_2fa_form request bool bytes
  | Enable_2fa_form request bool bool bool "bytes list" "(string \<times> string \<times> int) option" int
  | Change_2fa_form request bool bool "bytes list" "(string \<times> string \<times> int) option" int
  | Other_request request
  | Open_socket request

fun visit_account :: "env \<Rightarrow> bytes \<Rightarrow> visit \<Rightarrow> account \<Rightarrow> account option" where
  "visit_account en junk (Sign_in_form raw sec_user body now) st = map_option snd (auth_login_post en junk raw sec_user body now st)"
| "visit_account en junk (Who_am_i r raw ts_enable owners viewers peer) st =
     Some (snd (auth_session_get en r junk raw ts_enable owners viewers peer st))"
| "visit_account en junk (Sign_out_form r) st = Some (auth_logout_post en r st)"
| "visit_account en junk (Password_form r stored salt body net_bad) st = Some (snd (auth_password_post en r stored salt body net_bad st))"
| "visit_account en junk (Viewer_form r stored salt body) st = Some (snd (auth_viewer_post en r stored salt body st))"
| "visit_account en junk (Begin_2fa_form r mem secret) st = Some (snd (auth_2fa_begin_post en r mem secret st))"
| "visit_account en junk (Enable_2fa_form r mem stored codes_stored rnd body now) st =
     map_option snd (auth_2fa_enable_post en r mem stored codes_stored rnd body now st)"
| "visit_account en junk (Change_2fa_form r disable stored rnd body now) st =
     map_option snd (auth_2fa_change en r disable stored rnd body now st)"
| "visit_account en junk (Other_request r) st = Some (st\<lparr>ac_table := snd (kvm_auth_check en r (ac_table st))\<rparr>)"
| "visit_account en junk (Open_socket r) st =
     (let (ok, t, w) = ws_pre_handshake en r (ac_table st, ac_socks st) in Some (st\<lparr>ac_table := t, ac_socks := w\<rparr>))"

lemma store_tables:
  "store_password sha stored salt pw st = Some st' \<Longrightarrow> ac_table st' = ac_table st"
  "store_viewer sha stored salt pw' st = Some st' \<Longrightarrow> ac_table st' = ac_table st"
  "snd (read_pw_and_code sha body st) = st1 \<Longrightarrow> ac_table st1 = ac_table st"
  by (auto simp: store_password_def store_viewer_def read_pw_and_code_def split: bind_splits if_splits option.splits)

lemma handlers_sign_nobody_in:
  "signed (ac_table (auth_logout_post en r st)) \<subseteq> signed (ac_table st)"
  "signed (ac_table (snd (auth_password_post en r stored salt body net_bad st))) \<subseteq> signed (ac_table st)"
  "signed (ac_table (snd (auth_viewer_post en r stored salt body st))) \<subseteq> signed (ac_table st)"
  "signed (ac_table (snd (auth_2fa_begin_post en r mem secret st))) \<subseteq> signed (ac_table st)"
  "auth_2fa_enable_post en r mem stored codes_stored rnd pc now st = Some (rep, st') \<Longrightarrow> signed (ac_table st') \<subseteq> signed (ac_table st)"
  "auth_2fa_change en r disable stored rnd pc now st = Some (rep, st') \<Longrightarrow> signed (ac_table st') \<subseteq> signed (ac_table st)"
  "signed (fst (snd (ws_pre_handshake en r (ac_table st, w)))) \<subseteq> signed (ac_table st)"
proof -
  obtain ok t where c: "kvm_auth_check en r (ac_table st) = (ok, t)" by fastforce
  have t: "signed t \<subseteq> signed (ac_table st)" using check_signed [of en r "ac_table st"] c by simp
  have v: "signed (map (\<lambda>s. if s_view s then no_session else s) t) \<subseteq> signed t"
    by (auto simp: signed_def no_session_def split: if_splits)
  show "signed (ac_table (auth_logout_post en r st)) \<subseteq> signed (ac_table st)"
    using session_drop_signed by (simp add: auth_logout_post_def split: option.split)
  show "signed (ac_table (snd (auth_password_post en r stored salt body net_bad st))) \<subseteq> signed (ac_table st)"
    using t signed_none
    by (auto simp: auth_password_post_def c Let_def session_clear_all_def split: option.split dest: store_tables)
  show "signed (ac_table (snd (auth_viewer_post en r stored salt body st))) \<subseteq> signed (ac_table st)"
  proof -
    have "store_viewer sha stored salt pw (st\<lparr>ac_table := t\<rparr>) = Some s1 \<Longrightarrow> ac_table s1 = t" for sha pw s1
      using store_tables(2) by fastforce
    then show ?thesis using t order_trans [OF v t]
      by (simp add: auth_viewer_post_def c Let_def split: option.split)
  qed
  show "signed (ac_table (snd (auth_2fa_begin_post en r mem secret st))) \<subseteq> signed (ac_table st)"
    using t by (simp add: auth_2fa_begin_post_def c Let_def)
  show "signed (ac_table st') \<subseteq> signed (ac_table st)"
    if "auth_2fa_enable_post en r mem stored codes_stored rnd pc now st = Some (rep, st')"
  proof -
    have "ac_table st' = t" using that
      by (auto simp: auth_2fa_enable_post_def c Let_def split: if_split_asm prod.split_asm sum.split_asm bind_splits option.split_asm
          dest: store_tables(3) [OF arg_cong [where f = snd]])
    then show ?thesis using t by simp
  qed
  show "signed (ac_table st') \<subseteq> signed (ac_table st)"
    if "auth_2fa_change en r disable stored rnd pc now st = Some (rep, st')"
  proof -
    have "ac_table st' = t" using that
      by (auto simp: auth_2fa_change_def c Let_def split: if_split_asm prod.split_asm sum.split_asm bind_splits option.split_asm
          dest: store_tables(3) [OF arg_cong [where f = snd]])
    then show ?thesis using t by simp
  qed
  show "signed (fst (snd (ws_pre_handshake en r (ac_table st, w)))) \<subseteq> signed (ac_table st)"
    using t session_of_signed [of en r t] by (auto simp: ws_pre_handshake_def c Let_def case_prod_beta)
qed

text \<open>A name stands in a list: between commas, blanks, or its ends, in any case.\<close>

definition stands_in :: "string \<Rightarrow> string \<Rightarrow> bool" where
  "stands_in name list \<longleftrightarrow> name \<noteq> [] \<and> (\<exists>before w after. list = before @ w @ after \<and> c_strcaseeq w name \<and>
     (before = [] \<or> list_sep (last before)) \<and> (after = [] \<or> list_sep (hd after)))"

lemma listed_loop_stands:
  assumes "listed_loop login p" and "login \<noteq> []"
  shows "\<exists>a w b. p = a @ w @ b \<and> c_strcaseeq w login \<and> list_all (\<lambda>c. \<not> list_sep c) w \<and> (a = [] \<or> list_sep (last a)) \<and> (b = [] \<or> list_sep (hd b))"
  using assms
proof (induction login p rule: listed_loop.induct)
  case (1 login p)
  define s q w e where d: "s = takeWhile list_sep p" "q = dropWhile list_sep p" "w = takeWhile (\<lambda>c. \<not> list_sep c) q"
    "e = dropWhile (\<lambda>c. \<not> list_sep c) q"
  have p: "p = s @ w @ e" by (simp add: d)
  have s: "s = [] \<or> list_sep (last s)" unfolding d using set_takeWhileD [of _ list_sep p] by (metis last_in_set)
  have w: "list_all (\<lambda>c. \<not> list_sep c) w" unfolding d list_all_iff using set_takeWhileD [of _ "\<lambda>c. \<not> list_sep c"] by blast
  have e: "e = [] \<or> list_sep (hd e)" unfolding d using hd_dropWhile [of "\<lambda>c. \<not> list_sep c"] by blast
  have ne: "p \<noteq> []" using "1.prems"(1) by (subst (asm) listed_loop.simps) (simp split: if_splits)
  have step: "listed_loop login p \<longleftrightarrow> length w = length login \<and> c_strcaseeq (take (length login) q) login \<or> listed_loop login e"
    using ne by (subst listed_loop.simps) (auto simp: d Let_def)
  show ?case
  proof (cases "length w = length login \<and> c_strcaseeq (take (length login) q) login")
    case True
    then have "c_strcaseeq w login" by (metis append_eq_conv_conj d(3,4) takeWhile_dropWhile_id)
    then show ?thesis using p s w e by (intro exI [of _ s] exI [of _ w] exI [of _ e]) simp
  next
    case False
    then have "listed_loop login e" using step "1.prems"(1) by blast
    then obtain a w' b where IH: "e = a @ w' @ b" "c_strcaseeq w' login" "list_all (\<lambda>c. \<not> list_sep c) w'" "a = [] \<or> list_sep (last a)" "b = [] \<or> list_sep (hd b)"
      using "1.IH" [OF ne d(2) d(3) d(4)] False "1.prems"(2) by blast
    have "w' \<noteq> []" using IH(2) "1.prems"(2) by (auto simp: c_strcaseeq_def)
    then have "a \<noteq> []" using e IH(1,3) by (cases w') auto
    then show ?thesis using p IH by (intro exI [of _ "s @ w @ a"] exI [of _ w'] exI [of _ b]) simp
  qed
qed

lemma login_listed_stands: "login_listed list name \<Longrightarrow> stands_in name list"
  using listed_loop_stands [of name list] by (auto simp: login_listed_def stands_in_def split: if_splits)

lemma who_am_i_signs:
  assumes "e \<in> signed (ac_table (snd (auth_session_get en r junk raw ts_enable owners viewers peer st)))" and "e \<notin> signed (ac_table st)"
  obtains name where "ts_enable" "peer = Some name" "ac_have st" "en_required en"
    "snd e = (False, False) \<and> stands_in name owners \<or> snd e = (False, True) \<and> stands_in name viewers"
proof -
  let ?f = "case cookie_token (en_mem en) r 33 of None \<Rightarrow> (None, ac_table st) | Some token \<Rightarrow> session_find (en_sha en) (en_now en) token (ac_table st)"
  obtain found t where f: "?f = (found, t)" by fastforce
  have t: "signed t \<subseteq> signed (ac_table st)"
    using f session_find_signed [of "en_sha en" "en_now en" _ "ac_table st"] by (auto split: option.splits) (metis snd_conv subsetD)
  let ?s = "tailnet_sign_in en junk raw ts_enable owners viewers peer (st\<lparr>ac_table := t\<rparr>)"
  have g: "found = None" "en_required en" "e \<in> signed (ac_table (snd ?s))"
    using assms t f by (auto simp: auth_session_get_def Let_def split: option.splits if_splits prod.splits)
  have "snd ?s \<noteq> st\<lparr>ac_table := t\<rparr>" using g(3) assms(2) t by auto
  then obtain name where n: "ts_enable" "ac_have st" "peer = Some name" "login_listed owners name \<or> login_listed viewers name"
      "ac_table (snd ?s) = session_create (en_sha en) (en_now en) junk False (\<not> login_listed owners name) (token_text raw) t"
    unfolding tailnet_sign_in_def Let_def by (cases peer) (auto split: if_split_asm)
  have "snd e = (False, \<not> login_listed owners name)"
  proof -
    have "e \<notin> signed t" using assms(2) t by blast
    then have "e = (case sha_of (en_sha en) (token_text raw) of Some h \<Rightarrow> h | None \<Rightarrow> junk, False, \<not> login_listed owners name)"
      using subsetD [OF session_create_signed g(3) [unfolded n(5)]] by (metis insertE)
    then show ?thesis by simp
  qed
  then have "snd e = (False, False) \<and> stands_in name owners \<or> snd e = (False, True) \<and> stands_in name viewers"
    using n(4) login_listed_stands by (cases "login_listed owners name") simp_all
  then show thesis by (rule that [OF n(1,3,2) g(2)])
qed

text \<open>
  C26. Nobody signs in without what it takes. Of all the requests that reach the accounts - the handlers of /api/v1/auth, any other
  request, a WebSocket - only two make a session, a form to sign in and the question of a console who it is. The form makes an owner's
  session for the owner's password together, when the second factor is on, with a factor not used before; and for the viewer's password,
  with no second factor, one that may only watch. The question makes one without a password only when there is an owner's password, tailnet
  sign-ins are on, and the name the VPN client gives for the caller stands in the owner's list of owners, or else of viewers, and
  then one that may only watch.
\<close>

theorem nobody_signs_in:
  assumes "codes_ok (ac_fa st)" and "visit_account en junk v st = Some st'"
    and "e \<in> signed (ac_table st')" and "e \<notin> signed (ac_table st)"
  shows "(\<exists>raw sec_user user pw code bt now. v = Sign_in_form raw sec_user (Some (user, pw, code, bt)) now \<and>
       (user = sec_user \<and> password_matches (en_sha en) st pw \<and> snd e = (\<not> ac_have st, False) \<and>
          (ac_totp_on st \<and> ac_have st \<longrightarrow> (\<exists>k. use k (ac_fa st) = (True, ac_fa st'))) \<or>
        user = ''viewer'' \<and> viewer_matches (en_sha en) st pw \<and> snd e = (False, True))) \<or>
    (\<exists>r raw owners viewers name. v = Who_am_i r raw True owners viewers (Some name) \<and> ac_have st \<and> en_required en \<and>
       (snd e = (False, False) \<and> stands_in name owners \<or> snd e = (False, True) \<and> stands_in name viewers))"
proof (cases v)
  case (Sign_in_form raw sec_user body now)
  then obtain reply where l: "auth_login_post en junk raw sec_user body now st = Some (reply, st')" using assms(2) by auto
  show ?thesis
  proof (cases body)
    case None
    then show ?thesis using l assms(3,4) by (simp add: auth_login_post_def)
  next
    case (Some b)
    obtain user pw code bt where b: "b = (user, pw, code, bt)" by (metis prod_cases4)
    note f = login_takes_factors [OF assms(1) l [unfolded Some b]]
    show ?thesis
    proof (cases reply)
      case (Logged_in token must)
      have new: "snd e = (m, w)" if "ac_table st' = session_create (en_sha en) (en_now en) junk m w token (ac_table st)" for m w
        using session_create_signed assms(3,4) unfolding that by fastforce
      show ?thesis using f new unfolding Logged_in login_reply.case Sign_in_form Some b by auto
    qed (use f assms(3,4) in simp_all)
  qed
next
  case (Who_am_i r raw ts_enable owners viewers peer)
  then show ?thesis using assms(2-4) who_am_i_signs [of e en r junk raw ts_enable owners viewers peer st] by auto
next
  case (Open_socket r)
  then show ?thesis using assms(2-4) handlers_sign_nobody_in(7) [of en r st "ac_socks st"] by (auto simp: Let_def split: prod.splits)
next
  case (Enable_2fa_form r mem stored codes_stored rnd body now)
  then show ?thesis using assms(2-4) handlers_sign_nobody_in(5) [of en r mem stored codes_stored rnd body now st] by auto
next
  case (Change_2fa_form r disable stored rnd body now)
  then show ?thesis using assms(2-4) handlers_sign_nobody_in(6) [of en r disable stored rnd body now st] by auto
next
  case (Other_request r)
  then show ?thesis using assms(2-4) check_signed [of en r "ac_table st"] by auto
next
  case (Sign_out_form r)
  then show ?thesis using assms(2-4) subsetD [OF handlers_sign_nobody_in(1) [of en r st], of e] by simp
next
  case (Password_form r stored salt body net_bad)
  then show ?thesis using assms(2-4) subsetD [OF handlers_sign_nobody_in(2) [of en r stored salt body net_bad st], of e] by simp
next
  case (Viewer_form r stored salt body)
  then show ?thesis using assms(2-4) subsetD [OF handlers_sign_nobody_in(3) [of en r stored salt body st], of e] by simp
next
  case (Begin_2fa_form r mem secret)
  then show ?thesis using assms(2-4) subsetD [OF handlers_sign_nobody_in(4) [of en r mem secret st], of e] by simp
qed

theorem nobody_signs_in_witness:
  "\<exists>st' e. visit_account \<lparr>en_sha = test_sha, en_now = 7, en_mem = True, en_required = True\<rparr> []
       (Who_am_i (sent HTTP_GET ''/api/v1/auth/session'' []) [1] True ''me@home, you@work'' [] (Some ''YOU@work''))
       (no_account\<lparr>ac_have := True\<rparr>) = Some st' \<and>
     e \<in> signed (ac_table st') \<and> snd e = (False, False) \<and> stands_in ''YOU@work'' ''me@home, you@work''"
proof -
  let ?en = "\<lparr>en_sha = test_sha, en_now = 7, en_mem = True, en_required = True\<rparr>" and ?st = "no_account\<lparr>ac_have := True\<rparr>"
  let ?v = "Who_am_i (sent HTTP_GET ''/api/v1/auth/session'' []) [1] True ''me@home, you@work'' [] (Some ''YOU@work'')"
  have "case visit_account ?en [] ?v ?st of None \<Rightarrow> False | Some st' \<Rightarrow> signed (ac_table st') \<noteq> {}" by code_simp
  then obtain st' e where s: "visit_account ?en [] ?v ?st = Some st'" "e \<in> signed (ac_table st')" by auto
  have c: "codes_ok (ac_fa ?st)" by (simp add: codes_ok_def no_account_def no_hash_def list_all_iff)
  have "e \<notin> signed (ac_table ?st)" by (simp add: no_account_def signed_none)
  moreover have "\<not> stands_in ''YOU@work'' []" by (auto simp: stands_in_def c_strcaseeq_def)
  ultimately have "snd e = (False, False) \<and> stands_in ''YOU@work'' ''me@home, you@work''"
    using nobody_signs_in [OF c s] by auto
  then show ?thesis using s by blast
qed

end
