(* ===== verification/Rate_Guard.thy ===== *)
theory Rate_Guard
  imports Complex_Main Prelude
begin

text \<open>
  What limits the picture's rate: the gate in front of the encoder (video_pipeline/fps_gate.h) and the guard that
  watches the chip's temperature (kvm_config/kvm_thermal.c). Times are microseconds and do not wrap. A reading of the
  sensor is a rational number, as every finite \<open>float\<close> is, and is compared with whole degrees exactly.
\<close>

section \<open>The gate\<close>

definition fps_gate_take :: "int \<Rightarrow> int \<Rightarrow> int \<Rightarrow> bool \<times> int" where
  "fps_gate_take next_us now_us interval_us =
     (if now_us < next_us - c_div interval_us 4 then (False, next_us)
      else (True, if now_us - next_us > interval_us then now_us + interval_us else next_us + interval_us))"

definition fps_plan_div :: "int \<Rightarrow> int \<Rightarrow> int \<Rightarrow> int" where
  "fps_plan_div d input_hz made =
     (if input_hz \<le> 0 \<or> made \<le> 0 then d
      else let r100 = c_div (input_hz * 100) made;
               d = (if r100 > d * 100 + 70 \<or> r100 < d * 100 - 70 then c_div (r100 + 50) 100 else d)
           in if d < 1 then 1 else d)"

text \<open>The times of the frames that are encoded, of those that come.\<close>

fun gate_run :: "int \<Rightarrow> int \<Rightarrow> int list \<Rightarrow> int list" where
  "gate_run iv due [] = []"
| "gate_run iv due (t # ts) =
     (case fps_gate_take due t iv of (True, due') \<Rightarrow> t # gate_run iv due' ts | (False, due') \<Rightarrow> gate_run iv due' ts)"

section \<open>The temperature\<close>

datatype thermal = Unknown | Normal | Hot | Critical

definition kvm_thermal_fps_limit :: "thermal \<Rightarrow> int \<Rightarrow> int" where
  "kvm_thermal_fps_limit state configured =
     (case state of Hot \<Rightarrow> if configured > 1 then c_div configured 2 else 1 | Critical \<Rightarrow> 0 | _ \<Rightarrow> configured)"

text \<open>One reading: the state before, the setting of the guard with its two thresholds, the state after.\<close>

definition hysteresis :: rat where
  "hysteresis = 4"

definition thermal_warn :: "int \<Rightarrow> int \<Rightarrow> int" where
  "thermal_warn warn stop = (if warn \<ge> stop then stop - 4 else warn)"

definition thermal_step :: "bool \<Rightarrow> int \<Rightarrow> int \<Rightarrow> thermal \<Rightarrow> rat \<Rightarrow> thermal" where
  "thermal_step guard warn stop state c =
     (if \<not> guard then Normal
      else let warn = of_int (thermal_warn warn stop); stop = of_int stop
           in if c \<ge> stop then Critical
              else if c \<ge> warn then (if state = Critical \<and> c > stop - hysteresis then state else Hot)
              else if c < warn - hysteresis then (if state \<noteq> Critical \<or> c < stop - hysteresis then Normal else state)
              else state)"

section \<open>Properties\<close>

lemma gate_take:
  assumes "fps_gate_take due t iv = (True, due')" and "0 < iv"
  shows "due - iv div 4 \<le> t \<and> due + iv \<le> due' \<and> t \<le> due' \<and> due' \<le> t + iv + iv div 4"
  using assms by (auto simp: fps_gate_take_def c_div_def split: if_splits)

lemma gate_run_later:
  assumes "0 < iv" and "n < length (gate_run iv due ts)"
  shows "due + int n * iv - iv div 4 \<le> gate_run iv due ts ! n"
  using assms(2)
proof (induction ts arbitrary: due n)
  case (Cons t ts)
  obtain took due' where g: "fps_gate_take due t iv = (took, due')" by force
  show ?case
  proof (cases took)
    case True
    then have b: "due - iv div 4 \<le> t" "due + iv \<le> due'" using gate_take [OF _ assms(1)] g by auto
    show ?thesis
    proof (cases n)
      case (Suc m)
      then have "due' + int m * iv - iv div 4 \<le> gate_run iv due' ts ! m" using Cons g True by simp
      then show ?thesis using b g True Suc by (simp add: algebra_simps)
    qed (use b g True in simp)
  next
    case False
    then have "due' = due" using g by (auto simp: fps_gate_take_def split: if_splits)
    then show ?thesis using Cons g False by simp
  qed
qed simp

text \<open>
  C40. The gate keeps the limit and wastes nothing: whatever the frames' times, the encoded ones from the i-th to the j-th take at least j - i - 1
  intervals less a quarter; and a frame that comes a whole interval after one that was encoded is encoded.
\<close>

theorem fps_gate_rate:
  assumes "0 < iv"
  shows "(\<forall>i j. i < j \<and> j < length (gate_run iv due ts) \<longrightarrow>
      gate_run iv due ts ! i + (int j - int i - 1) * iv - iv div 4 \<le> gate_run iv due ts ! j) \<and>
    (\<forall>t u due' due''. fps_gate_take due t iv = (True, due') \<and> t + iv \<le> u \<longrightarrow> fst (fps_gate_take due' u iv))"
proof -
  have "gate_run iv due ts ! i + (int j - int i - 1) * iv - iv div 4 \<le> gate_run iv due ts ! j"
    if "i < j" "j < length (gate_run iv due ts)" for i j
    using that
  proof (induction ts arbitrary: due i j)
    case (Cons t ts)
    obtain took due' where g: "fps_gate_take due t iv = (took, due')" by force
    show ?case
    proof (cases took)
      case True
      obtain k where j: "j = Suc k" using Cons.prems(1) by (cases j) auto
      show ?thesis
      proof (cases i)
        case 0
        have "t \<le> due'" using gate_take [OF _ assms] g True by auto
        moreover have "due' + int k * iv - iv div 4 \<le> gate_run iv due' ts ! k"
          using gate_run_later [OF assms, of k due' ts] Cons.prems g True j by simp
        ultimately show ?thesis using g True 0 j by simp
      next
        case (Suc m)
        then show ?thesis using Cons.IH [of m k due'] Cons.prems g True j by simp
      qed
    next
      case False
      then show ?thesis using Cons g by simp
    qed
  qed simp
  moreover have "fst (fps_gate_take due' u iv)" if "fps_gate_take due t iv = (True, due')" "t + iv \<le> u" for t u due'
    using gate_take [OF that(1) assms] that(2) assms by (auto simp: fps_gate_take_def c_div_def)
  ultimately show ?thesis by blast
qed

theorem fps_gate_rate_witness:
  "gate_run 33 0 [100, 117, 133, 150, 167] = [100, 133, 167] \<and> (100::int) + (int 2 - int 0 - 1) * 33 - 33 div 4 \<le> 167"
proof -
  have r: "gate_run 33 0 [100, 117, 133, 150, 167] = [100, 133, 167]" by code_simp
  then show ?thesis
    using conjunct1 [OF fps_gate_rate [of 33 0 "[100, 117, 133, 150, 167]"], rule_format, of 0 2] by simp
qed

text \<open>How much the picture is held back.\<close>

definition severity :: "thermal \<Rightarrow> nat" where
  "severity s = (case s of Critical \<Rightarrow> 2 | Hot \<Rightarrow> 1 | _ \<Rightarrow> 0)"

lemma thermal_warn_less: "thermal_warn warn stop < stop"
  by (simp add: thermal_warn_def)

lemmas thermal_defs = thermal_step_def hysteresis_def severity_def Let_def

lemma critical_stays:
  assumes "of_int stop - 4 < x"
  shows "thermal_step True warn stop Critical x = Critical"
proof -
  have "(of_int (thermal_warn warn stop) :: rat) < of_int stop" using thermal_warn_less by simp
  then show ?thesis using assms by (auto simp: thermal_defs)
qed

lemma hot_stays:
  assumes "of_int (thermal_warn warn stop) - 4 < x" and "s = Hot \<or> s = Critical"
  shows "thermal_step True warn stop s x = Hot \<or> thermal_step True warn stop s x = Critical"
  using assms by (auto simp: thermal_defs)

text \<open>
  The guard does not flap: a reading that raised the state is followed by no lower state as long as the temperature does not
  fall four degrees below it, whatever the thresholds; and from the stop threshold on the picture stands still.
\<close>

theorem thermal_no_flap:
  assumes "severity s < severity (thermal_step True warn stop s c)" and "list_all (\<lambda>x. c - 4 < x) cs"
  shows "severity (thermal_step True warn stop s c) \<le> severity (foldl (thermal_step True warn stop) (thermal_step True warn stop s c) cs) \<and>
    (of_int stop \<le> c \<longrightarrow> kvm_thermal_fps_limit (foldl (thermal_step True warn stop) (thermal_step True warn stop s c) cs) fps = 0)"
proof -
  have crit: "foldl (thermal_step True warn stop) Critical cs = Critical" if "of_int stop \<le> c"
    using assms(2)
  proof (induction cs)
    case (Cons x xs)
    then have "of_int stop - 4 < x" using that by simp
    then show ?case using Cons critical_stays by simp
  qed simp
  have hot: "foldl (thermal_step True warn stop) r cs \<in> {Hot, Critical}" if "of_int (thermal_warn warn stop) \<le> c" "r \<in> {Hot, Critical}" for r
    using assms(2) that(2)
  proof (induction cs arbitrary: r)
    case (Cons x xs)
    then have "of_int (thermal_warn warn stop) - 4 < x" using that(1) by simp
    then have "thermal_step True warn stop r x \<in> {Hot, Critical}" using hot_stays Cons.prems(2) by blast
    then show ?case using Cons.IH [of "thermal_step True warn stop r x"] Cons.prems(1) by simp
  qed simp
  have top: "thermal_step True warn stop s c = Critical" if "of_int stop \<le> c" using that by (simp add: thermal_defs)
  show ?thesis
  proof (cases "of_int stop \<le> c")
    case True
    then show ?thesis using crit top by (simp add: severity_def kvm_thermal_fps_limit_def)
  next
    case False
    then have "thermal_step True warn stop s c = Hot \<and> of_int (thermal_warn warn stop) \<le> c"
      using assms(1) by (auto simp: thermal_defs split: thermal.splits if_splits)
    then show ?thesis using hot [of Hot] False by (auto simp: severity_def)
  qed
qed

theorem thermal_no_flap_witness:
  "severity (foldl (thermal_step True 70 85) (thermal_step True 70 85 Normal 71) [69, 68]) = 1"
proof -
  have h: "thermal_step True 70 85 Normal 71 = Hot" by code_simp
  have "foldl (thermal_step True 70 85) Hot [69, 68] = Hot" by code_simp
  then show ?thesis
    using thermal_no_flap [of Normal 70 85 71 "[69, 68]" 30] unfolding h by (simp add: severity_def)
qed

text \<open>On the way down, though, a level can be left out: the state waits below the warning and then ends.\<close>

lemma thermal_skips_hot:
  "thermal_step True 70 85 Critical 69 = Critical \<and> thermal_step True 70 85 Critical 65 = Normal"
  by code_simp

end
