(* ===== verification/Button.thy ===== *)
theory Button
  imports Prelude
begin

text \<open>
  kvm_sched/button.c: the button on the box. One round of the task's loop is a step: the settings it reads, whether
  the pin could be set up, the pin's level, the time; and what it does to the pin and which action it fires.
\<close>

section \<open>The task\<close>

record button =
  bt_pin :: int
  bt_high :: bool
  bt_pressed :: bool
  bt_held :: bool
  bt_since :: int
  bt_stable :: int
  bt_raw :: bool

definition button_start :: button where
  "button_start = \<lparr>bt_pin = -1, bt_high = False, bt_pressed = False, bt_held = False, bt_since = 0, bt_stable = 0, bt_raw = False\<rparr>"

datatype effect = Reset_pin int | Config_pin int bool | Fire_press | Fire_hold

text \<open>The pin follows the settings; one that cannot be an input is \<open>-2\<close>.\<close>

definition button_pin :: "int \<Rightarrow> bool \<Rightarrow> bool \<Rightarrow> button \<Rightarrow> effect list \<times> button" where
  "button_pin want want_ah config_ok b =
     (if want \<noteq> bt_pin b \<or> want_ah \<noteq> bt_high b
      then ((if bt_pin b \<ge> 0 then [Reset_pin (bt_pin b)] else []) @ (if want \<ge> 0 then [Config_pin want want_ah] else []),
            b\<lparr>bt_pin := if want \<ge> 0 \<and> \<not> config_ok then -2 else want, bt_high := want_ah,
              bt_pressed := False, bt_held := False, bt_raw := False\<rparr>)
      else ([], b))"

text \<open>A level that has been stable.\<close>

definition button_press :: "bool \<Rightarrow> int \<Rightarrow> button \<Rightarrow> effect list \<times> button" where
  "button_press raw now b =
     (if raw \<and> \<not> bt_pressed b then ([], b\<lparr>bt_pressed := True, bt_held := False, bt_since := now\<rparr>)
      else if raw \<and> bt_pressed b \<and> \<not> bt_held b \<and> now - bt_since b \<ge> 1500 then ([Fire_hold], b\<lparr>bt_held := True\<rparr>)
      else if \<not> raw \<and> bt_pressed b then (if bt_held b then [] else [Fire_press], b\<lparr>bt_pressed := False\<rparr>)
      else ([], b))"

definition button_level :: "bool \<Rightarrow> int \<Rightarrow> button \<Rightarrow> effect list \<times> button" where
  "button_level raw now b =
     (if raw \<noteq> bt_raw b then ([], b\<lparr>bt_raw := raw, bt_stable := now\<rparr>)
      else if now - bt_stable b < 40 then ([], b)
      else button_press raw now b)"

definition button_round :: "int \<Rightarrow> bool \<Rightarrow> bool \<Rightarrow> bool \<Rightarrow> int \<Rightarrow> button \<Rightarrow> effect list \<times> button" where
  "button_round want want_ah config_ok level now_us b =
     (let (es, b) = button_pin want want_ah config_ok b
      in if bt_pin b < 0 then (es, b)
         else let (fs, b) = button_level (level = bt_high b) (c_div now_us 1000) b in (es @ fs, b))"

text \<open>The choices of the settings, and the action that is run.\<close>

definition k_actions :: "string list" where
  "k_actions = ['''', ''power'', ''poweroff'', ''reset'', ''wol'', ''runbook'', ''clip'', ''screenshot'', ''hotspot'', ''netnext'', ''netswap'']"

definition action_of :: "int \<Rightarrow> string" where
  "action_of i = (if 0 \<le> i \<and> nat i < length k_actions then k_actions ! nat i else '''')"

section \<open>Properties\<close>

text \<open>Rounds in which the settings stay.\<close>

fun button_run :: "button \<Rightarrow> (bool \<times> int) list \<Rightarrow> effect list" where
  "button_run b [] = []"
| "button_run b ((level, now_us) # xs) =
     (case button_round (bt_pin b) (bt_high b) True level now_us b of (es, b') \<Rightarrow> es @ button_run b' xs)"

text \<open>What a person does: levels that were the same for at least 40 ms, and the one action of each time the button is down.\<close>

fun stable_levels :: "bool \<Rightarrow> bool \<Rightarrow> int \<Rightarrow> (bool \<times> int) list \<Rightarrow> (bool \<times> int) list" where
  "stable_levels high before since [] = []"
| "stable_levels high before since ((level, now_us) # xs) =
     (let down = (level = high); now = c_div now_us 1000
      in if down \<noteq> before then stable_levels high down now xs
         else (if now - since < 40 then [] else [(down, now)]) @ stable_levels high before since xs)"

function presses :: "(bool \<times> int) list \<Rightarrow> effect list" where
  "presses [] = []"
| "presses ((False, t) # xs) = presses xs"
| "presses ((True, t) # xs) =
     (if list_ex (\<lambda>(d, u). u - t \<ge> 1500) (takeWhile fst xs) then [Fire_hold]
      else if dropWhile fst xs \<noteq> [] then [Fire_press] else []) @ presses (dropWhile fst xs)"
  by pat_completeness auto
termination by (relation "measure length") (auto simp: less_Suc_eq_le intro: length_dropWhile_le)

text \<open>The same, from a state of the task on.\<close>

definition presses_from :: "button \<Rightarrow> (bool \<times> int) list \<Rightarrow> effect list" where
  "presses_from b xs =
     (if \<not> bt_pressed b then presses xs
      else (if bt_held b then []
            else if list_ex (\<lambda>(d, u). u - bt_since b \<ge> 1500) (takeWhile fst xs) then [Fire_hold]
            else if dropWhile fst xs \<noteq> [] then [Fire_press] else []) @ presses (dropWhile fst xs))"

lemma presses_press:
  "presses_from b ((d, t) # xs) = fst (button_press d t b) @ presses_from (snd (button_press d t b)) xs"
  by (cases d; cases "bt_pressed b"; cases "bt_held b") (auto simp: presses_from_def button_press_def)

lemma button_press_keeps [simp]:
  "bt_pin (snd (button_press d t b)) = bt_pin b" "bt_high (snd (button_press d t b)) = bt_high b"
  "bt_raw (snd (button_press d t b)) = bt_raw b" "bt_stable (snd (button_press d t b)) = bt_stable b"
  by (simp_all add: button_press_def)

lemma button_round_same:
  assumes "0 \<le> bt_pin b"
  shows "button_round (bt_pin b) (bt_high b) True level now_us b = button_level (level = bt_high b) (c_div now_us 1000) b"
  using assms by (simp add: button_round_def button_pin_def split: prod.split)

lemma button_run_from:
  assumes "0 \<le> bt_pin b"
  shows "button_run b xs = presses_from b (stable_levels (bt_high b) (bt_raw b) (bt_stable b) xs)"
  using assms
proof (induction xs arbitrary: b)
  case Nil
  then show ?case by (simp add: presses_from_def)
next
  case (Cons x xs)
  obtain level now_us where x: "x = (level, now_us)" by force
  let ?d = "level = bt_high b" and ?t = "c_div now_us 1000"
  have run: "button_run b (x # xs) = (case button_level ?d ?t b of (es, b') \<Rightarrow> es @ button_run b' xs)"
    using button_round_same [OF Cons.prems] by (simp add: x)
  show ?case
  proof (cases "?d \<noteq> bt_raw b \<or> ?t - bt_stable b < 40")
    case True
    then show ?thesis using Cons unfolding run by (auto simp: x button_level_def presses_from_def Let_def)
  next
    case False
    then have "button_run b (x # xs) = fst (button_press ?d ?t b) @ button_run (snd (button_press ?d ?t b)) xs"
      unfolding run by (simp add: button_level_def split: prod.split)
    moreover have "stable_levels (bt_high b) (bt_raw b) (bt_stable b) (x # xs) = (?d, ?t) # stable_levels (bt_high b) (bt_raw b) (bt_stable b) xs"
      using False by (simp add: x Let_def)
    ultimately show ?thesis using Cons by (simp only: presses_press button_press_keeps)
  qed
qed

text \<open>
  C39. Each time the button is down, bounces apart, fires exactly one action: the hold as soon as it was down for
  1.5 seconds, else the press when it is let go. Over any levels, read at any times.
\<close>

theorem button_presses:
  assumes "0 \<le> bt_pin b" and "\<not> bt_pressed b"
  shows "button_run b xs = presses (stable_levels (bt_high b) (bt_raw b) (bt_stable b) xs)"
  using button_run_from [OF assms(1)] assms(2) by (simp add: presses_from_def)

theorem button_presses_witness:
  "button_run (button_start\<lparr>bt_pin := 4\<rparr>) [(False, 0), (False, 50000), (False, 70000), (True, 80000), (True, 130000)] = [Fire_press]"
proof -
  have "presses (stable_levels False False 0 [(False, 0), (False, 50000), (False, 70000), (True, 80000), (True, 130000)]) = [Fire_press]"
    by code_simp
  moreover have "button_run (button_start\<lparr>bt_pin := 4\<rparr>) xs = presses (stable_levels False False 0 xs)" for xs
    using button_presses [of "button_start\<lparr>bt_pin := 4\<rparr>" xs] by (simp add: button_start_def)
  ultimately show ?thesis by (simp only:)
qed

text \<open>A pin that cannot be an input is set up anew in every round: \<open>-2\<close> differs from the setting, so it is tried again, and not only when the setting changes.\<close>

lemma button_retries:
  assumes "0 \<le> pin" and "button_round pin high False level t b = (es, b')" and "Config_pin pin high \<in> set es"
  shows "\<exists>es' b''. button_round pin high ok level' t' b' = (es', b'') \<and> Config_pin pin high \<in> set es'"
proof -
  have changed: "pin \<noteq> bt_pin b \<or> high \<noteq> bt_high b"
    using assms by (auto simp: button_round_def button_pin_def button_level_def button_press_def split: if_splits prod.splits)
  then have "bt_pin b' = -2" using assms(1,2) by (auto simp: button_round_def button_pin_def split: if_splits)
  then show ?thesis using assms(1) by (auto simp: button_round_def button_pin_def split: prod.splits)
qed

end
