(* ===== verification/Jiggler.thy ===== *)
theory Jiggler
  imports Prelude
begin

text \<open>
  kvm_hid/jiggler.c: the timer that moves the pointer of a target nobody uses, to keep it awake. What it asks of the HID
  part are the arguments of a tick: whether a target is there, whether it sleeps, the time of the last input sent to it, and
  that time after the two moves of its own.
\<close>

section \<open>The tick\<close>

record jiggler =
  jg_seen :: int
  jg_next :: int
  jg_nudges :: u32

definition jiggler_start :: jiggler where
  "jiggler_start = \<lparr>jg_seen = 0, jg_next = 0, jg_nudges = 0\<rparr>"

definition jiggler_tick :: "int \<Rightarrow> bool \<Rightarrow> bool \<Rightarrow> int \<Rightarrow> int \<Rightarrow> int \<Rightarrow> jiggler \<Rightarrow> (int \<times> int) list \<times> jiggler" where
  "jiggler_tick every_s ready suspended now last_in after j =
     (if every_s \<le> 0 then ([], j\<lparr>jg_next := 0\<rparr>)
      else if \<not> ready then ([], j)
      else let every = every_s * 1000000
           in if last_in \<noteq> jg_seen j then ([], j\<lparr>jg_seen := last_in, jg_next := last_in + every\<rparr>)
              else if jg_next j = 0 then ([], j\<lparr>jg_next := now + every\<rparr>)
              else if now < jg_next j then ([], j)
              else if suspended then ([], j\<lparr>jg_next := now + every\<rparr>)
              else ([(1, 0), (-1, 0)], j\<lparr>jg_seen := after, jg_next := now + every, jg_nudges := jg_nudges j + 1\<rparr>))"

section \<open>Histories\<close>

text \<open>
  What happens around it: the operator's input reaches the target, or the timer fires; a tick of the jiggler's own moves
  stamps them as input, a moment after it read the clock.
\<close>

datatype event = Input int | Tick int int bool bool

type_synonym world = "int \<times> jiggler"

fun jig_step :: "int \<Rightarrow> world \<Rightarrow> event \<Rightarrow> world" where
  "jig_step every_s (last_in, j) (Input t) = (t, j)"
| "jig_step every_s (last_in, j) (Tick now after ready suspended) =
     (case jiggler_tick every_s ready suspended now last_in after j of (moves, j') \<Rightarrow> (if moves = [] then last_in else after, j'))"

definition nudged :: "int \<Rightarrow> world \<Rightarrow> event \<Rightarrow> bool" where
  "nudged every_s w e = (case e of Input t \<Rightarrow> False
     | Tick now after ready suspended \<Rightarrow> fst (jiggler_tick every_s ready suspended now (fst w) after (snd w)) \<noteq> [])"

text \<open>The clock goes forward: from one event to the next, and not back within a tick.\<close>

fun first_time :: "event \<Rightarrow> int" where
  "first_time (Input t) = t"
| "first_time (Tick now after r s) = now"

fun last_time :: "event \<Rightarrow> int" where
  "last_time (Input t) = t"
| "last_time (Tick now after r s) = after"

fun in_order :: "int \<Rightarrow> event list \<Rightarrow> bool" where
  "in_order t [] = True"
| "in_order t (e # es) = (t < first_time e \<and> first_time e \<le> last_time e \<and> in_order (last_time e) es)"

text \<open>The times of the operator's inputs and of the nudges, in a history.\<close>

definition inputs :: "event list \<Rightarrow> int set" where
  "inputs es = {t. Input t \<in> set es}"

fun nudge_times :: "int \<Rightarrow> world \<Rightarrow> event list \<Rightarrow> int list" where
  "nudge_times every_s w [] = []"
| "nudge_times every_s w (e # es) = (if nudged every_s w e then [first_time e] else []) @ nudge_times every_s (jig_step every_s w e) es"

section \<open>Properties\<close>

text \<open>What holds at every moment: \<open>q\<close> is the last time anything was done to the target, by the operator or by a nudge.\<close>

definition jig_ok :: "int \<Rightarrow> int \<Rightarrow> int \<Rightarrow> world \<Rightarrow> bool" where
  "jig_ok every_s t q = (\<lambda>(last_in, j). q \<le> t \<and> last_in \<le> t \<and> jg_seen j \<le> t \<and> 0 \<le> t \<and> 0 \<le> last_in \<and> jg_next j \<le> t + every_s * 1000000 \<and>
     (last_in \<noteq> jg_seen j \<longrightarrow> q \<le> last_in) \<and> (last_in = jg_seen j \<and> jg_next j \<noteq> 0 \<longrightarrow> q + every_s * 1000000 \<le> jg_next j))"

lemma jig_step_ok:
  assumes "jig_ok every_s t q w" and "t < first_time e" "first_time e \<le> last_time e" and "0 < every_s"
  shows "jig_ok every_s (last_time e) (case e of Input u \<Rightarrow> u | Tick now after r s \<Rightarrow> if nudged every_s w e then now else q) (jig_step every_s w e) \<and>
    (nudged every_s w e \<longrightarrow> q + every_s * 1000000 \<le> first_time e)"
proof -
  obtain last_in j where w: "w = (last_in, j)" by force
  show ?thesis
    using assms by (cases e) (auto simp: w jig_ok_def nudged_def jiggler_tick_def Let_def split: if_splits)
qed

lemma nudges_wait:
  assumes "jig_ok every_s t q w" and "in_order t es" and "0 < every_s"
  shows "\<forall>n \<in> set (nudge_times every_s w es). q + every_s * 1000000 \<le> n"
  using assms
proof (induction es arbitrary: t q w)
  case (Cons e es)
  let ?q = "case e of Input u \<Rightarrow> u | Tick now after r s \<Rightarrow> if nudged every_s w e then now else q"
  note s = jig_step_ok [OF Cons.prems(1), of e]
  have o: "t < first_time e" "first_time e \<le> last_time e" "in_order (last_time e) es" using Cons.prems(2) by simp_all
  have le: "q \<le> ?q" using Cons.prems(1) o by (cases w) (auto simp: jig_ok_def split: event.splits)
  have "\<forall>n \<in> set (nudge_times every_s (jig_step every_s w e) es). ?q + every_s * 1000000 \<le> n"
    using Cons.IH [OF _ o(3) Cons.prems(3)] s o Cons.prems(3) by blast
  then show ?case using s o le Cons.prems(3) by fastforce
qed simp

lemma in_order_append: "in_order t (es @ fs) \<longleftrightarrow> in_order t es \<and> in_order (foldl (\<lambda>_ e. last_time e) t es) fs"
  by (induction es arbitrary: t) auto

lemma nudge_times_append:
  "nudge_times every_s w (es @ fs) = nudge_times every_s w es @ nudge_times every_s (foldl (jig_step every_s) w es) fs"
  by (induction es arbitrary: w) auto

lemma nudge_times_split:
  assumes "n \<in> set (nudge_times every_s w es)"
  shows "\<exists>as x bs. es = as @ x # bs \<and> nudged every_s (foldl (jig_step every_s) w as) x \<and> first_time x = n"
  using assms
proof (induction es arbitrary: w)
  case (Cons y ys)
  show ?case
  proof (cases "nudged every_s w y \<and> n = first_time y")
    case True
    then show ?thesis by (intro exI [of _ "[]"] exI [of _ y] exI [of _ ys]) simp
  next
    case False
    then have "n \<in> set (nudge_times every_s (jig_step every_s w y) ys)" using Cons.prems by (auto split: if_splits)
    then obtain as x bs where "ys = as @ x # bs" "nudged every_s (foldl (jig_step every_s) (jig_step every_s w y) as) x" "first_time x = n"
      using Cons.IH by blast
    then show ?thesis by (intro exI [of _ "y # as"] exI [of _ x] exI [of _ bs]) simp
  qed
qed simp

lemma jig_run_ok:
  assumes "jig_ok every_s t q w" and "in_order t es" and "0 < every_s"
  shows "\<exists>q'. jig_ok every_s (foldl (\<lambda>_ e. last_time e) t es) q' (foldl (jig_step every_s) w es)"
  using assms
proof (induction es arbitrary: t q w)
  case (Cons e es)
  then have "t < first_time e" "first_time e \<le> last_time e" "in_order (last_time e) es" by simp_all
  then show ?case using Cons.IH jig_step_ok [OF Cons.prems(1), of e] Cons.prems(3) by fastforce
qed auto

lemma jig_start_ok: "0 < every_s \<Longrightarrow> jig_ok every_s 0 0 (0, jiggler_start)"
  by (simp add: jig_ok_def jiggler_start_def)

text \<open>
  C37. The jiggler stands aside: a nudge comes at least the set time after the operator's last input and after the nudge
  before it, over any history of inputs, readiness and sleep.
\<close>

theorem jiggler_stands_aside:
  assumes "in_order 0 (es @ [e] @ fs)" and "0 < every_s" and "nudged every_s (foldl (jig_step every_s) (0, jiggler_start) es) e"
  shows "(\<forall>i \<in> inputs es. i + every_s * 1000000 \<le> first_time e) \<and>
    (\<forall>n \<in> set (nudge_times every_s (0, jiggler_start) es). n + every_s * 1000000 \<le> first_time e)"
proof -
  let ?w = "(0, jiggler_start)"
  have later: "q + every_s * 1000000 \<le> first_time e"
    if s: "es = as @ x # bs" and q: "(case x of Input u \<Rightarrow> u | Tick now after r sp \<Rightarrow> if nudged every_s (foldl (jig_step every_s) ?w as) x then now else 0) = q"
      and real: "case x of Input u \<Rightarrow> True | Tick now after r sp \<Rightarrow> nudged every_s (foldl (jig_step every_s) ?w as) x" for as x bs q
  proof -
    have o: "in_order 0 as" "in_order (foldl (\<lambda>_ e. last_time e) 0 as) (x # bs @ [e])"
      using assms(1) by (simp_all add: s in_order_append)
    obtain q' where ok: "jig_ok every_s (foldl (\<lambda>_ e. last_time e) 0 as) q' (foldl (jig_step every_s) ?w as)"
      using jig_run_ok [OF jig_start_ok [OF assms(2)] o(1) assms(2)] by blast
    have x: "foldl (\<lambda>_ e. last_time e) 0 as < first_time x" "first_time x \<le> last_time x" "in_order (last_time x) (bs @ [e])" using o(2) by simp_all
    have "jig_ok every_s (last_time x) q (jig_step every_s (foldl (jig_step every_s) ?w as) x)"
      using conjunct1 [OF jig_step_ok [OF ok x(1,2) assms(2)]] q real by (auto split: event.splits)
    then have "\<forall>n \<in> set (nudge_times every_s (jig_step every_s (foldl (jig_step every_s) ?w as) x) (bs @ [e])). q + every_s * 1000000 \<le> n"
      using nudges_wait x(3) assms(2) by blast
    then show ?thesis using assms(3) by (simp add: s nudge_times_append)
  qed
  have "i + every_s * 1000000 \<le> first_time e" if "i \<in> inputs es" for i
  proof -
    have "Input i \<in> set es" using that by (simp add: inputs_def)
    from split_list [OF this] obtain as bs where "es = as @ Input i # bs" by blast
    then show ?thesis using later [of as "Input i" bs i] by simp
  qed
  moreover have "n + every_s * 1000000 \<le> first_time e" if "n \<in> set (nudge_times every_s ?w es)" for n
  proof -
    from nudge_times_split [OF that] obtain as x bs where x: "es = as @ x # bs" "nudged every_s (foldl (jig_step every_s) ?w as) x" "first_time x = n" by blast
    then show ?thesis using later [of as x bs n] by (cases x) (auto simp: nudged_def)
  qed
  ultimately show ?thesis by blast
qed

theorem jiggler_stands_aside_witness:
  "(2000001::int) + 1 * 1000000 \<le> 4000005"
proof -
  let ?es = "[Tick 1000000 1000000 True False, Input 2000001, Tick 2000003 2000003 True False]" and ?e = "Tick 4000005 4000006 True False"
  have "in_order 0 (?es @ [?e] @ [])" "nudged 1 (foldl (jig_step 1) (0, jiggler_start) ?es) ?e" by code_simp+
  moreover have "(2000001::int) \<in> inputs ?es" by (simp add: inputs_def)
  ultimately show ?thesis using jiggler_stands_aside [of ?es ?e "[]" 1] by fastforce
qed

text \<open>A tick with a target that is there and awake, and one that nudges nobody: then the next nudge is due at a known time.\<close>

definition awake :: "event \<Rightarrow> bool" where
  "awake e = (case e of Input t \<Rightarrow> False | Tick now after ready suspended \<Rightarrow> ready \<and> \<not> suspended)"

definition due_by :: "int \<Rightarrow> world \<Rightarrow> bool" where
  "due_by u = (\<lambda>(last_in, j). last_in = jg_seen j \<and> jg_next j \<noteq> 0 \<and> jg_next j \<le> u)"

lemma tick_due:
  assumes "jig_ok every_s t q w" and "t < first_time e" and "0 < every_s" and "awake e" and "\<not> nudged every_s w e"
  shows "due_by (first_time e + every_s * 1000000) (jig_step every_s w e)"
proof -
  obtain last_in j where w: "w = (last_in, j)" by force
  show ?thesis using assms
    by (cases e) (auto simp: w jig_ok_def awake_def due_by_def nudged_def jiggler_tick_def Let_def split: if_splits)
qed

lemma awake_due:
  assumes "due_by u w" and "0 < every_s" and "list_all awake es" and "awake e" and "u \<le> first_time e"
  shows "nudge_times every_s w (es @ [e]) \<noteq> []"
  using assms(1,3)
proof (induction es arbitrary: w)
  case Nil
  obtain last_in j where w: "w = (last_in, j)" by force
  show ?case using Nil assms(2,4,5) by (cases e) (auto simp: w due_by_def awake_def nudged_def jiggler_tick_def Let_def)
next
  case (Cons x es)
  obtain last_in j where w: "w = (last_in, j)" by force
  show ?case
  proof (cases "nudged every_s w x")
    case False
    then have "jig_step every_s w x = w" using Cons.prems assms(2)
      by (cases x) (auto simp: w due_by_def awake_def nudged_def jiggler_tick_def Let_def split: if_splits)
    then show ?thesis using Cons False by simp
  qed simp
qed

text \<open>
  And it does its work: while the target is there, awake and untouched, a nudge comes before the set time has passed
  between two ticks, whatever came before.
\<close>

theorem jiggler_keeps_awake:
  assumes "in_order 0 (es @ [a])" and "0 < every_s" and "list_all awake (a # ms @ [e])" and "first_time a + every_s * 1000000 \<le> first_time e"
  shows "nudge_times every_s (foldl (jig_step every_s) (0, jiggler_start) es) (a # ms @ [e]) \<noteq> []"
proof (cases "nudged every_s (foldl (jig_step every_s) (0, jiggler_start) es) a")
  case False
  have o: "in_order 0 es" "foldl (\<lambda>_ e. last_time e) 0 es < first_time a" using assms(1) by (simp_all add: in_order_append)
  obtain q where "jig_ok every_s (foldl (\<lambda>_ e. last_time e) 0 es) q (foldl (jig_step every_s) (0, jiggler_start) es)"
    using jig_run_ok [OF jig_start_ok [OF assms(2)] o(1) assms(2)] by blast
  from tick_due [OF this o(2) assms(2) _ False] assms(3)
  have "due_by (first_time a + every_s * 1000000) (jig_step every_s (foldl (jig_step every_s) (0, jiggler_start) es) a)" by simp
  from awake_due [OF this assms(2) _ _ assms(4)] show ?thesis using assms(3) by simp
qed simp

theorem jiggler_keeps_awake_witness:
  "nudge_times 1 (5, \<lparr>jg_seen = 0, jg_next = 0, jg_nudges = 0\<rparr>) [Tick 7 8 True False, Tick 1000009 1000010 True False] \<noteq> []"
proof -
  have "in_order 0 ([Input 5] @ [Tick 7 8 True False])" "list_all awake (Tick 7 8 True False # [] @ [Tick 1000009 1000010 True False])"
    by code_simp+
  from jiggler_keeps_awake [OF this(1) _ this(2), of 1] show ?thesis by (simp add: jiggler_start_def)
qed

end
