(* ===== verification/Ota_Trial.thy ===== *)
theory Ota_Trial
  imports Prelude
begin

text \<open>
  kvm_web/ota_trial.c, with its callers in main.c and http_server.c: an update on trial. The request lies in flash over the
  restart: the length and the hash of the image it is for. Flash, timers and the update library answer through
  arguments: whether each call succeeds. What the library does to the running image is its documented effect: marked
  valid, or marked invalid. An image that is neither is taken back by the boot loader at the next restart.
\<close>

section \<open>The request in flash\<close>

record trial_nvs =
  tn_secs :: "u32 option"
  tn_sha :: "bytes option"

definition forget_request :: "bool \<Rightarrow> trial_nvs \<Rightarrow> trial_nvs" where
  "forget_request open_ok nv = (if open_ok then \<lparr>tn_secs = None, tn_sha = None\<rparr> else nv)"

datatype esp_err = ESP_OK | ESP_ERR_INVALID_ARG | ESP_ERR_INVALID_STATE | ESP_ERR_other

record nvs_calls =
  nc_open :: bool
  nc_secs :: bool
  nc_sha :: bool
  nc_commit :: bool

text \<open>\<open>desc\<close>: the hash in the description of the image in the target partition, if it can be read.\<close>

definition kvm_ota_trial_arm :: "nvs_calls \<Rightarrow> bytes option \<Rightarrow> u32 \<Rightarrow> trial_nvs \<Rightarrow> esp_err \<times> trial_nvs" where
  "kvm_ota_trial_arm c desc seconds nv =
     (if seconds = 0 then (ESP_OK, forget_request (nc_open c) nv)
      else if seconds < 60 \<or> seconds > 3600 then (ESP_ERR_INVALID_ARG, nv)
      else case desc of
          None \<Rightarrow> (ESP_ERR_other, nv)
        | Some sha \<Rightarrow>
            (if \<not> nc_open c then (ESP_ERR_other, nv)
             else if \<not> nc_secs c then (ESP_ERR_other, nv)
             else let nv = nv\<lparr>tn_secs := Some seconds\<rparr>
                  in if \<not> nc_sha c then (ESP_ERR_other, nv)
                     else let nv = nv\<lparr>tn_sha := Some sha\<rparr>
                          in (if nc_commit c then ESP_OK else ESP_ERR_other, nv)))"

definition take_request :: "bool \<Rightarrow> bool \<Rightarrow> bytes \<Rightarrow> trial_nvs \<Rightarrow> u32 \<times> trial_nvs" where
  "take_request open_ro open_rw own nv =
     (if \<not> open_ro then (0, nv)
      else let nv' = forget_request open_rw nv
           in case (tn_secs nv, tn_sha nv) of
                (Some secs, Some sha) \<Rightarrow> (if length sha = 32 \<and> sha = own then (secs, nv') else (0, nv'))
              | _ \<Rightarrow> (0, nv'))"

section \<open>The trial\<close>

datatype image = Pending | Valid | Invalid | Other_image

text \<open>The deadline, the decision, the timer and the watchdog (in seconds, 0 when off), and the state of the running image.\<close>

record trial =
  ot_deadline :: int
  ot_rolled_back :: bool
  ot_timer :: bool
  ot_watchdog :: u32
  ot_image :: image

definition watchdog_after :: "u32 \<Rightarrow> u32" where
  "watchdog_after s = s + s div 4 + 60"

definition kvm_ota_trial_begin :: "bool \<Rightarrow> bool \<Rightarrow> bool \<Rightarrow> bytes \<Rightarrow> bool \<Rightarrow> int \<Rightarrow> trial_nvs \<Rightarrow> trial \<Rightarrow> bool \<times> trial_nvs \<times> trial" where
  "kvm_ota_trial_begin state_ok open_ro open_rw own timer_ok now nv s =
     (let pending = (state_ok \<and> ot_image s = Pending);
          (secs, nv) = take_request open_ro open_rw own nv
      in if \<not> pending \<or> secs = 0 then (False, nv, s)
         else if \<not> timer_ok then (False, nv, s)
         else (True, nv, s\<lparr>ot_timer := True, ot_watchdog := watchdog_after secs, ot_deadline := now + uint secs * 1000000\<rparr>))"

definition kvm_ota_trial_left :: "int \<Rightarrow> trial \<Rightarrow> int" where
  "kvm_ota_trial_left now s =
     (if ot_deadline s = 0 then 0
      else let left = ot_deadline s - now in if left > 0 then c_div (left + 999999) 1000000 else 1)"

definition kvm_ota_trial_keep :: "bool \<Rightarrow> trial \<Rightarrow> esp_err \<times> trial" where
  "kvm_ota_trial_keep mark_ok s =
     (if ot_deadline s = 0 \<or> ot_rolled_back s then (ESP_ERR_INVALID_STATE, s)
      else if \<not> mark_ok then (ESP_ERR_other, s)
      else (ESP_OK, s\<lparr>ot_image := Valid, ot_timer := False, ot_watchdog := 0, ot_deadline := 0\<rparr>))"

definition kvm_ota_trial_rollback :: "bool \<Rightarrow> trial \<Rightarrow> trial" where
  "kvm_ota_trial_rollback mark_ok s =
     (let s = s\<lparr>ot_rolled_back := True, ot_timer := False\<rparr> in if mark_ok then s\<lparr>ot_image := Invalid\<rparr> else s)"

text \<open>The timer, which fires once.\<close>

definition on_timeout :: "bool \<Rightarrow> trial \<Rightarrow> trial" where
  "on_timeout mark_ok s = (if ot_timer s then kvm_ota_trial_rollback mark_ok s else s)"

text \<open>main.c: an image that is not on trial is confirmed as soon as the device can be reached.\<close>

definition confirm_ota_image :: "bool \<Rightarrow> bool \<Rightarrow> bool \<Rightarrow> bytes \<Rightarrow> bool \<Rightarrow> bool \<Rightarrow> int \<Rightarrow> trial_nvs \<Rightarrow> trial \<Rightarrow> trial_nvs \<times> trial" where
  "confirm_ota_image state_ok open_ro open_rw own timer_ok mark_ok now nv s =
     (case kvm_ota_trial_begin state_ok open_ro open_rw own timer_ok now nv s of
        (True, nv, s) \<Rightarrow> (nv, s)
      | (False, nv, s) \<Rightarrow>
          (if \<not> state_ok then (nv, s)
           else if ot_image s \<noteq> Pending then (nv, s)
           else (nv, if mark_ok then s\<lparr>ot_image := Valid\<rparr> else s)))"

text \<open>http_server.c: the operator's words.\<close>

definition api_system_update_rollback_post :: "bool \<Rightarrow> int \<Rightarrow> trial \<Rightarrow> bool \<times> trial" where
  "api_system_update_rollback_post mark_ok now s =
     (if kvm_ota_trial_left now s = 0 then (False, s) else (True, kvm_ota_trial_rollback mark_ok s))"

section \<open>Properties\<close>

datatype trial_event = Keep bool | Roll_back bool int | Timeout bool

definition trial_step :: "trial \<Rightarrow> trial_event \<Rightarrow> trial" where
  "trial_step s e =
     (case e of Keep ok \<Rightarrow> snd (kvm_ota_trial_keep ok s)
      | Roll_back ok now \<Rightarrow> snd (api_system_update_rollback_post ok now s)
      | Timeout ok \<Rightarrow> on_timeout ok s)"

text \<open>What decides: being told that it works, with the mark written, or anything that says it does not.\<close>

definition decides :: "trial_event \<Rightarrow> bool" where
  "decides e = (case e of Keep ok \<Rightarrow> ok | _ \<Rightarrow> True)"

definition booted :: "image \<Rightarrow> trial" where
  "booted i = \<lparr>ot_deadline = 0, ot_rolled_back = False, ot_timer = False, ot_watchdog = 0, ot_image = i\<rparr>"

definition on_trial :: "trial \<Rightarrow> bool" where
  "on_trial s \<longleftrightarrow> 0 < ot_deadline s \<and> \<not> ot_rolled_back s \<and> ot_timer s \<and> ot_watchdog s \<noteq> 0 \<and> ot_image s = Pending"

lemma left_pos: "0 < ot_deadline s \<Longrightarrow> 0 < kvm_ota_trial_left now s"
  by (auto simp: kvm_ota_trial_left_def c_div_def Let_def)

lemma kept_stays:
  assumes "ot_image s = Valid" and "ot_deadline s = 0" and "\<not> ot_timer s"
  shows "foldl trial_step s es = s"
proof (induction es)
  case (Cons e es)
  have "trial_step s e = s" using assms
    by (cases e) (simp_all add: trial_step_def kvm_ota_trial_keep_def api_system_update_rollback_post_def kvm_ota_trial_left_def on_timeout_def)
  then show ?case using Cons by simp
qed simp

lemma rolled_back_stays:
  assumes "ot_rolled_back s" and "ot_image s \<noteq> Valid" and "ot_watchdog s = w"
  shows "ot_image (foldl trial_step s es) \<noteq> Valid \<and> ot_watchdog (foldl trial_step s es) = w"
  using assms
proof (induction es arbitrary: s)
  case (Cons e es)
  have "ot_rolled_back (trial_step s e) \<and> ot_image (trial_step s e) \<noteq> Valid \<and> ot_watchdog (trial_step s e) = w" using Cons.prems
    by (cases e) (simp_all add: trial_step_def kvm_ota_trial_keep_def api_system_update_rollback_post_def on_timeout_def
        kvm_ota_trial_rollback_def Let_def)
  then show ?case using Cons.IH by simp
qed simp

lemma goes_back:
  assumes "on_trial s" and "\<And>ok. e \<noteq> Keep ok"
  shows "ot_image (foldl trial_step s (e # es)) \<noteq> Valid \<and> ot_watchdog (foldl trial_step s (e # es)) = ot_watchdog s \<and> decides e"
proof -
  have "ot_rolled_back (trial_step s e) \<and> ot_image (trial_step s e) \<noteq> Valid \<and> ot_watchdog (trial_step s e) = ot_watchdog s \<and> decides e"
    using assms left_pos [of s]
    by (cases e) (auto simp: on_trial_def trial_step_def api_system_update_rollback_post_def on_timeout_def kvm_ota_trial_rollback_def
        decides_def Let_def less_le)
  then show ?thesis using rolled_back_stays [of "trial_step s e" "ot_watchdog s" es] by simp
qed

lemma trial_keep:
  assumes "on_trial s"
  shows "foldl trial_step s (Keep False # es) = foldl trial_step s es" and "ot_image (foldl trial_step s (Keep True # es)) = Valid"
    and "decides (Keep ok) = ok"
proof -
  have "trial_step s (Keep False) = s" by (simp add: trial_step_def kvm_ota_trial_keep_def)
  then show "foldl trial_step s (Keep False # es) = foldl trial_step s es" by simp
  show "ot_image (foldl trial_step s (Keep True # es)) = Valid"
    using assms kept_stays [of "trial_step s (Keep True)" es] by (simp add: on_trial_def trial_step_def kvm_ota_trial_keep_def)
qed (simp add: decides_def)

lemma trial_run:
  assumes "on_trial s"
  shows "(ot_image (foldl trial_step s es) = Valid \<longleftrightarrow> find decides es = Some (Keep True)) \<and>
    (ot_image (foldl trial_step s es) = Valid \<or> ot_watchdog (foldl trial_step s es) \<noteq> 0)"
proof (induction es)
  case (Cons e es)
  show ?case
  proof (cases e)
    case (Keep ok)
    then show ?thesis using Cons trial_keep [OF assms] by (cases ok) (auto simp del: foldl_Cons)
  qed (use goes_back [OF assms, of e es] assms in \<open>auto simp: on_trial_def\<close>)
qed (use assms in \<open>simp add: on_trial_def\<close>)

lemma watchdog_after_pos:
  assumes "s \<le> 3600"
  shows "watchdog_after s \<noteq> 0" and "unat s < unat (watchdog_after s)"
proof -
  have "unat s \<le> 3600" using assms by (simp add: word_le_nat_alt)
  then have "unat (watchdog_after s) = unat s + unat s div 4 + 60"
    by (simp add: watchdog_after_def unat_word_ariths unat_div_distrib)
  then show "watchdog_after s \<noteq> 0" "unat s < unat (watchdog_after s)" by auto
qed

lemma armed_takes:
  assumes "kvm_ota_trial_arm c (Some sha) secs nv = (ESP_OK, nv')" and "length sha = 32" and "secs \<noteq> 0"
  shows "take_request True open_rw own nv' = (if sha = own then secs else 0, forget_request open_rw nv')" and "secs \<le> 3600"
  using assms by (auto simp: kvm_ota_trial_arm_def take_request_def Let_def split: if_splits)

text \<open>
  C36. An update asked to be on trial is kept exactly if the operator says so first. For the image the request names, once it has
  booted and is up: it becomes valid only when a successful word to keep it comes before the time-out and any word to go back, and until it
  is valid the watchdog runs, set later than the timer; the request is used up. Any other image is confirmed at once.
\<close>

theorem trial_verdict:
  assumes "kvm_ota_trial_arm c (Some sha) secs nv = (ESP_OK, nv')" and "length sha = 32" and "secs \<noteq> 0" and "0 \<le> now"
    and "confirm_ota_image True True True own True mark_ok now nv' (booted Pending) = (nv'', s)"
  shows "nv'' = \<lparr>tn_secs = None, tn_sha = None\<rparr> \<and>
    (if sha = own
     then (ot_image (foldl trial_step s es) = Valid \<longleftrightarrow> find decides es = Some (Keep True)) \<and>
          (ot_image (foldl trial_step s es) = Valid \<or> ot_watchdog (foldl trial_step s es) \<noteq> 0) \<and>
          unat secs < unat (ot_watchdog s)
     else ot_image s = Valid \<or> \<not> mark_ok)"
proof -
  note t = armed_takes [OF assms(1-3)]
  show ?thesis
  proof (cases "sha = own")
    case True
    then have s: "s = (booted Pending)\<lparr>ot_timer := True, ot_watchdog := watchdog_after secs, ot_deadline := now + uint secs * 1000000\<rparr>"
        "nv'' = \<lparr>tn_secs = None, tn_sha = None\<rparr>"
      using assms(3,5) t(1) by (auto simp: confirm_ota_image_def kvm_ota_trial_begin_def forget_request_def booted_def)
    moreover have "0 < uint secs" using assms(3) unsigned_eq_0_iff [of secs, where ?'a = int] by (simp add: order_less_le)
    ultimately have "on_trial s" using assms(4) watchdog_after_pos(1) [OF t(2)] by (simp add: on_trial_def booted_def)
    then show ?thesis using trial_run s True watchdog_after_pos(2) [OF t(2)] by auto
  next
    case False
    then show ?thesis using assms(5) t(1)
      by (auto simp: confirm_ota_image_def kvm_ota_trial_begin_def forget_request_def booted_def split: if_splits)
  qed
qed

theorem trial_verdict_witness:
  "\<exists>nv' nv'' s. kvm_ota_trial_arm \<lparr>nc_open = True, nc_secs = True, nc_sha = True, nc_commit = True\<rparr> (Some (replicate 32 7)) 300
       \<lparr>tn_secs = None, tn_sha = None\<rparr> = (ESP_OK, nv') \<and>
     confirm_ota_image True True True (replicate 32 7) True True 5 nv' (booted Pending) = (nv'', s) \<and>
     ot_image (foldl trial_step s [Keep False, Timeout True, Keep True]) \<noteq> Valid"
proof -
  let ?nv = "\<lparr>tn_secs = Some 300, tn_sha = Some (replicate 32 7)\<rparr>"
  have a: "kvm_ota_trial_arm \<lparr>nc_open = True, nc_secs = True, nc_sha = True, nc_commit = True\<rparr> (Some (replicate 32 7)) 300
      \<lparr>tn_secs = None, tn_sha = None\<rparr> = (ESP_OK, ?nv)" by (simp add: kvm_ota_trial_arm_def)
  obtain nv'' s where c: "confirm_ota_image True True True (replicate 32 7) True True 5 ?nv (booted Pending) = (nv'', s)" by force
  have "find decides [Keep False, Timeout True, Keep True] = Some (Timeout True)" by (simp add: decides_def)
  then have "ot_image (foldl trial_step s [Keep False, Timeout True, Keep True]) \<noteq> Valid"
    using trial_verdict [OF a _ _ _ c, of "[Keep False, Timeout True, Keep True]"] by simp
  then show ?thesis using a c by blast
qed

end
