(* ===== verification/Config.thy ===== *)
theory Config
  imports Prelude
begin

text \<open>
  kvm_config/pin_conflict.c and profile_match.c: whether two settings want the same pin, and which profile fits the device that
  is attached. A name that may be \<open>NULL\<close> is an option where the code tells \<open>NULL\<close> apart; in profiles it does not.
\<close>

section \<open>Pins\<close>

record pin_claim =
  pc_key :: "string option"
  pc_gpio :: int
  pc_changing :: bool

record pin_conflict =
  cf_gpio :: int
  cf_key :: "string option"
  cf_other :: "string option"
  cf_held_by :: "string option"

definition shared_bus_line :: "string \<Rightarrow> string \<Rightarrow> bool" where
  "shared_bus_line a b \<longleftrightarrow> list_ex (\<lambda>(p, q). (a = p \<and> b = q) \<or> (a = q \<and> b = p)) [(''disp_sda'', ''rtc_sda''), (''disp_scl'', ''rtc_scl'')]"

fun find_fixed :: "(int \<Rightarrow> string option) \<Rightarrow> pin_claim list \<Rightarrow> pin_conflict option" where
  "find_fixed held_by [] = None"
| "find_fixed held_by (c # cs) =
     (if \<not> pc_changing c \<or> pc_gpio c < 0 then find_fixed held_by cs
      else case held_by (pc_gpio c) of
          Some use \<Rightarrow> Some \<lparr>cf_gpio = pc_gpio c, cf_key = pc_key c, cf_other = None, cf_held_by = Some use\<rparr>
        | None \<Rightarrow> find_fixed held_by cs)"

text \<open>The claim \<open>a\<close> against those after it.\<close>

fun find_pair :: "pin_claim \<Rightarrow> pin_claim list \<Rightarrow> pin_conflict option" where
  "find_pair a [] = None"
| "find_pair a (b # bs) =
     (if pc_gpio b \<noteq> pc_gpio a then find_pair a bs
      else if \<not> pc_changing a \<and> \<not> pc_changing b then find_pair a bs
      else if (case (pc_key a, pc_key b) of (Some ka, Some kb) \<Rightarrow> shared_bus_line ka kb | _ \<Rightarrow> False) then find_pair a bs
      else let (mine, theirs) = (if pc_changing b then (b, a) else (a, b))
           in Some \<lparr>cf_gpio = pc_gpio mine, cf_key = pc_key mine, cf_other = pc_key theirs, cf_held_by = None\<rparr>)"

fun find_pairs :: "pin_claim list \<Rightarrow> pin_conflict option" where
  "find_pairs [] = None"
| "find_pairs (a # as) =
     (if pc_gpio a < 0 then find_pairs as else case find_pair a as of Some c \<Rightarrow> Some c | None \<Rightarrow> find_pairs as)"

definition kvm_pin_conflict_find :: "pin_claim list \<Rightarrow> (int \<Rightarrow> string option) option \<Rightarrow> pin_conflict option" where
  "kvm_pin_conflict_find claims held_by =
     (case (case held_by of Some h \<Rightarrow> find_fixed h claims | None \<Rightarrow> None) of Some c \<Rightarrow> Some c | None \<Rightarrow> find_pairs claims)"

section \<open>Profiles\<close>

record prof_rule =
  pr_cec_name :: string
  pr_cec_vendor :: string
  pr_usb_os :: string

type_synonym prof_seen = prof_rule

fun same :: "string \<Rightarrow> string \<Rightarrow> bool" where
  "same (a # as) (b # bs) = (if c_tolower a \<noteq> c_tolower b then False else same as bs)"
| "same as bs = (as = [] \<and> bs = [])"

fun starts_with :: "string \<Rightarrow> string \<Rightarrow> bool" where
  "starts_with s [] = True"
| "starts_with [] (p # ps) = False"
| "starts_with (c # s) (p # ps) = (if c_tolower c \<noteq> c_tolower p then False else starts_with s ps)"

definition kvm_prof_rule_score :: "prof_rule \<Rightarrow> prof_seen \<Rightarrow> int" where
  "kvm_prof_rule_score r s =
     (let want_name = (pr_cec_name r \<noteq> []); want_vendor = (pr_cec_vendor r \<noteq> []); want_os = (pr_usb_os r \<noteq> []);
          name_ok = (want_name \<and> pr_cec_name s \<noteq> [] \<and> starts_with (pr_cec_name s) (pr_cec_name r));
          vendor_ok = (want_vendor \<and> pr_cec_vendor s \<noteq> [] \<and> same (pr_cec_vendor s) (pr_cec_vendor r))
      in if (want_name \<or> want_vendor) \<and> \<not> name_ok \<and> \<not> vendor_ok then -1
         else if want_os \<and> (pr_usb_os s = [] \<or> \<not> same (pr_usb_os s) (pr_usb_os r)) then -1
         else let score = (if want_name \<or> want_vendor then 2 else 0) + (if want_os then 1 else 0)
              in if score > 0 then score else -1)"

definition kvm_prof_pick :: "prof_rule list \<Rightarrow> prof_seen \<Rightarrow> int" where
  "kvm_prof_pick rules s =
     fst (foldl (\<lambda>(best, best_score) i. let sc = kvm_prof_rule_score (rules ! i) s
        in if sc > best_score then (int i, sc) else (best, best_score)) (-1, -1) [0..<length rules])"

section \<open>Properties\<close>

text \<open>Two claims that are in each other's way.\<close>

definition clash :: "pin_claim \<Rightarrow> pin_claim \<Rightarrow> bool" where
  "clash a b \<longleftrightarrow> 0 \<le> pc_gpio a \<and> pc_gpio a = pc_gpio b \<and> (pc_changing a \<or> pc_changing b) \<and>
     \<not> (\<exists>ka kb. pc_key a = Some ka \<and> pc_key b = Some kb \<and> shared_bus_line ka kb)"

lemma shared_bus_line_sym: "shared_bus_line a b \<longleftrightarrow> shared_bus_line b a"
  unfolding shared_bus_line_def list_ex_iff by auto

lemma clash_sym: "clash a b \<longleftrightarrow> clash b a"
  unfolding clash_def by (metis shared_bus_line_sym)

definition names :: "pin_conflict \<Rightarrow> pin_claim list \<Rightarrow> bool" where
  "names c claims \<longleftrightarrow> (\<exists>a b. a \<in> set claims \<and> b \<in> set claims \<and> pc_changing a \<and> clash a b \<and>
     c = \<lparr>cf_gpio = pc_gpio a, cf_key = pc_key a, cf_other = pc_key b, cf_held_by = None\<rparr>)"

lemma find_pair_spec:
  assumes "0 \<le> pc_gpio a"
  shows "(case find_pair a bs of None \<Rightarrow> list_all (\<lambda>b. \<not> clash a b) bs | Some c \<Rightarrow> names c (a # bs) \<and> list_ex (clash a) bs)"
proof (induction bs)
  case (Cons b bs)
  show ?case
  proof (cases "clash a b")
    case True
    then have "find_pair a (b # bs) = (let (mine, theirs) = (if pc_changing b then (b, a) else (a, b))
           in Some \<lparr>cf_gpio = pc_gpio mine, cf_key = pc_key mine, cf_other = pc_key theirs, cf_held_by = None\<rparr>)"
      by (auto simp: clash_def split: option.splits)
    moreover have "pc_changing b \<or> pc_changing a" "clash b a" using True clash_sym by (auto simp: clash_def)
    ultimately show ?thesis using True unfolding names_def by (cases "pc_changing b") fastforce+
  next
    case False
    then have "find_pair a (b # bs) = find_pair a bs" using assms by (auto simp: clash_def split: option.splits)
    then show ?thesis using Cons False by (auto simp: names_def split: option.splits)
  qed
qed simp

lemma find_pairs_spec:
  "case find_pairs claims of None \<Rightarrow> sorted_wrt (\<lambda>a b. \<not> clash a b) claims | Some c \<Rightarrow> names c claims \<and> \<not> sorted_wrt (\<lambda>a b. \<not> clash a b) claims"
proof (induction claims)
  case (Cons a claims)
  show ?case
  proof (cases "pc_gpio a < 0")
    case True
    then have "list_all (\<lambda>b. \<not> clash a b) claims" by (auto simp: clash_def list_all_iff)
    then show ?thesis using Cons True by (fastforce simp: names_def list_all_iff split: option.splits)
  next
    case False
    then show ?thesis using Cons find_pair_spec [of a claims]
      by (fastforce simp: names_def list_all_iff list_ex_iff split: option.splits)
  qed
qed simp

lemma find_fixed_spec:
  "case find_fixed h claims of
     None \<Rightarrow> list_all (\<lambda>a. pc_changing a \<and> 0 \<le> pc_gpio a \<longrightarrow> h (pc_gpio a) = None) claims
   | Some c \<Rightarrow> (\<exists>a \<in> set claims. pc_changing a \<and> 0 \<le> pc_gpio a \<and> h (pc_gpio a) \<noteq> None \<and>
       c = \<lparr>cf_gpio = pc_gpio a, cf_key = pc_key a, cf_other = None, cf_held_by = h (pc_gpio a)\<rparr>)"
  by (induction claims) (auto split: option.splits)

text \<open>
  C38. A request is refused exactly for a conflict of its own making: a pin it sets that the board holds, or that another
  setting has, lines of a shared bus apart; and what is reported is such a conflict, named from the side of the setting being changed. What
  was already wrong before stops nobody.
\<close>

theorem pin_conflict_exact:
  "case kvm_pin_conflict_find claims (Some h) of
     None \<Rightarrow> list_all (\<lambda>a. pc_changing a \<and> 0 \<le> pc_gpio a \<longrightarrow> h (pc_gpio a) = None) claims \<and> sorted_wrt (\<lambda>a b. \<not> clash a b) claims
   | Some c \<Rightarrow> (\<exists>a \<in> set claims. pc_changing a \<and> 0 \<le> pc_gpio a \<and> h (pc_gpio a) \<noteq> None \<and>
       c = \<lparr>cf_gpio = pc_gpio a, cf_key = pc_key a, cf_other = None, cf_held_by = h (pc_gpio a)\<rparr>) \<or>
       (names c claims \<and> \<not> sorted_wrt (\<lambda>a b. \<not> clash a b) claims)"
  using find_fixed_spec [of h claims] find_pairs_spec [of claims]
  by (auto simp: kvm_pin_conflict_find_def split: option.splits)

theorem pin_conflict_exact_witness:
  "\<not> sorted_wrt (\<lambda>a b. \<not> clash a b) [\<lparr>pc_key = Some ''atx_power'', pc_gpio = 5, pc_changing = False\<rparr>, \<lparr>pc_key = Some ''disp_dc'', pc_gpio = 5, pc_changing = True\<rparr>]"
proof -
  let ?cs = "[\<lparr>pc_key = Some ''atx_power'', pc_gpio = 5, pc_changing = False\<rparr>, \<lparr>pc_key = Some ''disp_dc'', pc_gpio = 5, pc_changing = True\<rparr>]"
  have "kvm_pin_conflict_find ?cs (Some (\<lambda>g. None)) =
      Some \<lparr>cf_gpio = 5, cf_key = Some ''disp_dc'', cf_other = Some ''atx_power'', cf_held_by = None\<rparr>" by code_simp
  then show ?thesis using pin_conflict_exact [where claims = ?cs and h = "\<lambda>g. None"] by simp
qed

lemma prof_pick_upto:
  assumes "n \<le> length rules"
  shows "\<exists>best score. foldl (\<lambda>(best, best_score) i. let sc = kvm_prof_rule_score (rules ! i) s
        in if sc > best_score then (int i, sc) else (best, best_score)) (-1, -1) [0..<n] = (best, score) \<and>
    ((best = -1 \<and> score = -1 \<and> (\<forall>i < n. kvm_prof_rule_score (rules ! i) s \<le> -1)) \<or>
     (\<exists>k < n. best = int k \<and> score = kvm_prof_rule_score (rules ! k) s \<and> -1 < score \<and>
        (\<forall>i < n. kvm_prof_rule_score (rules ! i) s \<le> score) \<and> (\<forall>i < k. kvm_prof_rule_score (rules ! i) s < score)))"
  using assms
proof (induction n)
  case (Suc n)
  then obtain best score where b: "foldl (\<lambda>(best, best_score) i. let sc = kvm_prof_rule_score (rules ! i) s
        in if sc > best_score then (int i, sc) else (best, best_score)) (-1, -1) [0..<n] = (best, score)"
      "(best = -1 \<and> score = -1 \<and> (\<forall>i < n. kvm_prof_rule_score (rules ! i) s \<le> -1)) \<or>
       (\<exists>k < n. best = int k \<and> score = kvm_prof_rule_score (rules ! k) s \<and> -1 < score \<and>
        (\<forall>i < n. kvm_prof_rule_score (rules ! i) s \<le> score) \<and> (\<forall>i < k. kvm_prof_rule_score (rules ! i) s < score))" by auto
  show ?case
  proof (cases "kvm_prof_rule_score (rules ! n) s > score")
    case True
    then have "\<forall>i < n. kvm_prof_rule_score (rules ! i) s < kvm_prof_rule_score (rules ! n) s" "-1 < kvm_prof_rule_score (rules ! n) s"
      using b(2) by fastforce+
    then show ?thesis using True b(1) by (auto simp: Let_def less_Suc_eq intro: less_imp_le)
  next
    case False
    then show ?thesis using b by (fastforce simp: Let_def less_Suc_eq)
  qed
qed simp

text \<open>
  The profile picked is the first of the best that fit: none exactly if none fits.
\<close>

theorem prof_pick_best:
  "(kvm_prof_pick rules s = -1 \<and> (\<forall>i < length rules. kvm_prof_rule_score (rules ! i) s = -1)) \<or>
   (\<exists>k < length rules. kvm_prof_pick rules s = int k \<and> 0 < kvm_prof_rule_score (rules ! k) s \<and>
      (\<forall>i < length rules. kvm_prof_rule_score (rules ! i) s \<le> kvm_prof_rule_score (rules ! k) s) \<and>
      (\<forall>i < k. kvm_prof_rule_score (rules ! i) s < kvm_prof_rule_score (rules ! k) s))"
proof -
  have range: "kvm_prof_rule_score r s \<in> {-1, 1, 2, 3}" for r by (simp add: kvm_prof_rule_score_def Let_def)
  have none: "x = -1" if "x = kvm_prof_rule_score r s" "x \<le> -1" for x r using range [of r] that by auto
  have some: "0 < x" if "x = kvm_prof_rule_score r s" "-1 < x" for x r using range [of r] that by auto
  obtain best score where b: "kvm_prof_pick rules s = best"
      "(best = -1 \<and> score = -1 \<and> (\<forall>i < length rules. kvm_prof_rule_score (rules ! i) s \<le> -1)) \<or>
       (\<exists>k < length rules. best = int k \<and> score = kvm_prof_rule_score (rules ! k) s \<and> -1 < score \<and>
        (\<forall>i < length rules. kvm_prof_rule_score (rules ! i) s \<le> score) \<and> (\<forall>i < k. kvm_prof_rule_score (rules ! i) s < score))"
    using prof_pick_upto [of "length rules" rules s] unfolding kvm_prof_pick_def by force
  from b(2) show ?thesis
  proof
    assume "best = -1 \<and> score = -1 \<and> (\<forall>i < length rules. kvm_prof_rule_score (rules ! i) s \<le> -1)"
    then show ?thesis using b(1) none by blast
  next
    assume "\<exists>k < length rules. best = int k \<and> score = kvm_prof_rule_score (rules ! k) s \<and> -1 < score \<and>
        (\<forall>i < length rules. kvm_prof_rule_score (rules ! i) s \<le> score) \<and> (\<forall>i < k. kvm_prof_rule_score (rules ! i) s < score)"
    then show ?thesis using b(1) some by blast
  qed
qed

theorem prof_pick_best_witness:
  "kvm_prof_pick [\<lparr>pr_cec_name = [], pr_cec_vendor = [], pr_usb_os = ''linux''\<rparr>] \<lparr>pr_cec_name = [], pr_cec_vendor = [], pr_usb_os = ''Linux''\<rparr> = 0"
proof -
  have "kvm_prof_rule_score \<lparr>pr_cec_name = [], pr_cec_vendor = [], pr_usb_os = ''linux''\<rparr> \<lparr>pr_cec_name = [], pr_cec_vendor = [], pr_usb_os = ''Linux''\<rparr> = 1"
    by code_simp
  then show ?thesis
    using prof_pick_best [of "[\<lparr>pr_cec_name = [], pr_cec_vendor = [], pr_usb_os = ''linux''\<rparr>]" "\<lparr>pr_cec_name = [], pr_cec_vendor = [], pr_usb_os = ''Linux''\<rparr>"]
    by (auto dest: spec [of _ 0])
qed

end
