(* ===== verification/Ts_Reader.thy ===== *)
theory Ts_Reader
  imports Ts_Mux
begin

text \<open>
  kvm_record/ts_to_mp4.c, reading a recording back: access units and sound frames out of the transport stream. The
  file is its bytes; \<open>mem\<close> says for which sizes \<open>realloc\<close> gives memory. Next to it stands \<open>Ts_Mux\<close>, which wrote
  the file, and the theorem is about both: what is read is what was written, in that order.
\<close>

section \<open>The reader\<close>

record au_buf =
  au_bytes :: bytes
  au_cap :: nat
  au_pts :: int
  au_audio :: bool

record ts_reader =
  rd_in :: bytes
  rd_pkt :: bytes
  rd_cur :: au_buf
  rd_acur :: au_buf
  rd_ready :: au_buf
  rd_awant :: nat
  rd_replay :: bool
  rd_open :: bool
  rd_aopen :: bool
  rd_eof :: bool

definition no_au :: au_buf where
  "no_au = \<lparr>au_bytes = [], au_cap = 0, au_pts = 0, au_audio = False\<rparr>"

definition ts_reader_start :: "bytes \<Rightarrow> ts_reader" where
  "ts_reader_start file = \<lparr>rd_in = file, rd_pkt = replicate 188 0, rd_cur = no_au, rd_acur = no_au, rd_ready = no_au,
     rd_awant = 0, rd_replay = False, rd_open = False, rd_aopen = False, rd_eof = False\<rparr>"

function grow_cap :: "nat \<Rightarrow> nat \<Rightarrow> nat" where
  "grow_cap cap want = (if cap = 0 \<or> want \<le> cap then cap else grow_cap (2 * cap) want)"
  by pat_completeness auto
termination by (relation "measure (\<lambda>(cap, want). want - cap)") auto

declare grow_cap.simps [simp del]

definition au_append :: "(nat \<Rightarrow> bool) \<Rightarrow> bytes \<Rightarrow> au_buf \<Rightarrow> au_buf option" where
  "au_append mem p a =
     (if length (au_bytes a) + length p > au_cap a
      then let cap = grow_cap (if au_cap a \<noteq> 0 then au_cap a + au_cap a div 2 else 64 * 1024) (length (au_bytes a) + length p)
           in if mem cap then Some (a\<lparr>au_bytes := au_bytes a @ p, au_cap := cap\<rparr>) else None
      else Some (a\<lparr>au_bytes := au_bytes a @ p\<rparr>))"

text \<open>A gathered unit becomes the ready one, and the old ready buffer takes its place.\<close>

definition hand_out_cur :: "ts_reader \<Rightarrow> ts_reader" where
  "hand_out_cur r = r\<lparr>rd_ready := rd_cur r, rd_cur := (rd_ready r)\<lparr>au_bytes := []\<rparr>\<rparr>"

definition hand_out_acur :: "ts_reader \<Rightarrow> ts_reader" where
  "hand_out_acur r = r\<lparr>rd_ready := rd_acur r, rd_acur := (rd_ready r)\<lparr>au_bytes := []\<rparr>\<rparr>"

text \<open>The presentation time of a PES header, which is less than \<open>2 ^ 33\<close>.\<close>

definition pes_pts :: "bytes \<Rightarrow> int" where
  "pes_pts h = uint (push_bit 29 (ucast (h ! 9 AND 0x0e)) OR push_bit 22 (ucast (h ! 10)) OR
     push_bit 14 (ucast (h ! 11 AND 0xfe)) OR push_bit 7 (ucast (h ! 12)) OR ucast (drop_bit 1 (h ! 13)) :: u64)"

text \<open>An audio packet: its header where it has one - whether it is a good one, and where the sound goes on - and the sound in it.\<close>

definition audio_start :: "bytes \<Rightarrow> nat \<Rightarrow> ts_reader \<Rightarrow> bool \<times> nat \<times> ts_reader" where
  "audio_start p at r =
     (let h = drop at p; pes_len = unat (be16 (h ! 4) (h ! 5))
      in if 188 - at < 14 \<or> h ! 0 \<noteq> 0 \<or> h ! 1 \<noteq> 0 \<or> h ! 2 \<noteq> 1 \<or> h ! 7 AND 0x80 = 0 \<or> pes_len < 3 + unat (h ! 8)
         then (False, at, r\<lparr>rd_aopen := False\<rparr>)
         else (True, at + 9 + unat (h ! 8),
           r\<lparr>rd_acur := (rd_acur r)\<lparr>au_bytes := [], au_audio := True, au_pts := pes_pts h\<rparr>,
             rd_awant := pes_len - 3 - unat (h ! 8), rd_aopen := True\<rparr>))"

definition audio_more :: "(nat \<Rightarrow> bool) \<Rightarrow> bytes \<Rightarrow> nat \<Rightarrow> ts_reader \<Rightarrow> int \<times> ts_reader" where
  "audio_more mem p at r =
     (if \<not> rd_aopen r \<or> at \<ge> 188 then (0, r)
      else let room = rd_awant r - length (au_bytes (rd_acur r)); n = (if 188 - at > room then room else 188 - at)
           in case au_append mem (segment p at n) (rd_acur r) of
                None \<Rightarrow> (-1, r)
              | Some a \<Rightarrow>
                  (if length (au_bytes a) < rd_awant r then (0, r\<lparr>rd_acur := a\<rparr>)
                   else (1, hand_out_acur (r\<lparr>rd_acur := a, rd_aopen := False\<rparr>))))"

definition audio_packet :: "(nat \<Rightarrow> bool) \<Rightarrow> bytes \<Rightarrow> nat \<Rightarrow> ts_reader \<Rightarrow> int \<times> ts_reader" where
  "audio_packet mem p at r =
     (if p ! 1 AND 0x40 \<noteq> 0
      then (case audio_start p at r of (good, at1, r1) \<Rightarrow> if good then audio_more mem p at1 r1 else (0, r1))
      else audio_more mem p at r)"

definition read_packet :: "ts_reader \<Rightarrow> bool \<times> ts_reader" where
  "read_packet r =
     (let pkt = take 188 (rd_in r); r = r\<lparr>rd_pkt := pkt @ drop (length pkt) (rd_pkt r), rd_in := drop 188 (rd_in r)\<rparr>
      in (length pkt = 188 \<and> rd_pkt r ! 0 = 0x47, r))"

text \<open>A video packet that goes on, and one that starts a picture: whatever was gathered before it is complete.\<close>

definition video_more :: "(nat \<Rightarrow> bool) \<Rightarrow> bytes \<Rightarrow> nat \<Rightarrow> ts_reader \<Rightarrow> int option \<times> ts_reader" where
  "video_more mem p at r =
     (if rd_open r
      then (case au_append mem (drop at p) (rd_cur r) of None \<Rightarrow> (Some (-1), r) | Some a \<Rightarrow> (None, r\<lparr>rd_cur := a\<rparr>))
      else (None, r))"

definition video_start :: "(nat \<Rightarrow> bool) \<Rightarrow> bytes \<Rightarrow> nat \<Rightarrow> ts_reader \<Rightarrow> int option \<times> ts_reader" where
  "video_start mem p at r =
     (let h = drop at p
      in if 188 - at < 14 \<or> h ! 0 \<noteq> 0 \<or> h ! 1 \<noteq> 0 \<or> h ! 2 \<noteq> 1 then (None, r)
         else let pts = (if h ! 7 AND 0x80 \<noteq> 0 then pes_pts h else 0); payload = at + 9 + unat (h ! 8);
                  had = rd_open r; r = (if had then hand_out_cur r else r);
                  r = r\<lparr>rd_open := True, rd_cur := (rd_cur r)\<lparr>au_pts := pts, au_audio := False\<rparr>\<rparr>
              in case (if payload < 188 then au_append mem (drop payload p) (rd_cur r) else Some (rd_cur r)) of
                   None \<Rightarrow> (Some (-1), r)
                 | Some a \<Rightarrow> (if had then Some 1 else None, r\<lparr>rd_cur := a\<rparr>))"

text \<open>What a packet does: an answer, or the next one is read.\<close>

definition au_packet :: "(nat \<Rightarrow> bool) \<Rightarrow> ts_reader \<Rightarrow> int option \<times> ts_reader" where
  "au_packet mem r =
     (let p = rd_pkt r; pid = be16 (p ! 1 AND 0x1f) (p ! 2); af = (p ! 3 AND 0x20 \<noteq> 0);
          at = (if af then 5 + unat (p ! 4) else 4); start = (p ! 1 AND 0x40 \<noteq> 0)
      in if (pid \<noteq> PID_VIDEO \<and> pid \<noteq> PID_AUDIO) \<or> p ! 3 AND 0x10 = 0 then (None, r)
         else if af \<and> at \<ge> 188 then (None, r)
         else if pid = PID_AUDIO
         then (if start \<and> rd_open r
               then (Some 1, (hand_out_cur (r\<lparr>rd_open := False\<rparr>))\<lparr>rd_replay := True\<rparr>)
               else (case audio_packet mem p at r of (a, r1) \<Rightarrow> (if a \<noteq> 0 then Some a else None, r1)))
         else if \<not> start then video_more mem p at r else video_start mem p at r)"

definition at_end :: "ts_reader \<Rightarrow> int \<times> ts_reader" where
  "at_end r =
     (let r = r\<lparr>rd_eof := True\<rparr> in if rd_open r then (1, hand_out_cur (r\<lparr>rd_open := False\<rparr>)) else (0, r))"

lemma audio_keeps:
  "audio_start p at r = (g, at1, r1) \<Longrightarrow> rd_in r1 = rd_in r \<and> rd_replay r1 = rd_replay r"
  "rd_in (snd (audio_more mem p at r)) = rd_in r \<and> rd_replay (snd (audio_more mem p at r)) = rd_replay r"
  unfolding audio_start_def audio_more_def Let_def hand_out_acur_def by (auto split: if_splits option.split)

lemma audio_packet_keeps: "rd_in (snd (audio_packet mem p at r)) = rd_in r \<and> rd_replay (snd (audio_packet mem p at r)) = rd_replay r"
  using audio_keeps by (auto simp: audio_packet_def split: prod.splits)

lemma read_packet_true: "read_packet r = (True, r0) \<Longrightarrow> length (rd_in r0) < length (rd_in r) \<and> rd_replay r0 = rd_replay r"
  by (auto simp: read_packet_def Let_def)

lemma video_keeps:
  "rd_in (snd (video_more mem p at r)) = rd_in r \<and> rd_replay (snd (video_more mem p at r)) = rd_replay r"
  "rd_in (snd (video_start mem p at r)) = rd_in r \<and> rd_replay (snd (video_start mem p at r)) = rd_replay r"
  unfolding video_more_def video_start_def Let_def hand_out_cur_def by (simp_all split: option.split)

lemma au_packet_none:
  assumes "au_packet mem r = (None, r')"
  shows "rd_in r' = rd_in r \<and> rd_replay r' = rd_replay r"
proof -
  let ?p = "rd_pkt r" and ?at = "if rd_pkt r ! 3 AND 0x20 \<noteq> 0 then 5 + unat (rd_pkt r ! 4) else 4"
  have "r' \<in> {r, snd (audio_packet mem ?p ?at r), snd (video_more mem ?p ?at r), snd (video_start mem ?p ?at r)}"
    using assms unfolding au_packet_def Let_def by (simp split: if_split_asm prod.split_asm)
  then show ?thesis using audio_packet_keeps video_keeps by auto
qed

function next_au :: "(nat \<Rightarrow> bool) \<Rightarrow> ts_reader \<Rightarrow> int \<times> ts_reader" where
  "next_au mem r =
     (if rd_replay r
      then (case au_packet mem (r\<lparr>rd_replay := False\<rparr>) of (Some c, r1) \<Rightarrow> (c, r1) | (None, r1) \<Rightarrow> next_au mem r1)
      else if rd_eof r then at_end r
      else case read_packet r of
          (False, r0) \<Rightarrow> at_end r0
        | (True, r0) \<Rightarrow> (case au_packet mem r0 of (Some c, r1) \<Rightarrow> (c, r1) | (None, r1) \<Rightarrow> next_au mem r1))"
  by pat_completeness auto
termination
proof (relation "measure (\<lambda>(mem, r). 2 * length (rd_in r) + (if rd_replay r then 1 else 0))", goal_cases)
  case (2 mem r x xa)
  then show ?case using au_packet_none [of mem "r\<lparr>rd_replay := False\<rparr>" xa] by (cases x) auto
next
  case 3
  then show ?case using au_packet_none read_packet_true by (fastforce simp: less_Suc_eq)
qed simp

declare next_au.simps [simp del]

section \<open>One packet\<close>

definition pkt_at :: "bytes \<Rightarrow> nat" where
  "pkt_at p = (if bit (p ! 3) 5 then 5 + unat (p ! 4) else 4)"

lemma flag_bits:
  "(x :: u8) AND 0x10 = 0 \<longleftrightarrow> \<not> bit x 4" "(x :: u8) AND 0x20 = 0 \<longleftrightarrow> \<not> bit x 5" "(x :: u8) AND 0x40 = 0 \<longleftrightarrow> \<not> bit x 6"
  "(x :: u8) AND 0x80 = 0 \<longleftrightarrow> \<not> bit x 7"
  using and_exp_eq_0_iff_not_bit [of x 4] and_exp_eq_0_iff_not_bit [of x 5] and_exp_eq_0_iff_not_bit [of x 6]
    and_exp_eq_0_iff_not_bit [of x 7] by simp_all

lemma payload_at: "pkt_payload p = drop (pkt_at p) p"
  by (simp add: pkt_payload_def pkt_at_def)

lemma payload_room: "pkt_ok p \<Longrightarrow> length (pkt_payload p) = 188 - pkt_at p"
  by (simp add: payload_at pkt_ok_def)

text \<open>What the reader makes of a packet that is well formed and carries something.\<close>

lemma au_packet_ok:
  assumes "pkt_ok p" and "rd_pkt r = p" and "pkt_payload p \<noteq> []"
  shows "au_packet mem r =
    (if pkt_pid p \<noteq> PID_VIDEO \<and> pkt_pid p \<noteq> PID_AUDIO then (None, r)
     else if pkt_pid p = PID_AUDIO
     then (if pkt_start p \<and> rd_open r then (Some 1, (hand_out_cur (r\<lparr>rd_open := False\<rparr>))\<lparr>rd_replay := True\<rparr>)
           else (case audio_packet mem p (pkt_at p) r of (a, r1) \<Rightarrow> (if a \<noteq> 0 then Some a else None, r1)))
     else if \<not> pkt_start p then video_more mem p (pkt_at p) r else video_start mem p (pkt_at p) r)"
proof -
  have "pkt_at p < 188" using assms(1,3) payload_room [OF assms(1)] by (metis length_greater_0_conv zero_less_diff)
  then show ?thesis using assms(1,2)
    unfolding au_packet_def pkt_pid_def pkt_start_def pkt_at_def pkt_ok_def flag_bits Let_def by auto
qed

lemma au_packet_other:
  assumes "pkt_ok p" and "rd_pkt r = p" and "pkt_pid p \<noteq> PID_VIDEO" "pkt_pid p \<noteq> PID_AUDIO"
  shows "au_packet mem r = (None, r)"
  using assms unfolding au_packet_def pkt_pid_def Let_def by simp

definition fresh :: "ts_reader \<Rightarrow> bytes \<Rightarrow> bool" where
  "fresh r rest \<longleftrightarrow> rd_in r = rest \<and> \<not> rd_replay r \<and> \<not> rd_eof r \<and> length (rd_pkt r) = 188"

lemma next_au_read:
  assumes "fresh r (p @ rest)" and "pkt_ok p"
  shows "next_au mem r = (case au_packet mem (r\<lparr>rd_pkt := p, rd_in := rest\<rparr>) of (Some c, r1) \<Rightarrow> (c, r1) | (None, r1) \<Rightarrow> next_au mem r1)"
proof -
  have "read_packet r = (True, r\<lparr>rd_pkt := p, rd_in := rest\<rparr>)"
    using assms by (simp add: read_packet_def fresh_def pkt_ok_def Let_def)
  then show ?thesis using assms(1) by (subst next_au.simps) (simp add: fresh_def)
qed

lemma au_append_all:
  assumes "\<forall>n. mem n"
  obtains a' where "au_append mem p a = Some a'" "au_bytes a' = au_bytes a @ p" "au_pts a' = au_pts a" "au_audio a' = au_audio a"
proof -
  have "\<exists>a'. au_append mem p a = Some a' \<and> au_bytes a' = au_bytes a @ p \<and> au_pts a' = au_pts a \<and> au_audio a' = au_audio a"
    using assms by (simp add: au_append_def Let_def)
  then show thesis using that by blast
qed

section \<open>States between packets\<close>

definition closed :: "ts_reader \<Rightarrow> bytes \<Rightarrow> bool" where
  "closed r rest \<longleftrightarrow> fresh r rest \<and> \<not> rd_open r \<and> au_bytes (rd_cur r) = []"

type_synonym unit_read = "bytes \<times> int \<times> bool"

definition read_unit :: "au_buf \<Rightarrow> unit_read" where
  "read_unit a = (au_bytes a, au_pts a, au_audio a)"

definition holding :: "bytes \<Rightarrow> int \<Rightarrow> ts_reader \<Rightarrow> bytes \<Rightarrow> bool" where
  "holding b t r rest \<longleftrightarrow> fresh r rest \<and> rd_open r \<and> read_unit (rd_cur r) = (b, t, False)"

definition gathering :: "bytes \<Rightarrow> int \<Rightarrow> nat \<Rightarrow> ts_reader \<Rightarrow> bytes \<Rightarrow> bool" where
  "gathering b t want r rest \<longleftrightarrow> closed r rest \<and> rd_aopen r \<and> read_unit (rd_acur r) = (b, t, True) \<and> rd_awant r = want"

lemmas state_defs = fresh_def closed_def holding_def gathering_def read_unit_def

text \<open>A good PES header.\<close>

definition pes_head :: "bytes \<Rightarrow> int \<Rightarrow> bool" where
  "pes_head h t \<longleftrightarrow> 14 \<le> length h \<and> h ! 0 = 0 \<and> h ! 1 = 0 \<and> h ! 2 = 1 \<and> bit (h ! 7) 7 \<and> h ! 8 = 5 \<and> pes_pts h = t"

lemma skip_packet:
  assumes "pkt_ok p" and "pkt_pid p \<noteq> PID_VIDEO" "pkt_pid p \<noteq> PID_AUDIO" and "fresh r (p @ rest)"
  shows "next_au mem r = next_au mem (r\<lparr>rd_pkt := p, rd_in := rest\<rparr>)"
  using next_au_read [OF assms(4,1)] au_packet_other [OF assms(1) _ assms(2,3)] by simp

lemma video_goes_on:
  assumes "\<forall>n. mem n" and "pkt_ok p" "pkt_pid p = PID_VIDEO" "\<not> pkt_start p" "pkt_payload p \<noteq> []" and "holding b t r (p @ rest)"
  shows "\<exists>r'. next_au mem r = next_au mem r' \<and> holding (b @ pkt_payload p) t r' rest"
proof -
  let ?r = "r\<lparr>rd_pkt := p, rd_in := rest\<rparr>"
  obtain a where a: "au_append mem (pkt_payload p) (rd_cur r) = Some a" "au_bytes a = au_bytes (rd_cur r) @ pkt_payload p"
      "au_pts a = au_pts (rd_cur r)" "au_audio a = au_audio (rd_cur r)" using au_append_all [OF assms(1)] by blast
  have "au_packet mem ?r = (None, ?r\<lparr>rd_cur := a\<rparr>)"
    using au_packet_ok [OF assms(2) _ assms(5), of ?r] a assms(3,4,6)
    by (simp add: video_more_def holding_def pid_defs payload_at)
  then have "next_au mem r = next_au mem (?r\<lparr>rd_cur := a\<rparr>)" using next_au_read [of r p rest] assms(2,6) by (simp add: holding_def)
  moreover have "holding (b @ pkt_payload p) t (?r\<lparr>rd_cur := a\<rparr>) rest" using a assms(2,6) by (simp add: state_defs pkt_ok_def)
  ultimately show ?thesis by blast
qed

lemma video_starts:
  assumes "\<forall>n. mem n" and "pkt_ok p" "pkt_pid p = PID_VIDEO" "pkt_start p" "pes_head (pkt_payload p) t'" and "rd_pkt r = p" "fresh r rest"
    and "rd_open r \<or> au_bytes (rd_cur r) = []"
  shows "\<exists>r'. au_packet mem r = (if rd_open r then Some 1 else None, r') \<and> holding (drop 14 (pkt_payload p)) t' r' rest \<and>
    (rd_open r \<longrightarrow> rd_ready r' = rd_cur r)"
proof -
  let ?h = "pkt_payload p" and ?r1 = "if rd_open r then hand_out_cur r else r"
  let ?r2 = "?r1\<lparr>rd_open := True, rd_cur := (rd_cur ?r1)\<lparr>au_pts := t', au_audio := False\<rparr>\<rparr>"
  have n: "?h \<noteq> []" "\<not> 188 - pkt_at p < 14" using assms(5) payload_room [OF assms(2)] by (auto simp: pes_head_def)
  have e: "au_bytes (rd_cur ?r1) = []" using assms(8) by (auto simp: hand_out_cur_def)
  have h: "?h ! 0 = 0" "?h ! 1 = 0" "?h ! 2 = 1" "?h ! 7 AND 0x80 \<noteq> 0" "?h ! 8 = 5" "pes_pts ?h = t'"
    using assms(5) by (simp_all add: pes_head_def flag_bits)
  have c: "\<not> (188 - pkt_at p < 14 \<or> ?h ! 0 \<noteq> 0 \<or> ?h ! 1 \<noteq> 0 \<or> ?h ! 2 \<noteq> 1)" using n(2) h by simp
  have pay: "pkt_at p + 9 + unat (?h ! 8) = pkt_at p + 14" using h(5) by simp
  obtain a where a: "(if pkt_at p + 14 < 188 then au_append mem (drop (pkt_at p + 14) p) (rd_cur ?r2) else Some (rd_cur ?r2)) = Some a"
      "read_unit a = (drop 14 ?h, t', False)"
  proof (cases "pkt_at p + 14 < 188")
    case True
    obtain a where "au_append mem (drop (pkt_at p + 14) p) (rd_cur ?r2) = Some a" "au_bytes a = au_bytes (rd_cur ?r2) @ drop (pkt_at p + 14) p"
        "au_pts a = au_pts (rd_cur ?r2)" "au_audio a = au_audio (rd_cur ?r2)" using au_append_all [OF assms(1)] by blast
    then show thesis using that True e by (simp add: read_unit_def payload_at add.commute)
  next
    case False
    then have "drop 14 ?h = []" using assms(2) by (simp add: payload_at pkt_ok_def)
    then show thesis using that False e by (simp add: read_unit_def)
  qed
  have "au_packet mem r = video_start mem p (pkt_at p) r" using au_packet_ok [OF assms(2,6) n(1)] assms(3,4) by (simp add: pid_defs)
  also have "\<dots> = (if rd_open r then Some 1 else None, ?r2\<lparr>rd_cur := a\<rparr>)"
    unfolding video_start_def Let_def payload_at [symmetric] if_not_P [OF c] if_P [OF h(4)] pay h(6) a(1) option.case ..
  finally have "au_packet mem r = (if rd_open r then Some 1 else None, ?r2\<lparr>rd_cur := a\<rparr>)" .
  moreover have "holding (drop 14 ?h) t' (?r2\<lparr>rd_cur := a\<rparr>) rest" using a(2) assms(7) by (simp add: state_defs hand_out_cur_def)
  moreover have "rd_open r \<longrightarrow> rd_ready (?r2\<lparr>rd_cur := a\<rparr>) = rd_cur r" by (simp add: hand_out_cur_def)
  ultimately show ?thesis by blast
qed
lemma video_starts_closed:
  assumes "\<forall>n. mem n" and "pkt_ok p" "pkt_pid p = PID_VIDEO" "pkt_start p" "pes_head (pkt_payload p) t'" and "closed r (p @ rest)"
  shows "\<exists>r'. next_au mem r = next_au mem r' \<and> holding (drop 14 (pkt_payload p)) t' r' rest"
proof -
  let ?r = "r\<lparr>rd_pkt := p, rd_in := rest\<rparr>"
  have "fresh ?r rest" "\<not> rd_open ?r" "au_bytes (rd_cur ?r) = []" using assms(2,6) by (simp_all add: state_defs pkt_ok_def)
  then show ?thesis using video_starts [OF assms(1-5), where r = ?r and rest = rest] next_au_read [of r p rest mem] assms(2,6)
    by (fastforce simp: closed_def)
qed

lemma video_starts_holding:
  assumes "\<forall>n. mem n" and "pkt_ok p" "pkt_pid p = PID_VIDEO" "pkt_start p" "pes_head (pkt_payload p) t'" and "holding b t r (p @ rest)"
  shows "\<exists>r'. next_au mem r = (1, r') \<and> read_unit (rd_ready r') = (b, t, False) \<and> holding (drop 14 (pkt_payload p)) t' r' rest"
proof -
  let ?r = "r\<lparr>rd_pkt := p, rd_in := rest\<rparr>"
  have "fresh ?r rest" "rd_open ?r" "read_unit (rd_cur ?r) = (b, t, False)" using assms(2,6) by (simp_all add: state_defs pkt_ok_def)
  then show ?thesis using video_starts [OF assms(1-5), where r = ?r and rest = rest] next_au_read [of r p rest mem] assms(2,6)
    by (fastforce simp: holding_def)
qed

lemma audio_takes:
  assumes "\<forall>n. mem n" and "rd_aopen r" "at < 188" "length p = 188" and "read_unit (rd_acur r) = (b, t, True)"
    and "length b + (188 - at) \<le> rd_awant r"
  shows "\<exists>r1. audio_more mem p at r = (if length b + (188 - at) = rd_awant r then 1 else 0, r1) \<and>
    rd_in r1 = rd_in r \<and> rd_pkt r1 = rd_pkt r \<and> rd_replay r1 = rd_replay r \<and> rd_eof r1 = rd_eof r \<and> rd_open r1 = rd_open r \<and> rd_cur r1 = rd_cur r \<and>
    (if length b + (188 - at) = rd_awant r then read_unit (rd_ready r1) = (b @ drop at p, t, True)
     else rd_aopen r1 \<and> read_unit (rd_acur r1) = (b @ drop at p, t, True) \<and> rd_awant r1 = rd_awant r)"
proof -
  obtain a where a: "au_append mem (segment p at (188 - at)) (rd_acur r) = Some a" "au_bytes a = au_bytes (rd_acur r) @ segment p at (188 - at)"
      "au_pts a = au_pts (rd_acur r)" "au_audio a = au_audio (rd_acur r)" using au_append_all [OF assms(1)] by blast
  have s: "segment p at (188 - at) = drop at p" using assms(4) by (simp add: segment_def)
  have b: "au_bytes (rd_acur r) = b" using assms(5) by (simp add: read_unit_def)
  have n: "(if 188 - at > rd_awant r - length b then rd_awant r - length b else 188 - at) = 188 - at" using assms(6) by auto
  have l: "length (au_bytes a) = length b + (188 - at)" using a(2) s b assms(4) by simp
  show ?thesis unfolding audio_more_def b Let_def n using assms(2,3,5,6) a s b l
    by (auto simp: read_unit_def hand_out_acur_def)
qed

lemma audio_goes_on:
  assumes "\<forall>n. mem n" and "pkt_ok p" "pkt_pid p = PID_AUDIO" "\<not> pkt_start p" "pkt_payload p \<noteq> []" and "gathering b t want r (p @ rest)"
    and "length (b @ pkt_payload p) \<le> want"
  shows "\<exists>r'. (if length (b @ pkt_payload p) = want
      then next_au mem r = (1, r') \<and> read_unit (rd_ready r') = (b @ pkt_payload p, t, True) \<and> closed r' rest
      else next_au mem r = next_au mem r' \<and> gathering (b @ pkt_payload p) t want r' rest)"
proof -
  let ?r = "r\<lparr>rd_pkt := p, rd_in := rest\<rparr>"
  have at: "pkt_at p < 188" "length (pkt_payload p) = 188 - pkt_at p" "length p = 188"
    using assms(5) payload_room [OF assms(2)] assms(2) by (metis length_greater_0_conv zero_less_diff, simp_all add: pkt_ok_def)
  obtain r1 where r1: "audio_more mem p (pkt_at p) ?r = (if length b + (188 - pkt_at p) = want then 1 else 0, r1)"
    "rd_in r1 = rest" "rd_pkt r1 = p" "rd_replay r1 = rd_replay r" "rd_eof r1 = rd_eof r" "rd_open r1 = rd_open r" "rd_cur r1 = rd_cur r"
    "if length b + (188 - pkt_at p) = want then read_unit (rd_ready r1) = (b @ drop (pkt_at p) p, t, True)
     else rd_aopen r1 \<and> read_unit (rd_acur r1) = (b @ drop (pkt_at p) p, t, True) \<and> rd_awant r1 = want"
    using audio_takes [OF assms(1) _ at(1,3), of ?r b t] assms(6,7) at(2) by (auto simp: gathering_def)
  have "\<not> rd_open r" using assms(6) by (simp add: gathering_def closed_def)
  moreover have "audio_packet mem p (pkt_at p) ?r = (if length b + (188 - pkt_at p) = want then 1 else 0, r1)"
    using r1(1) assms(4) by (simp add: audio_packet_def pkt_start_def flag_bits)
  ultimately have "au_packet mem ?r = (if length b + (188 - pkt_at p) = want then Some 1 else None, r1)"
    using au_packet_ok [OF assms(2) _ assms(5), of ?r] assms(3,4) by (simp add: pid_defs)
  then have "next_au mem r = (if length b + (188 - pkt_at p) = want then (1, r1) else next_au mem r1)"
    using next_au_read [of r p rest mem] assms(2,6) by (simp add: gathering_def closed_def)
  moreover have "closed r1 rest" using r1 assms(6) at(3) by (simp add: state_defs)
  ultimately show ?thesis using r1(8) at(2)
    by (intro exI [of _ r1]) (auto simp: gathering_def payload_at [symmetric])
qed

text \<open>The start of a sound frame, when nothing of a picture is open; in the file or read again.\<close>

lemma audio_starts:
  assumes "\<forall>n. mem n" and "pkt_ok p" "pkt_pid p = PID_AUDIO" "pkt_start p" "pes_head (pkt_payload p) t" "14 < length (pkt_payload p)"
    and "unat (be16 (pkt_payload p ! 4) (pkt_payload p ! 5)) = want + 8" and "length (pkt_payload p) - 14 \<le> want"
    and "rd_pkt r = p" "closed r rest"
  shows "\<exists>r'. au_packet mem r = (if length (pkt_payload p) - 14 = want then Some 1 else None, r') \<and>
     (if length (pkt_payload p) - 14 = want then read_unit (rd_ready r') = (drop 14 (pkt_payload p), t, True) \<and> closed r' rest
      else gathering (drop 14 (pkt_payload p)) t want r' rest)"
proof -
  let ?h = "pkt_payload p"
  let ?r1 = "r\<lparr>rd_acur := (rd_acur r)\<lparr>au_bytes := [], au_audio := True, au_pts := t\<rparr>, rd_awant := want, rd_aopen := True\<rparr>"
  have at: "pkt_at p + 14 < 188" "length ?h = 188 - pkt_at p" "length p = 188" "?h \<noteq> []"
    using assms(2,6) payload_room [OF assms(2)] by (auto simp: pkt_ok_def)
  have h: "?h ! 0 = 0" "?h ! 1 = 0" "?h ! 2 = 1" "?h ! 7 AND 0x80 \<noteq> 0" "?h ! 8 = 5" "pes_pts ?h = t"
    using assms(5) by (simp_all add: pes_head_def flag_bits)
  have un: "read_unit (rd_acur ?r1) = ([], t, True)" by (simp add: read_unit_def)
  have le: "length ([] :: bytes) + (188 - (pkt_at p + 14)) \<le> rd_awant ?r1" using assms(8) at(2) by simp
  have pkt: "rd_pkt r = p" by (rule assms(9))
  have start: "audio_start p (pkt_at p) r = (True, pkt_at p + 14, ?r1)"
    unfolding audio_start_def Let_def payload_at [symmetric] using at(1) h assms(7) by simp
  obtain r' where r': "audio_more mem p (pkt_at p + 14) ?r1 = (if 188 - (pkt_at p + 14) = want then 1 else 0, r')"
    "rd_in r' = rd_in r" "rd_pkt r' = p" "rd_replay r' = rd_replay r" "rd_eof r' = rd_eof r" "rd_open r' = rd_open r" "rd_cur r' = rd_cur r"
    "if 188 - (pkt_at p + 14) = want then read_unit (rd_ready r') = (drop (pkt_at p + 14) p, t, True)
     else rd_aopen r' \<and> read_unit (rd_acur r') = (drop (pkt_at p + 14) p, t, True) \<and> rd_awant r' = want"
    using audio_takes [OF assms(1) _ at(1,3) un le] by (auto simp: pkt)
  have d: "drop (pkt_at p + 14) p = drop 14 ?h" "188 - (pkt_at p + 14) = length ?h - 14" using at(2) by (simp_all add: payload_at add.commute)
  have "audio_packet mem p (pkt_at p) r = (if length ?h - 14 = want then 1 else 0, r')"
    using r'(1) start assms(4) d by (simp add: audio_packet_def pkt_start_def flag_bits)
  moreover have "\<not> rd_open r" using assms(10) by (simp add: closed_def)
  ultimately have "au_packet mem r = (if length ?h - 14 = want then Some 1 else None, r')"
    using au_packet_ok [OF assms(2,9) at(4)] assms(3,4) by (simp add: pid_defs)
  moreover have "closed r' rest" using r' assms(10) at(3) by (simp add: state_defs)
  ultimately show ?thesis using r'(8) d by (intro exI [of _ r']) (auto simp: gathering_def)
qed

text \<open>A sound frame starts while a picture is open: the picture first, and the packet once more.\<close>

lemma audio_waits:
  assumes "pkt_ok p" "pkt_pid p = PID_AUDIO" "pkt_start p" "pkt_payload p \<noteq> []" and "holding b t r (p @ rest)"
  shows "\<exists>r'. next_au mem r = (1, r') \<and> read_unit (rd_ready r') = (b, t, False) \<and> rd_replay r' \<and> rd_pkt r' = p \<and> closed (r'\<lparr>rd_replay := False\<rparr>) rest"
proof -
  let ?r = "r\<lparr>rd_pkt := p, rd_in := rest\<rparr>"
  have "au_packet mem ?r = (Some 1, (hand_out_cur (?r\<lparr>rd_open := False\<rparr>))\<lparr>rd_replay := True\<rparr>)"
    using au_packet_ok [OF assms(1) _ assms(4), of ?r] assms(2,3,5) by (simp add: holding_def pid_defs)
  then have "next_au mem r = (1, (hand_out_cur (?r\<lparr>rd_open := False\<rparr>))\<lparr>rd_replay := True\<rparr>)"
    using next_au_read [of r p rest mem] assms(1,5) by (simp add: holding_def)
  then show ?thesis using assms(1,5) by (simp add: state_defs hand_out_cur_def pkt_ok_def)
qed

lemma end_closed: "closed r [] \<Longrightarrow> \<exists>r'. next_au mem r = (0, r')"
  by (subst next_au.simps) (simp add: state_defs read_packet_def at_end_def Let_def)

lemma end_holding: "holding b t r [] \<Longrightarrow> \<exists>r' r''. next_au mem r = (1, r') \<and> read_unit (rd_ready r') = (b, t, False) \<and> next_au mem r' = (0, r'')"
  by (subst (1 2) next_au.simps) (simp add: state_defs read_packet_def at_end_def hand_out_cur_def Let_def)

section \<open>The packets of a PES\<close>

lemma pes_room:
  assumes "pes_packet pid cc first lead data sent pcr key = (p, room)" and "14 < length lead + length data - sent"
  shows "14 < room"
  using assms by (auto simp: pes_packet_def af_room_def Let_def split: if_splits)

lemma pes_loop_full:
  "pes_loop pid cc first lead data sent pcr key = (cc', ps) \<Longrightarrow> pid13 pid \<Longrightarrow> list_all (\<lambda>p. pkt_payload p \<noteq> []) ps"
proof (induction pid cc first lead data sent pcr key arbitrary: ps cc' rule: pes_loop.induct)
  case (1 pid cc first lead data sent pcr key)
  show ?case
  proof (cases "sent < length lead + length data")
    case True
    obtain p room where p: "pes_packet pid cc first lead data sent pcr key = (p, room)" by fastforce
    obtain cc1 qs where q: "pes_loop pid (cc_next cc) False lead data (sent + room) pcr key = (cc1, qs)" by fastforce
    have "ps = p # qs" using "1.prems"(1) True by (subst (asm) pes_loop.simps) (simp add: p q)
    moreover have "pkt_payload p \<noteq> []" using pes_packet_ok(1,2,7) [OF True p "1.prems"(2)] True by (auto simp: segment_def)
    ultimately show ?thesis using "1.IH" [OF True p [symmetric] refl q "1.prems"(2)] by simp
  qed (use "1.prems"(1) in \<open>simp add: pes_loop_stop\<close>)
qed

text \<open>A PES is one packet that starts it and has the whole head, and packets that go on.\<close>

lemma pes_split:
  assumes "pes_loop pid cc True lead data 0 pcr key = (cc', ps)" and "pid13 pid" and "14 < length (lead @ data)"
  obtains p qs n where "ps = p # qs" "pkt_ok p" "pkt_pid p = pid" "pkt_start p" "pkt_payload p = take n (lead @ data)"
    "14 < n" "n \<le> length (lead @ data)" "carries pid False qs (drop n (lead @ data))" "list_all (\<lambda>p. pkt_payload p \<noteq> []) qs"
proof -
  have pos: "0 < length lead + length data" using assms(3) by (simp del: add_gr_0)
  obtain p n where p: "pes_packet pid cc True lead data 0 pcr key = (p, n)" by fastforce
  obtain cc1 qs where q: "pes_loop pid (cc_next cc) False lead data n pcr key = (cc1, qs)" by fastforce
  have ps: "ps = p # qs" using assms(1) pos by (subst (asm) pes_loop.simps) (simp add: p q)
  note ok = pes_packet_ok [OF pos p assms(2)]
  show thesis
  proof (rule that [OF ps ok(3,4)])
    show "pkt_start p" using ok(5) by simp
    show "pkt_payload p = take n (lead @ data)" using ok(7) by (simp add: segment_def)
    show "14 < n" using pes_room [OF p] assms(3) by simp
    show "n \<le> length (lead @ data)" using ok(2) by simp
    show "carries pid False qs (drop n (lead @ data))" using pes_loop_carries [OF q assms(2)] by simp
    show "list_all (\<lambda>p. pkt_payload p \<noteq> []) qs" by (rule pes_loop_full [OF q assms(2)])
  qed
qed

lemma pes_pts_read: "pes_pts h = uint (read_pts (map (\<lambda>i. h ! (9 + i)) [0..<5]))"
proof -
  have "ucast (drop_bit 1 x) = (drop_bit 1 (ucast (x AND 0xfe)) :: u64)" for x :: u8
  proof (rule bit_word_eqI)
    fix n
    have fe: "bit (0xfe :: u8) (Suc n)" if "n < 7"
    proof -
      have "list_all (\<lambda>n. bit (0xfe :: u8) (Suc n)) [0..<7]" by (simp add: numeral_upt)
      then show ?thesis by (rule list_all_upt) (use that in simp_all)
    qed
    have "n < 7" if "bit x (Suc n)" using bit_imp_le_length [OF that] by simp
    then have "bit x (Suc n) \<longleftrightarrow> bit x (Suc n) \<and> bit (0xfe :: u8) (Suc n)" using fe by blast
    then show "bit (ucast (drop_bit 1 x) :: u64) n = bit (drop_bit 1 (ucast (x AND 0xfe)) :: u64) n"
      unfolding bit_ucast_iff bit_drop_bit_eq bit_and_iff o_def plus_1_eq_Suc using bit_imp_le_length [of x "Suc n"] by auto
  qed
  then show ?thesis by (simp add: pes_pts_def read_pts_def numeral_upt)
qed

lemma pes_pts_lead: "drop 9 es = pts_bytes (t AND mask33) @ r \<Longrightarrow> 14 < n \<Longrightarrow> n \<le> length es \<Longrightarrow> pes_pts (take n es) = uint (t AND mask33)"
proof -
  assume a: "drop 9 es = pts_bytes (t AND mask33) @ r" "14 < n" "n \<le> length es"
  have "es ! (9 + i) = (pts_bytes (t AND mask33) @ r) ! i" for i using a(2,3) unfolding a(1) [symmetric] by simp
  then have "map (\<lambda>i. take n es ! (9 + i)) [0..<5] = map (\<lambda>i. (pts_bytes (t AND mask33) @ r) ! i) [0..<5]" using a(2) by simp
  also have "\<dots> = pts_bytes (t AND mask33) @ []" by (simp add: numeral_upt pts_bytes_def)
  finally show ?thesis using read_pts_bytes [of t "[]"] by (simp add: pes_pts_read)
qed

lemma video_head: "14 < n \<Longrightarrow> n \<le> length (video_lead (t AND mask33) @ d) \<Longrightarrow>
    pes_head (take n (video_lead (t AND mask33) @ d)) (uint (t AND mask33))"
  using pes_pts_lead [OF video_lead_parts(2)] by (simp add: pes_head_def video_lead_def)

lemma opus_head: "14 < n \<Longrightarrow> n \<le> length (opus_lead k (t AND mask33) @ d) \<Longrightarrow>
    pes_head (take n (opus_lead k (t AND mask33) @ d)) (uint (t AND mask33))"
  using pes_pts_lead [OF opus_lead_parts(4)] by (simp add: pes_head_def opus_lead_def Let_def)

section \<open>Whole units\<close>

lemma video_rest:
  assumes "\<forall>n. mem n" and "carries PID_VIDEO False qs d" "list_all (\<lambda>p. pkt_payload p \<noteq> []) qs" and "holding b t r (concat qs @ rest)"
  shows "\<exists>r'. next_au mem r = next_au mem r' \<and> holding (b @ d) t r' rest"
  using assms(2-4)
proof (induction qs arbitrary: r b d)
  case Nil
  then show ?case by (auto simp: carries_def)
next
  case (Cons p qs)
  have p: "pkt_ok p" "pkt_pid p = PID_VIDEO" "\<not> pkt_start p" "pkt_payload p \<noteq> []"
    using Cons.prems(1,2) by (simp_all add: carries_def upt_conv_Cons del: upt_Suc)
  have c: "carries PID_VIDEO False qs (concat (map pkt_payload qs))" and d: "d = pkt_payload p @ concat (map pkt_payload qs)"
    using Cons.prems(1) by (simp_all add: carries_def upt_conv_Cons map_Suc_upt [symmetric] del: upt_Suc map_Suc_upt)
  obtain r1 where r1: "next_au mem r = next_au mem r1" "holding (b @ pkt_payload p) t r1 (concat qs @ rest)"
    using video_goes_on [OF assms(1) p] Cons.prems(3) by fastforce
  show ?case using Cons.IH [OF c _ r1(2)] Cons.prems(2) r1(1) by (simp add: d)
qed

lemma audio_rest:
  assumes "\<forall>n. mem n" and "carries PID_AUDIO False qs d" "list_all (\<lambda>p. pkt_payload p \<noteq> []) qs" "qs \<noteq> []"
    and "gathering b t (length (b @ d)) r (concat qs @ rest)"
  shows "\<exists>r'. next_au mem r = (1, r') \<and> read_unit (rd_ready r') = (b @ d, t, True) \<and> closed r' rest"
  using assms(2-5)
proof (induction qs arbitrary: r b d)
  case (Cons p qs)
  let ?e = "concat (map pkt_payload qs)"
  have p: "pkt_ok p" "pkt_pid p = PID_AUDIO" "\<not> pkt_start p" "pkt_payload p \<noteq> []"
    using Cons.prems(1,2) by (simp_all add: carries_def upt_conv_Cons del: upt_Suc)
  have c: "carries PID_AUDIO False qs ?e" and d: "d = pkt_payload p @ ?e"
    using Cons.prems(1) by (simp_all add: carries_def upt_conv_Cons map_Suc_upt [symmetric] del: upt_Suc map_Suc_upt)
  have g: "gathering b t (length (b @ d)) r (p @ (concat qs @ rest))" using Cons.prems(4) by simp
  obtain r1 where r1: "if length (b @ pkt_payload p) = length (b @ d)
      then next_au mem r = (1, r1) \<and> read_unit (rd_ready r1) = (b @ pkt_payload p, t, True) \<and> closed r1 (concat qs @ rest)
      else next_au mem r = next_au mem r1 \<and> gathering (b @ pkt_payload p) t (length (b @ d)) r1 (concat qs @ rest)"
    using audio_goes_on [OF assms(1) p g] by (auto simp: d)
  show ?case
  proof (cases "qs = []")
    case True
    then show ?thesis using r1 by (auto simp: d)
  next
    case False
    then have n: "?e \<noteq> []" using Cons.prems(2) by (cases qs) auto
    then have "length (b @ pkt_payload p) \<noteq> length (b @ d)" by (simp add: d)
    moreover have "length (b @ d) = length ((b @ pkt_payload p) @ ?e)" by (simp add: d)
    ultimately have "next_au mem r = next_au mem r1" "gathering (b @ pkt_payload p) t (length ((b @ pkt_payload p) @ ?e)) r1 (concat qs @ rest)"
      using r1 by argo+
    moreover have "list_all (\<lambda>p. pkt_payload p \<noteq> []) qs" using Cons.prems(2) by simp
    ultimately show ?thesis using Cons.IH [OF c _ False, of "b @ pkt_payload p" r1] by (simp only: d append.assoc)
  qed
qed simp

lemma lead_join:
  assumes "14 < n" "n \<le> length es" "drop 14 es = x"
  shows "drop 14 (take n es) @ drop n es = x"
proof -
  have "drop 14 es = take (n - 14) (drop 14 es) @ drop (n - 14 + 14) es" by (metis append_take_drop_id drop_drop)
  moreover have "n - 14 + 14 = n" using assms(1) by simp
  ultimately show ?thesis using assms(3) by (metis drop_take)
qed

text \<open>Between the calls of a recording: the reader has nothing open, or the picture it has gathered.\<close>

fun between :: "unit_read option \<Rightarrow> ts_reader \<Rightarrow> bytes \<Rightarrow> bool" where
  "between None r rest = closed r rest"
| "between (Some (b, t, a)) r rest = (\<not> a \<and> holding b t r rest)"

text \<open>What a reader hands out, unit by unit, up to the end of the file.\<close>

inductive reads :: "(nat \<Rightarrow> bool) \<Rightarrow> ts_reader \<Rightarrow> unit_read list \<Rightarrow> bool" for mem where
  reads_end: "next_au mem r = (0, r') \<Longrightarrow> reads mem r []"
| reads_unit: "next_au mem r = (1, r') \<Longrightarrow> reads mem r' us \<Longrightarrow> reads mem r (read_unit (rd_ready r') # us)"

lemma reads_cong: "next_au mem r = next_au mem r' \<Longrightarrow> reads mem r us \<longleftrightarrow> reads mem r' us"
  by (simp add: reads.simps [of mem r] reads.simps [of mem r'])

lemma reads_unit_eq: "next_au mem r = (1, r') \<Longrightarrow> read_unit (rd_ready r') = u \<Longrightarrow> reads mem r' us \<Longrightarrow> reads mem r (u # us)"
  using reads_unit by blast

lemma tables_skipped:
  assumes "list_all (\<lambda>p. pkt_ok p \<and> pkt_pid p \<noteq> PID_VIDEO \<and> pkt_pid p \<noteq> PID_AUDIO) tabs" and "between u r (concat tabs @ rest)"
  shows "\<exists>r'. next_au mem r = next_au mem r' \<and> between u r' rest"
  using assms
proof (induction tabs arbitrary: r)
  case (Cons p tabs)
  let ?r = "r\<lparr>rd_pkt := p, rd_in := concat tabs @ rest\<rparr>"
  have "fresh r (p @ concat tabs @ rest)" using Cons.prems(2) by (cases "(u, r, rest)" rule: between.cases) (auto simp: closed_def holding_def)
  then have "next_au mem r = next_au mem ?r" using skip_packet Cons.prems(1) by simp
  moreover have "between u ?r (concat tabs @ rest)"
    using Cons.prems by (cases "(u, r, rest)" rule: between.cases) (auto simp: state_defs pkt_ok_def)
  ultimately show ?case using Cons.IH Cons.prems(1) by auto
qed auto

text \<open>A picture: whatever was open is handed out, and the picture is open.\<close>

definition pending :: "unit_read option \<Rightarrow> unit_read list" where
  "pending u = (case u of None \<Rightarrow> [] | Some x \<Rightarrow> [x])"

lemma frame_read:
  assumes "\<forall>n. mem n" and "between u r (concat (snd (ts_mux_frame m data pts key)) @ rest)"
    and "\<And>r'. between (Some (aud @ data, uint ((pts + 63000) AND mask33), False)) r' rest \<Longrightarrow> reads mem r' us"
  shows "reads mem r (pending u @ us)"
proof -
  let ?t = "(pts + 63000) AND mask33" let ?es = "video_lead ?t @ data"
  let ?m = "if key then fst (ts_tables m) else m"
  obtain cc ps where l: "pes_loop PID_VIDEO (cc_video ?m) True (video_lead ?t) data 0 (pts AND mask33) key = (cc, ps)" by fastforce
  define tabs where "tabs = (if key then snd (ts_tables m) else [])"
  have out: "snd (ts_mux_frame m data pts key) = tabs @ ps"
    using l by (cases key) (simp_all add: ts_mux_frame_def ts_tables_out tabs_def Let_def)
  have len: "14 < length ?es" by (simp add: video_lead_def pts_bytes_def aud_def)
  obtain p qs n where ps: "ps = p # qs" "pkt_ok p" "pkt_pid p = PID_VIDEO" "pkt_start p" "pkt_payload p = take n ?es"
    "14 < n" "n \<le> length ?es" "carries PID_VIDEO False qs (drop n ?es)" "list_all (\<lambda>p. pkt_payload p \<noteq> []) qs"
    using pes_split [OF l pids_13(3) len] by metis
  have head: "pes_head (pkt_payload p) (uint ?t)" using video_head ps(5-7) by simp
  have join: "drop 14 (take n ?es) @ drop n ?es = aud @ data"
    by (rule lead_join [OF ps(6,7) video_lead_parts(3)])
  have "list_all (\<lambda>p. pkt_ok p \<and> pkt_pid p \<noteq> PID_VIDEO \<and> pkt_pid p \<noteq> PID_AUDIO) tabs" using table_pids by (simp add: tabs_def)
  then obtain r1 where r1: "next_au mem r = next_au mem r1" "between u r1 (p @ concat qs @ rest)"
    using tables_skipped [of tabs u r "p @ concat qs @ rest" mem] assms(2) by (auto simp: out ps(1))
  have finish: "reads mem r' us" if "holding (drop 14 (pkt_payload p)) (uint ?t) r' (concat qs @ rest)" for r'
  proof -
    note h = that
    obtain r2 where "next_au mem r' = next_au mem r2" "holding (aud @ data) (uint ?t) r2 rest"
      using video_rest [OF assms(1) ps(8,9) h] unfolding ps(5) join by blast
    then show ?thesis using assms(3) [of r2] reads_cong [of mem r' r2] by simp
  qed
  show ?thesis
  proof (cases u)
    case None
    then have "closed r1 (p @ concat qs @ rest)" using r1(2) by simp
    then obtain r2 where "next_au mem r1 = next_au mem r2" "holding (drop 14 (pkt_payload p)) (uint ?t) r2 (concat qs @ rest)"
      using video_starts_closed [OF assms(1) ps(2-4) head] by blast
    then have "reads mem r us" using r1(1) reads_cong [of mem r r2] finish by simp
    then show ?thesis by (simp add: pending_def None)
  next
    case (Some x)
    obtain b t a where x: "x = (b, t, a)" by (metis prod_cases3)
    then have h: "\<not> a" "holding b t r1 (p @ concat qs @ rest)" using r1(2) Some by simp_all
    then obtain r2 where "next_au mem r1 = (1, r2)" "read_unit (rd_ready r2) = (b, t, False)"
        "holding (drop 14 (pkt_payload p)) (uint ?t) r2 (concat qs @ rest)"
      using video_starts_holding [OF assms(1) ps(2-4) head] by blast
    then have "reads mem r ((b, t, False) # us)" using r1(1) reads_unit_eq [of mem r r2] finish by simp
    then show ?thesis using h(1) by (simp add: pending_def Some x)
  qed
qed

text \<open>A sound frame: whatever was open is handed out before it, and nothing is open after it.\<close>

lemma opus_read:
  assumes "\<forall>n. mem n" and "0 < length packet" "length packet \<le> 1275"
    and "between u r (concat (snd (ts_mux_opus m packet pts)) @ rest)"
    and "\<And>r'. between None r' rest \<Longrightarrow> reads mem r' us"
  shows "reads mem r (pending u @ ([0x7f, 0xe0] @ size_run (length packet) @ packet, uint ((pts + 63000) AND mask33), True) # us)"
proof -
  let ?n = "length packet" and ?t = "(pts + 63000) AND mask33" let ?es = "opus_lead ?n ?t @ packet"
  let ?sound = "[0x7f, 0xe0] @ size_run ?n @ packet" let ?u = "(?sound, uint ?t, True)"
  obtain cc ps where l: "pes_loop PID_AUDIO (cc_audio m) True (opus_lead ?n ?t) packet 0 0 False = (cc, ps)" by fastforce
  have out: "snd (ts_mux_opus m packet pts) = ps" using assms(2,3) l by (auto simp: ts_mux_opus_def Let_def)
  have len: "14 < length ?es" "length ?es = 14 + length ?sound" by (simp_all add: opus_lead_parts(6) size_run_length)
  obtain p qs n where ps: "ps = p # qs" "pkt_ok p" "pkt_pid p = PID_AUDIO" "pkt_start p" "pkt_payload p = take n ?es"
    "14 < n" "n \<le> length ?es" "carries PID_AUDIO False qs (drop n ?es)" "list_all (\<lambda>p. pkt_payload p \<noteq> []) qs"
    using pes_split [OF l pids_13(4) len(1)] by metis
  have head: "pes_head (pkt_payload p) (uint ?t)" using opus_head ps(5-7) by simp
  have join: "drop 14 (take n ?es) @ drop n ?es = ?sound" by (rule lead_join [OF ps(6,7) opus_lead_parts(5)])
  have size: "14 < length (pkt_payload p)" "length (pkt_payload p) - 14 \<le> length ?sound" using ps(5-7) len(2) by simp_all
  let ?l = "3 + 5 + 2 + (?n div 255 + 1) + ?n"
  have "?n div 255 \<le> 1275 div 255" using assms(3) by (intro div_le_mono) simp
  then have "unat (be16 (of_nat (?l div 256)) (of_nat ?l)) = ?l" using assms(3) by (intro unat_be16_nat) simp
  moreover have "pkt_payload p ! 4 = of_nat (?l div 256)" "pkt_payload p ! 5 = of_nat ?l"
    using ps(6) opus_lead_parts(2,3) [of ?n ?t packet] unfolding ps(5) by (simp_all del: take_append)
  ultimately have want: "unat (be16 (pkt_payload p ! 4) (pkt_payload p ! 5)) = length ?sound + 8" by (simp add: size_run_length)
  have start: "\<exists>r2. (case au_packet mem q of (Some c, r1) \<Rightarrow> (c, r1) | (None, r1) \<Rightarrow> next_au mem r1) = (1, r2) \<and>
      read_unit (rd_ready r2) = ?u \<and> closed r2 rest" if q: "closed q (concat qs @ rest)" "rd_pkt q = p" for q
  proof -
    obtain r1 where r1: "au_packet mem q = (if length (pkt_payload p) - 14 = length ?sound then Some 1 else None, r1)"
      "if length (pkt_payload p) - 14 = length ?sound
       then read_unit (rd_ready r1) = (drop 14 (pkt_payload p), uint ?t, True) \<and> closed r1 (concat qs @ rest)
       else gathering (drop 14 (pkt_payload p)) (uint ?t) (length ?sound) r1 (concat qs @ rest)"
      using audio_starts [OF assms(1) ps(2-4) head size(1) want size(2) q(2,1)] by blast
    show ?thesis
    proof (cases "length (pkt_payload p) - 14 = length ?sound")
      case True
      then have "drop n ?es = []" using ps(5-7) len(2) by simp
      then have "qs = []" using ps(8,9) by (cases qs) (auto simp: carries_def)
      moreover have "drop 14 (pkt_payload p) = ?sound" using join \<open>drop n ?es = []\<close> unfolding ps(5) by (simp del: take_append drop_append)
      ultimately show ?thesis using r1 True by simp
    next
      case False
      then have "qs \<noteq> []" using ps(5-8) len(2) by (cases qs) (auto simp: carries_def)
      moreover have "gathering (drop 14 (take n ?es)) (uint ?t) (length (drop 14 (take n ?es) @ drop n ?es)) r1 (concat qs @ rest)"
        using r1(2) [unfolded if_not_P [OF False]] unfolding ps(5) join .
      ultimately obtain r2 where "next_au mem r1 = (1, r2)" "read_unit (rd_ready r2) = ?u" "closed r2 rest"
        using audio_rest [OF assms(1) ps(8,9), of "drop 14 (take n ?es)" "uint ?t" r1 rest, unfolded join] unfolding join by blast
      then show ?thesis using r1(1) False by simp
    qed
  qed
  show ?thesis
  proof (cases u)
    case None
    then have c: "closed r (p @ concat qs @ rest)" using assms(4) by (simp add: out ps(1))
    then have "closed (r\<lparr>rd_pkt := p, rd_in := concat qs @ rest\<rparr>) (concat qs @ rest)" using ps(2) by (simp add: state_defs pkt_ok_def)
    from start [OF this] obtain r2 where "next_au mem r = (1, r2)" "read_unit (rd_ready r2) = ?u" "closed r2 rest"
      using next_au_read [OF _ ps(2), of r "concat qs @ rest" mem] c by (auto simp: closed_def)
    then show ?thesis using reads_unit_eq assms(5) by (simp add: pending_def None)
  next
    case (Some x)
    obtain b t a where x: "x = (b, t, a)" by (metis prod_cases3)
    then have h: "\<not> a" "holding b t r (p @ concat qs @ rest)" using assms(4) by (simp_all add: Some out ps(1))
    have "pkt_payload p \<noteq> []" using size(1) by auto
    then obtain r1 where r1: "next_au mem r = (1, r1)" "read_unit (rd_ready r1) = (b, t, False)" "rd_replay r1" "rd_pkt r1 = p"
        "closed (r1\<lparr>rd_replay := False\<rparr>) (concat qs @ rest)"
      using audio_waits [OF ps(2-4) _ h(2), of mem] by blast
    obtain r2 where "next_au mem r1 = (1, r2)" "read_unit (rd_ready r2) = ?u" "closed r2 rest"
      using start [OF r1(5)] r1(3,4) by (subst (asm) next_au.simps) auto
    then have "reads mem r ((b, t, False) # ?u # us)" using r1(1,2) reads_unit_eq assms(5) by (metis between.simps(1))
    then show ?thesis using h(1) by (simp add: pending_def Some x)
  qed
qed

section \<open>A recording\<close>

text \<open>The units of a call: what the reader is to hand out for it.\<close>

fun call_units :: "ts_op \<Rightarrow> unit_read list" where
  "call_units (Frame data pts key) = [(aud @ data, uint ((pts + 63000) AND mask33), False)]"
| "call_units (Opus packet pts) =
     (if length packet = 0 \<or> length packet > 1275 then []
      else [([0x7f, 0xe0] @ size_run (length packet) @ packet, uint ((pts + 63000) AND mask33), True)])"

lemma run_read:
  assumes "\<forall>n. mem n" and "between u r (concat (snd (ts_run m cs)))"
  shows "reads mem r (pending u @ concat (map call_units cs))"
  using assms(2)
proof (induction cs arbitrary: m u r)
  case Nil
  show ?case
  proof (cases u)
    case None
    then show ?thesis using Nil end_closed [of r mem] reads_end by (auto simp: pending_def)
  next
    case (Some x)
    obtain b t a where x: "x = (b, t, a)" by (metis prod_cases3)
    then show ?thesis using Nil Some end_holding [of b t r mem] reads_end reads_unit_eq by (fastforce simp: pending_def)
  qed
next
  case (Cons c cs)
  let ?m = "fst (ts_call m c)"
  have b: "between u r (concat (snd (ts_call m c)) @ concat (snd (ts_run ?m cs)))" using Cons.prems by (simp add: case_prod_beta Let_def)
  show ?case
  proof (cases c)
    case (Frame data pts key)
    show ?thesis using frame_read [OF assms(1), of u r m data pts key "concat (snd (ts_run ?m cs))"] b Cons.IH
      by (fastforce simp: Frame pending_def)
  next
    case (Opus packet pts)
    show ?thesis
    proof (cases "length packet = 0 \<or> length packet > 1275")
      case True
      then have "ts_call m c = (m, [])" by (auto simp: Opus ts_mux_opus_def)
      then show ?thesis using b Cons.IH [of u r m] True by (auto simp: Opus)
    next
      case False
      then have "0 < length packet" "length packet \<le> 1275" by auto
      then show ?thesis using opus_read [OF assms(1), of packet u r m pts "concat (snd (ts_run ?m cs))"] b Cons.IH [of None] False
        by (simp add: Opus pending_def)
    qed
  qed
qed

text \<open>
  C11. What the recorder wrote is what the conversion reads. Whatever frames and sound packets a recording is made of and
  however they interleave, reading its file back hands out one unit for each of them, in the order they were recorded: a
  picture with its delimiter in front, a sound packet with its control header, each with the time it was recorded for
  plus the lead, modulo 2^33; and then the end. The picture before a sound is handed out before it, although only the
  packet after a picture shows that it is whole.
\<close>

theorem recording_reads_back:
  "reads (\<lambda>_. True) (ts_reader_start (concat (snd (ts_run m calls)))) (concat (map call_units calls))"
proof -
  have "between None (ts_reader_start (concat (snd (ts_run m calls)))) (concat (snd (ts_run m calls)))"
    by (simp add: state_defs ts_reader_start_def no_au_def)
  then show ?thesis using run_read [of "\<lambda>_. True" None] by (simp add: pending_def)
qed

end
