(* ===== verification/Mp4_Samples.thy ===== *)
theory Mp4_Samples
  imports Ts_Reader Rtp_H264
begin

text \<open>
  kvm_record/ts_to_mp4.c, the samples: the NAL units of a picture, the header in front of a sound frame, and the two
  passes over the recording. The first makes the tables - of every sample its size, its offset, how long it is shown -
  and the second writes the samples. The two decide on their own what is a sample, so that they agree is the theorem:
  each table entry is where the sample is.

  \<open>mem\<close> says for which sizes \<open>malloc\<close> and \<open>realloc\<close> give memory - to a pass, that is asked anew for every unit, so that
  it may be given once and refused later - and \<open>wr\<close> whether a write succeeds, given what is
  written already and what is to be. \<open>data_bytes\<close> is 64 bits and a natural number here; the offsets it becomes are 32.
\<close>

section \<open>NAL units\<close>

function nal_from :: "bytes \<Rightarrow> nat \<Rightarrow> nat option \<Rightarrow> bytes list" where
  "nal_from b i start =
     (if i + 3 \<le> length b
      then if b ! i = 0 \<and> b ! (i + 1) = 0 \<and> b ! (i + 2) = 1
           then (case start of None \<Rightarrow> [] | Some s \<Rightarrow> [segment b s ((if i > s \<and> b ! (i - 1) = 0 then i - 1 else i) - s)]) @
                nal_from b (i + 3) (Some (i + 3))
           else nal_from b (i + 1) start
      else case start of None \<Rightarrow> [] | Some s \<Rightarrow> (if s < length b then [drop s b] else []))"
  by pat_completeness auto
termination by (relation "measure (\<lambda>(b, i, start). length b - i)") auto

declare nal_from.simps [simp del]

definition each_nal :: "bytes \<Rightarrow> bytes list" where
  "each_nal b = nal_from b 0 None"

record nal_scan =
  sc_size :: nat
  sc_idr :: bool
  sc_sps :: "bytes option"
  sc_pps :: "bytes option"

definition nal_type :: "bytes \<Rightarrow> u8" where
  "nal_type nal = nal ! 0 AND 0x1f"

definition keep_nal :: "u8 \<Rightarrow> bool" where
  "keep_nal type \<longleftrightarrow> type \<noteq> 9 \<and> type \<noteq> 7 \<and> type \<noteq> 8"

definition scan_nal :: "(nat \<Rightarrow> bool) \<Rightarrow> nal_scan \<Rightarrow> bytes \<Rightarrow> nal_scan" where
  "scan_nal mem s nal =
     (if nal = [] then s
      else let type = nal_type nal;
               s = (if type = 5 then s\<lparr>sc_idr := True\<rparr> else s);
               s = (if type = 7 \<and> sc_sps s = None \<and> length nal \<ge> 4 \<and> mem (length nal) then s\<lparr>sc_sps := Some nal\<rparr> else s);
               s = (if type = 8 \<and> sc_pps s = None \<and> mem (length nal) then s\<lparr>sc_pps := Some nal\<rparr> else s)
           in if keep_nal type then s\<lparr>sc_size := sc_size s + (4 + length nal)\<rparr> else s)"

definition io_write :: "(bytes \<Rightarrow> bytes \<Rightarrow> bool) \<Rightarrow> bytes \<Rightarrow> bytes \<Rightarrow> bool \<times> bytes" where
  "io_write wr out data = (if wr out data then (True, out @ data) else (False, out))"

definition write_nal :: "(bytes \<Rightarrow> bytes \<Rightarrow> bool) \<Rightarrow> bool \<times> bytes \<Rightarrow> bytes \<Rightarrow> bool \<times> bytes" where
  "write_nal wr s nal =
     (case s of (ok, out) \<Rightarrow>
        if nal = [] \<or> \<not> ok \<or> \<not> keep_nal (nal_type nal) then (ok, out)
        else case io_write wr out (put32 (of_nat (length nal))) of
               (False, out1) \<Rightarrow> (False, out1)
             | (True, out1) \<Rightarrow> io_write wr out1 nal)"

section \<open>Sound\<close>

record sound =
  so_opus :: bool
  so_rate :: u32
  so_channels :: u8
  so_asc0 :: u8
  so_asc1 :: u8

definition adts_rates :: "u32 list" where
  "adts_rates = [96000, 88200, 64000, 48000, 44100, 32000, 24000, 22050, 16000, 12000, 11025, 8000, 7350]"

definition adts_parse :: "bytes \<Rightarrow> (nat \<times> sound) option" where
  "adts_parse p =
     (if length p < 7 \<or> p ! 0 \<noteq> 0xff \<or> p ! 1 AND 0xf6 \<noteq> 0xf0 then None
      else let object = drop_bit 6 (p ! 2) + 1;
               rate_index = drop_bit 2 (p ! 2) AND 0x0f;
               channels = push_bit 2 (p ! 2 AND 1) OR drop_bit 6 (p ! 3);
               hlen = (if p ! 1 AND 1 \<noteq> 0 then 7 else 9)
           in if rate_index \<ge> 13 \<or> length p \<le> hlen then None
              else Some (hlen, \<lparr>so_opus = False, so_rate = adts_rates ! unat rate_index, so_channels = channels,
                     so_asc0 = push_bit 3 object OR drop_bit 1 rate_index,
                     so_asc1 = push_bit 7 (rate_index AND 1) OR push_bit 3 channels\<rparr>))"

function opus_size :: "bytes \<Rightarrow> nat \<Rightarrow> nat \<Rightarrow> (nat \<times> nat) option" where
  "opus_size p at sz =
     (if at \<ge> length p then None
      else if p ! at \<noteq> 255 then Some (at + 1, sz + unat (p ! at)) else opus_size p (at + 1) (sz + unat (p ! at)))"
  by pat_completeness auto
termination by (relation "measure (\<lambda>(p, at, sz). length p - at)") auto

declare opus_size.simps [simp del]

definition opus_sound :: sound where
  "opus_sound = \<lparr>so_opus = True, so_rate = 48000, so_channels = 2, so_asc0 = 0, so_asc1 = 0\<rparr>"

definition opus_parse :: "bytes \<Rightarrow> (nat \<times> sound) option" where
  "opus_parse p =
     (if length p < 3 \<or> p ! 0 \<noteq> 0x7f \<or> p ! 1 AND 0xe0 \<noteq> 0xe0 then None
      else case opus_size p 2 0 of
             None \<Rightarrow> None
           | Some (at, sz) \<Rightarrow>
               let at = at + (if p ! 1 AND 0x10 \<noteq> 0 then 2 else 0); at = at + (if p ! 1 AND 0x08 \<noteq> 0 then 2 else 0)
               in if p ! 1 AND 0x04 \<noteq> 0 \<and> at \<ge> length p then None
                  else let at = (if p ! 1 AND 0x04 \<noteq> 0 then at + 1 + unat (p ! at) else at)
                       in if sz = 0 \<or> at + sz \<noteq> length p then None else Some (at, opus_sound))"

definition sound_parse :: "bytes \<Rightarrow> (nat \<times> sound) option" where
  "sound_parse p = (case opus_parse p of Some r \<Rightarrow> Some r | None \<Rightarrow> adts_parse p)"

definition frame_len :: "sound \<Rightarrow> u32" where
  "frame_len a = (if so_opus a then 960 else 1024)"

definition same_sound :: "sound \<Rightarrow> sound \<Rightarrow> bool" where
  "same_sound a b \<longleftrightarrow> so_opus a = so_opus b \<and> so_rate a = so_rate b \<and> so_channels a = so_channels b \<and>
     so_asc0 a = so_asc0 b \<and> so_asc1 a = so_asc1 b"

section \<open>The tables\<close>

record sample =
  sa_size :: u32
  sa_delta :: u32
  sa_sync :: bool
  sa_offset :: u32

record samples =
  sm_list :: "sample list"
  sm_cap :: nat

definition sample_add :: "(nat \<Rightarrow> bool) \<Rightarrow> samples \<Rightarrow> u32 \<Rightarrow> bool \<Rightarrow> u64 \<Rightarrow> samples option" where
  "sample_add mem s sz sync offset =
     (let cap = (if sm_cap s \<noteq> 0 then sm_cap s * 2 else 4096); full = (length (sm_list s) = sm_cap s)
      in if full \<and> \<not> (mem (cap * 4) \<and> mem cap) then None
         else Some \<lparr>sm_list = sm_list s @ [\<lparr>sa_size = sz, sa_delta = 0, sa_sync = sync, sa_offset = ucast offset\<rparr>],
                    sm_cap = if full then cap else sm_cap s\<rparr>)"

text \<open>How long the newest sample of a table lasts.\<close>

definition set_delta :: "samples \<Rightarrow> u32 \<Rightarrow> samples" where
  "set_delta s d =
     s\<lparr>sm_list := (sm_list s)[length (sm_list s) - 1 := (sm_list s ! (length (sm_list s) - 1))\<lparr>sa_delta := d\<rparr>]\<rparr>"

definition delta_before :: "samples \<Rightarrow> u32" where
  "delta_before s = (if length (sm_list s) > 1 then sa_delta (sm_list s ! (length (sm_list s) - 2)) else 90000 div 25)"

record pass1 =
  p_sm :: samples
  p_am :: samples
  p_snd :: sound
  p_audio_first :: int
  p_audio_prev :: int
  p_first :: int
  p_prev :: int
  p_sps :: "bytes option"
  p_pps :: "bytes option"
  p_bytes :: nat

definition no_samples :: samples where
  "no_samples = \<lparr>sm_list = [], sm_cap = 0\<rparr>"

definition pass1_start :: pass1 where
  "pass1_start = \<lparr>p_sm = no_samples, p_am = no_samples, p_snd = \<lparr>so_opus = False, so_rate = 0, so_channels = 0, so_asc0 = 0, so_asc1 = 0\<rparr>,
     p_audio_first = -1, p_audio_prev = -1, p_first = -1, p_prev = -1, p_sps = None, p_pps = None, p_bytes = 0\<rparr>"

section \<open>Pass one\<close>

text \<open>How long the sample before lasted is known when the next one comes.\<close>

definition sound_times :: "sound \<Rightarrow> int \<Rightarrow> pass1 \<Rightarrow> pass1" where
  "sound_times a pts st =
     (let st = st\<lparr>p_snd := a\<rparr>;
          st = (if sm_list (p_am st) \<noteq> []
                then let d = c_div ((pts - p_audio_prev st) * uint (so_rate a)) 90000
                     in st\<lparr>p_am := set_delta (p_am st) (if d > 0 \<and> d < uint (so_rate a) * 10 then of_int d else frame_len a)\<rparr>
                else st\<lparr>p_audio_first := pts\<rparr>)
      in st\<lparr>p_audio_prev := pts\<rparr>)"

definition table_sound :: "(nat \<Rightarrow> bool) \<Rightarrow> bytes \<Rightarrow> int \<Rightarrow> pass1 \<Rightarrow> pass1 option" where
  "table_sound mem au pts st =
     (case sound_parse au of
        None \<Rightarrow> Some st
      | Some (hlen, a) \<Rightarrow>
          if sm_list (p_sm st) = [] \<or> (sm_list (p_am st) \<noteq> [] \<and> \<not> same_sound a (p_snd st)) then Some st
          else let st = sound_times a pts st
               in case sample_add mem (p_am st) (of_nat (length au - hlen)) True (of_nat (p_bytes st)) of
                    None \<Rightarrow> None
                  | Some am \<Rightarrow> Some (st\<lparr>p_am := am, p_bytes := p_bytes st + (length au - hlen)\<rparr>))"

definition picture_times :: "int \<Rightarrow> pass1 \<Rightarrow> pass1" where
  "picture_times pts st =
     (let st = (if p_first st < 0 then st\<lparr>p_first := pts\<rparr> else st);
          d = pts - p_prev st;
          st = (if sm_list (p_sm st) \<noteq> []
                then st\<lparr>p_sm := set_delta (p_sm st) (if d > 0 \<and> d < 900000 then of_int d else delta_before (p_sm st))\<rparr>
                else st)
      in st\<lparr>p_prev := pts\<rparr>)"

definition scan_start :: "pass1 \<Rightarrow> nal_scan" where
  "scan_start st = \<lparr>sc_size = 0, sc_idr = False, sc_sps = p_sps st, sc_pps = p_pps st\<rparr>"

definition table_picture :: "(nat \<Rightarrow> bool) \<Rightarrow> bytes \<Rightarrow> int \<Rightarrow> pass1 \<Rightarrow> pass1 option" where
  "table_picture mem au pts st =
     (let s = foldl (scan_nal mem) (scan_start st) (each_nal au);
          st = st\<lparr>p_sps := sc_sps s, p_pps := sc_pps s\<rparr>
      in if sc_size s = 0 \<or> (sm_list (p_sm st) = [] \<and> \<not> sc_idr s) then Some st
         else let st = picture_times pts st
              in case sample_add mem (p_sm st) (of_nat (sc_size s)) (sc_idr s) (of_nat (p_bytes st)) of
                   None \<Rightarrow> None
                 | Some sm \<Rightarrow> Some (st\<lparr>p_sm := sm, p_bytes := p_bytes st + sc_size s\<rparr>))"

definition table_unit :: "(nat \<Rightarrow> bool) \<Rightarrow> unit_read \<Rightarrow> pass1 \<Rightarrow> pass1 option" where
  "table_unit mem u st = (case u of (au, pts, audio) \<Rightarrow> if audio then table_sound mem au pts st else table_picture mem au pts st)"


text \<open>The reader gets nearer to its end with every unit it hands out, so a loop over its units ends.\<close>

definition rd_weight :: "ts_reader \<Rightarrow> nat" where
  "rd_weight r = length (rd_in r) + (if rd_replay r then 4 else 0) + (if rd_open r then 2 else 0)"

lemma audio_open:
  "audio_start p at r = (g, at1, r1) \<Longrightarrow> rd_open r1 = rd_open r"
  "rd_open (snd (audio_more mem p at r)) = rd_open r"
  unfolding audio_start_def audio_more_def Let_def hand_out_acur_def by (auto split: if_splits option.split)

lemma audio_packet_open: "rd_open (snd (audio_packet mem p at r)) = rd_open r"
  using audio_open by (auto simp: audio_packet_def split: prod.splits)

lemma au_packet_weight:
  assumes "au_packet mem r = (x, r')"
  shows "rd_weight r' \<le> rd_weight r + 2"
proof -
  let ?p = "rd_pkt r" and ?at = "if rd_pkt r ! 3 AND 0x20 \<noteq> 0 then 5 + unat (rd_pkt r ! 4) else 4"
  have "r' \<in> {r, snd (audio_packet mem ?p ?at r), snd (video_more mem ?p ?at r), snd (video_start mem ?p ?at r)} \<or>
      rd_open r \<and> r' = (hand_out_cur (r\<lparr>rd_open := False\<rparr>))\<lparr>rd_replay := True\<rparr>"
    using assms unfolding au_packet_def Let_def by (simp split: if_split_asm prod.split_asm)
  then show ?thesis
    using audio_packet_keeps [of mem ?p ?at r] video_keeps [of mem ?p ?at r] audio_packet_open [of mem ?p ?at r]
    by (auto simp: rd_weight_def hand_out_cur_def)
qed

lemma at_end_weight: "at_end r = (1, r') \<Longrightarrow> rd_weight r' < rd_weight r"
  by (auto simp: at_end_def rd_weight_def hand_out_cur_def split: if_splits)

lemma read_packet_weight:
  "read_packet r = (True, r0) \<Longrightarrow> rd_weight r0 + 188 \<le> rd_weight r"
  "read_packet r = (False, r0) \<Longrightarrow> rd_weight r0 \<le> rd_weight r"
  by (auto simp: read_packet_def rd_weight_def Let_def)

lemma next_au_weight: "next_au mem r = (1, r') \<Longrightarrow> rd_weight r' < rd_weight r"
proof (induction mem r rule: next_au.induct)
  case (1 mem r)
  consider "rd_replay r" | "\<not> rd_replay r" "rd_eof r" | "\<not> rd_replay r" "\<not> rd_eof r" by blast
  then show ?case
  proof cases
    case 1
    obtain x r1 where p: "au_packet mem (r\<lparr>rd_replay := False\<rparr>) = (x, r1)" by fastforce
    have w: "rd_weight r1 < rd_weight r" using au_packet_weight [OF p] 1 by (simp add: rd_weight_def)
    show ?thesis
    proof (cases x)
      case None
      then have "next_au mem r1 = (1, r')" using "1.prems" 1 p by (subst (asm) next_au.simps) simp
      then have "rd_weight r' < rd_weight r1" by (rule "1.IH"(1) [OF 1 p [symmetric] None])
      then show ?thesis using w by simp
    next
      case (Some c)
      then have "r' = r1" using "1.prems" 1 p by (subst (asm) next_au.simps) simp
      then show ?thesis using w by simp
    qed
  next
    case 2
    then have "at_end r = (1, r')" using "1.prems" by (subst (asm) next_au.simps) simp
    then show ?thesis by (rule at_end_weight)
  next
    case 3
    obtain ok r0 where rd: "read_packet r = (ok, r0)" by fastforce
    show ?thesis
    proof (cases ok)
      case False
      then have "at_end r0 = (1, r')" using "1.prems" 3 rd by (subst (asm) next_au.simps) simp
      then have "rd_weight r' < rd_weight r0" by (rule at_end_weight)
      then show ?thesis using read_packet_weight(2) rd False by fastforce
    next
      case True
      obtain x r1 where p: "au_packet mem r0 = (x, r1)" by fastforce
      have w: "rd_weight r1 < rd_weight r" using au_packet_weight [OF p] read_packet_weight(1) rd True by fastforce
      show ?thesis
      proof (cases x)
        case None
        then have "next_au mem r1 = (1, r')" using "1.prems" 3 rd True p by (subst (asm) next_au.simps) simp
        then have "rd_weight r' < rd_weight r1" using "1.IH"(2) [OF 3, of ok r0 x r1] rd True p None by simp
        then show ?thesis using w by simp
      next
        case (Some c)
        then have "r' = r1" using "1.prems" 3 rd True p by (subst (asm) next_au.simps) simp
        then show ?thesis using w by simp
      qed
    qed
  qed
qed

text \<open>\<open>k\<close> counts the units.\<close>

function pass_one :: "(nat \<Rightarrow> nat \<Rightarrow> bool) \<Rightarrow> nat \<Rightarrow> ts_reader \<Rightarrow> pass1 \<Rightarrow> pass1 option" where
  "pass_one mem k rd st =
     (case next_au (mem k) rd of (got, rd1) \<Rightarrow>
        if got = 1
        then (case table_unit (mem k) (read_unit (rd_ready rd1)) st of None \<Rightarrow> None | Some st1 \<Rightarrow> pass_one mem (k + 1) rd1 st1)
        else if got < 0 then None else Some st)"
  by pat_completeness auto
termination by (relation "measure (\<lambda>(mem, k, rd, st). rd_weight rd)") (use next_au_weight in auto)

declare pass_one.simps [simp del]

section \<open>Pass two\<close>

record pass2 =
  w_written :: nat
  w_audio :: nat
  w_started :: bool
  w_out :: bytes

definition write_sound :: "(bytes \<Rightarrow> bytes \<Rightarrow> bool) \<Rightarrow> pass1 \<Rightarrow> bytes \<Rightarrow> pass2 \<Rightarrow> pass2 option" where
  "write_sound wr t au st =
     (if \<not> w_started st \<or> w_audio st \<ge> length (sm_list (p_am t)) then Some st
      else case sound_parse au of
             None \<Rightarrow> Some st
           | Some (hlen, a) \<Rightarrow>
               if \<not> same_sound a (p_snd t) then Some st
               else if of_nat (length au - hlen) \<noteq> sa_size (sm_list (p_am t) ! w_audio st) then None
               else case io_write wr (w_out st) (drop hlen au) of
                      (False, _) \<Rightarrow> None
                    | (True, out) \<Rightarrow> Some (st\<lparr>w_out := out, w_audio := w_audio st + 1\<rparr>))"

definition write_picture :: "(nat \<Rightarrow> bool) \<Rightarrow> (bytes \<Rightarrow> bytes \<Rightarrow> bool) \<Rightarrow> pass1 \<Rightarrow> bytes \<Rightarrow> pass2 \<Rightarrow> pass2 option" where
  "write_picture mem wr t au st =
     (let probe = foldl (scan_nal mem) (scan_start t) (each_nal au)
      in if sc_size probe = 0 \<or> (\<not> w_started st \<and> \<not> sc_idr probe) \<or> w_written st \<ge> length (sm_list (p_sm t)) then Some st
         else case foldl (write_nal wr) (True, w_out st) (each_nal au) of
                (False, _) \<Rightarrow> None
              | (True, out) \<Rightarrow> Some (st\<lparr>w_started := True, w_out := out, w_written := w_written st + 1\<rparr>))"

definition write_unit :: "(nat \<Rightarrow> bool) \<Rightarrow> (bytes \<Rightarrow> bytes \<Rightarrow> bool) \<Rightarrow> pass1 \<Rightarrow> unit_read \<Rightarrow> pass2 \<Rightarrow> pass2 option" where
  "write_unit mem wr t u st = (case u of (au, pts, audio) \<Rightarrow> if audio then write_sound wr t au st else write_picture mem wr t au st)"

function pass_two :: "(nat \<Rightarrow> nat \<Rightarrow> bool) \<Rightarrow> nat \<Rightarrow> (bytes \<Rightarrow> bytes \<Rightarrow> bool) \<Rightarrow> pass1 \<Rightarrow> ts_reader \<Rightarrow> pass2 \<Rightarrow> pass2 option" where
  "pass_two mem k wr t rd st =
     (case next_au (mem k) rd of (got, rd1) \<Rightarrow>
        if got = 1 \<and> (w_written st < length (sm_list (p_sm t)) \<or> w_audio st < length (sm_list (p_am t)))
        then (case write_unit (mem k) wr t (read_unit (rd_ready rd1)) st of
                None \<Rightarrow> None | Some st1 \<Rightarrow> pass_two mem (k + 1) wr t rd1 st1)
        else Some st)"
  by pat_completeness auto
termination by (relation "measure (\<lambda>(mem, k, wr, t, rd, st). rd_weight rd)") (use next_au_weight in auto)

declare pass_two.simps [simp del]


section \<open>What is a sample\<close>

text \<open>
  Both passes against one reading of the units: of a picture the units that are kept, each behind its length, and no
  picture before the first that decodes on its own; sound from the first picture on, in the format of the first sound.
\<close>

definition kept :: "bytes list \<Rightarrow> bytes list" where
  "kept ns = filter (\<lambda>n. n \<noteq> [] \<and> keep_nal (nal_type n)) ns"

definition prefixed :: "bytes list \<Rightarrow> bytes" where
  "prefixed ns = concat (map (\<lambda>n. put32 (of_nat (length n)) @ n) ns)"

definition has_idr :: "bytes list \<Rightarrow> bool" where
  "has_idr ns \<longleftrightarrow> (\<exists>n \<in> set ns. n \<noteq> [] \<and> nal_type n = 5)"

datatype mp4_item = Picture bytes bool | Sound bytes sound

fun item_bytes :: "mp4_item \<Rightarrow> bytes" where
  "item_bytes (Picture b idr) = b"
| "item_bytes (Sound b a) = b"

type_synonym progress = "bool \<times> sound option"

fun unit_item :: "progress \<Rightarrow> unit_read \<Rightarrow> mp4_item option" where
  "unit_item (started, so) (b, t, True) =
     (case sound_parse b of
        None \<Rightarrow> None
      | Some (h, a) \<Rightarrow> (if started \<and> (so = None \<or> so = Some a) then Some (Sound (drop h b) a) else None))"
| "unit_item (started, so) (b, t, False) =
     (let body = prefixed (kept (each_nal b)); idr = has_idr (each_nal b)
      in if body \<noteq> [] \<and> (started \<or> idr) then Some (Picture body idr) else None)"

fun after_item :: "mp4_item \<Rightarrow> progress \<Rightarrow> progress" where
  "after_item (Picture b idr) p = (True, snd p)"
| "after_item (Sound b a) p = (fst p, Some a)"

fun mp4_items :: "progress \<Rightarrow> unit_read list \<Rightarrow> mp4_item list" where
  "mp4_items p [] = []"
| "mp4_items p (u # us) = (case unit_item p u of None \<Rightarrow> mp4_items p us | Some i \<Rightarrow> i # mp4_items (after_item i p) us)"

text \<open>The entries the samples of a list make in each table, from an offset on.\<close>

type_synonym entry = "u32 \<times> bool \<times> u32"

fun picture_entries :: "nat \<Rightarrow> mp4_item list \<Rightarrow> entry list" where
  "picture_entries off [] = []"
| "picture_entries off (Picture b idr # is) = (of_nat (length b), idr, ucast (of_nat off :: u64)) # picture_entries (off + length b) is"
| "picture_entries off (Sound b a # is) = picture_entries (off + length b) is"

fun sound_entries :: "nat \<Rightarrow> mp4_item list \<Rightarrow> entry list" where
  "sound_entries off [] = []"
| "sound_entries off (Picture b idr # is) = sound_entries (off + length b) is"
| "sound_entries off (Sound b a # is) = (of_nat (length b), True, ucast (of_nat off :: u64)) # sound_entries (off + length b) is"

definition entry_of :: "sample \<Rightarrow> entry" where
  "entry_of s = (sa_size s, sa_sync s, sa_offset s)"

definition entries :: "samples \<Rightarrow> entry list" where
  "entries s = map entry_of (sm_list s)"

definition progress_of :: "pass1 \<Rightarrow> progress" where
  "progress_of st = (sm_list (p_sm st) \<noteq> [], if sm_list (p_am st) = [] then None else Some (p_snd st))"

lemma same_sound_eq: "same_sound a b \<longleftrightarrow> a = b"
  by (auto simp: same_sound_def intro: sound.equality)

lemma scan_size: "sc_size (foldl (scan_nal mem) s ns) = sc_size s + length (prefixed (kept ns))"
proof (induction ns arbitrary: s)
  case (Cons n ns)
  have "sc_size (scan_nal mem s n) = sc_size s + (if n \<noteq> [] \<and> keep_nal (nal_type n) then 4 + length n else 0)"
    by (simp add: scan_nal_def Let_def)
  then show ?case using Cons by (simp add: prefixed_def kept_def)
qed (simp add: prefixed_def kept_def)

lemma scan_idr: "sc_idr (foldl (scan_nal mem) s ns) \<longleftrightarrow> sc_idr s \<or> has_idr ns"
proof (induction ns arbitrary: s)
  case (Cons n ns)
  have "sc_idr (scan_nal mem s n) \<longleftrightarrow> sc_idr s \<or> n \<noteq> [] \<and> nal_type n = 5" by (simp add: scan_nal_def Let_def)
  then show ?case using Cons by (auto simp: has_idr_def)
qed (simp add: has_idr_def)

lemma write_all: "foldl (write_nal (\<lambda>_ _. True)) (True, out) ns = (True, out @ prefixed (kept ns))"
  by (induction ns arbitrary: out) (auto simp: write_nal_def io_write_def prefixed_def kept_def)

lemma entries_add: "sample_add mem s n sync off = Some s' \<Longrightarrow> entries s' = entries s @ [(n, sync, ucast off)] \<and> sm_list s' \<noteq> []"
  by (auto simp: sample_add_def Let_def entries_def entry_of_def split: if_splits)

lemma entries_delta [simp]: "entries (set_delta s d) = entries s" "sm_list (set_delta s d) = [] \<longleftrightarrow> sm_list s = []"
proof -
  show "entries (set_delta s d) = entries s"
    by (cases "sm_list s = []") (simp_all add: set_delta_def entries_def map_update entry_of_def list_update_same_conv)
  show "sm_list (set_delta s d) = [] \<longleftrightarrow> sm_list s = []" by (simp add: set_delta_def)
qed

lemma times_keep:
  "entries (p_sm (picture_times t st)) = entries (p_sm st)" "p_am (picture_times t st) = p_am st"
  "p_snd (picture_times t st) = p_snd st" "p_bytes (picture_times t st) = p_bytes st"
  "entries (p_am (sound_times a t st)) = entries (p_am st)" "p_sm (sound_times a t st) = p_sm st"
  "p_snd (sound_times a t st) = a" "p_bytes (sound_times a t st) = p_bytes st"
  by (simp_all add: picture_times_def sound_times_def Let_def)

text \<open>A unit in pass one.\<close>

definition table_step :: "unit_read \<Rightarrow> pass1 \<Rightarrow> pass1 \<Rightarrow> bool" where
  "table_step u st st' \<longleftrightarrow>
     (case unit_item (progress_of st) u of
        None \<Rightarrow> entries (p_sm st') = entries (p_sm st) \<and> entries (p_am st') = entries (p_am st) \<and> p_bytes st' = p_bytes st \<and>
          progress_of st' = progress_of st
      | Some i \<Rightarrow> entries (p_sm st') = entries (p_sm st) @ picture_entries (p_bytes st) [i] \<and>
          entries (p_am st') = entries (p_am st) @ sound_entries (p_bytes st) [i] \<and>
          p_bytes st' = p_bytes st + length (item_bytes i) \<and> progress_of st' = after_item i (progress_of st))"

lemma table_picture_step:
  assumes "table_picture mem b t st = Some st'"
  shows "table_step (b, t, False) st st'"
proof -
  define s where "s = foldl (scan_nal mem) (scan_start st) (each_nal b)"
  have sz: "sc_size s = length (prefixed (kept (each_nal b)))" and idr: "sc_idr s = has_idr (each_nal b)"
    by (simp_all add: s_def scan_size scan_idr scan_start_def)
  show ?thesis
  proof (cases "sc_size s = 0 \<or> (sm_list (p_sm st) = [] \<and> \<not> sc_idr s)")
    case True
    then have "st' = st\<lparr>p_sps := sc_sps s, p_pps := sc_pps s\<rparr>"
      using assms by (auto simp: table_picture_def s_def Let_def)
    then show ?thesis using True sz idr by (auto simp: table_step_def progress_of_def)
  next
    case False
    let ?st = "picture_times t (st\<lparr>p_sps := sc_sps s, p_pps := sc_pps s\<rparr>)"
    obtain sm where sm: "sample_add mem (p_sm ?st) (of_nat (sc_size s)) (sc_idr s) (of_nat (p_bytes st)) = Some sm"
      and st': "p_sm st' = sm" "p_am st' = p_am st" "p_snd st' = p_snd st" "p_bytes st' = p_bytes st + sc_size s"
      using assms False unfolding table_picture_def s_def [symmetric] Let_def
      by (auto simp: times_keep split: option.split_asm)
    then show ?thesis using False sz idr entries_add [OF sm] by (auto simp: table_step_def progress_of_def times_keep)
  qed
qed

lemma table_sound_step:
  assumes "table_sound mem b t st = Some st'"
  shows "table_step (b, t, True) st st'"
proof (cases "sound_parse b")
  case None
  then show ?thesis using assms by (simp add: table_sound_def table_step_def progress_of_def)
next
  case (Some p)
  obtain h a where p: "p = (h, a)" by fastforce
  show ?thesis
  proof (cases "sm_list (p_sm st) = [] \<or> (sm_list (p_am st) \<noteq> [] \<and> \<not> same_sound a (p_snd st))")
    case True
    then show ?thesis using assms by (auto simp: table_sound_def table_step_def progress_of_def Some p same_sound_eq)
  next
    case False
    obtain am where am: "sample_add mem (p_am (sound_times a t st)) (of_nat (length b - h)) True (of_nat (p_bytes st)) = Some am"
      and st': "p_am st' = am" "p_sm st' = p_sm st" "p_snd st' = a" "p_bytes st' = p_bytes st + (length b - h)"
      using assms False unfolding table_sound_def Some p Let_def option.case prod.case
      by (auto simp: times_keep split: option.split_asm)
    then show ?thesis using False entries_add [OF am] by (auto simp: table_step_def progress_of_def Some p same_sound_eq times_keep)
  qed
qed

lemma table_unit_step: "table_unit mem u st = Some st' \<Longrightarrow> table_step u st st'"
  using table_picture_step table_sound_step by (cases u) (auto simp: table_unit_def split: if_splits)


section \<open>The two passes agree\<close>

fun table_units :: "(nat \<Rightarrow> nat \<Rightarrow> bool) \<Rightarrow> nat \<Rightarrow> unit_read list \<Rightarrow> pass1 \<Rightarrow> pass1 option" where
  "table_units mem k [] st = Some st"
| "table_units mem k (u # us) st = (case table_unit (mem k) u st of None \<Rightarrow> None | Some st1 \<Rightarrow> table_units mem (k + 1) us st1)"

lemma entries_Cons:
  "picture_entries off (i # is) = picture_entries off [i] @ picture_entries (off + length (item_bytes i)) is"
  "sound_entries off (i # is) = sound_entries off [i] @ sound_entries (off + length (item_bytes i)) is"
  by (cases i; simp)+

definition item_sound :: "mp4_item \<Rightarrow> sound option" where
  "item_sound i = (case i of Picture _ _ \<Rightarrow> None | Sound _ a \<Rightarrow> Some a)"

lemma unit_item_sound: "unit_item p u = Some i \<Longrightarrow> item_sound i = Some a \<Longrightarrow> snd p = None \<or> snd p = Some a"
  by (cases "(p, u)" rule: unit_item.cases) (auto simp: item_sound_def Let_def split: option.splits if_splits)

text \<open>What the tables say after pass one.\<close>

lemma table_units_entries:
  assumes "table_units mem k us st = Some st'"
  shows "entries (p_sm st') = entries (p_sm st) @ picture_entries (p_bytes st) (mp4_items (progress_of st) us)"
    and "entries (p_am st') = entries (p_am st) @ sound_entries (p_bytes st) (mp4_items (progress_of st) us)"
    and "p_bytes st' = p_bytes st + length (concat (map item_bytes (mp4_items (progress_of st) us)))"
    and "snd (progress_of st) = None \<or> snd (progress_of st) = snd (progress_of st')"
    and "i \<in> set (mp4_items (progress_of st) us) \<Longrightarrow> item_sound i = Some a \<Longrightarrow> snd (progress_of st') = Some a"
  using assms
proof (induction us arbitrary: k st)
  case (Cons u us)
  {
    case 1
    then obtain st1 where st1: "table_unit (mem k) u st = Some st1" "table_units mem (k + 1) us st1 = Some st'" by (auto split: option.split_asm)
    show ?case using table_unit_step [OF st1(1)] Cons(1) [OF st1(2)] entries_Cons(1) [of "p_bytes st" _ "mp4_items (progress_of st1) us"]
      by (cases "unit_item (progress_of st) u") (simp_all add: table_step_def)
  next
    case 2
    then obtain st1 where st1: "table_unit (mem k) u st = Some st1" "table_units mem (k + 1) us st1 = Some st'" by (auto split: option.split_asm)
    show ?case using table_unit_step [OF st1(1)] Cons(2) [OF st1(2)] entries_Cons(2) [of "p_bytes st" _ "mp4_items (progress_of st1) us"]
      by (cases "unit_item (progress_of st) u") (simp_all add: table_step_def)
  next
    case 3
    then obtain st1 where st1: "table_unit (mem k) u st = Some st1" "table_units mem (k + 1) us st1 = Some st'" by (auto split: option.split_asm)
    show ?case using table_unit_step [OF st1(1)] Cons(3) [OF st1(2)]
      by (cases "unit_item (progress_of st) u") (simp_all add: table_step_def)
  next
    case 4
    then obtain st1 where st1: "table_unit (mem k) u st = Some st1" "table_units mem (k + 1) us st1 = Some st'" by (auto split: option.split_asm)
    have "snd (progress_of st) = None \<or> snd (progress_of st1) = snd (progress_of st)"
    proof (cases "unit_item (progress_of st) u")
      case None
      then show ?thesis using table_unit_step [OF st1(1)] by (simp add: table_step_def)
    next
      case (Some j)
      then have "progress_of st1 = after_item j (progress_of st)" using table_unit_step [OF st1(1)] by (simp add: table_step_def)
      then show ?thesis using unit_item_sound [OF Some] by (cases j) (auto simp: item_sound_def)
    qed
    then show ?case using Cons(4) [OF st1(2)] by auto
  next
    case 5
    then obtain st1 where st1: "table_unit (mem k) u st = Some st1" "table_units mem (k + 1) us st1 = Some st'" by (auto split: option.split_asm)
    show ?case
    proof (cases "unit_item (progress_of st) u")
      case None
      then show ?thesis using 5 table_unit_step [OF st1(1)] Cons(5) [OF _ _ st1(2)] by (simp add: table_step_def)
    next
      case (Some j)
      then have p: "progress_of st1 = after_item j (progress_of st)" using table_unit_step [OF st1(1)] by (simp add: table_step_def)
      show ?thesis
      proof (cases "i = j")
        case True
        then have "snd (progress_of st1) = Some a" using 5(2) p by (cases j) (simp_all add: item_sound_def)
        then show ?thesis using Cons(4) [OF st1(2)] by simp
      next
        case False
        then show ?thesis using 5 Some p Cons(5) [OF _ _ st1(2)] by simp
      qed
    qed
  }
qed simp_all

text \<open>Between two units in pass two: what is left of the tables is what the samples still to come make.\<close>

definition in_step :: "pass1 \<Rightarrow> pass2 \<Rightarrow> nat \<Rightarrow> progress \<Rightarrow> mp4_item list \<Rightarrow> bool" where
  "in_step t st off p is \<longleftrightarrow>
     drop (w_written st) (entries (p_sm t)) = picture_entries off is \<and> drop (w_audio st) (entries (p_am t)) = sound_entries off is \<and>
     w_written st \<le> length (sm_list (p_sm t)) \<and> w_audio st \<le> length (sm_list (p_am t)) \<and>
     w_started st = fst p \<and> (snd p = None \<or> snd p = Some (p_snd t)) \<and> (\<forall>i \<in> set is. \<forall>a. item_sound i = Some a \<longrightarrow> a = p_snd t)"

lemma drop_head: "drop n xs = y # ys \<Longrightarrow> n < length xs \<and> xs ! n = y \<and> drop (Suc n) xs = ys"
  by (metis Cons_nth_drop_Suc drop_all linorder_not_le list.distinct(1) list.inject)

lemma no_entries: "picture_entries off is = [] \<Longrightarrow> sound_entries off is = [] \<Longrightarrow> is = []"
  by (cases "(off, is)" rule: picture_entries.cases) auto

lemma write_unit_step:
  assumes "in_step t st off p (mp4_items p (u # us))"
  shows "case unit_item p u of
      None \<Rightarrow> write_unit mem (\<lambda>_ _. True) t u st = Some st \<and> in_step t st off p (mp4_items p us)
    | Some i \<Rightarrow> \<exists>st1. write_unit mem (\<lambda>_ _. True) t u st = Some st1 \<and> w_out st1 = w_out st @ item_bytes i \<and>
        in_step t st1 (off + length (item_bytes i)) (after_item i p) (mp4_items (after_item i p) us)"
proof -
  obtain started so where p: "p = (started, so)" by fastforce
  obtain b tm audio where u: "u = (b, tm, audio)" by (metis prod_cases3)
  let ?ns = "each_nal b" and ?probe = "foldl (scan_nal mem) (scan_start t) (each_nal b)"
  have probe: "sc_size ?probe = length (prefixed (kept ?ns))" "sc_idr ?probe = has_idr ?ns"
    by (simp_all add: scan_size scan_idr scan_start_def)
  show ?thesis
  proof (cases "unit_item p u")
    case None
    have "write_unit mem (\<lambda>_ _. True) t u st = Some st"
      using None assms probe by (auto simp: write_unit_def write_sound_def write_picture_def in_step_def p u same_sound_eq Let_def split: option.splits if_splits bool.splits)
    then show ?thesis using None assms by simp
  next
    case (Some i)
    have s: "in_step t st off p (i # mp4_items (after_item i p) us)" using assms Some by simp
    show ?thesis
    proof (cases i)
      case (Picture body idr)
      then have b: "\<not> audio" "body = prefixed (kept ?ns)" "body \<noteq> []" "started \<or> has_idr ?ns"
        using Some by (cases audio; auto simp: p u Let_def split: option.splits if_splits)+
      have d: "w_written st < length (sm_list (p_sm t))" "drop (Suc (w_written st)) (entries (p_sm t)) = picture_entries (off + length body) (mp4_items (after_item i p) us)"
        using s drop_head [of "w_written st" "entries (p_sm t)"] by (auto simp: in_step_def Picture entries_def)
      have "write_unit mem (\<lambda>_ _. True) t u st = Some (st\<lparr>w_started := True, w_out := w_out st @ body, w_written := w_written st + 1\<rparr>)"
        using b d(1) probe s by (auto simp: write_unit_def write_picture_def u p in_step_def write_all Let_def)
      then show ?thesis using Some s d by (auto simp: in_step_def Picture p)
    next
      case (Sound body a)
      then obtain h where b: "audio" "sound_parse b = Some (h, a)" "body = drop h b" "started"
        using Some by (cases audio; auto simp: p u Let_def split: option.splits if_splits prod.splits)
      have a: "a = p_snd t" using s by (auto simp: in_step_def Sound item_sound_def)
      have d: "w_audio st < length (sm_list (p_am t))" "entries (p_am t) ! w_audio st = (of_nat (length body), True, ucast (of_nat off :: u64))"
          "drop (Suc (w_audio st)) (entries (p_am t)) = sound_entries (off + length body) (mp4_items (after_item i p) us)"
        using s drop_head [of "w_audio st" "entries (p_am t)"] by (auto simp: in_step_def Sound entries_def)
      have "sa_size (sm_list (p_am t) ! w_audio st) = of_nat (length body)" using d(1,2) by (simp add: entries_def entry_of_def)
      then have "write_unit mem (\<lambda>_ _. True) t u st = Some (st\<lparr>w_out := w_out st @ body, w_audio := w_audio st + 1\<rparr>)"
        using b d(1) s a by (simp add: write_unit_def write_sound_def u p in_step_def io_write_def same_sound_eq)
      then show ?thesis using Some s d by (auto simp: in_step_def Sound p item_sound_def)
    qed
  qed
qed

lemma pass_two_units:
  assumes "reads (\<lambda>_. True) rd us" and "in_step t st off p (mp4_items p us)"
  shows "\<exists>st'. pass_two (\<lambda>_ _. True) k (\<lambda>_ _. True) t rd st = Some st' \<and> w_written st' = length (sm_list (p_sm t)) \<and>
    w_audio st' = length (sm_list (p_am t)) \<and> w_out st' = w_out st @ concat (map item_bytes (mp4_items p us))"
  using assms
proof (induction arbitrary: k st off p rule: reads.induct)
  case (reads_end r r')
  then show ?case by (subst pass_two.simps) (simp add: in_step_def entries_def)
next
  case (reads_unit r r' us)
  let ?u = "read_unit (rd_ready r')"
  show ?case
  proof (cases "w_written st < length (sm_list (p_sm t)) \<or> w_audio st < length (sm_list (p_am t))")
    case False
    then have "picture_entries off (mp4_items p (?u # us)) = []" "sound_entries off (mp4_items p (?u # us)) = []"
      using reads_unit.prems by (simp_all add: in_step_def entries_def del: mp4_items.simps)
    then have "mp4_items p (?u # us) = []" by (rule no_entries)
    then show ?thesis using False reads_unit.hyps(1) reads_unit.prems by (subst pass_two.simps) (simp add: in_step_def del: mp4_items.simps)
  next
    case True
    then have go: "pass_two (\<lambda>_ _. True) k (\<lambda>_ _. True) t r st =
        (case write_unit (\<lambda>_. True) (\<lambda>_ _. True) t ?u st of None \<Rightarrow> None | Some st1 \<Rightarrow> pass_two (\<lambda>_ _. True) (k + 1) (\<lambda>_ _. True) t r' st1)"
      using reads_unit.hyps(1) by (subst pass_two.simps) simp
    show ?thesis
    proof (cases "unit_item p ?u")
      case None
      then have w: "write_unit (\<lambda>_. True) (\<lambda>_ _. True) t ?u st = Some st" "in_step t st off p (mp4_items p us)"
        using write_unit_step [OF reads_unit.prems, of "\<lambda>_. True"] by simp_all
      show ?thesis using reads_unit.IH [OF w(2)] go w(1) None by simp
    next
      case (Some i)
      then obtain st1 where st1: "write_unit (\<lambda>_. True) (\<lambda>_ _. True) t ?u st = Some st1" "w_out st1 = w_out st @ item_bytes i"
          "in_step t st1 (off + length (item_bytes i)) (after_item i p) (mp4_items (after_item i p) us)"
        using write_unit_step [OF reads_unit.prems, of "\<lambda>_. True"] by auto
      show ?thesis using reads_unit.IH [OF st1(3)] go st1(1,2) Some by simp
    qed
  qed
qed

text \<open>A reader answers 1, 0 or -1, so a pass one that gave tables has read the units to the end.\<close>

lemma au_packet_answers: "au_packet mem r = (Some c, r') \<Longrightarrow> c = 1 \<or> c = -1"
  unfolding au_packet_def video_more_def video_start_def audio_packet_def audio_more_def Let_def
  by (auto split: if_split_asm option.split_asm prod.split_asm)

lemma next_au_answers: "next_au mem r = (c, r') \<Longrightarrow> c = 1 \<or> c = 0 \<or> c = -1"
proof (induction mem r rule: next_au.induct)
  case (1 mem r)
  consider "rd_replay r" | "\<not> rd_replay r" "rd_eof r \<or> \<not> fst (read_packet r)" | "\<not> rd_replay r" "\<not> rd_eof r" "fst (read_packet r)" by blast
  then show ?case
  proof cases
    case 1
    obtain x r1 where p: "au_packet mem (r\<lparr>rd_replay := False\<rparr>) = (x, r1)" by fastforce
    show ?thesis using "1.prems" "1.IH"(1) [OF 1 p [symmetric]] 1 p
      by (subst (asm) next_au.simps) (auto split: option.split_asm dest: au_packet_answers)
  next
    case 2
    then show ?thesis using "1.prems" by (subst (asm) next_au.simps) (auto simp: at_end_def Let_def split: prod.split_asm bool.split_asm if_split_asm)
  next
    case 3
    obtain r0 where rd: "read_packet r = (True, r0)" using 3(3) by (cases "read_packet r") auto
    obtain x r1 where p: "au_packet mem r0 = (x, r1)" by fastforce
    show ?thesis using "1.prems" "1.IH"(2) [OF 3(1,2), of True r0 x r1] 3 rd p
      by (subst (asm) next_au.simps) (auto split: option.split_asm dest: au_packet_answers)
  qed
qed

text \<open>With memory for every size the reader does not stop.\<close>

lemma append_memory: "\<forall>n. mem n \<Longrightarrow> au_append mem p a = None \<longleftrightarrow> False"
  by (simp add: au_append_def Let_def)

lemma parts_memory:
  assumes "\<forall>n. mem n"
  shows "fst (video_more mem p at r) \<noteq> Some (-1)" "fst (video_start mem p at r) \<noteq> Some (-1)" "fst (audio_more mem p at r) \<noteq> -1"
  by (auto simp: video_more_def video_start_def audio_more_def append_memory [OF assms] Let_def split: option.split)

lemma audio_packet_memory: "\<forall>n. mem n \<Longrightarrow> fst (audio_packet mem p at r) \<noteq> -1"
  using parts_memory(3) by (auto simp: audio_packet_def split: prod.split)

lemma au_packet_memory: "\<forall>n. mem n \<Longrightarrow> fst (au_packet mem r) \<noteq> Some (-1)"
  using parts_memory(1,2) [of mem] audio_packet_memory [of mem] unfolding au_packet_def Let_def
  by (simp add: case_prod_beta)

lemma next_au_memory: "\<forall>n. mem n \<Longrightarrow> fst (next_au mem r) \<noteq> -1"
proof (induction mem r rule: next_au.induct)
  case (1 mem r)
  have p: "fst (case au_packet mem q of (Some c, r1) \<Rightarrow> (c, r1) | (None, r1) \<Rightarrow> next_au mem r1) \<noteq> -1"
    if "\<And>r1. au_packet mem q = (None, r1) \<Longrightarrow> fst (next_au mem r1) \<noteq> -1" for q
    using au_packet_memory [OF 1(3), of q] that by (auto split: prod.split option.split)
  have e: "fst (at_end q) \<noteq> -1" for q by (simp add: at_end_def Let_def)
  show ?case
  proof (cases "rd_replay r")
    case True
    have "fst (next_au mem r1) \<noteq> -1" if "au_packet mem (r\<lparr>rd_replay := False\<rparr>) = (None, r1)" for r1
      using 1(1) [OF True _ refl 1(3), of r1] that by simp
    then show ?thesis using p [of "r\<lparr>rd_replay := False\<rparr>"] True by (subst next_au.simps) simp
  next
    case False
    show ?thesis
    proof (cases "rd_eof r \<or> \<not> fst (read_packet r)")
      case True
      then show ?thesis using e False by (subst next_au.simps) (auto split: prod.split bool.split)
    next
      case f: False
      then obtain r0 where rd: "read_packet r = (True, r0)" by (cases "read_packet r") auto
      have "fst (next_au mem r1) \<noteq> -1" if "au_packet mem r0 = (None, r1)" for r1
        using 1(2) [OF False _ _ _ _ _ 1(3), of True r0 None r1] f rd that by simp
      then show ?thesis using p [of r0] False f rd by (subst next_au.simps) simp
    qed
  qed
qed

text \<open>Memory that was given makes no difference to what is read.\<close>

lemma au_append_plenty: "au_append mem p a = None \<or> au_append (\<lambda>_. True) p a = au_append mem p a"
  unfolding au_append_def Let_def by (simp split: if_split)

lemma video_more_plenty: "fst (video_more mem p at r) = Some (-1) \<or> video_more (\<lambda>_. True) p at r = video_more mem p at r"
  using au_append_plenty [of mem "drop at p" "rd_cur r"] by (auto simp: video_more_def)

lemma video_start_plenty: "fst (video_start mem p at r) = Some (-1) \<or> video_start (\<lambda>_. True) p at r = video_start mem p at r"
proof -
  let ?h = "drop at p" let ?r = "if rd_open r then hand_out_cur r else r"
  let ?pts = "if ?h ! 7 AND 0x80 \<noteq> 0 then pes_pts ?h else 0" and ?pay = "at + 9 + unat (?h ! 8)"
  show ?thesis
    using au_append_plenty [of mem "drop ?pay p" "(rd_cur ?r)\<lparr>au_pts := ?pts, au_audio := False\<rparr>"]
  proof
    assume "au_append mem (drop ?pay p) ((rd_cur ?r)\<lparr>au_pts := ?pts, au_audio := False\<rparr>) = None"
    then show ?thesis unfolding video_start_def Let_def by simp
  next
    assume "au_append (\<lambda>_. True) (drop ?pay p) ((rd_cur ?r)\<lparr>au_pts := ?pts, au_audio := False\<rparr>) =
      au_append mem (drop ?pay p) ((rd_cur ?r)\<lparr>au_pts := ?pts, au_audio := False\<rparr>)"
    then show ?thesis unfolding video_start_def Let_def by simp
  qed
qed

lemma audio_plenty: "fst (audio_more mem p at r) = -1 \<or> audio_more (\<lambda>_. True) p at r = audio_more mem p at r"
proof -
  let ?room = "rd_awant r - length (au_bytes (rd_acur r))"
  let ?x = "segment p at (if 188 - at > ?room then ?room else 188 - at)"
  show ?thesis
    using au_append_plenty [of mem ?x "rd_acur r"]
  proof
    assume "au_append mem ?x (rd_acur r) = None"
    then show ?thesis unfolding audio_more_def Let_def by simp
  next
    assume "au_append (\<lambda>_. True) ?x (rd_acur r) = au_append mem ?x (rd_acur r)"
    then show ?thesis unfolding audio_more_def Let_def by simp
  qed
qed

lemma audio_packet_plenty: "fst (audio_packet mem p at r) = -1 \<or> audio_packet (\<lambda>_. True) p at r = audio_packet mem p at r"
  using audio_plenty [of mem p] by (auto simp: audio_packet_def split: prod.split)

lemma au_packet_plenty: "fst (au_packet mem r) = Some (-1) \<or> au_packet (\<lambda>_. True) r = au_packet mem r"
proof -
  define p where "p = rd_pkt r"
  define at where "at = (if p ! 3 AND 0x20 \<noteq> 0 then 5 + unat (p ! 4) else 4)"
  define v where "v m = (if \<not> p ! 1 AND 0x40 \<noteq> 0 then video_more m p at r else video_start m p at r)" for m
  have v: "fst (v mem) = Some (-1) \<or> v (\<lambda>_. True) = v mem"
    using video_more_plenty [of mem p at r] video_start_plenty [of mem p at r] by (simp add: v_def)
  have a: "fst (audio_packet mem p at r) = -1 \<or> audio_packet (\<lambda>_. True) p at r = audio_packet mem p at r"
    by (rule audio_packet_plenty)
  obtain skip video ends and res :: "int option \<times> ts_reader" where e: "au_packet m r =
      (if skip then (None, r) else if video then v m else if ends then res
       else (case audio_packet m p at r of (a, r1) \<Rightarrow> (if a \<noteq> 0 then Some a else None, r1)))" for m
  proof
    let ?pid = "be16 (p ! 1 AND 0x1f) (p ! 2)" let ?af = "p ! 3 AND 0x20 \<noteq> 0"
    show "au_packet m r =
      (if (?pid \<noteq> PID_VIDEO \<and> ?pid \<noteq> PID_AUDIO) \<or> p ! 3 AND 0x10 = 0 \<or> ?af \<and> at \<ge> 188 then (None, r)
       else if ?pid \<noteq> PID_AUDIO then v m
       else if p ! 1 AND 0x40 \<noteq> 0 \<and> rd_open r then (Some 1, (hand_out_cur (r\<lparr>rd_open := False\<rparr>))\<lparr>rd_replay := True\<rparr>)
       else (case audio_packet m p at r of (a, r1) \<Rightarrow> (if a \<noteq> 0 then Some a else None, r1)))" for m
      unfolding au_packet_def Let_def p_def [symmetric] at_def [symmetric] v_def by presburger
  qed
  show ?thesis unfolding e using v a by (cases skip; cases video; cases ends) (auto simp: case_prod_beta)
qed

lemma next_au_plenty: "fst (next_au mem r) \<noteq> -1 \<Longrightarrow> next_au (\<lambda>_. True) r = next_au mem r"
proof (induction mem r rule: next_au.induct)
  case (1 mem r)
  have p: "(case au_packet (\<lambda>_. True) q of (Some c, r1) \<Rightarrow> (c, r1) | (None, r1) \<Rightarrow> next_au (\<lambda>_. True) r1) =
      (case au_packet mem q of (Some c, r1) \<Rightarrow> (c, r1) | (None, r1) \<Rightarrow> next_au mem r1)"
    if "\<And>r1. au_packet mem q = (None, r1) \<Longrightarrow> next_au (\<lambda>_. True) r1 = next_au mem r1"
      and "fst (case au_packet mem q of (Some c, r1) \<Rightarrow> (c, r1) | (None, r1) \<Rightarrow> next_au mem r1) \<noteq> -1" for q
    using au_packet_plenty [of mem q] that by (auto split: prod.split option.split)
  consider (replay) "rd_replay r" | (over) "\<not> rd_replay r" "rd_eof r \<or> \<not> fst (read_packet r)"
    | (go) r0 where "\<not> rd_replay r" "\<not> rd_eof r" "read_packet r = (True, r0)" by (metis eq_fst_iff)
  then show ?case
  proof cases
    case replay
    have n: "next_au mem' r = (case au_packet mem' (r\<lparr>rd_replay := False\<rparr>) of (Some c, r1) \<Rightarrow> (c, r1) | (None, r1) \<Rightarrow> next_au mem' r1)" for mem'
      using replay by (subst next_au.simps) simp
    have "next_au (\<lambda>_. True) r1 = next_au mem r1" if "au_packet mem (r\<lparr>rd_replay := False\<rparr>) = (None, r1)" for r1
      using 1(1) [OF replay that [symmetric] refl] 1(3) n that by simp
    then show ?thesis using p 1(3) unfolding n by blast
  next
    case over
    then show ?thesis by (subst (1 2) next_au.simps) (auto split: prod.split bool.split)
  next
    case go
    have n: "next_au mem' r = (case au_packet mem' r0 of (Some c, r1) \<Rightarrow> (c, r1) | (None, r1) \<Rightarrow> next_au mem' r1)" for mem'
      using go by (subst next_au.simps) simp
    have "next_au (\<lambda>_. True) r1 = next_au mem r1" if "au_packet mem r0 = (None, r1)" for r1
      using 1(2) [OF go(1,2) go(3) [symmetric] refl that [symmetric] refl] 1(3) n that by simp
    then show ?thesis using p 1(3) unfolding n by blast
  qed
qed

lemma pass_one_reads: "pass_one mem k rd st = Some t \<Longrightarrow> \<exists>us. reads (\<lambda>_. True) rd us \<and> table_units mem k us st = Some t"
proof (induction mem k rd st rule: pass_one.induct)
  case (1 mem k rd st)
  obtain got rd1 where n: "next_au (mem k) rd = (got, rd1)" by fastforce
  show ?case
  proof (cases "got = 1")
    case True
    obtain st1 where st1: "table_unit (mem k) (read_unit (rd_ready rd1)) st = Some st1" "pass_one mem (k + 1) rd1 st1 = Some t"
      using "1.prems" True n by (subst (asm) pass_one.simps) (auto split: option.split_asm)
    obtain us where "reads (\<lambda>_. True) rd1 us" "table_units mem (k + 1) us st1 = Some t"
      using "1.IH" [OF n [symmetric] True st1] by blast
    moreover have "next_au (\<lambda>_. True) rd = (1, rd1)" using next_au_plenty [of "mem k" rd] n True by simp
    ultimately show ?thesis using reads_unit st1(1) by (intro exI [of _ "read_unit (rd_ready rd1) # us"]) simp
  next
    case False
    then have "got = 0" "t = st" using "1.prems" n next_au_answers [OF n] by (subst (asm) pass_one.simps, auto)+
    moreover from this have "next_au (\<lambda>_. True) rd = (0, rd1)" using next_au_plenty [of "mem k" rd] n by simp
    ultimately show ?thesis using reads_end by (intro exI [of _ "[]"]) simp
  qed
qed

text \<open>A pass two that is refused memory stops before its last sample; otherwise it is the one with all memory.\<close>

lemma write_unit_memory: "write_unit mem wr t u st = write_unit mem' wr t u st"
  by (cases u) (simp add: write_unit_def write_picture_def scan_size scan_idr)

lemma pass_two_memory:
  "pass_two mem k wr t rd st = pass_two (\<lambda>_ _. True) j wr t rd st \<or>
   (\<exists>k n. \<not> mem k n) \<and> (\<exists>st'. pass_two mem k wr t rd st = Some st' \<and>
     (w_written st' < length (sm_list (p_sm t)) \<or> w_audio st' < length (sm_list (p_am t))))"
proof (induction mem k wr t rd st arbitrary: j rule: pass_two.induct)
  case (1 mem k wr t rd st)
  obtain got rd1 where n: "next_au (mem k) rd = (got, rd1)" by fastforce
  let ?left = "w_written st < length (sm_list (p_sm t)) \<or> w_audio st < length (sm_list (p_am t))"
  show ?case
  proof (cases "got = -1")
    case True
    have "mem k = (\<lambda>_. True) \<Longrightarrow> False" using next_au_memory [of "mem k" rd] n True by simp
    then have "\<exists>k n. \<not> mem k n" by (metis (full_types) ext)
    then show ?thesis using True n by (cases ?left; subst (1 2 3) pass_two.simps) (auto split: prod.split)
  next
    case False
    then have f: "next_au (\<lambda>_. True) rd = (got, rd1)" using next_au_plenty [of "mem k" rd] n by simp
    show ?thesis
    proof (cases "got = 1 \<and> ?left")
      case True
      let ?u = "read_unit (rd_ready rd1)"
      have e: "pass_two mem k wr t rd st = (case write_unit (mem k) wr t ?u st of None \<Rightarrow> None | Some st1 \<Rightarrow> pass_two mem (k + 1) wr t rd1 st1)"
        "pass_two (\<lambda>_ _. True) j wr t rd st = (case write_unit (mem k) wr t ?u st of None \<Rightarrow> None | Some st1 \<Rightarrow> pass_two (\<lambda>_ _. True) (j + 1) wr t rd1 st1)"
        using n f True write_unit_memory [of "\<lambda>_. True" wr t ?u st "mem k"] by (subst pass_two.simps, simp)+
      show ?thesis
      proof (cases "write_unit (mem k) wr t ?u st")
        case (Some st1)
        show ?thesis unfolding e Some option.case by (rule "1.IH" [OF n [symmetric] True Some])
      qed (simp add: e)
    next
      case False
      then show ?thesis using n f by (subst (1 2) pass_two.simps) auto
    qed
  qed
qed

text \<open>The sample an entry names in the bytes after the header.\<close>

definition sample_at :: "bytes \<Rightarrow> entry \<Rightarrow> bytes" where
  "sample_at data e = (case e of (n, _, off) \<Rightarrow> segment data (unat off) (unat n))"

fun is_picture :: "mp4_item \<Rightarrow> bool" where
  "is_picture (Picture b idr) = True"
| "is_picture (Sound b a) = False"

lemma unat_short: "n < 2 ^ 32 \<Longrightarrow> unat (of_nat n :: u32) = n" "n < 2 ^ 32 \<Longrightarrow> unat (ucast (of_nat n :: u64) :: u32) = n"
  by (simp_all add: unsigned_of_nat take_bit_nat_eq_self unsigned_ucast_eq)

lemma entries_address:
  assumes "length (pre @ concat (map item_bytes is)) < 2 ^ 32" and "data = pre @ concat (map item_bytes is) @ post"
  shows "map (sample_at data) (picture_entries (length pre) is) = map item_bytes (filter is_picture is)"
    and "map (sample_at data) (sound_entries (length pre) is) = map item_bytes (filter (\<lambda>i. \<not> is_picture i) is)"
  using assms
proof (induction "is" arbitrary: pre)
  case (Cons i "is")
  let ?b = "item_bytes i"
  have here: "sample_at data (of_nat (length ?b), k, ucast (of_nat (length pre) :: u64)) = ?b"
    if "length (pre @ concat (map item_bytes (i # is))) < 2 ^ 32" "data = pre @ concat (map item_bytes (i # is)) @ post" for k pre
    using that by (simp add: sample_at_def unat_short segment_def)
  {
    case 1
    then show ?case using here [OF 1] Cons(1) [of "pre @ ?b"] by (cases i) auto
  next
    case 2
    then show ?case using here [OF 2] Cons(2) [of "pre @ ?b"] by (cases i) auto
  }
qed simp_all

definition pass2_start :: pass2 where
  "pass2_start = \<lparr>w_written = 0, w_audio = 0, w_started = False, w_out = []\<rparr>"

text \<open>
  The two passes of a conversion agree. Whatever the file is: when the first has made its tables and they fit 32
  bits, the second, reading the file again with memory and nothing in the way of its writes, finds every sample of both
  tables, writes as many bytes as were counted, and each entry of a table is where its sample is - of the k-th picture
  the units that are kept, each behind its length, of the k-th sound frame what follows its header.
\<close>

theorem passes_agree:
  assumes "pass_one mem 0 (ts_reader_start file) pass1_start = Some t" and "p_bytes t < 2 ^ 32"
  shows "\<exists>us w. reads (\<lambda>_. True) (ts_reader_start file) us \<and>
    pass_two (\<lambda>_ _. True) 0 (\<lambda>_ _. True) t (ts_reader_start file) pass2_start = Some w \<and>
    w_written w = length (sm_list (p_sm t)) \<and> w_audio w = length (sm_list (p_am t)) \<and> length (w_out w) = p_bytes t \<and>
    map (sample_at (w_out w)) (entries (p_sm t)) = map item_bytes (filter is_picture (mp4_items (False, None) us)) \<and>
    map (sample_at (w_out w)) (entries (p_am t)) = map item_bytes (filter (\<lambda>i. \<not> is_picture i) (mp4_items (False, None) us))"
proof -
  obtain us where us: "reads (\<lambda>_. True) (ts_reader_start file) us" "table_units mem 0 us pass1_start = Some t"
    using pass_one_reads [OF assms(1)] by blast
  let ?is = "mp4_items (False, None) us"
  have start: "progress_of pass1_start = (False, None)" "entries (p_sm pass1_start) = []" "entries (p_am pass1_start) = []" "p_bytes pass1_start = 0"
    by (simp_all add: progress_of_def pass1_start_def no_samples_def entries_def)
  note tab = table_units_entries [OF us(2), unfolded start, simplified]
  have snd: "a = p_snd t" if "i \<in> set ?is" "item_sound i = Some a" for i a
    using tab(5) [OF that] by (simp add: progress_of_def split: if_splits)
  have "in_step t pass2_start 0 (False, None) ?is" using tab(1,2) snd by (simp add: in_step_def pass2_start_def)
  from pass_two_units [OF us(1) this, of 0] obtain w where w:
    "pass_two (\<lambda>_ _. True) 0 (\<lambda>_ _. True) t (ts_reader_start file) pass2_start = Some w" "w_written w = length (sm_list (p_sm t))"
    "w_audio w = length (sm_list (p_am t))" "w_out w = concat (map item_bytes ?is)" by (auto simp: pass2_start_def)
  have "length (concat (map item_bytes ?is)) < 2 ^ 32" using tab(3) assms(2) by simp
  then show ?thesis using us(1) w tab(1-3) entries_address [of "[]" ?is "w_out w" "[]"] by (intro exI [of _ us] exI [of _ w]) simp
qed


section \<open>The samples of a recording\<close>

definition nal_ok :: "bytes \<Rightarrow> bool" where
  "nal_ok n \<longleftrightarrow> no_code n \<and> n \<noteq> [] \<and> last n \<noteq> 0"

lemma nal_from_skip:
  "\<not> (b ! i = 0 \<and> b ! (i + 1) = 0 \<and> b ! (i + 2) = 1) \<Longrightarrow> i + 3 \<le> length b \<Longrightarrow> nal_from b i start = nal_from b (i + 1) start"
  by (subst nal_from.simps) auto

lemma no_code_head: "no_code n \<Longrightarrow> 3 \<le> length n \<Longrightarrow> \<not> (n ! 0 = 0 \<and> n ! 1 = 0 \<and> n ! 2 = 1)"
  by (cases n rule: no_code.cases) auto

text \<open>The scan passes over a unit up to the start code behind it, and to the end behind the last.\<close>

lemma nal_from_unit:
  assumes "nal_ok n" and "r ! 0 = 0" and "r ! 1 = 0" and "2 \<le> length r"
  shows "nal_from (pre @ n @ r) (length pre) (Some s) = nal_from (pre @ n @ r) (length pre + length n) (Some s)"
  using assms(1)
proof (induction n arbitrary: pre)
  case (Cons x n)
  let ?b = "pre @ (x # n) @ r"
  have no: "\<not> (?b ! length pre = 0 \<and> ?b ! (length pre + 1) = 0 \<and> ?b ! (length pre + 2) = 1)"
  proof (cases "length n \<ge> 2")
    case True
    then have "?b ! (length pre + k) = (x # n) ! k" if "k < 3" for k using that nth_append [of "x # n" r k] by (simp add: nth_append)
    from this [of 0] this [of 1] this [of 2] show ?thesis using no_code_head [of "x # n"] Cons.prems True by (simp add: nal_ok_def)
  next
    case False
    then consider "n = []" | y where "n = [y]" by (cases n) (auto simp: not_le Suc_le_eq)
    then show ?thesis using Cons.prems assms(2,3) by cases (auto simp: nal_ok_def nth_append)
  qed
  have le: "length pre + 3 \<le> length ?b" using assms(4) by simp
  have go: "nal_from ?b (length pre) (Some s) = nal_from ?b (length pre + 1) (Some s)"
    by (rule nal_from_skip [OF no le])
  show ?case
  proof (cases "n = []")
    case True
    then show ?thesis using go by simp
  next
    case False
    then have "nal_ok n" using Cons.prems no_code_tl [of x n] by (simp add: nal_ok_def)
    then show ?thesis using Cons.IH [of "pre @ [x]"] go by simp
  qed
qed simp

lemma nal_from_end:
  "no_code n \<Longrightarrow> nal_from (pre @ n) (length pre) (Some s) = (if s < length (pre @ n) then [drop s (pre @ n)] else [])"
proof (induction n arbitrary: pre)
  case (Cons x n)
  show ?case
  proof (cases "2 \<le> length n")
    case True
    then have "\<not> ((pre @ x # n) ! length pre = 0 \<and> (pre @ x # n) ! (length pre + 1) = 0 \<and> (pre @ x # n) ! (length pre + 2) = 1)"
      using no_code_head [of "x # n"] Cons.prems by (simp add: nth_append)
    then have "nal_from (pre @ x # n) (length pre) (Some s) = nal_from (pre @ x # n) (length pre + 1) (Some s)"
      by (rule nal_from_skip) (use True in simp)
    then show ?thesis using Cons.IH [of "pre @ [x]"] no_code_tl [OF Cons.prems] by simp
  next
    case False
    then show ?thesis by (subst nal_from.simps) simp
  qed
qed (subst nal_from.simps, simp)

lemma nal_from_code:
  assumes "case start of None \<Rightarrow> True | Some s \<Rightarrow> s < length pre \<and> last pre \<noteq> 0"
  shows "nal_from (pre @ start_code long @ r) (length pre) start =
     (case start of None \<Rightarrow> [] | Some s \<Rightarrow> [drop s pre]) @
     nal_from (pre @ start_code long @ r) (length (pre @ start_code long)) (Some (length (pre @ start_code long)))"
proof -
  have l: "pre ! (length pre - 1) \<noteq> 0" if "start = Some s" for s using assms that last_conv_nth [of pre] by fastforce
  have s: "segment (pre @ z) s (length pre - s) = drop s pre" if "start = Some s" for s z
    using assms that by (simp add: segment_def)
  show ?thesis
  proof (cases long)
    case False
    then show ?thesis using l s assms by (subst nal_from.simps) (auto simp: start_code_def nth_append numeral_3_eq_3 split: option.split)
  next
    case True
    have "nal_from (pre @ start_code long @ r) (length pre) start = nal_from (pre @ start_code long @ r) (length pre + 1) start"
      by (rule nal_from_skip) (use True in \<open>simp_all add: start_code_def nth_append\<close>)
    also have "\<dots> = (case start of None \<Rightarrow> [] | Some s \<Rightarrow> [drop s pre]) @
        nal_from (pre @ start_code long @ r) (length (pre @ start_code long)) (Some (length (pre @ start_code long)))"
      using True s assms by (subst nal_from.simps) (auto simp: start_code_def nth_append numeral_eq_Suc split: option.split)
    finally show ?thesis .
  qed
qed

lemma nal_from_units:
  assumes "nal_ok n" and "list_all (nal_ok \<circ> snd) us"
  shows "nal_from (pre @ n @ annexb us) (length pre) (Some (length pre)) = n # map snd us"
  using assms
proof (induction us arbitrary: pre n)
  case Nil
  then show ?case by (simp add: nal_from_end annexb_def nal_ok_def)
next
  case (Cons u us)
  obtain long m where u: "u = (long, m)" by fastforce
  let ?r = "start_code long @ m @ annexb us" let ?pre = "(pre @ n) @ start_code long"
  have b: "annexb (u # us) = ?r" by (simp add: annexb_def u)
  have "nal_from (pre @ n @ ?r) (length pre) (Some (length pre)) = nal_from (pre @ n @ ?r) (length pre + length n) (Some (length pre))"
    using Cons.prems(1) by (intro nal_from_unit) (auto simp: start_code_def nth_append)
  also have "\<dots> = [n] @ nal_from ((pre @ n) @ ?r) (length ?pre) (Some (length ?pre))"
    using nal_from_code [where start = "Some (length pre)" and pre = "pre @ n" and long = long and r = "m @ annexb us"] Cons.prems(1) by (auto simp: nal_ok_def)
  also have "nal_from ((pre @ n) @ ?r) (length ?pre) (Some (length ?pre)) = m # map snd us"
    using Cons.IH [of m ?pre] Cons.prems(2) by (simp add: u)
  finally show ?case unfolding b by (simp add: u)
qed

lemma each_nal_annexb: "list_all (nal_ok \<circ> snd) us \<Longrightarrow> each_nal (annexb us) = map snd us"
proof (cases us)
  case Nil
  then show ?thesis by (simp add: each_nal_def annexb_def nal_from.simps)
next
  case (Cons u vs)
  obtain long n where u: "u = (long, n)" by fastforce
  assume "list_all (nal_ok \<circ> snd) us"
  then show ?thesis using nal_from_code [where start = None and pre = "[]" and long = long and r = "n @ annexb vs"] nal_from_units [of n vs "start_code long"]
    by (simp add: each_nal_def Cons u annexb_def)
qed

lemma opus_size_run: "opus_size (pre @ size_run n @ r) (length pre) k = Some (length pre + length (size_run n), k + n)"
proof (induction n arbitrary: pre k rule: size_run.induct)
  case (1 n)
  show ?case
  proof (cases "n < 255")
    case True
    have u: "unat (of_nat n :: u8) = n" using True by (simp add: unsigned_of_nat take_bit_nat_eq_self)
    then have "of_nat n \<noteq> (255 :: u8)" using True by auto
    then show ?thesis using True u by (subst (1 2) size_run.simps, subst opus_size.simps) simp
  next
    case False
    have "opus_size (pre @ size_run n @ r) (length pre) k = opus_size ((pre @ [0xff]) @ size_run (n - 255) @ r) (length (pre @ [0xff])) (k + 255)"
      using False by (subst size_run.simps, subst opus_size.simps) simp
    also have "\<dots> = Some (length (pre @ [0xff]) + length (size_run (n - 255)), k + 255 + (n - 255))" by (rule 1 [OF False])
    also have "\<dots> = Some (length pre + length (size_run n), k + n)" using False by (subst (2) size_run.simps) simp
    finally show ?thesis .
  qed
qed

lemma opus_parse_run:
  assumes "packet \<noteq> []"
  shows "sound_parse ([0x7f, 0xe0] @ size_run (length packet) @ packet) = Some (2 + length (size_run (length packet)), opus_sound)"
proof -
  let ?p = "[0x7f, 0xe0] @ size_run (length packet) @ packet"
  have "opus_size ?p 2 0 = Some (2 + length (size_run (length packet)), length packet)"
    using opus_size_run [of "[0x7f, 0xe0]" "length packet" packet 0] by (simp add: numeral_2_eq_2)
  then show ?thesis using assms by (simp add: sound_parse_def opus_parse_def size_run_length Let_def)
qed

text \<open>A recording of pictures, each a list of NAL units with a start code of either length, and of sound packets.\<close>

datatype rec_call = Pic "(bool \<times> bytes) list" u64 bool | Snd bytes u64

fun to_op :: "rec_call \<Rightarrow> ts_op" where
  "to_op (Pic us pts key) = Frame (annexb us) pts key"
| "to_op (Snd packet pts) = Opus packet pts"

fun call_ok :: "rec_call \<Rightarrow> bool" where
  "call_ok (Pic us pts key) = list_all (nal_ok \<circ> snd) us"
| "call_ok (Snd packet pts) = True"

fun rec_items :: "bool \<Rightarrow> rec_call list \<Rightarrow> mp4_item list" where
  "rec_items started [] = []"
| "rec_items started (Pic us pts key # cs) =
     (let body = prefixed (kept (map snd us)); idr = has_idr (map snd us)
      in if body \<noteq> [] \<and> (started \<or> idr) then Picture body idr # rec_items True cs else rec_items started cs)"
| "rec_items started (Snd packet pts # cs) =
     (if started \<and> packet \<noteq> [] \<and> length packet \<le> 1275 then Sound packet opus_sound # rec_items started cs else rec_items started cs)"

lemma aud_nals: "list_all (nal_ok \<circ> snd) us \<Longrightarrow> each_nal (aud @ annexb us) = [9, 0xf0] # map snd us"
proof -
  assume "list_all (nal_ok \<circ> snd) us"
  then have "list_all (nal_ok \<circ> snd) ((True, [9, 0xf0]) # us)" by (simp add: nal_ok_def)
  then have "each_nal (annexb ((True, [9, 0xf0]) # us)) = map snd ((True, [9, 0xf0]) # us)" by (rule each_nal_annexb)
  then show ?thesis by (simp add: annexb_def aud_def start_code_def)
qed

lemma delimiter_left_out: "kept ([9, 0xf0] # ns) = kept ns" "has_idr ([9, 0xf0] # ns) = has_idr ns"
  by (simp_all add: kept_def has_idr_def keep_nal_def nal_type_def)

lemma recording_items:
  "list_all call_ok cs \<Longrightarrow> so = None \<or> so = Some opus_sound \<Longrightarrow>
   mp4_items (started, so) (concat (map call_units (map to_op cs))) = rec_items started cs"
proof (induction cs arbitrary: started so)
  case (Cons c cs)
  show ?case
  proof (cases c)
    case (Pic us pts key)
    then show ?thesis using Cons aud_nals [of us] by (auto simp: delimiter_left_out Let_def)
  next
    case (Snd packet pts)
    then show ?thesis using Cons.IH [where started = started and so = so] Cons.IH [where started = started and so = "Some opus_sound"] Cons.prems opus_parse_run [of packet]
      by auto
  qed
qed simp

end
