(* ===== verification/Mp4_Boxes.thy ===== *)
theory Mp4_Boxes
  imports Mp4_Samples "HOL-Library.State_Monad"
begin

text \<open>
  kvm_record/ts_to_mp4.c, the index of an MP4: the growing buffer, boxes, and the tables. The calls that write into the
  buffer are a state monad over it, in the order of the code; \<open>in_box t m\<close> is a \<open>box\<close> with its \<open>box_end\<close> around the calls
  between them. What \<open>realloc\<close> gives is a field of the buffer. What each call appends is the relation \<open>writes\<close>, by
  whose rules the index as a whole is read off.
\<close>

section \<open>The buffer\<close>

record mp4_buf =
  hb_b :: bytes
  hb_cap :: nat
  hb_bad :: bool
  hb_mem :: "nat \<Rightarrow> bool"

type_synonym 'a writer = "(mp4_buf, 'a) state"

definition put :: "bytes \<Rightarrow> unit writer" where
  "put p = State (\<lambda>b.
     ((), if hb_bad b then b
          else if length (hb_b b) + length p > hb_cap b
          then let cap = grow_cap (if hb_cap b \<noteq> 0 then hb_cap b * 2 else 4096) (length (hb_b b) + length p)
               in if hb_mem b cap then b\<lparr>hb_b := hb_b b @ p, hb_cap := cap\<rparr> else b\<lparr>hb_bad := True\<rparr>
          else b\<lparr>hb_b := hb_b b @ p\<rparr>))"

definition here :: "nat writer" where
  "here = State (\<lambda>b. (length (hb_b b), b))"

text \<open>Bytes written before are set once they are known.\<close>

definition patch :: "nat \<Rightarrow> (mp4_buf \<Rightarrow> bytes) \<Rightarrow> unit writer" where
  "patch at p = State (\<lambda>b. ((), if hb_bad b then b else b\<lparr>hb_b := blit (hb_b b) at (p b)\<rparr>))"

definition w8 :: "u8 \<Rightarrow> unit writer" where "w8 v = put [v]"
definition w16 :: "u16 \<Rightarrow> unit writer" where "w16 v = put (put16 v)"
definition w32 :: "u32 \<Rightarrow> unit writer" where "w32 v = put (put32 v)"

definition w64 :: "u64 \<Rightarrow> unit writer" where
  "w64 v = do { w32 (ucast (drop_bit 32 v)); w32 (ucast v) }"

primrec zeros :: "nat \<Rightarrow> unit writer" where
  "zeros 0 = State_Monad.return ()"
| "zeros (Suc n) = do { w8 0; zeros n }"

definition ascii :: "string \<Rightarrow> bytes" where
  "ascii s = map of_char s"

definition box :: "string \<Rightarrow> nat writer" where
  "box t = do { at \<leftarrow> here; w32 0; put (ascii t); State_Monad.return at }"

definition box_end :: "nat \<Rightarrow> unit writer" where
  "box_end at = patch at (\<lambda>b. put32 (of_nat (length (hb_b b) - at)))"

definition in_box :: "string \<Rightarrow> 'a writer \<Rightarrow> 'a writer" where
  "in_box t m = do { at \<leftarrow> box t; r \<leftarrow> m; box_end at; State_Monad.return r }"

definition full :: "u8 \<Rightarrow> u32 \<Rightarrow> unit writer" where
  "full version flags = do { w8 version; w8 (ucast (drop_bit 16 flags)); w8 (ucast (drop_bit 8 flags)); w8 (ucast flags) }"

definition add32 :: "nat \<Rightarrow> u32 \<Rightarrow> unit writer" where
  "add32 at n = patch at (\<lambda>b. let p = segment (hb_b b) at 4 in put32 (be32 (p ! 0) (p ! 1) (p ! 2) (p ! 3) + n))"

primrec for_each :: "('a \<Rightarrow> unit writer) \<Rightarrow> 'a list \<Rightarrow> unit writer" where
  "for_each f [] = State_Monad.return ()"
| "for_each f (x # xs) = do { f x; for_each f xs }"

definition matrix :: "unit writer" where
  "matrix = for_each w32 [0x10000, 0, 0, 0, 0x10000, 0, 0, 0, 0x40000000]"

section \<open>Tables\<close>

text \<open>Runs of equal durations.\<close>

function stts_runs :: "u32 list \<Rightarrow> u32 \<Rightarrow> u32 writer" where
  "stts_runs ds runs =
     (case ds of
        [] \<Rightarrow> State_Monad.return runs
      | d # _ \<Rightarrow> let n = length (takeWhile (\<lambda>e. e = d) ds)
                 in do { w32 (of_nat n); w32 d; stts_runs (drop n ds) (runs + 1) })"
  by pat_completeness auto
termination by (relation "measure (\<lambda>(ds, runs). length ds)") auto

declare stts_runs.simps [simp del]

definition stts_box :: "samples \<Rightarrow> unit writer" where
  "stts_box sm = in_box ''stts'' (do {
     full 0 0;
     count_at \<leftarrow> here;
     w32 0;
     runs \<leftarrow> stts_runs (map sa_delta (sm_list sm)) 0;
     patch count_at (\<lambda>_. put32 runs) })"

definition chunks_box :: "samples \<Rightarrow> bool \<Rightarrow> nat writer" where
  "chunks_box sm interleaved = (let count = of_nat (length (sm_list sm)) in do {
     in_box ''stsc'' (do { full 0 0; w32 1; w32 1; w32 (if interleaved then 1 else count); w32 1 });
     in_box ''stsz'' (do { full 0 0; w32 0; w32 count; for_each (\<lambda>s. w32 (sa_size s)) (sm_list sm) });
     in_box ''stco'' (do {
       full 0 0;
       w32 (if interleaved then count else 1);
       at \<leftarrow> here;
       for_each (\<lambda>s. w32 (sa_offset s)) (if interleaved then sm_list sm else take 1 (sm_list sm));
       State_Monad.return at }) })"

definition delay_edit :: "u32 \<Rightarrow> u32 \<Rightarrow> unit writer" where
  "delay_edit delay_ms duration_ms = in_box ''edts'' (in_box ''elst'' (do {
     full 0 0; w32 2; w32 delay_ms; w32 0xffffffff; w32 0x10000; w32 duration_ms; w32 0; w32 0x10000 }))"

definition dinf_box :: "unit writer" where
  "dinf_box = in_box ''dinf'' (in_box ''dref'' (do { full 0 0; w32 1; in_box ''url '' (full 0 1) }))"

definition handler_box :: "string \<Rightarrow> unit writer" where
  "handler_box h = in_box ''hdlr'' (do { full 0 0; w32 0; put (ascii h); zeros 12; put (ascii ''ESP-KVM'' @ [0]) })"

section \<open>The sound track\<close>

definition sound_entry :: "sound \<Rightarrow> unit writer" where
  "sound_entry so = in_box (if so_opus so then ''Opus'' else ''mp4a'') (do {
     zeros 6; w16 1; zeros 8; w16 (ucast (so_channels so)); w16 16; w32 0; w32 (push_bit 16 (so_rate so));
     if so_opus so
     then in_box ''dOps'' (do { w8 0; w8 (so_channels so); w16 312; w32 (so_rate so); w16 0; w8 0 })
     else in_box ''esds'' (do { full 0 0; w8 3; w8 (3 + 2 + 13 + 2 + 2 + 3); w16 2; w8 0; w8 4; w8 (13 + 2 + 2); w8 0x40; w8 0x15;
            w8 0; w16 0x1800; w32 0; w32 0; w8 5; w8 2; put [so_asc0 so, so_asc1 so]; w8 6; w8 1; w8 2 }) })"

definition deltas :: "samples \<Rightarrow> nat" where
  "deltas s = sum_list (map (unat \<circ> sa_delta) (sm_list s))"

definition audio_trak :: "samples \<Rightarrow> sound \<Rightarrow> u32 \<Rightarrow> nat writer" where
  "audio_trak am so delay_ms =
     (let duration = deltas am; duration_ms = of_nat (duration * 1000 div unat (so_rate so)) in in_box ''trak'' (do {
        in_box ''tkhd'' (do { full 0 3; w32 0; w32 0; w32 2; w32 0; w32 (delay_ms + duration_ms); zeros 8; w16 0; w16 1; w16 0x100; w16 0;
          matrix; w32 0; w32 0 });
        (if delay_ms \<noteq> 0 then delay_edit delay_ms duration_ms else State_Monad.return ());
        in_box ''mdia'' (do {
          in_box ''mdhd'' (do { full 0 0; w32 0; w32 0; w32 (so_rate so); w32 (of_nat duration); w16 0x55c4; w16 0 });
          handler_box ''soun'';
          in_box ''minf'' (do {
            in_box ''smhd'' (do { full 0 0; w32 0 });
            dinf_box;
            in_box ''stbl'' (do {
              in_box ''stsd'' (do { full 0 0; w32 1; sound_entry so });
              stts_box am;
              chunks_box am True }) }) }) }))"

section \<open>The whole index\<close>

definition ftyp_box :: "unit writer" where
  "ftyp_box = in_box ''ftyp'' (do { put (ascii ''isom''); w32 0x200; put (ascii ''isomiso2avc1mp41'') })"

definition movie_header :: "u32 \<Rightarrow> bool \<Rightarrow> unit writer" where
  "movie_header movie_ms sound = in_box ''mvhd'' (do { full 0 0; w32 0; w32 0; w32 1000; w32 movie_ms; w32 0x10000; w16 0x100; zeros 10;
     matrix; zeros 24; w32 (if sound then 3 else 2) })"

definition video_entry :: "u32 \<Rightarrow> u32 \<Rightarrow> bytes \<Rightarrow> bytes \<Rightarrow> unit writer" where
  "video_entry width height sps pps = in_box ''avc1'' (do {
     zeros 6; w16 1; zeros 16; w16 (ucast width); w16 (ucast height); w32 0x480000; w32 0x480000; w32 0; w16 1; zeros 32; w16 0x18; w16 0xffff;
     in_box ''avcC'' (do { w8 1; w8 (sps ! 1); w8 (sps ! 2); w8 (sps ! 3); w8 0xff; w8 0xe1; w16 (of_nat (length sps)); put sps;
       w8 1; w16 (of_nat (length pps)); put pps }) })"

definition sync_box :: "samples \<Rightarrow> unit writer" where
  "sync_box sm = in_box ''stss'' (do {
     full 0 0;
     w32 (of_nat (length (filter sa_sync (sm_list sm))));
     for_each (\<lambda>i. w32 (of_nat (i + 1))) (filter (\<lambda>i. sa_sync (sm_list sm ! i)) [0..<length (sm_list sm)]) })"

definition video_trak :: "samples \<Rightarrow> u32 \<Rightarrow> u32 \<Rightarrow> bytes \<Rightarrow> bytes \<Rightarrow> bool \<Rightarrow> nat writer" where
  "video_trak sm width height sps pps sound = (let duration = deltas sm in in_box ''trak'' (do {
     in_box ''tkhd'' (do { full 0 3; w32 0; w32 0; w32 1; w32 0; w32 (of_nat (duration * 1000 div 90000)); zeros 8; w16 0; w16 0; w16 0; w16 0;
       matrix; w32 (push_bit 16 width); w32 (push_bit 16 height) });
     in_box ''mdia'' (do {
       in_box ''mdhd'' (do { full 0 0; w32 0; w32 0; w32 90000; w32 (of_nat duration); w16 0x55c4; w16 0 });
       handler_box ''vide'';
       in_box ''minf'' (do {
         in_box ''vmhd'' (do { full 0 1; zeros 8 });
         dinf_box;
         in_box ''stbl'' (do {
           in_box ''stsd'' (do { full 0 0; w32 1; video_entry width height sps pps });
           stts_box sm;
           sync_box sm;
           chunks_box sm sound }) }) }) }))"

text \<open>Chapters inside the video; the time in units of 100 ns, a title of at most 255 bytes.\<close>

type_synonym mp4_chapter = "int \<times> bytes option"

definition chapter_entry :: "mp4_chapter \<Rightarrow> unit writer" where
  "chapter_entry c = (case c of (at_us, title) \<Rightarrow>
     let t = (case title of None \<Rightarrow> [] | Some t \<Rightarrow> t); tl = (if length t > 255 then 255 else length t)
     in do { w64 (of_int (if at_us < 0 then 0 else at_us) * 10); w8 (of_nat tl); put (take tl t) })"

definition chapters_box :: "mp4_chapter list \<Rightarrow> nat \<Rightarrow> unit writer" where
  "chapters_box chapters duration =
     (let length_us = int (duration * 1000000 div 90000); inside = filter (\<lambda>c. fst c < length_us) chapters; n = min 255 (length inside)
      in if chapters \<noteq> [] \<and> fst (hd chapters) < length_us
         then in_box ''udta'' (in_box ''chpl'' (do { full 1 0; w32 0; w8 (of_nat n); for_each chapter_entry (take n inside) }))
         else State_Monad.return ())"

text \<open>The index with its two tables of offsets still counted from the first sample, and where they stand.\<close>

definition mp4_head :: "pass1 \<Rightarrow> u32 \<Rightarrow> u32 \<Rightarrow> u32 \<Rightarrow> u32 \<Rightarrow> bytes \<Rightarrow> bytes \<Rightarrow> mp4_chapter list \<Rightarrow> (nat \<times> nat) writer" where
  "mp4_head t movie_ms delay_ms width height sps pps chapters =
     (let sound = (sm_list (p_am t) \<noteq> []) in do {
        ftyp_box;
        in_box ''moov'' (do {
          movie_header movie_ms sound;
          offset_at \<leftarrow> video_trak (p_sm t) width height sps pps sound;
          audio_offset_at \<leftarrow> (if sound then audio_trak (p_am t) (p_snd t) delay_ms else State_Monad.return 0);
          chapters_box chapters (deltas (p_sm t));
          State_Monad.return (offset_at, audio_offset_at) }) })"


section \<open>What the calls append\<close>

text \<open>
  \<open>writes m r x\<close>: a call that leaves the buffer good found it good, appended \<open>x\<close> and returned \<open>r\<close> of where it began;
  and with memory for every size it leaves a good buffer good.
\<close>

definition writes :: "'a writer \<Rightarrow> (nat \<Rightarrow> 'a) \<Rightarrow> bytes \<Rightarrow> bool" where
  "writes m r x \<longleftrightarrow> (\<forall>b. case run_state m b of (v, b') \<Rightarrow>
     hb_mem b' = hb_mem b \<and> (\<not> hb_bad b' \<longrightarrow> \<not> hb_bad b \<and> v = r (length (hb_b b)) \<and> hb_b b' = hb_b b @ x) \<and>
     (All (hb_mem b) \<and> \<not> hb_bad b \<longrightarrow> \<not> hb_bad b'))"

definition boxed :: "bytes \<Rightarrow> bytes \<Rightarrow> bytes" where
  "boxed t x = put32 (of_nat (8 + length x)) @ t @ x"

lemma writes_return: "writes (State_Monad.return v) (\<lambda>_. v) []"
  by (simp add: writes_def)

lemma writes_put: "writes (put p) (\<lambda>_. ()) p"
  by (simp add: writes_def put_def Let_def)

lemma writes_here: "writes here (\<lambda>n. n) []"
  by (simp add: writes_def here_def)

lemma writes_bind:
  assumes "writes m r x" and "\<And>v. writes (f v) (s v) y"
  shows "writes (m \<bind> f) (\<lambda>n. s (r n) (n + length x)) (x @ y)"
  unfolding writes_def
proof
  fix b
  obtain v b1 where 1: "run_state m b = (v, b1)" by fastforce
  obtain w b2 where 2: "run_state (f v) b1 = (w, b2)" by fastforce
  show "case run_state (m \<bind> f) b of (v, b') \<Rightarrow>
     hb_mem b' = hb_mem b \<and> (\<not> hb_bad b' \<longrightarrow> \<not> hb_bad b \<and> v = s (r (length (hb_b b))) (length (hb_b b) + length x) \<and> hb_b b' = hb_b b @ x @ y) \<and>
     (All (hb_mem b) \<and> \<not> hb_bad b \<longrightarrow> \<not> hb_bad b')"
  proof -
    have m: "hb_mem b1 = hb_mem b" "\<not> hb_bad b1 \<longrightarrow> \<not> hb_bad b \<and> v = r (length (hb_b b)) \<and> hb_b b1 = hb_b b @ x"
        "All (hb_mem b) \<and> \<not> hb_bad b \<longrightarrow> \<not> hb_bad b1"
      using assms(1) [unfolded writes_def, THEN spec, of b, unfolded 1 prod.case] by blast+
    have f: "hb_mem b2 = hb_mem b1" "\<not> hb_bad b2 \<longrightarrow> \<not> hb_bad b1 \<and> w = s v (length (hb_b b1)) \<and> hb_b b2 = hb_b b1 @ y"
        "All (hb_mem b1) \<and> \<not> hb_bad b1 \<longrightarrow> \<not> hb_bad b2"
      using assms(2) [of v, unfolded writes_def, THEN spec, of b1, unfolded 2 prod.case] by blast+
    have "run_state (m \<bind> f) b = (w, b2)" by (simp add: 1 2)
    moreover have "hb_mem b2 = hb_mem b" using m(1) f(1) by simp
    moreover have "\<not> hb_bad b2 \<longrightarrow> \<not> hb_bad b \<and> w = s (r (length (hb_b b))) (length (hb_b b) + length x) \<and> hb_b b2 = hb_b b @ x @ y"
      using m(2) f(2) by auto
    moreover have "All (hb_mem b) \<and> \<not> hb_bad b \<longrightarrow> \<not> hb_bad b2" using m(3) f(3) unfolding m(1) by blast
    ultimately show ?thesis by simp
  qed
qed

lemma writes_then: "writes m (\<lambda>_. ()) x \<Longrightarrow> writes f s y \<Longrightarrow> writes (m \<bind> (\<lambda>_. f)) (\<lambda>n. s (n + length x)) (x @ y)"
  by (rule writes_bind)

lemma writes_if: "(P \<Longrightarrow> writes a r x) \<Longrightarrow> (\<not> P \<Longrightarrow> writes b r y) \<Longrightarrow> writes (if P then a else b) r (if P then x else y)"
  by simp

lemma writes_each: "(\<And>x. writes (f x) (\<lambda>_. ()) (g x)) \<Longrightarrow> writes (for_each f xs) (\<lambda>_. ()) (concat (map g xs))"
proof (induction xs)
  case (Cons x xs)
  then show ?case using writes_then [of "f x" "g x" "for_each f xs" "\<lambda>_. ()"] by simp
qed (simp add: writes_return)

lemma writes_numbers:
  "writes (w8 v8) (\<lambda>_. ()) [v8]" "writes (w16 v16) (\<lambda>_. ()) (put16 v16)" "writes (w32 v32) (\<lambda>_. ()) (put32 v32)"
  by (simp_all add: w8_def w16_def w32_def writes_put)

lemma writes_zeros: "writes (zeros n) (\<lambda>_. ()) (replicate n 0)"
proof (induction n)
  case (Suc n)
  then show ?case using writes_then [OF writes_numbers(1)] by fastforce
qed (simp add: writes_return)


lemma writes_in_box:
  assumes "writes m r x" and "length t = 4"
  shows "writes (in_box t m) (\<lambda>n. r (n + 8)) (boxed (ascii t) x)"
  unfolding writes_def
proof
  fix b
  have h: "writes (box t) (\<lambda>n. n) (put32 0 @ ascii t)"
  proof -
    have "writes (do { w32 0; put (ascii t); State_Monad.return v }) (\<lambda>_. v) (put32 0 @ ascii t)" for v
      using writes_then [OF writes_numbers(3) writes_then [OF writes_put writes_return], of 0 "ascii t" v] by simp
    from writes_bind [where s = "\<lambda>v _. v", OF writes_here this] show ?thesis by (simp add: box_def)
  qed
  obtain at b1 where 1: "run_state (box t) b = (at, b1)" by fastforce
  obtain v b2 where 2: "run_state m b1 = (v, b2)" by fastforce
  have l: "length (ascii t) = 4" using assms(2) by (simp add: ascii_def)
  show "case run_state (in_box t m) b of (v, b') \<Rightarrow>
     hb_mem b' = hb_mem b \<and> (\<not> hb_bad b' \<longrightarrow> \<not> hb_bad b \<and> v = r (length (hb_b b) + 8) \<and> hb_b b' = hb_b b @ boxed (ascii t) x) \<and>
     (All (hb_mem b) \<and> \<not> hb_bad b \<longrightarrow> \<not> hb_bad b')"
  proof -
    let ?b3 = "snd (run_state (box_end at) b2)"
    have r: "run_state (in_box t m) b = (v, ?b3)" by (simp add: in_box_def 1 2 box_end_def patch_def)
    have b1: "hb_mem b1 = hb_mem b" "\<not> hb_bad b1 \<longrightarrow> \<not> hb_bad b \<and> at = length (hb_b b) \<and> hb_b b1 = hb_b b @ put32 0 @ ascii t"
        "All (hb_mem b) \<and> \<not> hb_bad b \<longrightarrow> \<not> hb_bad b1"
      using h [unfolded writes_def, THEN spec, of b, unfolded 1 prod.case] by blast+
    have b2: "hb_mem b2 = hb_mem b1" "\<not> hb_bad b2 \<longrightarrow> \<not> hb_bad b1 \<and> v = r (length (hb_b b1)) \<and> hb_b b2 = hb_b b1 @ x"
        "All (hb_mem b1) \<and> \<not> hb_bad b1 \<longrightarrow> \<not> hb_bad b2"
      using assms(1) [unfolded writes_def, THEN spec, of b1, unfolded 2 prod.case] by blast+
    have b3: "hb_mem ?b3 = hb_mem b2" "hb_bad ?b3 = hb_bad b2"
        "\<not> hb_bad b2 \<longrightarrow> hb_b ?b3 = blit (hb_b b2) at (put32 (of_nat (length (hb_b b2) - at)))"
      by (simp_all add: box_end_def patch_def)
    have c: "\<not> hb_bad ?b3 \<longrightarrow> \<not> hb_bad b \<and> v = r (length (hb_b b) + 8) \<and> hb_b ?b3 = hb_b b @ boxed (ascii t) x"
      using b1(2) b2(2) b3(2,3) l by (auto simp: boxed_def blit_def)
    show ?thesis unfolding r prod.case using b1(1,3) b2(1,3) b3(1,2) c by metis
  qed
qed

text \<open>The rules for calls that return nothing.\<close>

lemma unit_box: "writes m (\<lambda>_. ()) x \<Longrightarrow> length t = 4 \<Longrightarrow> writes (in_box t m) (\<lambda>_. ()) (boxed (ascii t) x)"
  using writes_in_box [of m "\<lambda>_. ()"] by simp

lemma unit_then: "writes m (\<lambda>_. ()) x \<Longrightarrow> writes f (\<lambda>_. ()) y \<Longrightarrow> writes (m \<bind> (\<lambda>_. f)) (\<lambda>_. ()) (x @ y)"
  using writes_then [of m x f "\<lambda>_. ()"] by simp

lemmas unit_rules = unit_box unit_then writes_return writes_put writes_if writes_each writes_numbers writes_zeros

lemma writes_full: "writes (full v f) (\<lambda>_. ()) ([v] @ [ucast (drop_bit 16 f)] @ [ucast (drop_bit 8 f)] @ [ucast f])"
  unfolding full_def by (intro unit_rules)

lemma writes_w64: "writes (w64 v) (\<lambda>_. ()) (put32 (ucast (drop_bit 32 v)) @ put32 (ucast v))"
  unfolding w64_def by (intro unit_rules)

lemma writes_matrix: "writes matrix (\<lambda>_. ()) (concat (map put32 [0x10000, 0, 0, 0, 0x10000, 0, 0, 0, 0x40000000]))"
  unfolding matrix_def by (intro unit_rules)

lemmas call_rules = unit_rules writes_full writes_w64 writes_matrix


lemma ftyp_writes: "\<exists>x. writes ftyp_box (\<lambda>_. ()) (boxed (ascii ''ftyp'') x)"
  unfolding ftyp_box_def by (rule exI) (rule call_rules | (simp; fail))+

lemma movie_header_writes: "\<exists>x. writes (movie_header ms s) (\<lambda>_. ()) (boxed (ascii ''mvhd'') x)"
  unfolding movie_header_def by (rule exI) (rule call_rules | (simp; fail))+

lemma dinf_writes: "\<exists>x. writes dinf_box (\<lambda>_. ()) (boxed (ascii ''dinf'') x)"
  unfolding dinf_box_def by (rule exI) (rule call_rules | (simp; fail))+

lemma handler_writes: "\<exists>x. writes (handler_box h) (\<lambda>_. ()) (boxed (ascii ''hdlr'') x)"
  unfolding handler_box_def by (rule exI) (rule call_rules | (simp; fail))+

lemma delay_writes: "\<exists>x. writes (delay_edit d n) (\<lambda>_. ()) (boxed (ascii ''edts'') x)"
  unfolding delay_edit_def by (rule exI) (rule call_rules | (simp; fail))+

lemma sync_writes: "\<exists>x. writes (sync_box sm) (\<lambda>_. ()) (boxed (ascii ''stss'') x)"
  unfolding sync_box_def by (rule exI) (rule call_rules | (simp; fail))+

lemma video_entry_writes: "\<exists>x. writes (video_entry w h sps pps) (\<lambda>_. ()) x"
  unfolding video_entry_def by (rule exI) (rule call_rules | (simp; fail))+

lemma sound_entry_writes: "\<exists>x. writes (sound_entry so) (\<lambda>_. ()) x"
  unfolding sound_entry_def by (rule exI) (rule call_rules | (simp; fail))+

lemma chapter_writes: "\<exists>g. \<forall>c. writes (chapter_entry c) (\<lambda>_. ()) (g c)"
proof -
  have "\<exists>x. writes (chapter_entry (t, n)) (\<lambda>_. ()) x" for t n
    unfolding chapter_entry_def Let_def prod.case by (rule exI) (rule call_rules)+
  then have "\<forall>c. \<exists>x. writes (chapter_entry c) (\<lambda>_. ()) x" by auto
  then show ?thesis by (rule choice)
qed

lemma chapters_writes: "\<exists>x. writes (chapters_box cs d) (\<lambda>_. ()) (if x = None then [] else boxed (ascii ''udta'') (the x))"
proof (cases "cs \<noteq> [] \<and> fst (hd cs) < int (d * 1000000 div 90000)")
  case True
  obtain g where g: "writes (chapter_entry c) (\<lambda>_. ()) (g c)" for c using chapter_writes by blast
  have "\<exists>x. writes (chapters_box cs d) (\<lambda>_. ()) (boxed (ascii ''udta'') x)"
    unfolding chapters_box_def Let_def if_P [OF True] by (rule exI) (rule call_rules g | (simp; fail))+
  then obtain x where "writes (chapters_box cs d) (\<lambda>_. ()) (boxed (ascii ''udta'') x)" by blast
  then show ?thesis by (intro exI [of _ "Some x"]) simp
next
  case False
  then have "chapters_box cs d = State_Monad.return ()" by (auto simp: chapters_box_def Let_def)
  then show ?thesis using writes_return by (intro exI [of _ None]) simp
qed

section \<open>The tables, read back\<close>

text \<open>The runs the durations are written in.\<close>

function runs_of :: "u32 list \<Rightarrow> (nat \<times> u32) list" where
  "runs_of ds = (case ds of [] \<Rightarrow> [] | d # _ \<Rightarrow> let n = length (takeWhile (\<lambda>e. e = d) ds) in (n, d) # runs_of (drop n ds))"
  by pat_completeness auto
termination by (relation "measure length") auto

declare runs_of.simps [simp del]

lemma takeWhile_same: "takeWhile (\<lambda>e. e = d) ds = replicate (length (takeWhile (\<lambda>e. e = d) ds)) d"
  by (induction ds) auto

lemma runs_expand: "concat (map (\<lambda>(n, d). replicate n d) (runs_of ds)) = ds"
proof (induction ds rule: runs_of.induct)
  case (1 ds)
  show ?case
  proof (cases ds)
    case (Cons d r)
    let ?n = "length (takeWhile (\<lambda>e. e = d) ds)"
    have "concat (map (\<lambda>(n, d). replicate n d) (runs_of ds)) = replicate ?n d @ drop ?n ds"
      using 1 [OF Cons refl] by (subst runs_of.simps) (simp add: Cons Let_def)
    also have "replicate ?n d = take ?n ds" using takeWhile_same [of d ds] takeWhile_eq_take [of "\<lambda>e. e = d" ds] by metis
    finally show ?thesis by simp
  qed (simp add: runs_of.simps)
qed

lemma stts_runs_writes:
  "writes (stts_runs ds k) (\<lambda>_. k + of_nat (length (runs_of ds))) (concat (map (\<lambda>(n, d). put32 (of_nat n) @ put32 d) (runs_of ds)))"
proof (induction ds k rule: stts_runs.induct)
  case (1 ds k)
  show ?case
  proof (cases ds)
    case Nil
    then show ?thesis using writes_return by (simp add: stts_runs.simps runs_of.simps)
  next
    case (Cons d r)
    let ?n = "length (takeWhile (\<lambda>e. e = d) ds)"
    have "writes (do { w32 (of_nat ?n); w32 d; stts_runs (drop ?n ds) (k + 1) }) (\<lambda>_. k + 1 + of_nat (length (runs_of (drop ?n ds))))
        (put32 (of_nat ?n) @ put32 d @ concat (map (\<lambda>(n, d). put32 (of_nat n) @ put32 d) (runs_of (drop ?n ds))))"
      by (rule writes_then [OF writes_numbers(3) writes_then [OF writes_numbers(3) 1 [OF Cons refl]]])
    then show ?thesis using Cons by (subst stts_runs.simps, subst (1 2) runs_of.simps) (simp add: Let_def add.assoc)
  qed
qed

lemma writes_placeholder:
  assumes "writes m (\<lambda>_. v) x"
  shows "writes (do { at \<leftarrow> here; w32 0; v \<leftarrow> m; patch at (\<lambda>_. put32 v) }) (\<lambda>_. ()) (put32 v @ x)"
  unfolding writes_def
proof
  fix b
  obtain b1 where 1: "run_state (w32 0) b = ((), b1)" by (cases "run_state (w32 0) b") auto
  obtain v' b2 where 2: "run_state m b1 = (v', b2)" by fastforce
  let ?at = "length (hb_b b)" let ?b3 = "snd (run_state (patch ?at (\<lambda>_. put32 v')) b2)"
  have r: "run_state (do { at \<leftarrow> here; w32 0; v \<leftarrow> m; patch at (\<lambda>_. put32 v) }) b = ((), ?b3)" by (simp add: here_def 1 2 patch_def)
  have b1: "hb_mem b1 = hb_mem b" "\<not> hb_bad b1 \<longrightarrow> \<not> hb_bad b \<and> hb_b b1 = hb_b b @ put32 0" "All (hb_mem b) \<and> \<not> hb_bad b \<longrightarrow> \<not> hb_bad b1"
    using writes_numbers(3) [unfolded writes_def, THEN spec, of b 0, unfolded 1 prod.case] by blast+
  have b2: "hb_mem b2 = hb_mem b1" "\<not> hb_bad b2 \<longrightarrow> \<not> hb_bad b1 \<and> v' = v \<and> hb_b b2 = hb_b b1 @ x" "All (hb_mem b1) \<and> \<not> hb_bad b1 \<longrightarrow> \<not> hb_bad b2"
    using assms [unfolded writes_def, THEN spec, of b1, unfolded 2 prod.case] by blast+
  have b3: "hb_mem ?b3 = hb_mem b2" "hb_bad ?b3 = hb_bad b2" "\<not> hb_bad b2 \<longrightarrow> hb_b ?b3 = blit (hb_b b2) ?at (put32 v')"
    by (simp_all add: patch_def)
  have c: "\<not> hb_bad ?b3 \<longrightarrow> \<not> hb_bad b \<and> () = () \<and> hb_b ?b3 = hb_b b @ put32 v @ x"
    using b1(2) b2(2) b3(2,3) by (auto simp: blit_def)
  show "case run_state (do { at \<leftarrow> here; w32 0; v \<leftarrow> m; patch at (\<lambda>_. put32 v) }) b of (w, b') \<Rightarrow>
      hb_mem b' = hb_mem b \<and> (\<not> hb_bad b' \<longrightarrow> \<not> hb_bad b \<and> w = () \<and> hb_b b' = hb_b b @ put32 v @ x) \<and> (All (hb_mem b) \<and> \<not> hb_bad b \<longrightarrow> \<not> hb_bad b')"
    unfolding r prod.case using b1(1,3) b2(1,3) b3(1,2) c by metis
qed

definition stts_content :: "samples \<Rightarrow> bytes" where
  "stts_content sm = (let runs = runs_of (map sa_delta (sm_list sm))
     in put32 0 @ put32 (of_nat (length runs)) @ concat (map (\<lambda>(n, d). put32 (of_nat n) @ put32 d) runs))"

lemma full_0: "writes (full 0 0) (\<lambda>_. ()) (put32 0)"
  using writes_full [of 0 0] by (simp add: put32_def)

lemma stts_writes: "writes (stts_box sm) (\<lambda>_. ()) (boxed (ascii ''stts'') (stts_content sm))"
  unfolding stts_box_def stts_content_def Let_def
  using writes_in_box [OF writes_then [OF full_0 writes_placeholder [OF stts_runs_writes [of "map sa_delta (sm_list sm)" 0]]], of "''stts''"] by simp


section \<open>Tracks\<close>

definition tiles :: "(string \<times> bytes) list \<Rightarrow> bytes" where
  "tiles bs = concat (map (\<lambda>(t, x). boxed (ascii t) x) bs)"

lemma tiles_append: "tiles (A @ B) = tiles A @ tiles B"
  by (simp add: tiles_def)

lemma tiles_one: "writes m (\<lambda>_. ()) (boxed (ascii t) x) \<Longrightarrow> writes m (\<lambda>_. ()) (tiles [(t, x)])"
  by (simp add: tiles_def)

lemma tiles_then: "writes m (\<lambda>_. ()) (tiles A) \<Longrightarrow> writes f s (tiles B) \<Longrightarrow>
    writes (m \<bind> (\<lambda>_. f)) (\<lambda>n. s (n + length (tiles A))) (tiles (A @ B))"
  unfolding tiles_append by (rule writes_then)

lemma tiles_unit: "writes m (\<lambda>_. ()) (tiles A) \<Longrightarrow> writes f (\<lambda>_. ()) (tiles B) \<Longrightarrow> writes (m \<bind> (\<lambda>_. f)) (\<lambda>_. ()) (tiles (A @ B))"
  unfolding tiles_append by (rule unit_then)

text \<open>A place in bytes that stays where it is whatever of its length is put there.\<close>

definition hole :: "(bytes \<Rightarrow> bytes) \<Rightarrow> nat \<Rightarrow> nat \<Rightarrow> bool" where
  "hole f k off \<longleftrightarrow> (\<exists>A B. length A = off \<and> (\<forall>z. length z = k \<longrightarrow> f z = A @ z @ B))"

lemma hole_id: "hole (\<lambda>z. z) k 0"
  unfolding hole_def by (intro exI [of _ "[]"]) simp

lemma hole_around: "hole f k off \<Longrightarrow> hole (\<lambda>z. x @ f z @ y) k (length x + off)"
proof -
  assume "hole f k off"
  then obtain A B where "length A = off" "\<forall>z. length z = k \<longrightarrow> f z = A @ z @ B" by (auto simp: hole_def)
  then show ?thesis unfolding hole_def by (intro exI [of _ "x @ A"] exI [of _ "B @ y"]) simp
qed

lemma hole_after: "hole f k off \<Longrightarrow> hole (\<lambda>z. x @ f z) k (length x + off)"
  using hole_around [of f k off x "[]"] by simp

lemma hole_before: "hole f k off \<Longrightarrow> hole (\<lambda>z. f z @ y) k off"
  using hole_around [of f k off "[]" y] by simp

lemma hole_boxed:
  assumes "hole f k off" and "length t = 4"
  shows "hole (\<lambda>z. boxed t (f z)) k (8 + off)"
proof -
  obtain A B where "length A = off" "\<forall>z. length z = k \<longrightarrow> f z = A @ z @ B" using assms(1) by (auto simp: hole_def)
  then show ?thesis unfolding hole_def
    by (intro exI [of _ "put32 (of_nat (8 + (off + (k + length B)))) @ t @ A"] exI [of _ B]) (simp add: boxed_def assms(2))
qed

definition table_samples :: "samples \<Rightarrow> bool \<Rightarrow> sample list" where
  "table_samples sm il = (if il then sm_list sm else take 1 (sm_list sm))"

definition chunk_tiles :: "samples \<Rightarrow> bool \<Rightarrow> bytes \<Rightarrow> (string \<times> bytes) list" where
  "chunk_tiles sm il z = (let count = of_nat (length (sm_list sm)) in
     [(''stsc'', put32 0 @ put32 1 @ put32 1 @ put32 (if il then 1 else count) @ put32 1),
      (''stsz'', put32 0 @ put32 0 @ put32 count @ concat (map (\<lambda>s. put32 (sa_size s)) (sm_list sm))),
      (''stco'', put32 0 @ put32 (if il then count else 1) @ z)])"

lemma ascii_length [simp]: "length (ascii t) = length t"
  by (simp add: ascii_def)

lemma chunks_write:
  "\<exists>off. writes (chunks_box sm il) (\<lambda>n. n + off) (tiles (chunk_tiles sm il (concat (map (\<lambda>s. put32 (sa_offset s)) (table_samples sm il))))) \<and>
     hole (\<lambda>z. tiles (chunk_tiles sm il z)) k off"
proof -
  let ?count = "of_nat (length (sm_list sm)) :: u32" let ?one = "if il then 1 else ?count"
  let ?a = "put32 0 @ put32 1 @ put32 1 @ put32 ?one @ put32 1"
  let ?b = "put32 0 @ put32 0 @ put32 ?count @ concat (map (\<lambda>s. put32 (sa_size s)) (sm_list sm))"
  let ?z = "concat (map (\<lambda>s. put32 (sa_offset s)) (table_samples sm il))" let ?n = "if il then ?count else 1"
  have a: "writes (in_box ''stsc'' (do { full 0 0; w32 1; w32 1; w32 ?one; w32 1 })) (\<lambda>_. ()) (tiles [(''stsc'', ?a)])"
    by (rule tiles_one) (rule call_rules full_0 | (simp; fail))+
  have b: "writes (in_box ''stsz'' (do { full 0 0; w32 0; w32 ?count; for_each (\<lambda>s. w32 (sa_size s)) (sm_list sm) })) (\<lambda>_. ()) (tiles [(''stsz'', ?b)])"
    by (rule tiles_one) (rule full_0 call_rules | (simp; fail))+
  have z: "writes (for_each (\<lambda>s. w32 (sa_offset s)) (if il then sm_list sm else take 1 (sm_list sm))) (\<lambda>_. ()) ?z"
    unfolding table_samples_def by (rule call_rules)+
  have "writes (do { at \<leftarrow> here; for_each (\<lambda>s. w32 (sa_offset s)) (if il then sm_list sm else take 1 (sm_list sm)); State_Monad.return at }) (\<lambda>n. n) ?z"
    using writes_bind [where s = "\<lambda>v _. v", OF writes_here writes_then [OF z writes_return]] by simp
  from writes_in_box [OF writes_then [OF full_0 writes_then [OF writes_numbers(3) this]], of "''stco''" ?n]
  have c: "writes (in_box ''stco'' (do { full 0 0; w32 ?n; at \<leftarrow> here;
      for_each (\<lambda>s. w32 (sa_offset s)) (if il then sm_list sm else take 1 (sm_list sm)); State_Monad.return at }))
      (\<lambda>n. n + 16) (tiles [(''stco'', put32 0 @ put32 ?n @ ?z)])"
    by (simp add: tiles_def add.commute split del: if_split)
  let ?off = "length (tiles [(''stsc'', ?a), (''stsz'', ?b)]) + 16"
  have "writes (chunks_box sm il) (\<lambda>n. n + ?off) (tiles (chunk_tiles sm il ?z))"
    using tiles_then [OF a tiles_then [OF b c]] by (simp add: chunks_box_def chunk_tiles_def tiles_def Let_def add.assoc)
  moreover have "hole (\<lambda>z. tiles (chunk_tiles sm il z)) k ?off"
    using hole_after [where f = "\<lambda>z. boxed (ascii ''stco'') (put32 0 @ put32 ?n @ z)" and k = k and off = 16 and x = "tiles [(''stsc'', ?a), (''stsz'', ?b)]"]
      hole_boxed [OF hole_after [where f = "\<lambda>z. z" and k = k and off = 0 and x = "put32 0 @ put32 ?n", OF hole_id], where t = "ascii ''stco''"]
    by (simp add: chunk_tiles_def tiles_def Let_def)
  ultimately show ?thesis by blast
qed


text \<open>The boxes of a track, down to its table of samples.\<close>

type_synonym tile_list = "(string \<times> bytes) list"

definition track_tiles :: "tile_list \<Rightarrow> tile_list \<Rightarrow> tile_list \<Rightarrow> tile_list \<Rightarrow> tile_list" where
  "track_tiles A B C D = A @ [(''mdia'', tiles (B @ [(''minf'', tiles (C @ [(''stbl'', tiles D)]))]))]"

lemma tiles_in: "hole (\<lambda>z. tiles (f z)) k off \<Longrightarrow> length t = 4 \<Longrightarrow> hole (\<lambda>z. tiles (A @ [(t, tiles (f z))])) k (length (tiles A) + (8 + off))"
proof -
  assume a: "hole (\<lambda>z. tiles (f z)) k off" "length t = 4"
  have "hole (\<lambda>z. tiles A @ boxed (ascii t) (tiles (f z))) k (length (tiles A) + (8 + off))"
    by (rule hole_after, rule hole_boxed) (use a in simp_all)
  then show ?thesis by (simp add: tiles_def)
qed

lemma box_after:
  assumes "writes m (\<lambda>_. ()) (tiles A)" and "writes e (\<lambda>n. n + off) (tiles E)" and "length t = 4"
  shows "writes (do { m; in_box t e }) (\<lambda>n. n + (length (tiles A) + (8 + off))) (tiles (A @ [(t, tiles E)]))"
proof -
  have "writes (in_box t e) (\<lambda>n. n + 8 + off) (tiles [(t, tiles E)])" using writes_in_box [OF assms(2,3)] by (simp add: tiles_def)
  from tiles_then [OF assms(1) this] show ?thesis by (simp add: add.assoc)
qed

lemma track_writes:
  assumes "writes a (\<lambda>_. ()) (tiles A)" "writes b (\<lambda>_. ()) (tiles B)" "writes c (\<lambda>_. ()) (tiles C)" "writes d (\<lambda>_. ()) (tiles D)"
    and "writes e (\<lambda>n. n + off) (tiles (E z0))" and "hole (\<lambda>z. tiles (E z)) k off"
  shows "\<exists>off. writes (do { a; in_box ''mdia'' (do { b; in_box ''minf'' (do { c; in_box ''stbl'' (do { d; e }) }) }) }) (\<lambda>n. n + off)
      (tiles (track_tiles A B C (D @ E z0))) \<and> hole (\<lambda>z. tiles (track_tiles A B C (D @ E z))) k off"
proof -
  have w: "writes (do { d; e }) (\<lambda>n. n + (length (tiles D) + off)) (tiles (D @ E z0))"
    using tiles_then [OF assms(4,5)] by (simp add: add.assoc)
  have h: "hole (\<lambda>z. tiles (D @ E z)) k (length (tiles D) + off)" using hole_after [OF assms(6)] by (simp add: tiles_append)
  note w1 = box_after [OF assms(3) w, of "''stbl''"] note w2 = box_after [OF assms(2) w1, of "''minf''"]
  note h1 = tiles_in [OF h, of "''stbl''" C] note h2 = tiles_in [OF h1, of "''minf''" B]
  show ?thesis using box_after [OF assms(1) w2, of "''mdia''"] tiles_in [OF h2, of "''mdia''" A]
    by (intro exI conjI) (simp_all add: track_tiles_def)
qed

lemma one_tile: "\<exists>x. writes m (\<lambda>_. ()) (boxed (ascii t) x) \<Longrightarrow> \<exists>x. writes m (\<lambda>_. ()) (tiles [(t, x)])"
  by (auto simp: tiles_def)

definition track_names :: "tile_list \<Rightarrow> tile_list \<Rightarrow> tile_list \<Rightarrow> tile_list \<Rightarrow> bool" where
  "track_names A B C D \<longleftrightarrow> set (map fst A) \<subseteq> {''tkhd'', ''edts''} \<and> set (map fst B) \<subseteq> {''mdhd'', ''hdlr''} \<and>
     set (map fst C) \<subseteq> {''vmhd'', ''smhd'', ''dinf''} \<and> set (map fst D) \<subseteq> {''stsd'', ''stts'', ''stss''}"

text \<open>A track as the code writes it: its boxes, and where its table of offsets is.\<close>

definition is_track :: "nat writer \<Rightarrow> samples \<Rightarrow> bool \<Rightarrow> bool" where
  "is_track m sm il \<longleftrightarrow> (\<exists>A B C D off.
     track_names A B C D \<and> (''stts'', stts_content sm) \<in> set D \<and> distinct (map fst D) \<and>
     writes m (\<lambda>n. n + off) (tiles [(''trak'', tiles (track_tiles A B C (D @ chunk_tiles sm il (concat (map (\<lambda>s. put32 (sa_offset s)) (table_samples sm il))))))]) \<and>
     hole (\<lambda>z. tiles [(''trak'', tiles (track_tiles A B C (D @ chunk_tiles sm il z)))]) (4 * length (table_samples sm il)) off)"

lemma is_trackI:
  assumes "writes a (\<lambda>_. ()) (tiles A)" "writes b (\<lambda>_. ()) (tiles B)" "writes c (\<lambda>_. ()) (tiles C)" "writes d (\<lambda>_. ()) (tiles D)"
    and "track_names A B C D" "(''stts'', stts_content sm) \<in> set D" "distinct (map fst D)"
    and "m = in_box ''trak'' (do { a; in_box ''mdia'' (do { b; in_box ''minf'' (do { c; in_box ''stbl'' (do { d; chunks_box sm il }) }) }) })"
  shows "is_track m sm il"
proof -
  let ?z = "concat (map (\<lambda>s. put32 (sa_offset s)) (table_samples sm il))" let ?k = "4 * length (table_samples sm il)"
  obtain off0 where e: "writes (chunks_box sm il) (\<lambda>n. n + off0) (tiles (chunk_tiles sm il ?z))" "hole (\<lambda>z. tiles (chunk_tiles sm il z)) ?k off0"
    using chunks_write by blast
  obtain off where w: "writes (do { a; in_box ''mdia'' (do { b; in_box ''minf'' (do { c; in_box ''stbl'' (do { d; chunks_box sm il }) }) }) }) (\<lambda>n. n + off)
      (tiles (track_tiles A B C (D @ chunk_tiles sm il ?z)))" and h: "hole (\<lambda>z. tiles (track_tiles A B C (D @ chunk_tiles sm il z))) ?k off"
    using track_writes [OF assms(1-4) e] by blast
  have "writes m (\<lambda>n. n + (8 + off)) (tiles [(''trak'', tiles (track_tiles A B C (D @ chunk_tiles sm il ?z)))])"
    using writes_in_box [OF w, of "''trak''"] by (simp add: assms(8) tiles_def add.assoc)
  moreover have "hole (\<lambda>z. tiles [(''trak'', tiles (track_tiles A B C (D @ chunk_tiles sm il z)))]) ?k (8 + off)"
    using tiles_in [OF h, of "''trak''" "[]"] by (simp add: tiles_def)
  ultimately show ?thesis unfolding is_track_def using assms(5-7) by blast
qed

lemma video_is_track: "is_track (video_trak sm width height sps pps il) sm il"
proof -
  let ?duration = "deltas sm"
  obtain A where a: "writes (in_box ''tkhd'' (do { full 0 3; w32 0; w32 0; w32 1; w32 0; w32 (of_nat (?duration * 1000 div 90000)); zeros 8; w16 0; w16 0; w16 0; w16 0;
       matrix; w32 (push_bit 16 width); w32 (push_bit 16 height) })) (\<lambda>_. ()) (tiles [(''tkhd'', A)])"
    by (rule that, rule tiles_one, (rule call_rules | (simp; fail))+)
  obtain B1 where b1: "writes (in_box ''mdhd'' (do { full 0 0; w32 0; w32 0; w32 90000; w32 (of_nat ?duration); w16 0x55c4; w16 0 })) (\<lambda>_. ()) (tiles [(''mdhd'', B1)])"
    by (rule that, rule tiles_one, (rule call_rules | (simp; fail))+)
  obtain B2 where b2: "writes (handler_box ''vide'') (\<lambda>_. ()) (tiles [(''hdlr'', B2)])" using one_tile [OF handler_writes] by blast
  obtain C1 where c1: "writes (in_box ''vmhd'' (do { full 0 1; zeros 8 })) (\<lambda>_. ()) (tiles [(''vmhd'', C1)])"
    by (rule that, rule tiles_one, (rule call_rules | (simp; fail))+)
  obtain C2 where c2: "writes dinf_box (\<lambda>_. ()) (tiles [(''dinf'', C2)])" using one_tile [OF dinf_writes] by blast
  obtain x where x: "writes (video_entry width height sps pps) (\<lambda>_. ()) x" using video_entry_writes by blast
  obtain D1 where d1: "writes (in_box ''stsd'' (do { full 0 0; w32 1; video_entry width height sps pps })) (\<lambda>_. ()) (tiles [(''stsd'', D1)])"
    by (rule that, rule tiles_one, (rule call_rules x | (simp; fail))+)
  have d2: "writes (stts_box sm) (\<lambda>_. ()) (tiles [(''stts'', stts_content sm)])" using stts_writes by (rule tiles_one)
  obtain D3 where d3: "writes (sync_box sm) (\<lambda>_. ()) (tiles [(''stss'', D3)])" using one_tile [OF sync_writes] by blast
  show ?thesis
    by (rule is_trackI [OF a tiles_unit [OF b1 b2] tiles_unit [OF c1 c2] tiles_unit [OF d1 tiles_unit [OF d2 d3]]])
      (simp_all add: track_names_def video_trak_def Let_def)
qed

lemma audio_is_track: "is_track (audio_trak am so delay_ms) am True"
proof -
  let ?duration = "deltas am" let ?ms = "of_nat (?duration * 1000 div unat (so_rate so)) :: u32"
  obtain A1 where a1: "writes (in_box ''tkhd'' (do { full 0 3; w32 0; w32 0; w32 2; w32 0; w32 (delay_ms + ?ms); zeros 8; w16 0; w16 1; w16 0x100; w16 0;
          matrix; w32 0; w32 0 })) (\<lambda>_. ()) (tiles [(''tkhd'', A1)])"
    by (rule that, rule tiles_one, (rule call_rules | (simp; fail))+)
  obtain A2 where a2: "writes (delay_edit delay_ms ?ms) (\<lambda>_. ()) (tiles [(''edts'', A2)])" using one_tile [OF delay_writes] by blast
  let ?A2 = "if delay_ms \<noteq> 0 then [(''edts'', A2)] else []"
  have a2': "writes (if delay_ms \<noteq> 0 then delay_edit delay_ms ?ms else State_Monad.return ()) (\<lambda>_. ()) (tiles ?A2)"
    using a2 by (cases "delay_ms = 0") (simp_all add: tiles_def writes_return)
  obtain B1 where b1: "writes (in_box ''mdhd'' (do { full 0 0; w32 0; w32 0; w32 (so_rate so); w32 (of_nat ?duration); w16 0x55c4; w16 0 })) (\<lambda>_. ()) (tiles [(''mdhd'', B1)])"
    by (rule that, rule tiles_one, (rule call_rules | (simp; fail))+)
  obtain B2 where b2: "writes (handler_box ''soun'') (\<lambda>_. ()) (tiles [(''hdlr'', B2)])" using one_tile [OF handler_writes] by blast
  obtain C1 where c1: "writes (in_box ''smhd'' (do { full 0 0; w32 0 })) (\<lambda>_. ()) (tiles [(''smhd'', C1)])"
    by (rule that, rule tiles_one, (rule call_rules | (simp; fail))+)
  obtain C2 where c2: "writes dinf_box (\<lambda>_. ()) (tiles [(''dinf'', C2)])" using one_tile [OF dinf_writes] by blast
  obtain x where x: "writes (sound_entry so) (\<lambda>_. ()) x" using sound_entry_writes by blast
  obtain D1 where d1: "writes (in_box ''stsd'' (do { full 0 0; w32 1; sound_entry so })) (\<lambda>_. ()) (tiles [(''stsd'', D1)])"
    by (rule that, rule tiles_one, (rule call_rules x | (simp; fail))+)
  have d2: "writes (stts_box am) (\<lambda>_. ()) (tiles [(''stts'', stts_content am)])" using stts_writes by (rule tiles_one)
  show ?thesis
    by (rule is_trackI [OF tiles_unit [OF a1 a2'] tiles_unit [OF b1 b2] tiles_unit [OF c1 c2] tiles_unit [OF d1 d2]])
      (auto simp: track_names_def audio_trak_def Let_def)
qed

text \<open>The whole index: its boxes, and in it the two tables of offsets.\<close>

definition sound_tiles :: "bool \<Rightarrow> (bytes \<Rightarrow> tile_list) \<Rightarrow> bytes \<Rightarrow> tile_list" where
  "sound_tiles sound A z = (if sound then [(''trak'', tiles (A z))] else [])"

definition head_tiles :: "bytes \<Rightarrow> bytes \<Rightarrow> tile_list \<Rightarrow> bool \<Rightarrow> (bytes \<Rightarrow> tile_list) \<Rightarrow> (bytes \<Rightarrow> tile_list) \<Rightarrow> bytes \<Rightarrow> bytes \<Rightarrow> tile_list" where
  "head_tiles f h u sound V A zv za =
     [(''ftyp'', f), (''moov'', tiles ([(''mvhd'', h), (''trak'', tiles (V zv))] @ sound_tiles sound A za @ u))]"

definition offset_bytes :: "samples \<Rightarrow> bool \<Rightarrow> bytes" where
  "offset_bytes sm il = concat (map (\<lambda>s. put32 (sa_offset s)) (table_samples sm il))"

definition is_head :: "(nat \<times> nat) writer \<Rightarrow> pass1 \<Rightarrow> bool" where
  "is_head m t \<longleftrightarrow> (let sound = (sm_list (p_am t) \<noteq> []) in \<exists>f h u A1 B1 C1 D1 A2 B2 C2 D2 off1 off2.
     let V = \<lambda>z. track_tiles A1 B1 C1 (D1 @ chunk_tiles (p_sm t) sound z); A = \<lambda>z. track_tiles A2 B2 C2 (D2 @ chunk_tiles (p_am t) True z)
     in track_names A1 B1 C1 D1 \<and> (''stts'', stts_content (p_sm t)) \<in> set D1 \<and> distinct (map fst D1) \<and>
        track_names A2 B2 C2 D2 \<and> (''stts'', stts_content (p_am t)) \<in> set D2 \<and> distinct (map fst D2) \<and>
        set (map fst u) \<subseteq> {''udta''} \<and>
        writes m (\<lambda>n. (n + off1, if sound then n + off2 else 0))
          (tiles (head_tiles f h u sound V A (offset_bytes (p_sm t) sound) (offset_bytes (p_am t) True))) \<and>
        (\<forall>za. hole (\<lambda>z. tiles (head_tiles f h u sound V A z za)) (4 * length (table_samples (p_sm t) sound)) off1) \<and>
        (sound \<longrightarrow> (\<forall>zv. length zv = 4 * length (table_samples (p_sm t) sound) \<longrightarrow> hole (\<lambda>z. tiles (head_tiles f h u sound V A zv z)) (4 * length (sm_list (p_am t))) off2)))"

lemma length_offsets: "length (concat (map (\<lambda>s. put32 (f s)) ss)) = 4 * length ss"
  by (induction ss) simp_all

lemma head_writes: "is_head (mp4_head t movie_ms delay_ms width height sps pps chapters) t"
proof -
  define sound where "sound = (sm_list (p_am t) \<noteq> [])"
  obtain A1 B1 C1 D1 offv where v: "track_names A1 B1 C1 D1" "(''stts'', stts_content (p_sm t)) \<in> set D1" "distinct (map fst D1)"
    "writes (video_trak (p_sm t) width height sps pps sound) (\<lambda>n. n + offv)
      (tiles [(''trak'', tiles (track_tiles A1 B1 C1 (D1 @ chunk_tiles (p_sm t) sound (offset_bytes (p_sm t) sound))))])"
    "hole (\<lambda>z. tiles [(''trak'', tiles (track_tiles A1 B1 C1 (D1 @ chunk_tiles (p_sm t) sound z)))]) (4 * length (table_samples (p_sm t) sound)) offv"
    using video_is_track [of "p_sm t" width height sps pps sound] unfolding is_track_def offset_bytes_def by blast
  obtain A2 B2 C2 D2 offa where a: "track_names A2 B2 C2 D2" "(''stts'', stts_content (p_am t)) \<in> set D2" "distinct (map fst D2)"
    "writes (audio_trak (p_am t) (p_snd t) delay_ms) (\<lambda>n. n + offa)
      (tiles [(''trak'', tiles (track_tiles A2 B2 C2 (D2 @ chunk_tiles (p_am t) True (offset_bytes (p_am t) True))))])"
    "hole (\<lambda>z. tiles [(''trak'', tiles (track_tiles A2 B2 C2 (D2 @ chunk_tiles (p_am t) True z)))]) (4 * length (sm_list (p_am t))) offa"
    using audio_is_track [of "p_am t" "p_snd t" delay_ms] unfolding is_track_def offset_bytes_def table_samples_def if_True by blast
  define V where "V z = track_tiles A1 B1 C1 (D1 @ chunk_tiles (p_sm t) sound z)" for z
  define A where "A z = track_tiles A2 B2 C2 (D2 @ chunk_tiles (p_am t) True z)" for z
  have VA: "V = (\<lambda>z. track_tiles A1 B1 C1 (D1 @ chunk_tiles (p_sm t) sound z))" "A = (\<lambda>z. track_tiles A2 B2 C2 (D2 @ chunk_tiles (p_am t) True z))"
    by (simp_all add: fun_eq_iff V_def A_def)
  obtain f where f: "writes ftyp_box (\<lambda>_. ()) (tiles [(''ftyp'', f)])" using one_tile [OF ftyp_writes] by blast
  obtain h where h: "writes (movie_header movie_ms sound) (\<lambda>_. ()) (tiles [(''mvhd'', h)])" using one_tile [OF movie_header_writes] by blast
  obtain x where "writes (chapters_box chapters (deltas (p_sm t))) (\<lambda>_. ()) (if x = None then [] else boxed (ascii ''udta'') (the x))"
    using chapters_writes by blast
  moreover define u where "u = (case x of None \<Rightarrow> [] | Some y \<Rightarrow> [(''udta'', y)])"
  ultimately have c: "writes (chapters_box chapters (deltas (p_sm t))) (\<lambda>_. ()) (tiles u)" by (cases x) (simp_all add: tiles_def)
  have u: "set (map fst u) \<subseteq> {''udta''}" by (cases x) (simp_all add: u_def)
  let ?zv = "offset_bytes (p_sm t) sound" and ?za = "offset_bytes (p_am t) True" and ?k = "4 * length (table_samples (p_sm t) sound)"
  let ?rest = "\<lambda>v w. do { chapters_box chapters (deltas (p_sm t)); State_Monad.return (v, w) }"
  let ?aud = "if sound then audio_trak (p_am t) (p_snd t) delay_ms else State_Monad.return 0"
  have w1: "writes (?rest v w) (\<lambda>_. (v, w)) (tiles u)" for v w :: nat
    using writes_then [OF c writes_return [of "(v, w)"]] by simp
  have aud: "writes ?aud (\<lambda>n. if sound then n + offa else 0) (tiles (sound_tiles sound A ?za))"
    using a(4) by (cases sound) (simp_all add: sound_tiles_def A_def tiles_def writes_return)
  have w2: "writes (do { w \<leftarrow> ?aud; ?rest v w }) (\<lambda>n. (v, if sound then n + offa else 0)) (tiles (sound_tiles sound A ?za @ u))" for v :: nat
    using writes_bind [where s = "\<lambda>w _. (v, w)", OF aud w1] by (simp add: tiles_append)
  let ?lv = "length (tiles [(''trak'', tiles (V ?zv))])"
  have w3: "writes (do { v \<leftarrow> video_trak (p_sm t) width height sps pps sound; w \<leftarrow> ?aud; ?rest v w })
      (\<lambda>n. (n + offv, if sound then n + ?lv + offa else 0)) (tiles ([(''trak'', tiles (V ?zv))] @ sound_tiles sound A ?za @ u))"
    using writes_bind [where s = "\<lambda>v n. (v, if sound then n + offa else 0)", OF v(4) [folded V_def] w2] unfolding tiles_append [symmetric] by (simp split del: if_split)
  let ?lh = "length (tiles [(''mvhd'', h)])" and ?lf = "length (tiles [(''ftyp'', f)])"
  let ?m = "tiles ([(''mvhd'', h)] @ [(''trak'', tiles (V ?zv))] @ sound_tiles sound A ?za @ u)"
  let ?off1 = "?lf + (8 + (?lh + offv))" and ?off2 = "?lf + (8 + (?lh + (?lv + offa)))"
  have w4: "writes (in_box ''moov'' (do { movie_header movie_ms sound; v \<leftarrow> video_trak (p_sm t) width height sps pps sound; w \<leftarrow> ?aud; ?rest v w }))
      (\<lambda>n. (n + 8 + ?lh + offv, if sound then n + 8 + ?lh + ?lv + offa else 0)) (tiles [(''moov'', ?m)])"
    using writes_in_box [OF tiles_then [OF h w3], of "''moov''"] by (simp add: tiles_def split del: if_split)
  have w5: "writes (mp4_head t movie_ms delay_ms width height sps pps chapters) (\<lambda>n. (n + ?off1, if sound then n + ?off2 else 0))
      (tiles (head_tiles f h u sound V A ?zv ?za))"
    using tiles_then [OF f w4] unfolding mp4_head_def Let_def sound_def [symmetric] by (simp add: head_tiles_def add.assoc split del: if_split cong: if_cong)
  have h1: "hole (\<lambda>z. tiles (head_tiles f h u sound V A z za)) ?k ?off1" for za
  proof -
    have "hole (\<lambda>z. tiles [(''mvhd'', h)] @ tiles [(''trak'', tiles (V z))] @ tiles (sound_tiles sound A za @ u)) ?k (?lh + offv)"
      by (rule hole_around) (use v(5) in \<open>simp add: V_def\<close>)
    then have "hole (\<lambda>z. tiles ([(''mvhd'', h), (''trak'', tiles (V z))] @ sound_tiles sound A za @ u)) ?k (?lh + offv)"
      by (simp add: tiles_def)
    from tiles_in [OF this, of "''moov''" "[(''ftyp'', f)]"] show ?thesis by (simp add: head_tiles_def)
  qed
  have h2: "hole (\<lambda>z. tiles (head_tiles f h u sound V A zv z)) (4 * length (sm_list (p_am t))) ?off2" if "sound" "length zv = ?k" for zv
  proof -
    have lv: "length (tiles [(''trak'', tiles (V zv))]) = ?lv"
      using v(5) that(2) by (auto simp: hole_def V_def offset_bytes_def length_offsets)
    have "hole (\<lambda>z. tiles [(''mvhd'', h), (''trak'', tiles (V zv))] @ tiles [(''trak'', tiles (A z))] @ tiles u) (4 * length (sm_list (p_am t)))
        (length (tiles [(''mvhd'', h), (''trak'', tiles (V zv))]) + offa)"
      by (rule hole_around) (use a(5) in \<open>simp add: A_def\<close>)
    moreover have "length (tiles [(''mvhd'', h), (''trak'', tiles (V zv))]) = ?lh + ?lv" using lv by (simp add: tiles_def)
    ultimately have "hole (\<lambda>z. tiles ([(''mvhd'', h), (''trak'', tiles (V zv))] @ sound_tiles sound A z @ u)) (4 * length (sm_list (p_am t))) (?lh + ?lv + offa)"
      by (simp add: tiles_def sound_tiles_def that(1))
    from tiles_in [OF this, of "''moov''" "[(''ftyp'', f)]"] show ?thesis by (simp add: head_tiles_def add.assoc)
  qed
  show ?thesis
    unfolding is_head_def Let_def sound_def [symmetric]
    using v(1-3) a(1-3) u w5 [unfolded VA] h1 [unfolded VA] h2 [unfolded VA] by blast
qed

end
