(* ===== verification/Mp4_File.thy ===== *)
theory Mp4_File
  imports Mp4_Boxes
begin

text \<open>
  kvm_record/ts_to_mp4.c, the conversion of a recording from transport stream to MP4, and a player: written from the
  format of the file and not from the conversion, it walks the boxes down to the tables of a track and cuts the samples
  out of the file. What the player finds are the recorded pictures and sound packets.
\<close>

section \<open>The conversion\<close>

text \<open>
  Memory is asked for at three times: for each unit of the first reading, for the index, and for each unit of the second
  reading. \<open>mem\<close> answers at each of them on its own. The bytes a reading gives are \<open>file\<close> the first time and
  \<open>again\<close> the second, which is \<open>None\<close> when the recording cannot be rewound; a read that comes up short gives fewer.
\<close>

datatype moment = Reading nat | Indexing | Writing nat

datatype mp4_error = Memory_reading | No_picture | Too_long | Memory_index | Not_written | Not_read_again | Recording_changed

text \<open>The last sample of a track lasts as long as the one before it, or as a frame.\<close>

definition finish_tables :: "pass1 \<Rightarrow> pass1" where
  "finish_tables t =
     (let t = t\<lparr>p_sm := set_delta (p_sm t) (delta_before (p_sm t))\<rparr>
      in if sm_list (p_am t) \<noteq> [] then t\<lparr>p_am := set_delta (p_am t) (frame_len (p_snd t))\<rparr> else t)"

definition movie_times :: "pass1 \<Rightarrow> u32 \<times> u32" where
  "movie_times t =
     (let movie_ms = of_nat (deltas (p_sm t) * 1000 div 90000) :: u32
      in if sm_list (p_am t) = [] then (movie_ms, 0)
         else let delay_ms = (if p_audio_first t > p_first t then of_int (c_div (p_audio_first t - p_first t) 90) else 0);
                  end_ms = delay_ms + of_nat (deltas (p_am t) * 1000 div unat (so_rate (p_snd t)))
              in (if end_ms > movie_ms then end_ms else movie_ms, delay_ms))"

text \<open>The offsets were counted from the samples' start; the header comes first.\<close>

definition shift_offsets :: "pass1 \<Rightarrow> nat \<Rightarrow> nat \<Rightarrow> u32 \<Rightarrow> unit writer" where
  "shift_offsets t offset_at audio_offset_at data_at = do {
     for_each (\<lambda>i. add32 (offset_at + i * 4) data_at) [0..<(if sm_list (p_am t) \<noteq> [] then length (sm_list (p_sm t)) else 1)];
     for_each (\<lambda>i. add32 (audio_offset_at + i * 4) data_at) [0..<length (sm_list (p_am t))] }"

definition new_buf :: "(nat \<Rightarrow> bool) \<Rightarrow> mp4_buf" where
  "new_buf mem = \<lparr>hb_b = [], hb_cap = 0, hb_bad = False, hb_mem = mem\<rparr>"

definition mdat_head :: "nat \<Rightarrow> bytes" where
  "mdat_head n = put32 (of_nat (n + 8)) @ ascii ''mdat''"

definition write_samples :: "(nat \<Rightarrow> nat \<Rightarrow> bool) \<Rightarrow> (bytes \<Rightarrow> bytes \<Rightarrow> bool) \<Rightarrow> bytes option \<Rightarrow> pass1 \<Rightarrow> bytes \<Rightarrow> mp4_error + bytes" where
  "write_samples mem wr again t out =
     (case again of
        None \<Rightarrow> Inl Not_read_again
      | Some file \<Rightarrow> (case pass_two mem 0 wr t (ts_reader_start file) (pass2_start\<lparr>w_out := out\<rparr>) of
             None \<Rightarrow> Inl Not_written
           | Some w \<Rightarrow> (if w_written w \<noteq> length (sm_list (p_sm t)) \<or> w_audio w \<noteq> length (sm_list (p_am t)) then Inl Recording_changed
                       else Inr (w_out w))))"

definition write_mp4 :: "(moment \<Rightarrow> nat \<Rightarrow> bool) \<Rightarrow> (bytes \<Rightarrow> bytes \<Rightarrow> bool) \<Rightarrow> bytes option \<Rightarrow> pass1 \<Rightarrow> u32 \<Rightarrow> u32 \<Rightarrow> bytes \<Rightarrow> bytes \<Rightarrow> mp4_chapter list \<Rightarrow> mp4_error + bytes" where
  "write_mp4 mem wr again t width height sps pps chapters =
     (case movie_times t of (movie_ms, delay_ms) \<Rightarrow>
        case run_state (mp4_head t movie_ms delay_ms width height sps pps chapters) (new_buf (mem Indexing)) of ((offset_at, audio_offset_at), head) \<Rightarrow>
          if hb_bad head then Inl Memory_index
          else let head = snd (run_state (shift_offsets t offset_at audio_offset_at (of_nat (length (hb_b head) + 8))) head)
               in case io_write wr [] (hb_b head) of
                    (False, _) \<Rightarrow> Inl Not_written
                  | (True, out) \<Rightarrow> (case io_write wr out (mdat_head (p_bytes t)) of
                        (False, _) \<Rightarrow> Inl Not_written
                      | (True, out) \<Rightarrow> write_samples (\<lambda>k. mem (Writing k)) wr again t out))"

definition ts_to_mp4 :: "(moment \<Rightarrow> nat \<Rightarrow> bool) \<Rightarrow> (bytes \<Rightarrow> bytes \<Rightarrow> bool) \<Rightarrow> bytes \<Rightarrow> bytes option \<Rightarrow> u32 \<Rightarrow> u32 \<Rightarrow> mp4_chapter list \<Rightarrow> mp4_error + bytes" where
  "ts_to_mp4 mem wr file again width height chapters =
     (case pass_one (\<lambda>k. mem (Reading k)) 0 (ts_reader_start file) pass1_start of
        None \<Rightarrow> Inl Memory_reading
      | Some t \<Rightarrow>
          if sm_list (p_sm t) = [] then Inl No_picture
          else (case (p_sps t, p_pps t) of
                  (Some sps, Some pps) \<Rightarrow>
                    if p_bytes t + 8 > 0xffffffff then Inl Too_long
                    else write_mp4 mem wr again (finish_tables t) width height sps pps chapters
                | _ \<Rightarrow> Inl No_picture))"

section \<open>A player\<close>

text \<open>The boxes of a run of bytes: a length of four bytes, a type, and the content.\<close>

function boxes :: "bytes \<Rightarrow> (bytes \<times> bytes) list option" where
  "boxes p =
     (if p = [] then Some []
      else let n = unat (be32 (p ! 0) (p ! 1) (p ! 2) (p ! 3))
           in if length p < 8 \<or> n < 8 \<or> length p < n then None
              else map_option (\<lambda>bs. (segment p 4 4, segment p 8 (n - 8)) # bs) (boxes (drop n p)))"
  by pat_completeness auto
termination by (relation "measure length") auto

declare boxes.simps [simp del]

definition inside :: "string \<Rightarrow> bytes \<Rightarrow> bytes option" where
  "inside t p = (case boxes p of None \<Rightarrow> None | Some bs \<Rightarrow> map_of bs (ascii t))"

fun words32 :: "bytes \<Rightarrow> u32 list" where
  "words32 (a # b # c # d # r) = be32 a b c d # words32 r"
| "words32 _ = []"

text \<open>A chunk is a run of samples; each chunk has its offset, each sample its size.\<close>

fun read_chunk :: "bytes \<Rightarrow> nat \<Rightarrow> nat list \<Rightarrow> bytes list" where
  "read_chunk file off [] = []"
| "read_chunk file off (n # ns) = segment file off n # read_chunk file (off + n) ns"

fun read_chunks :: "bytes \<Rightarrow> nat \<Rightarrow> nat list \<Rightarrow> nat list \<Rightarrow> bytes list" where
  "read_chunks file per [] ns = []"
| "read_chunks file per (off # offs) ns = read_chunk file off (take per ns) @ read_chunks file per offs (drop per ns)"

definition track_samples :: "bytes \<Rightarrow> bytes \<Rightarrow> bytes list option" where
  "track_samples file trak = do {
     mdia \<leftarrow> inside ''mdia'' trak;
     minf \<leftarrow> inside ''minf'' mdia;
     stbl \<leftarrow> inside ''stbl'' minf;
     stsc \<leftarrow> inside ''stsc'' stbl;
     stsz \<leftarrow> inside ''stsz'' stbl;
     stco \<leftarrow> inside ''stco'' stbl;
     Some (read_chunks file (unat (words32 stsc ! 3)) (map unat (drop 2 (words32 stco))) (map unat (drop 3 (words32 stsz)))) }"

definition play :: "bytes \<Rightarrow> bytes list list option" where
  "play file = do {
     moov \<leftarrow> inside ''moov'' file;
     bs \<leftarrow> boxes moov;
     map_opt (\<lambda>(t, trak). track_samples file trak) (filter (\<lambda>(t, x). t = ascii ''trak'') bs) }"


section \<open>Reading boxes\<close>

lemma of_char_inj: "(of_char c :: u8) = of_char d \<longleftrightarrow> c = d"
proof
  assume "(of_char c :: u8) = of_char d"
  then have "unat (of_nat (of_char c) :: u8) = unat (of_nat (of_char d) :: u8)" by (simp add: of_nat_of_char)
  then show "c = d" by (simp add: unsigned_of_nat take_bit_nat_eq_self)
qed simp

lemma ascii_inj [simp]: "ascii s = ascii t \<longleftrightarrow> s = t"
proof
  assume "ascii s = ascii t"
  then show "s = t" by (auto simp: ascii_def of_char_inj inj_def dest!: map_injective)
qed simp

lemma boxes_Cons:
  assumes "length t = 4" and "length x + 8 < 2 ^ 32"
  shows "boxes (boxed (ascii t) x @ r) = map_option (\<lambda>bs. (ascii t, x) # bs) (boxes r)"
proof -
  let ?p = "boxed (ascii t) x @ r"
  have n: "unat (be32 (?p ! 0) (?p ! 1) (?p ! 2) (?p ! 3)) = 8 + length x"
  proof -
    have "be32 (?p ! 0) (?p ! 1) (?p ! 2) (?p ! 3) = of_nat (8 + length x)"
      by (simp add: boxed_def put32_def be32_put32 del: of_nat_add)
    moreover have "unat (of_nat (8 + length x) :: u32) = 8 + length x" by (rule unat_short(1)) (use assms(2) in simp)
    ultimately show ?thesis by (simp only:)
  qed
  have s: "segment ?p 4 4 = ascii t" "segment ?p 8 (length x) = x" "drop (8 + length x) ?p = r"
    using assms(1) by (simp_all add: boxed_def segment_def)
  have l: "length ?p = 8 + length x + length r" using assms(1) by (simp add: boxed_def)
  then have "?p \<noteq> []" by (metis add_is_0 list.size(3) zero_neq_numeral)
  then show ?thesis unfolding boxes.simps [of ?p] Let_def n using l s by (simp del: append_is_Nil_conv drop_append)
qed

lemma tiles_Cons: "tiles ((t, x) # bs) = boxed (ascii t) x @ tiles bs"
  by (simp add: tiles_def)

lemma boxes_tiles:
  "list_all (\<lambda>(t, x). length t = 4) bs \<Longrightarrow> length (tiles bs) < 2 ^ 32 \<Longrightarrow> boxes (tiles bs) = Some (map (\<lambda>(t, x). (ascii t, x)) bs)"
proof (induction bs)
  case Nil
  show ?case by (simp add: tiles_def boxes.simps)
next
  case (Cons b bs)
  obtain t x where b: "b = (t, x)" by fastforce
  have t: "length t = 4" using Cons.prems(1) by (simp add: b)
  have "length (tiles (b # bs)) = 8 + length x + length (tiles bs)" using t by (simp add: b tiles_Cons boxed_def)
  then have l: "length x + 8 < 2 ^ 32" "length (tiles bs) < 2 ^ 32" using Cons.prems(2) by simp_all
  have "boxes (tiles bs) = Some (map (\<lambda>(t, x). (ascii t, x)) bs)" using Cons.IH Cons.prems(1) l(2) by simp
  then show ?case using boxes_Cons [OF t l(1), of "tiles bs"] by (simp add: b tiles_Cons)
qed

lemma map_of_ascii: "map_of (map (\<lambda>(t, x). (ascii t, x)) bs) (ascii t) = map_of bs t"
  by (induction bs) auto

lemma inside_tiles:
  "list_all (\<lambda>(t, x). length t = 4) bs \<Longrightarrow> length (tiles bs) < 2 ^ 32 \<Longrightarrow> inside t (tiles bs) = map_of bs t"
  by (simp add: inside_def boxes_tiles map_of_ascii)

lemma length_boxed: "length (boxed (ascii t) x) = length x + length t + 4"
  by (simp add: boxed_def)

lemma tile_length: "(t, x) \<in> set bs \<Longrightarrow> length x \<le> length (tiles bs)"
  by (induction bs) (auto simp: tiles_Cons length_boxed)

lemma words32_put: "words32 (put32 w @ r) = w # words32 r"
  by (simp add: put32_def be32_put32)

lemma words32_list: "words32 (concat (map (\<lambda>s. put32 (f s)) ss)) = map f ss"
  by (induction ss) (simp_all add: words32_put)

text \<open>The tables of a track, found.\<close>

lemma track_found:
  assumes "track_names A B C D" "list_all (\<lambda>(t, x). length t = 4) (A @ B @ C @ D)"
    and "length (tiles (track_tiles A B C (D @ chunk_tiles sm il (concat (map put32 offs))))) < 2 ^ 32"
  shows "track_samples file (tiles (track_tiles A B C (D @ chunk_tiles sm il (concat (map put32 offs))))) =
     Some (read_chunks file (if il then 1 else length (sm_list sm)) (map unat offs) (map (unat \<circ> sa_size) (sm_list sm)))"
proof -
  let ?z = "concat (map put32 offs)" let ?s = "D @ chunk_tiles sm il ?z"
  let ?i = "C @ [(''stbl'', tiles ?s)]" let ?m = "B @ [(''minf'', tiles ?i)]" let ?t = "A @ [(''mdia'', tiles ?m)]"
  have ct: "list_all (\<lambda>(t, x). length t = 4) (chunk_tiles sm il ?z)" by (simp add: chunk_tiles_def Let_def)
  have l1: "length (tiles ?t) < 2 ^ 32" using assms(3) by (simp add: track_tiles_def)
  then have l2: "length (tiles ?m) < 2 ^ 32" using tile_length [of "''mdia''" "tiles ?m" ?t] by simp
  then have l3: "length (tiles ?i) < 2 ^ 32" using tile_length [of "''minf''" "tiles ?i" ?m] by simp
  then have l4: "length (tiles ?s) < 2 ^ 32" using tile_length [of "''stbl''" "tiles ?s" ?i] by simp
  have names: "''mdia'' \<notin> fst ` set A" "''minf'' \<notin> fst ` set B" "''stbl'' \<notin> fst ` set C"
      "''stsc'' \<notin> fst ` set D" "''stsz'' \<notin> fst ` set D" "''stco'' \<notin> fst ` set D"
    using assms(1) by (auto simp: track_names_def)
  have none: "map_of bs t = None" if "t \<notin> fst ` set bs" for t and bs :: tile_list using that by (simp add: map_of_eq_None_iff)
  have "inside ''mdia'' (tiles ?t) = Some (tiles ?m)" "inside ''minf'' (tiles ?m) = Some (tiles ?i)" "inside ''stbl'' (tiles ?i) = Some (tiles ?s)"
    using inside_tiles [OF _ l1] inside_tiles [OF _ l2] inside_tiles [OF _ l3] assms(2) names(1-3) by (simp_all add: map_add_def none split: option.split)
  moreover have "inside t (tiles ?s) = map_of (chunk_tiles sm il ?z) t" if "t \<notin> fst ` set D" for t
    using inside_tiles [OF _ l4] assms(2) ct none [OF that] by (simp add: map_add_def split: option.split)
  moreover have "unat (of_nat (length (sm_list sm)) :: u32) = length (sm_list sm)"
  proof (rule unat_short(1))
    have "length (concat (map (\<lambda>s. put32 (sa_size s)) (sm_list sm))) \<le> length (tiles ?s)"
      using tile_length [of "''stsz''" "put32 0 @ put32 0 @ put32 (of_nat (length (sm_list sm))) @ concat (map (\<lambda>s. put32 (sa_size s)) (sm_list sm))" ?s]
      by (simp add: chunk_tiles_def Let_def)
    then show "length (sm_list sm) < 2 ^ 32" using l4 length_offsets [of sa_size "sm_list sm"] by simp
  qed
  ultimately show ?thesis using names(4-6)
    by (simp add: track_samples_def track_tiles_def chunk_tiles_def Let_def words32_put words32_list [of "\<lambda>x. x"] words32_list o_def)
qed


section \<open>The offsets, moved behind the header\<close>

lemma add32_at:
  assumes "\<not> hb_bad b" and "hb_b b = A @ put32 w @ R" and "length A = at"
  shows "run_state (add32 at d) b = ((), b\<lparr>hb_b := A @ put32 (w + d) @ R\<rparr>)"
proof -
  have "segment (hb_b b) at 4 = put32 w" using assms(2,3) by (simp add: segment_def)
  then have "(let p = segment (hb_b b) at 4 in put32 (be32 (p ! 0) (p ! 1) (p ! 2) (p ! 3) + d)) = put32 (w + d)"
    by (simp add: put32_def be32_put32)
  then show ?thesis using assms by (simp add: add32_def patch_def blit_def)
qed

lemma add_loop:
  assumes "\<not> hb_bad b" and "hb_b b = A @ concat (map put32 ws) @ R" and "length A = base + k * 4"
  shows "run_state (for_each (\<lambda>i. add32 (base + i * 4) d) [k..<k + length ws]) b = ((), b\<lparr>hb_b := A @ concat (map (\<lambda>w. put32 (w + d)) ws) @ R\<rparr>)"
  using assms
proof (induction ws arbitrary: b A k)
  case (Cons w ws)
  let ?b = "b\<lparr>hb_b := A @ put32 (w + d) @ concat (map put32 ws) @ R\<rparr>"
  have s: "run_state (add32 (base + k * 4) d) b = ((), ?b)"
    using add32_at [OF Cons.prems(1), of A w "concat (map put32 ws) @ R"] Cons.prems(2,3) by simp
  have u: "[k..<k + length (w # ws)] = k # [Suc k..<Suc k + length ws]" by (simp add: upt_conv_Cons del: upt_Suc)
  show ?case using Cons.IH [of ?b "A @ put32 (w + d)" "Suc k"] Cons.prems s unfolding u by simp
qed simp

lemma add_loop_hole:
  assumes "\<not> hb_bad b" and "hb_b b = f (concat (map put32 ws))" and "hole f (4 * length ws) off"
  shows "run_state (for_each (\<lambda>i. add32 (off + i * 4) d) [0..<length ws]) b = ((), b\<lparr>hb_b := f (concat (map (\<lambda>w. put32 (w + d)) ws))\<rparr>)"
proof -
  have len: "length (concat (map (\<lambda>w. put32 (g w)) ws)) = 4 * length ws" for g by (rule length_offsets)
  obtain A R where AR: "length A = off" "\<forall>z. length z = 4 * length ws \<longrightarrow> f z = A @ z @ R" using assms(3) by (auto simp: hole_def)
  have e: "f (concat (map put32 ws)) = A @ concat (map put32 ws) @ R" using AR(2) len [of "\<lambda>w. w"] by blast
  have "hb_b b = A @ concat (map put32 ws) @ R" using assms(2) unfolding e .
  from add_loop [OF assms(1) this, of off 0 d] AR(1)
  have "run_state (for_each (\<lambda>i. add32 (off + i * 4) d) [0..<length ws]) b = ((), b\<lparr>hb_b := A @ concat (map (\<lambda>w. put32 (w + d)) ws) @ R\<rparr>)" by simp
  moreover have "f (concat (map (\<lambda>w. put32 (w + d)) ws)) = A @ concat (map (\<lambda>w. put32 (w + d)) ws) @ R" using AR(2) len [of "\<lambda>w. w + d"] by blast
  ultimately show ?thesis by simp
qed

definition shifted_offsets :: "samples \<Rightarrow> bool \<Rightarrow> u32 \<Rightarrow> u32 list" where
  "shifted_offsets sm il d = map (\<lambda>s. sa_offset s + d) (table_samples sm il)"

lemma offset_bytes_list: "offset_bytes sm il = concat (map put32 (map sa_offset (table_samples sm il)))"
  by (simp add: offset_bytes_def o_def)

text \<open>The index as it is written: the boxes of \<open>head_tiles\<close> with the offsets moved.\<close>

definition final_head :: "bytes \<Rightarrow> pass1 \<Rightarrow> nat \<Rightarrow> bool" where
  "final_head head t n \<longleftrightarrow> (let sound = (sm_list (p_am t) \<noteq> []); d = of_nat (n + 8) in \<exists>f h u A1 B1 C1 D1 A2 B2 C2 D2.
     track_names A1 B1 C1 D1 \<and> track_names A2 B2 C2 D2 \<and> set (map fst u) \<subseteq> {''udta''} \<and>
     head = tiles (head_tiles f h u sound (\<lambda>z. track_tiles A1 B1 C1 (D1 @ chunk_tiles (p_sm t) sound z)) (\<lambda>z. track_tiles A2 B2 C2 (D2 @ chunk_tiles (p_am t) True z))
       (concat (map put32 (shifted_offsets (p_sm t) sound d))) (concat (map put32 (shifted_offsets (p_am t) True d)))))"

lemma head_shifted:
  assumes "run_state (mp4_head t movie_ms delay_ms width height sps pps chapters) (new_buf mem) = ((offset_at, audio_offset_at), b)"
    and "\<not> hb_bad b" and "sm_list (p_sm t) \<noteq> []"
    and "run_state (shift_offsets t offset_at audio_offset_at (of_nat (length (hb_b b) + 8))) b = ((), b')"
  shows "final_head (hb_b b') t (length (hb_b b))" and "length (hb_b b') = length (hb_b b)"
proof -
  define sound where "sound = (sm_list (p_am t) \<noteq> [])" let ?d = "of_nat (length (hb_b b) + 8) :: u32"
  obtain f h u A1 B1 C1 D1 A2 B2 C2 D2 off1 off2 V A where
    VA: "V = (\<lambda>z. track_tiles A1 B1 C1 (D1 @ chunk_tiles (p_sm t) sound z))" "A = (\<lambda>z. track_tiles A2 B2 C2 (D2 @ chunk_tiles (p_am t) True z))"
    and names: "track_names A1 B1 C1 D1" "track_names A2 B2 C2 D2" "set (map fst u) \<subseteq> {''udta''}"
    and w: "writes (mp4_head t movie_ms delay_ms width height sps pps chapters) (\<lambda>n. (n + off1, if sound then n + off2 else 0))
          (tiles (head_tiles f h u sound V A (offset_bytes (p_sm t) sound) (offset_bytes (p_am t) True)))"
    and h1: "\<forall>za. hole (\<lambda>z. tiles (head_tiles f h u sound V A z za)) (4 * length (table_samples (p_sm t) sound)) off1"
    and h2: "sound \<longrightarrow> (\<forall>zv. length zv = 4 * length (table_samples (p_sm t) sound) \<longrightarrow> hole (\<lambda>z. tiles (head_tiles f h u sound V A zv z)) (4 * length (sm_list (p_am t))) off2)"
    using head_writes [of t movie_ms delay_ms width height sps pps chapters] unfolding is_head_def Let_def sound_def [symmetric] by blast
  let ?vo = "map sa_offset (table_samples (p_sm t) sound)" and ?ao = "map sa_offset (table_samples (p_am t) True)"
  let ?H = "\<lambda>zv za. tiles (head_tiles f h u sound V A zv za)"
  have b: "hb_b b = ?H (concat (map put32 ?vo)) (concat (map put32 ?ao))" "offset_at = off1" "sound \<Longrightarrow> audio_offset_at = off2"
    using w [unfolded writes_def, THEN spec, of "new_buf mem", unfolded assms(1)] assms(2) by (simp_all add: new_buf_def offset_bytes_list)
  have n1: "(if sm_list (p_am t) \<noteq> [] then length (sm_list (p_sm t)) else 1) = length ?vo"
    using assms(3) by (cases "sm_list (p_sm t)") (simp_all add: table_samples_def sound_def)
  let ?zv = "concat (map (\<lambda>w. put32 (w + ?d)) ?vo)" and ?za = "concat (map (\<lambda>w. put32 (w + ?d)) ?ao)"
  have lzv: "length ?zv = 4 * length (table_samples (p_sm t) sound)" using length_offsets [of "\<lambda>w. w + ?d" ?vo] by simp
  let ?b1 = "b\<lparr>hb_b := ?H ?zv (concat (map put32 ?ao))\<rparr>"
  have s1: "run_state (for_each (\<lambda>i. add32 (offset_at + i * 4) ?d) [0..<(if sm_list (p_am t) \<noteq> [] then length (sm_list (p_sm t)) else 1)]) b = ((), ?b1)"
    using add_loop_hole [where f = "\<lambda>z. ?H z (concat (map put32 ?ao))" and ws = ?vo and off = off1 and d = ?d, OF assms(2) b(1)] h1 b(2) by (simp only: n1 length_map)
  have s2: "run_state (for_each (\<lambda>i. add32 (audio_offset_at + i * 4) ?d) [0..<length (sm_list (p_am t))]) ?b1 = ((), b\<lparr>hb_b := ?H ?zv ?za\<rparr>)"
  proof (cases sound)
    case True
    have "hole (\<lambda>z. ?H ?zv z) (4 * length ?ao) off2" using h2 True lzv by (simp add: table_samples_def)
    from add_loop_hole [where f = "\<lambda>z. ?H ?zv z" and ws = ?ao and off = off2 and d = ?d, OF _ _ this, of ?b1]
    show ?thesis using b(3) [OF True] assms(2) by (simp add: table_samples_def)
  next
    case False
    then show ?thesis by (simp add: sound_def head_tiles_def sound_tiles_def)
  qed
  have "b' = b\<lparr>hb_b := ?H ?zv ?za\<rparr>" using assms(4) unfolding shift_offsets_def State_Monad.run_state_bind s1 prod.case s2 by blast
  then have b': "hb_b b' = ?H ?zv ?za" by simp
  have so: "?zv = concat (map put32 (shifted_offsets (p_sm t) sound ?d))" "?za = concat (map put32 (shifted_offsets (p_am t) True ?d))"
    by (simp_all add: shifted_offsets_def o_def)
  show "final_head (hb_b b') t (length (hb_b b))"
    unfolding final_head_def Let_def sound_def [symmetric] using names b' [unfolded so VA] by blast
  have l1: "length (?H ?zv za) = length (?H (concat (map put32 ?vo)) za)" for za
    using h1 [THEN spec, of za] lzv length_offsets [of "\<lambda>w. w" ?vo] by (auto simp: hole_def)
  have l2: "length (?H ?zv ?za) = length (?H ?zv (concat (map put32 ?ao)))"
  proof (cases sound)
    case True
    then show ?thesis using h2 lzv length_offsets [of "\<lambda>w. w" ?ao] length_offsets [of "\<lambda>w. w + ?d" ?ao] by (auto simp: hole_def table_samples_def)
  qed (simp add: head_tiles_def sound_tiles_def)
  show "length (hb_b b') = length (hb_b b)" using b' b(1) l1 l2 by simp
qed


section \<open>The samples, found\<close>

lemma read_one_each: "length offs = length ns \<Longrightarrow> read_chunks file 1 offs ns = map2 (segment file) offs ns"
  by (induction offs ns rule: list_induct2) simp_all

lemma read_chunk_run: "read_chunk (pre @ concat bs @ post) (length pre) (map length bs) = bs"
proof (induction bs arbitrary: pre)
  case (Cons x bs)
  show ?case using Cons.IH [of "pre @ x"] by (simp add: segment_def)
qed simp

lemma entries_bound:
  "off + length (concat (map item_bytes is)) < 2 ^ 32 \<Longrightarrow> (n, k, p) \<in> set (picture_entries off is) \<Longrightarrow> unat p \<le> off + length (concat (map item_bytes is))"
  "off + length (concat (map item_bytes is)) < 2 ^ 32 \<Longrightarrow> (n, k, p) \<in> set (sound_entries off is) \<Longrightarrow> unat p \<le> off + length (concat (map item_bytes is))"
proof (induction "is" arbitrary: off)
  case (Cons i "is")
  {
    case 1
    then show ?case using Cons(1) [of "off + length (item_bytes i)"] by (cases i) (fastforce simp: unat_short)+
  next
    case 2
    then show ?case using Cons(2) [of "off + length (item_bytes i)"] by (cases i) (fastforce simp: unat_short)+
  }
qed simp_all

lemma shifted_sample:
  assumes "length (head @ data) + 8 < 2 ^ 32" and "unat p \<le> length data" and "length h = 8"
  shows "segment (head @ h @ data) (unat (p + of_nat (length head + 8))) (unat n) = sample_at data (n, k, p)"
proof -
  have d: "unat (of_nat (length head + 8) :: u32) = length head + 8" by (rule unat_short(1)) (use assms(1) in simp)
  have "unat p + unat (of_nat (length head + 8) :: u32) < 2 ^ LENGTH(32)" unfolding d using assms(1,2) by simp
  then have "unat (p + of_nat (length head + 8)) = unat p + (length head + 8)" using unat_add_lem [of p "of_nat (length head + 8)"] d by simp
  then show ?thesis using assms(3) by (simp add: sample_at_def segment_def)
qed

text \<open>A table with a chunk for each sample, and a table of one chunk.\<close>

lemma interleaved_read:
  assumes "entries sm = es" and "\<And>n k p. (n, k, p) \<in> set es \<Longrightarrow> unat p \<le> length data" and "length (head @ data) + 8 < 2 ^ 32" and "length h = 8"
  shows "read_chunks (head @ h @ data) 1 (map unat (shifted_offsets sm True (of_nat (length head + 8)))) (map (unat \<circ> sa_size) (sm_list sm)) =
    map (sample_at data) es"
proof -
  let ?d = "of_nat (length head + 8) :: u32"
  have "read_chunks (head @ h @ data) 1 (map unat (shifted_offsets sm True ?d)) (map (unat \<circ> sa_size) (sm_list sm)) =
      map (\<lambda>s. segment (head @ h @ data) (unat (sa_offset s + ?d)) (unat (sa_size s))) (sm_list sm)"
    by (subst read_one_each) (simp_all add: shifted_offsets_def table_samples_def zip_map_map zip_same_conv_map)
  also have "\<dots> = map (\<lambda>s. sample_at data (entry_of s)) (sm_list sm)"
  proof (rule map_cong [OF refl])
    fix s
    assume "s \<in> set (sm_list sm)"
    then have "entry_of s \<in> set es" using assms(1) by (auto simp: entries_def)
    then have "unat (sa_offset s) \<le> length data" using assms(2) by (simp add: entry_of_def)
    then show "segment (head @ h @ data) (unat (sa_offset s + ?d)) (unat (sa_size s)) = sample_at data (entry_of s)"
      using shifted_sample [OF assms(3) _ assms(4)] by (simp add: entry_of_def)
  qed
  also have "\<dots> = map (sample_at data) es" using assms(1) by (auto simp: entries_def)
  finally show ?thesis .
qed

lemma picture_sizes: "sound_entries off is = [] \<Longrightarrow> length (concat (map item_bytes is)) < 2 ^ 32 \<Longrightarrow>
    map (\<lambda>e. unat (fst e)) (picture_entries off is) = map length (map item_bytes is) \<and> filter is_picture is = is"
proof (induction "is" arbitrary: off)
  case (Cons i "is")
  then show ?case by (cases i) (auto simp: unat_short)
qed simp

lemma one_chunk_read:
  assumes "entries sm = picture_entries 0 is" and "sound_entries 0 is = []" and "sm_list sm \<noteq> []" and "data = concat (map item_bytes is)"
    and "length (head @ data) + 8 < 2 ^ 32" and "length h = 8"
  shows "read_chunks (head @ h @ data) (length (sm_list sm)) (map unat (shifted_offsets sm False (of_nat (length head + 8)))) (map (unat \<circ> sa_size) (sm_list sm)) =
    map item_bytes is"
proof -
  let ?d = "of_nat (length head + 8) :: u32"
  have dl: "length (concat (map item_bytes is)) < 2 ^ 32" using assms(4,5) by simp
  obtain s ss where s: "sm_list sm = s # ss" using assms(3) by (cases "sm_list sm") auto
  have ns: "map (unat \<circ> sa_size) (sm_list sm) = map length (map item_bytes is)"
    using arg_cong [OF assms(1), of "map (\<lambda>e. unat (fst e))"] picture_sizes [OF assms(2) dl] by (simp add: entries_def entry_of_def o_def)
  obtain i is1 where i: "is = i # is1" using assms(1) s by (cases "is") (auto simp: entries_def)
  have "sa_offset s = 0" using assms(1,2) s by (cases i) (auto simp: entries_def entry_of_def i)
  then have off: "map unat (shifted_offsets sm False ?d) = [length (head @ h)]"
    using assms(5,6) unat_short(1) [of "length head + 8"] by (simp add: shifted_offsets_def table_samples_def s)
  have "length (sm_list sm) = length (map item_bytes is)" using arg_cong [OF ns, of length] by simp
  then have "take (length (sm_list sm)) (map length (map item_bytes is)) = map length (map item_bytes is)" by simp
  then show ?thesis unfolding off ns using read_chunk_run [of "head @ h" "map item_bytes is" "[]"] by (simp add: assms(4))
qed


definition item_tracks :: "mp4_item list \<Rightarrow> bytes list list" where
  "item_tracks is = (let sounds = filter (\<lambda>i. \<not> is_picture i) is
     in map item_bytes (filter is_picture is) # (if sounds = [] then [] else [map item_bytes sounds]))"

lemma sounds_none: "sound_entries off is = [] \<longleftrightarrow> filter (\<lambda>i. \<not> is_picture i) is = []"
  by (induction off "is" rule: sound_entries.induct) auto

lemma picture_entries_none: "picture_entries off is = [] \<longleftrightarrow> filter is_picture is = []"
  by (induction off "is" rule: picture_entries.induct) auto

lemma tiles_three: "tiles [a, b, c] = tiles [a, b] @ tiles [c]"
  by (simp add: tiles_def)

lemma play_file:
  assumes "final_head head t (length head)" and "length (head @ data) + 8 < 2 ^ 32" and "data = concat (map item_bytes is)"
    and "entries (p_sm t) = picture_entries 0 is" "entries (p_am t) = sound_entries 0 is" "sm_list (p_sm t) \<noteq> []"
  shows "play (head @ mdat_head (length data) @ data) = Some (item_tracks is)"
proof -
  define sound where "sound = (sm_list (p_am t) \<noteq> [])" let ?d = "of_nat (length head + 8) :: u32"
  obtain f h u A1 B1 C1 D1 A2 B2 C2 D2 where names: "track_names A1 B1 C1 D1" "track_names A2 B2 C2 D2" "set (map fst u) \<subseteq> {''udta''}"
    and head: "head = tiles (head_tiles f h u sound (\<lambda>z. track_tiles A1 B1 C1 (D1 @ chunk_tiles (p_sm t) sound z)) (\<lambda>z. track_tiles A2 B2 C2 (D2 @ chunk_tiles (p_am t) True z))
       (concat (map put32 (shifted_offsets (p_sm t) sound ?d))) (concat (map put32 (shifted_offsets (p_am t) True ?d))))"
    using assms(1) unfolding final_head_def Let_def sound_def [symmetric] by blast
  let ?V = "track_tiles A1 B1 C1 (D1 @ chunk_tiles (p_sm t) sound (concat (map put32 (shifted_offsets (p_sm t) sound ?d))))"
  let ?A = "track_tiles A2 B2 C2 (D2 @ chunk_tiles (p_am t) True (concat (map put32 (shifted_offsets (p_am t) True ?d))))"
  let ?moov = "[(''mvhd'', h), (''trak'', tiles ?V)] @ (if sound then [(''trak'', tiles ?A)] else []) @ u"
  let ?mp4 = "head @ mdat_head (length data) @ data" let ?top = "[(''ftyp'', f), (''moov'', tiles ?moov), (''mdat'', data)]"
  have h2: "head = tiles [(''ftyp'', f), (''moov'', tiles ?moov)]" using head unfolding head_tiles_def sound_tiles_def .
  have mdat: "tiles [(''mdat'', data)] = mdat_head (length data) @ data" by (simp add: tiles_def boxed_def mdat_head_def add.commute)
  have "tiles ?top = tiles [(''ftyp'', f), (''moov'', tiles ?moov)] @ tiles [(''mdat'', data)]" by (rule tiles_three)
  then have mp4: "?mp4 = tiles ?top" unfolding h2 [symmetric] mdat by (rule sym)
  have len: "length ?mp4 < 2 ^ 32" using assms(2) by (simp add: mdat_head_def)
  have fours: "list_all (\<lambda>(t, x). length t = 4) (A @ B @ C @ D)" if "track_names A B C D" for A B C D :: tile_list
    using that by (fastforce simp: track_names_def list_all_iff)
  have u4: "list_all (\<lambda>(t, x). length t = 4) u" using names(3) by (fastforce simp: list_all_iff)
  have lm: "length (tiles ?moov) < 2 ^ 32" using tile_length [of "''moov''" "tiles ?moov" ?top] len mp4 by simp
  have moov: "inside ''moov'' ?mp4 = Some (tiles ?moov)" using inside_tiles [of ?top "''moov''"] len mp4 by simp
  have bs: "boxes (tiles ?moov) = Some (map (\<lambda>(t, x). (ascii t, x)) ?moov)" by (rule boxes_tiles) (use u4 lm in simp_all)
  have "filter (\<lambda>(t, x). t = ascii ''trak'') (map (\<lambda>(t, x). (ascii t, x)) u) = []"
    using names(3) by (fastforce simp: filter_empty_conv)
  then have traks: "filter (\<lambda>(t, x). t = ascii ''trak'') (map (\<lambda>(t, x). (ascii t, x)) ?moov) =
      (ascii ''trak'', tiles ?V) # (if sound then [(ascii ''trak'', tiles ?A)] else [])" by simp
  have lV: "length (tiles ?V) < 2 ^ 32" using tile_length [of "''trak''" "tiles ?V" ?moov] lm by simp
  have lA: "length (tiles ?A) < 2 ^ 32" if sound using tile_length [of "''trak''" "tiles ?A" ?moov] lm that by simp
  have m8: "length (mdat_head (length data)) = 8" by (simp add: mdat_head_def)
  have dl: "0 + length (concat (map item_bytes is)) < 2 ^ 32" using assms(2,3) by simp
  have addr: "map (sample_at data) (picture_entries 0 is) = map item_bytes (filter is_picture is)"
      "map (sample_at data) (sound_entries 0 is) = map item_bytes (filter (\<lambda>i. \<not> is_picture i) is)"
    using entries_address [of "[]" "is" data "[]"] dl assms(3) by simp_all
  have snd: "sound \<longleftrightarrow> filter (\<lambda>i. \<not> is_picture i) is \<noteq> []" using assms(5) sounds_none [of 0 "is"] by (auto simp: sound_def entries_def)
  have V: "track_samples ?mp4 (tiles ?V) = Some (map item_bytes (filter is_picture is))"
  proof (cases sound)
    case True
    show ?thesis
      using track_found [OF names(1) fours [OF names(1)] lV, of ?mp4] interleaved_read [OF assms(4) _ assms(2) m8] entries_bound(1) [OF dl] assms(3) addr(1)
      by (simp add: True)
  next
    case False
    then have none: "sound_entries 0 is = []" using snd sounds_none [of 0 "is"] by simp
    then have "filter is_picture is = is" using picture_sizes [OF none] dl by simp
    then show ?thesis
      using track_found [OF names(1) fours [OF names(1)] lV, of ?mp4] one_chunk_read [OF assms(4) none assms(6,3,2) m8] by (simp add: False)
  qed
  have A: "track_samples ?mp4 (tiles ?A) = Some (map item_bytes (filter (\<lambda>i. \<not> is_picture i) is))" if sound
    using track_found [OF names(2) fours [OF names(2)] lA [OF that], of ?mp4] interleaved_read [OF assms(5) _ assms(2) m8] entries_bound(2) [OF dl] assms(3) addr(2)
    by simp
  show ?thesis
    unfolding play_def moov using bs traks V A snd by (cases sound) (simp_all add: item_tracks_def Let_def)
qed


section \<open>Every answer of the conversion\<close>

text \<open>A pass two that came to its end wrote what one with nothing in its way writes.\<close>

lemma write_nals_any: "foldl (write_nal wr) (ok, out) ns = (True, out') \<Longrightarrow> ok \<and> foldl (write_nal (\<lambda>_ _. True)) (True, out) ns = (True, out')"
proof (induction ns arbitrary: ok out)
  case (Cons n ns)
  obtain ok1 out1 where 1: "write_nal wr (ok, out) n = (ok1, out1)" by fastforce
  then have r: "ok1" "foldl (write_nal (\<lambda>_ _. True)) (True, out1) ns = (True, out')" using Cons by auto
  then have "ok \<and> write_nal (\<lambda>_ _. True) (True, out) n = (True, out1)"
    using 1 by (auto simp: write_nal_def io_write_def split: if_splits prod.splits bool.splits)
  then show ?case using r by simp
qed simp

lemma write_unit_any: "write_unit mem wr t u st = Some st' \<Longrightarrow> write_unit mem (\<lambda>_ _. True) t u st = Some st'"
proof -
  assume a: "write_unit mem wr t u st = Some st'"
  obtain b tm audio where u: "u = (b, tm, audio)" by (metis prod_cases3)
  show ?thesis
  proof (cases audio)
    case True
    then show ?thesis using a by (auto simp: write_unit_def u write_sound_def io_write_def split: if_splits option.splits prod.splits bool.splits)
  next
    case False
    then show ?thesis using a write_nals_any [of wr True "w_out st" "each_nal b"]
      by (auto simp: write_unit_def u write_picture_def Let_def split: if_splits prod.splits bool.splits)
  qed
qed

lemma pass_two_any: "pass_two mem k wr t rd st = Some st' \<Longrightarrow> pass_two mem k (\<lambda>_ _. True) t rd st = Some st'"
proof (induction mem k wr t rd st rule: pass_two.induct)
  case (1 mem k wr t rd st)
  obtain got rd1 where n: "next_au (mem k) rd = (got, rd1)" by fastforce
  show ?case
  proof (cases "got = 1 \<and> (w_written st < length (sm_list (p_sm t)) \<or> w_audio st < length (sm_list (p_am t)))")
    case True
    obtain st1 where st1: "write_unit (mem k) wr t (read_unit (rd_ready rd1)) st = Some st1" "pass_two mem (k + 1) wr t rd1 st1 = Some st'"
      using "1.prems" True n by (subst (asm) pass_two.simps) (auto split: option.split_asm)
    then show ?thesis using "1.IH" [OF n [symmetric] True st1] write_unit_any [OF st1(1)] True n by (subst pass_two.simps) simp
  next
    case False
    then have "st = st'" using "1.prems" n by (subst (asm) pass_two.simps) auto
    then show ?thesis using False n by (subst pass_two.simps) auto
  qed
qed

lemma table_unit_memory: "\<forall>n. mem n \<Longrightarrow> table_unit mem u st \<noteq> None"
proof -
  assume "\<forall>n. mem n"
  then have s: "sample_add mem s n y off = None \<longleftrightarrow> False" for s n y off by (simp add: sample_add_def Let_def)
  show ?thesis by (cases u) (simp add: table_unit_def table_sound_def table_picture_def s Let_def split: option.split)
qed

lemma pass_one_memory: "\<forall>k n. mem k n \<Longrightarrow> pass_one mem k rd st \<noteq> None"
proof (induction mem k rd st rule: pass_one.induct)
  case (1 mem k rd st)
  have m: "\<forall>n. mem k n" using "1.prems" by blast
  obtain got rd1 where n: "next_au (mem k) rd = (got, rd1)" by fastforce
  have "got \<noteq> -1" using next_au_memory [OF m, of rd] n by simp
  then have got: "got = 1 \<or> got = 0" using next_au_answers [OF n] by simp
  obtain st1 where st1: "table_unit (mem k) (read_unit (rd_ready rd1)) st = Some st1" using table_unit_memory [OF m] by blast
  then have "pass_one mem (k + 1) rd1 st1 \<noteq> None" if "got = 1" using that "1.IH" [OF n [symmetric] _ _ "1.prems", of st1] by simp
  then show ?case using got st1 n by (subst pass_one.simps) auto
qed

text \<open>Parameter sets: what pass one has not found is not there.\<close>

definition sps_unit :: "bytes \<Rightarrow> bool" where
  "sps_unit n \<longleftrightarrow> n \<noteq> [] \<and> nal_type n = 7 \<and> 4 \<le> length n"

definition pps_unit :: "bytes \<Rightarrow> bool" where
  "pps_unit n \<longleftrightarrow> n \<noteq> [] \<and> nal_type n = 8"

definition picture_units :: "unit_read list \<Rightarrow> bytes list" where
  "picture_units us = concat (map (\<lambda>(b, t, a). if a then [] else each_nal b) us)"

lemma scan_params:
  assumes "\<forall>n. mem n"
  shows "(sc_sps (foldl (scan_nal mem) s ns) = None \<longleftrightarrow> sc_sps s = None \<and> (\<forall>n \<in> set ns. \<not> sps_unit n)) \<and>
    (sc_pps (foldl (scan_nal mem) s ns) = None \<longleftrightarrow> sc_pps s = None \<and> (\<forall>n \<in> set ns. \<not> pps_unit n))"
proof (induction ns arbitrary: s)
  case (Cons n ns)
  have "sc_sps (scan_nal mem s n) = None \<longleftrightarrow> sc_sps s = None \<and> \<not> sps_unit n" "sc_pps (scan_nal mem s n) = None \<longleftrightarrow> sc_pps s = None \<and> \<not> pps_unit n"
    using assms by (auto simp: scan_nal_def sps_unit_def pps_unit_def Let_def)
  then show ?case using Cons [of "scan_nal mem s n"] by simp
qed simp

lemma table_params:
  "table_unit mem u st = Some st' \<Longrightarrow> p_sps st' = (case u of (b, t, a) \<Rightarrow> if a then p_sps st else sc_sps (foldl (scan_nal mem) (scan_start st) (each_nal b))) \<and>
     p_pps st' = (case u of (b, t, a) \<Rightarrow> if a then p_pps st else sc_pps (foldl (scan_nal mem) (scan_start st) (each_nal b)))"
proof -
  have k: "p_sps (sound_times x t s) = p_sps s" "p_pps (sound_times x t s) = p_pps s" "p_sps (picture_times t s) = p_sps s" "p_pps (picture_times t s) = p_pps s" for x t s
    by (simp_all add: sound_times_def picture_times_def Let_def)
  assume "table_unit mem u st = Some st'"
  then show ?thesis
    by (cases u) (auto simp: table_unit_def table_sound_def table_picture_def k Let_def split: option.split_asm if_split_asm prod.split_asm)
qed

lemma units_params:
  assumes "\<forall>k n. mem k n"
  shows "table_units mem k us st = Some t \<Longrightarrow> (p_sps t = None \<longleftrightarrow> p_sps st = None \<and> (\<forall>n \<in> set (picture_units us). \<not> sps_unit n)) \<and>
    (p_pps t = None \<longleftrightarrow> p_pps st = None \<and> (\<forall>n \<in> set (picture_units us). \<not> pps_unit n))"
proof (induction us arbitrary: k st)
  case (Cons u us)
  obtain b tm a where u: "u = (b, tm, a)" by (metis prod_cases3)
  obtain st1 where st1: "table_unit (mem k) u st = Some st1" "table_units mem (k + 1) us st1 = Some t" using Cons.prems by (auto split: option.split_asm)
  have units: "set (picture_units (u # us)) = (if a then {} else set (each_nal b)) \<union> set (picture_units us)" by (simp add: picture_units_def u)
  have "p_sps st1 = None \<longleftrightarrow> p_sps st = None \<and> (\<forall>n \<in> (if a then {} else set (each_nal b)). \<not> sps_unit n)"
    "p_pps st1 = None \<longleftrightarrow> p_pps st = None \<and> (\<forall>n \<in> (if a then {} else set (each_nal b)). \<not> pps_unit n)"
    using table_params [OF st1(1)] scan_params [of "mem k" "scan_start st" "each_nal b"] assms by (simp_all add: u scan_start_def)
  then show ?case using Cons.IH [OF st1(2)] unfolding units ball_Un by (simp only: conj_assoc)
qed (simp add: picture_units_def)

lemma finish_keeps:
  "entries (p_sm (finish_tables t)) = entries (p_sm t)" "entries (p_am (finish_tables t)) = entries (p_am t)" "p_snd (finish_tables t) = p_snd t"
  "p_bytes (finish_tables t) = p_bytes t"
  by (simp_all add: finish_tables_def Let_def)

lemma same_length: "entries a = entries b \<Longrightarrow> length (sm_list a) = length (sm_list b) \<and> (sm_list a = [] \<longleftrightarrow> sm_list b = [])"
proof -
  assume "entries a = entries b"
  then have "length (sm_list a) = length (sm_list b)" unfolding entries_def by (rule map_eq_imp_length_eq)
  then show ?thesis by (metis length_0_conv)
qed

text \<open>What pass one knows of the units it has read.\<close>

lemma pass_one_knows:
  assumes "pass_one mem k (ts_reader_start file) pass1_start = Some t"
  obtains us where "reads (\<lambda>_. True) (ts_reader_start file) us" "table_units mem k us pass1_start = Some t"
    "entries (p_sm t) = picture_entries 0 (mp4_items (False, None) us)" "entries (p_am t) = sound_entries 0 (mp4_items (False, None) us)"
    "p_bytes t = length (concat (map item_bytes (mp4_items (False, None) us)))"
    "\<forall>i \<in> set (mp4_items (False, None) us). \<forall>a. item_sound i = Some a \<longrightarrow> a = p_snd t"
proof -
  obtain us where us: "reads (\<lambda>_. True) (ts_reader_start file) us" "table_units mem k us pass1_start = Some t" using pass_one_reads [OF assms] by blast
  have start: "progress_of pass1_start = (False, None)" "entries (p_sm pass1_start) = []" "entries (p_am pass1_start) = []" "p_bytes pass1_start = 0"
    by (simp_all add: progress_of_def pass1_start_def no_samples_def entries_def)
  note tab = table_units_entries [OF us(2), unfolded start, simplified]
  show thesis
  proof (rule that [OF us tab(1-3)])
    have "a = p_snd t" if "i \<in> set (mp4_items (False, None) us)" "item_sound i = Some a" for i a
      using tab(5) [OF that] by (simp add: progress_of_def split: if_splits)
    then show "\<forall>i \<in> set (mp4_items (False, None) us). \<forall>a. item_sound i = Some a \<longrightarrow> a = p_snd t" by blast
  qed
qed

text \<open>Writing the file, once the tables are there.\<close>

lemma write_mp4_answers:
  assumes "sm_list (p_sm t) \<noteq> []"
    and "reads (\<lambda>_. True) (ts_reader_start file) us" "entries (p_sm t) = picture_entries 0 (mp4_items (False, None) us)" "entries (p_am t) = sound_entries 0 (mp4_items (False, None) us)"
    and "\<forall>i \<in> set (mp4_items (False, None) us). \<forall>a. item_sound i = Some a \<longrightarrow> a = p_snd t"
    and "p_bytes t = length (concat (map item_bytes (mp4_items (False, None) us)))"
  shows "case write_mp4 mem wr again (finish_tables t) width height sps pps chapters of
      Inl e \<Rightarrow> e = Memory_index \<and> (\<exists>n. \<not> mem Indexing n) \<or> e = Not_written \<and> ((\<exists>out data. \<not> wr out data) \<or> again \<noteq> Some file) \<or>
        e = Not_read_again \<and> again = None \<or> e = Recording_changed \<and> ((\<exists>k n. \<not> mem (Writing k) n) \<or> again \<noteq> Some file)
    | Inr mp4 \<Rightarrow> again = Some file \<longrightarrow> 2 ^ 32 \<le> length mp4 \<or> play mp4 = Some (item_tracks (mp4_items (False, None) us))"
proof -
  let ?t = "finish_tables t" and ?is = "mp4_items (False, None) us" let ?data = "concat (map item_bytes ?is)"
  obtain movie_ms delay_ms where mt: "movie_times ?t = (movie_ms, delay_ms)" by fastforce
  obtain at1 at2 b where b: "run_state (mp4_head ?t movie_ms delay_ms width height sps pps chapters) (new_buf (mem Indexing)) = ((at1, at2), b)"
    by (metis prod.exhaust)
  have bad: "\<exists>n. \<not> mem Indexing n" if "hb_bad b"
  proof -
    have "\<exists>r x. writes (mp4_head ?t movie_ms delay_ms width height sps pps chapters) r x"
      using head_writes [of ?t movie_ms delay_ms width height sps pps chapters] unfolding is_head_def Let_def by blast
    then obtain r x where "writes (mp4_head ?t movie_ms delay_ms width height sps pps chapters) r x" by blast
    then show ?thesis using that b unfolding writes_def by (auto simp: new_buf_def dest: spec [where x = "new_buf (mem Indexing)"])
  qed
  let ?d = "of_nat (length (hb_b b) + 8) :: u32"
  obtain b' where b': "run_state (shift_offsets ?t at1 at2 ?d) b = ((), b')" by (cases "run_state (shift_offsets ?t at1 at2 ?d) b") auto
  have ne: "sm_list (p_sm ?t) \<noteq> []" using same_length [OF finish_keeps(1)] assms(1) by simp
  have e: "entries (p_sm ?t) = picture_entries 0 ?is" "entries (p_am ?t) = sound_entries 0 ?is" using assms(3,4) by (simp_all add: finish_keeps)
  let ?out = "hb_b b' @ mdat_head (length ?data)"
  have in_step: "in_step ?t (pass2_start\<lparr>w_out := ?out\<rparr>) 0 (False, None) ?is"
    using e assms(5) by (simp add: in_step_def pass2_start_def finish_keeps(3))
  let ?mem = "\<lambda>k. mem (Writing k)" and ?st = "pass2_start\<lparr>w_out := ?out\<rparr>" and ?rd = "ts_reader_start file"
  from pass_two_units [OF assms(2) in_step, of 0] obtain w where w: "pass_two (\<lambda>_ _. True) 0 (\<lambda>_ _. True) ?t ?rd ?st = Some w"
    "w_written w = length (sm_list (p_sm ?t))" "w_audio w = length (sm_list (p_am ?t))" "w_out w = ?out @ ?data" by auto
  have two: "pass_two ?mem 0 wr ?t ?rd ?st = None \<and> (\<exists>out data. \<not> wr out data) \<or> pass_two ?mem 0 wr ?t ?rd ?st = Some w \<or>
    (\<exists>k n. \<not> mem (Writing k) n) \<and> write_samples ?mem wr (Some file) ?t ?out = Inl Recording_changed"
  proof (cases "pass_two ?mem 0 wr ?t ?rd ?st = pass_two (\<lambda>_ _. True) 0 wr ?t ?rd ?st")
    case True
    show ?thesis
    proof (cases "pass_two (\<lambda>_ _. True) 0 wr ?t ?rd ?st")
      case None
      have "wr \<noteq> (\<lambda>_ _. True)" using None w(1) by auto
      then show ?thesis using None True by (auto simp: fun_eq_iff)
    next
      case (Some w')
      then show ?thesis using pass_two_any [OF Some] w(1) True by simp
    qed
  next
    case False
    then show ?thesis using pass_two_memory [of ?mem 0 wr ?t ?rd ?st 0] by (auto simp: write_samples_def)
  qed
  have run: "write_mp4 mem wr again ?t width height sps pps chapters =
    (if hb_bad b then Inl Memory_index
     else if \<not> wr [] (hb_b b') \<or> \<not> wr (hb_b b') (mdat_head (length ?data)) then Inl Not_written
     else write_samples ?mem wr again ?t ?out)"
    using b b' mt by (simp add: write_mp4_def Let_def io_write_def finish_keeps(4) assms(6))
  have plays: "play (?out @ ?data) = Some (item_tracks ?is)" if "length (?out @ ?data) < 2 ^ 32" "\<not> hb_bad b"
  proof -
    have fh: "final_head (hb_b b') ?t (length (hb_b b'))" using head_shifted [OF b _ ne b'] that(2) by simp
    have "length (hb_b b' @ ?data) + 8 < 2 ^ 32" using that(1) by (simp add: mdat_head_def)
    from play_file [OF fh this refl e ne] show ?thesis by simp
  qed
  show ?thesis
  proof (cases "hb_bad b \<or> \<not> wr [] (hb_b b') \<or> \<not> wr (hb_b b') (mdat_head (length ?data))")
    case True
    then show ?thesis unfolding run using bad by auto
  next
    case False
    then have run2: "write_mp4 mem wr again ?t width height sps pps chapters = write_samples ?mem wr again ?t ?out" unfolding run by simp
    consider (none) "again = None" | (other) f where "again = Some f" "f \<noteq> file" | (same) "again = Some file" by (cases again) auto
    then show ?thesis
    proof cases
      case none
      then show ?thesis unfolding run2 by (simp add: write_samples_def)
    next
      case other
      then show ?thesis unfolding run2 by (auto simp: write_samples_def split: option.split)
    next
      case same
      from two show ?thesis
      proof (elim disjE conjE)
        assume "pass_two ?mem 0 wr ?t ?rd ?st = None" "\<exists>out data. \<not> wr out data"
        then show ?thesis unfolding run2 by (simp add: write_samples_def same)
      next
        assume "pass_two ?mem 0 wr ?t ?rd ?st = Some w"
        then have "write_samples ?mem wr again ?t ?out = Inr (?out @ ?data)" using w same by (simp add: write_samples_def)
        then show ?thesis unfolding run2 using plays False by (auto simp: not_less [symmetric])
      next
        assume "\<exists>k n. \<not> mem (Writing k) n" "write_samples ?mem wr (Some file) ?t ?out = Inl Recording_changed"
        then show ?thesis unfolding run2 by (simp add: same)
      qed
    qed
  qed
qed

text \<open>
  C13. The conversion has a reason for every answer, and its file plays. Whatever the recording, the memory at any time, the writes, the
  size of the picture and the chapters: it answers a lack of memory only when memory was refused, that it could not read again only
  when that failed, that there is no complete picture only when there is no sample or no parameter set (or no memory in the first
  reading), that it is too long only when it is; that it could not write, only when a write failed or the second reading gave
  other bytes; and that the recording has changed, only when it gave other bytes or was refused memory. If it succeeds and the
  second reading gave the same bytes - with memory or without - what it has written plays: a player that knows only the format finds in
  it, at the places its tables name, every picture and every sound frame that was read; or it is over 4 GB.
\<close>

theorem conversion_answers:
  "case ts_to_mp4 mem wr file again width height chapters of
     Inr mp4 \<Rightarrow> again = Some file \<longrightarrow> 2 ^ 32 \<le> length mp4 \<or>
       (\<exists>us. reads (\<lambda>_. True) (ts_reader_start file) us \<and> play mp4 = Some (item_tracks (mp4_items (False, None) us)))
   | Inl Memory_reading \<Rightarrow> \<exists>k n. \<not> mem (Reading k) n
   | Inl Memory_index \<Rightarrow> \<exists>n. \<not> mem Indexing n
   | Inl Not_written \<Rightarrow> (\<exists>out data. \<not> wr out data) \<or> again \<noteq> Some file
   | Inl Not_read_again \<Rightarrow> again = None
   | Inl No_picture \<Rightarrow> (\<exists>k n. \<not> mem (Reading k) n) \<or> (\<exists>us. reads (\<lambda>_. True) (ts_reader_start file) us \<and>
       (filter is_picture (mp4_items (False, None) us) = [] \<or> list_all (\<lambda>n. \<not> sps_unit n) (picture_units us) \<or> list_all (\<lambda>n. \<not> pps_unit n) (picture_units us)))
   | Inl Too_long \<Rightarrow> \<exists>us. reads (\<lambda>_. True) (ts_reader_start file) us \<and> 2 ^ 32 - 9 < length (concat (map item_bytes (mp4_items (False, None) us)))
   | Inl Recording_changed \<Rightarrow> (\<exists>k n. \<not> mem (Writing k) n) \<or> again \<noteq> Some file"
proof (cases "pass_one (\<lambda>k. mem (Reading k)) 0 (ts_reader_start file) pass1_start")
  case None
  then have "\<exists>k n. \<not> mem (Reading k) n" using pass_one_memory [of "\<lambda>k. mem (Reading k)"] by metis
  then show ?thesis using None by (simp add: ts_to_mp4_def)
next
  case (Some t)
  from pass_one_knows [OF Some] obtain us where us: "reads (\<lambda>_. True) (ts_reader_start file) us" "table_units (\<lambda>k. mem (Reading k)) 0 us pass1_start = Some t"
    "entries (p_sm t) = picture_entries 0 (mp4_items (False, None) us)" "entries (p_am t) = sound_entries 0 (mp4_items (False, None) us)"
    "p_bytes t = length (concat (map item_bytes (mp4_items (False, None) us)))"
    "\<forall>i \<in> set (mp4_items (False, None) us). \<forall>a. item_sound i = Some a \<longrightarrow> a = p_snd t" by blast
  show ?thesis
  proof (cases "sm_list (p_sm t) = [] \<or> p_sps t = None \<or> p_pps t = None")
    case True
    then have a: "ts_to_mp4 mem wr file again width height chapters = Inl No_picture"
      by (auto simp: ts_to_mp4_def Some split: option.split)
    have "sm_list (p_sm t) = [] \<longrightarrow> filter is_picture (mp4_items (False, None) us) = []"
      using arg_cong [OF us(3), of "\<lambda>x. x = []"] picture_entries_none [of 0 "mp4_items (False, None) us"] by (simp add: entries_def)
    then have "filter is_picture (mp4_items (False, None) us) = [] \<or> list_all (\<lambda>n. \<not> sps_unit n) (picture_units us) \<or> list_all (\<lambda>n. \<not> pps_unit n) (picture_units us)"
      if "\<forall>k n. mem (Reading k) n"
      using True units_params [OF that us(2)] by (auto simp: list_all_iff pass1_start_def)
    then show ?thesis unfolding a using us(1) by auto
  next
    case False
    then obtain sps pps where ps: "p_sps t = Some sps" "p_pps t = Some pps" by auto
    show ?thesis
    proof (cases "p_bytes t + 8 > 0xffffffff")
      case True
      then have a: "ts_to_mp4 mem wr file again width height chapters = Inl Too_long" using False ps by (simp add: ts_to_mp4_def Some)
      show ?thesis unfolding a using us(1,5) True by auto
    next
      case f: False
      then have a: "ts_to_mp4 mem wr file again width height chapters = write_mp4 mem wr again (finish_tables t) width height sps pps chapters"
        using False ps by (simp add: ts_to_mp4_def Some)
      have ne: "sm_list (p_sm t) \<noteq> []" using False by blast
      show ?thesis unfolding a
        using write_mp4_answers [where mem = mem and wr = wr and again = again and width = width and height = height and sps = sps and pps = pps and chapters = chapters, OF ne us(1,3,4,6,5)] us(1)
        by (auto split: sum.split mp4_error.split)
    qed
  qed
qed

section \<open>A recording, played\<close>

lemma reads_same: "reads mem r us \<Longrightarrow> reads mem r us' \<Longrightarrow> us = us'"
proof (induction arbitrary: us' rule: reads.induct)
  case (reads_end r r')
  from reads_end.prems show ?case by (cases rule: reads.cases) (use reads_end.hyps in simp_all)
next
  case (reads_unit r r' us)
  from reads_unit.prems show ?case
  proof (cases rule: reads.cases)
    case (reads_unit r1 us1)
    then show ?thesis using reads_unit.IH reads_unit.hyps by simp
  qed (use reads_unit.hyps in simp)
qed


fun call_nals :: "rec_call \<Rightarrow> bytes list" where
  "call_nals (Pic us pts key) = map snd us"
| "call_nals (Snd packet pts) = []"

lemma recording_units:
  "list_all call_ok cs \<Longrightarrow> P [9, 0xf0] = False \<Longrightarrow>
   (\<exists>n \<in> set (picture_units (concat (map call_units (map to_op cs)))). P n) \<longleftrightarrow> (\<exists>c \<in> set cs. \<exists>n \<in> set (call_nals c). P n)"
proof (induction cs)
  case (Cons c cs)
  have "(\<exists>n \<in> set (picture_units (call_units (to_op c))). P n) \<longleftrightarrow> (\<exists>n \<in> set (call_nals c). P n)"
    using Cons.prems aud_nals by (cases c) (simp_all add: picture_units_def)
  moreover have "picture_units (xs @ ys) = picture_units xs @ picture_units ys" for xs ys by (simp add: picture_units_def)
  ultimately show ?case using Cons by (simp add: bex_Un)
qed (simp add: picture_units_def)

lemma recording_film:
  assumes "list_all call_ok calls" and "list_ex is_picture (rec_items False calls)"
    and "\<exists>c \<in> set calls. \<exists>n \<in> set (call_nals c). sps_unit n" and "\<exists>c \<in> set calls. \<exists>n \<in> set (call_nals c). pps_unit n"
    and "length (concat (map item_bytes (rec_items False calls))) \<le> 2 ^ 32 - 9"
  shows "\<exists>mp4. ts_to_mp4 (\<lambda>_ _. True) (\<lambda>_ _. True) (concat (snd (ts_run m (map to_op calls))))
      (Some (concat (snd (ts_run m (map to_op calls))))) width height chapters = Inr mp4 \<and>
    (2 ^ 32 \<le> length mp4 \<or> play mp4 = Some (item_tracks (rec_items False calls)))"
proof -
  let ?mem = "\<lambda>(_ :: nat) (_ :: nat). True" and ?file = "concat (snd (ts_run m (map to_op calls)))" and ?us = "concat (map call_units (map to_op calls))"
  have "between None (ts_reader_start ?file) ?file" by (simp add: state_defs ts_reader_start_def no_au_def)
  then have rd: "reads (\<lambda>_. True) (ts_reader_start ?file) ?us" using run_read [of "\<lambda>_. True" None] by (simp add: pending_def del: map_map)
  obtain t where t: "pass_one ?mem 0 (ts_reader_start ?file) pass1_start = Some t" using pass_one_memory [of ?mem] by blast
  from pass_one_knows [OF t] obtain us where us: "reads (\<lambda>_. True) (ts_reader_start ?file) us" "table_units ?mem 0 us pass1_start = Some t"
    "entries (p_sm t) = picture_entries 0 (mp4_items (False, None) us)" "entries (p_am t) = sound_entries 0 (mp4_items (False, None) us)"
    "p_bytes t = length (concat (map item_bytes (mp4_items (False, None) us)))"
    "\<forall>i \<in> set (mp4_items (False, None) us). \<forall>a. item_sound i = Some a \<longrightarrow> a = p_snd t" by blast
  have u: "us = ?us" by (rule reads_same [OF us(1) rd])
  have items: "mp4_items (False, None) us = rec_items False calls" using recording_items [OF assms(1), of None False] by (simp add: u)
  have "picture_entries 0 (rec_items False calls) \<noteq> []"
    using assms(2) picture_entries_none [of 0 "rec_items False calls"] by (auto simp: list_ex_iff filter_empty_conv)
  then have ne: "sm_list (p_sm t) \<noteq> []" using us(3) by (auto simp: entries_def items)
  have "p_sps t \<noteq> None" "p_pps t \<noteq> None"
    using units_params [of ?mem, OF _ us(2)] recording_units [OF assms(1), of sps_unit] recording_units [OF assms(1), of pps_unit] assms(3,4)
    by (auto simp: u pass1_start_def sps_unit_def pps_unit_def nal_type_def)
  then obtain sps pps where ps: "p_sps t = Some sps" "p_pps t = Some pps" by blast
  have a: "ts_to_mp4 (\<lambda>_ _. True) (\<lambda>_ _. True) ?file (Some ?file) width height chapters = write_mp4 (\<lambda>_ _. True) (\<lambda>_ _. True) (Some ?file) (finish_tables t) width height sps pps chapters"
    using ne ps us(5) assms(5) by (simp add: ts_to_mp4_def t items)
  show ?thesis unfolding a
    using write_mp4_answers [where mem = "\<lambda>_ _. True" and wr = "\<lambda>_ _. True" and again = "Some ?file" and width = width and height = height and sps = sps and pps = pps and chapters = chapters,
        OF ne us(1,3,4,6,5)]
    by (auto simp: items split: sum.split_asm)
qed

text \<open>
  C12. A recording becomes a film. Whatever was recorded - pictures of NAL units with either start code, sound packets,
  in any order - if among it are a parameter set of each kind and a picture that decodes on its own, and it is not over
  4 GB, then with memory and working files the conversion of the recorded file succeeds, and a player finds in what it
  has written the pictures from that one on, each unit but the delimiters and parameter sets behind its length, and in a
  track of their own the sound packets recorded after it, each as it was handed to the muxer.
\<close>

theorem recording_converts:
  assumes "list_all call_ok calls" and "list_ex is_picture (rec_items False calls)"
    and "\<exists>c \<in> set calls. \<exists>n \<in> set (call_nals c). sps_unit n" and "\<exists>c \<in> set calls. \<exists>n \<in> set (call_nals c). pps_unit n"
    and "length (concat (map item_bytes (rec_items False calls))) \<le> 2 ^ 32 - 9"
  shows "\<exists>mp4. ts_to_mp4 (\<lambda>_ _. True) (\<lambda>_ _. True) (concat (snd (ts_run m (map to_op calls))))
      (Some (concat (snd (ts_run m (map to_op calls))))) width height chapters = Inr mp4 \<and>
    (2 ^ 32 \<le> length mp4 \<or> play mp4 = Some (item_tracks (rec_items False calls)))"
  using assms by (rule recording_film)

text \<open>
  A conversion that is refused memory only when it reads for the second time says that the recording has changed.
\<close>

lemma refused_to_write:
  assumes "ts_to_mp4 (\<lambda>_ _. True) (\<lambda>_ _. True) file (Some again) width height chapters = Inr mp4"
    and "fst (next_au (\<lambda>_. False) (ts_reader_start again)) = -1"
  shows "ts_to_mp4 (\<lambda>m _. \<forall>k. m \<noteq> Writing k) (\<lambda>_ _. True) file (Some again) width height chapters = Inl Recording_changed"
proof -
  let ?mem = "\<lambda>(m :: moment) (n :: nat). \<forall>k. m \<noteq> Writing k"
  obtain t sps pps where t: "pass_one (\<lambda>_ _. True) 0 (ts_reader_start file) pass1_start = Some t" "sm_list (p_sm t) \<noteq> []"
      "p_sps t = Some sps" "p_pps t = Some pps" "\<not> p_bytes t + 8 > 0xffffffff"
      "write_mp4 (\<lambda>_ _. True) (\<lambda>_ _. True) (Some again) (finish_tables t) width height sps pps chapters = Inr mp4"
    using assms(1) by (auto simp: ts_to_mp4_def split: option.split_asm if_split_asm)
  have ne: "sm_list (p_sm (finish_tables t)) \<noteq> []" using same_length [OF finish_keeps(1)] t(2) by simp
  have "pass_two (\<lambda>_ _. False) 0 wr t' (ts_reader_start again) st = Some st" for wr t' st
    using assms(2) by (subst pass_two.simps) (auto split: prod.split)
  then have w: "write_samples (\<lambda>_ _. False) wr (Some again) (finish_tables t) out = Inl Recording_changed" for wr out
    using ne by (simp add: write_samples_def pass2_start_def)
  have "write_mp4 ?mem (\<lambda>_ _. True) (Some again) (finish_tables t) width height sps pps chapters = Inl Recording_changed"
    using t(6) w by (auto simp: write_mp4_def Let_def io_write_def split: prod.split_asm if_split_asm)
  then show ?thesis using t(1-5) by (simp add: ts_to_mp4_def)
qed

definition demo_film :: "rec_call list" where
  "demo_film = [Snd [7, 7] 0, Pic [(True, [0x67, 1, 2, 3]), (True, [0x68, 1]), (False, [0x65, 1])] 3600 False, Snd [1, 2, 3] 3800,
    Pic [(True, [0x41, 2])] 7200 False]"

lemma demo_tracks: "item_tracks (rec_items False demo_film) = [[[0, 0, 0, 2, 101, 1], [0, 0, 0, 2, 65, 2]], [[1, 2, 3]]]"
  by code_simp

lemma demo_size: "length (concat (map item_bytes (rec_items False demo_film))) = 15"
  by code_simp

lemma demo_pictures: "list_all call_ok demo_film" "list_ex is_picture (rec_items False demo_film)"
  by code_simp+

lemma demo_params: "list_ex (\<lambda>c. list_ex sps_unit (call_nals c)) demo_film" "list_ex (\<lambda>c. list_ex pps_unit (call_nals c)) demo_film"
  by code_simp+

lemma demo_fits: "\<exists>c \<in> set demo_film. \<exists>n \<in> set (call_nals c). sps_unit n" "\<exists>c \<in> set demo_film. \<exists>n \<in> set (call_nals c). pps_unit n"
  "length (concat (map item_bytes (rec_items False demo_film))) \<le> 2 ^ 32 - 9"
proof -
  show "\<exists>c \<in> set demo_film. \<exists>n \<in> set (call_nals c). sps_unit n" "\<exists>c \<in> set demo_film. \<exists>n \<in> set (call_nals c). pps_unit n"
    using demo_params by (auto simp: list_ex_iff)
  show "length (concat (map item_bytes (rec_items False demo_film))) \<le> 2 ^ 32 - 9" unfolding demo_size by simp
qed

lemmas demo_ok = demo_pictures demo_fits

theorem recording_converts_witness:
  "\<exists>mp4. ts_to_mp4 (\<lambda>_ _. True) (\<lambda>_ _. True) (concat (snd (ts_run ts_mux_init (map to_op demo_film))))
      (Some (concat (snd (ts_run ts_mux_init (map to_op demo_film))))) 640 480 [] = Inr mp4 \<and>
    (2 ^ 32 \<le> length mp4 \<or> play mp4 = Some [[[0, 0, 0, 2, 101, 1], [0, 0, 0, 2, 65, 2]], [[1, 2, 3]]])"
  using recording_converts [OF demo_ok, of ts_mux_init 640 480 "[]"] by (simp only: demo_tracks)

text \<open>The film's first packet holds sound, for which the reader asks for memory.\<close>

definition demo_packet :: bytes where
  "demo_packet = concat (snd (ts_run ts_mux_init [to_op (Snd [7, 7] 0)]))"

lemma demo_packet_facts:
  "pkt_ok demo_packet" "pkt_payload demo_packet \<noteq> []" "pkt_pid demo_packet = PID_AUDIO" "demo_packet ! 1 AND 0x40 \<noteq> 0"
  "pkt_at demo_packet < 188"
  by code_simp+

lemma demo_packet_sound:
  "case audio_start demo_packet (pkt_at demo_packet) ((ts_reader_start [])\<lparr>rd_pkt := demo_packet, rd_in := rest\<rparr>) of
     (good, at, r) \<Rightarrow> good \<and> at < 188 \<and> rd_aopen r \<and> au_cap (rd_acur r) = 0 \<and> au_bytes (rd_acur r) = [] \<and> 0 < rd_awant r"
  by code_simp

lemma demo_needs_memory: "fst (next_au (\<lambda>_. False) (ts_reader_start (concat (snd (ts_run ts_mux_init (map to_op demo_film)))))) = -1"
proof -
  let ?m = "fst (ts_call ts_mux_init (to_op (Snd [7, 7] 0)))"
  obtain rest where rest: "concat (snd (ts_run ts_mux_init (map to_op demo_film))) = demo_packet @ rest"
    unfolding demo_film_def demo_packet_def by (simp add: case_prod_beta)
  let ?r = "(ts_reader_start [])\<lparr>rd_pkt := demo_packet, rd_in := rest\<rparr>"
  obtain at r where s: "audio_start demo_packet (pkt_at demo_packet) ?r = (True, at, r)" "at < 188" "rd_aopen r"
      "au_cap (rd_acur r) = 0" "au_bytes (rd_acur r) = []" "0 < rd_awant r"
    using demo_packet_sound [of rest] by (auto split: prod.splits)
  have l: "length demo_packet = 188" using demo_packet_facts(1) by (simp add: pkt_ok_def)
  have "au_append (\<lambda>_. False) (segment demo_packet at n) (rd_acur r) = None" if "0 < n" for n
    using s(2,4,5) that l by (simp add: au_append_def Let_def segment_def)
  then have "fst (audio_more (\<lambda>_. False) demo_packet at r) = -1" using s by (simp add: audio_more_def Let_def)
  then have "fst (au_packet (\<lambda>_. False) ?r) = Some (-1)"
    using au_packet_ok [of demo_packet ?r] demo_packet_facts s(1)
    by (simp add: audio_packet_def ts_reader_start_def pid_defs case_prod_beta split: if_split)
  moreover have "fresh (ts_reader_start (demo_packet @ rest)) (demo_packet @ rest)" by (simp add: fresh_def ts_reader_start_def)
  moreover have "(ts_reader_start (demo_packet @ rest))\<lparr>rd_pkt := demo_packet, rd_in := rest\<rparr> = ?r" by (simp add: ts_reader_start_def)
  ultimately show ?thesis
    using next_au_read [of "ts_reader_start (demo_packet @ rest)" demo_packet rest "\<lambda>_. False"] demo_packet_facts(1)
    unfolding rest by (cases "au_packet (\<lambda>_. False) ?r") simp
qed

theorem conversion_answers_witness:
  "let file = concat (snd (ts_run ts_mux_init (map to_op demo_film))) in
   (\<exists>mp4. ts_to_mp4 (\<lambda>_ _. True) (\<lambda>_ _. True) file (Some file) 640 480 [] = Inr mp4 \<and> (2 ^ 32 \<le> length mp4 \<or>
     (\<exists>us. reads (\<lambda>_. True) (ts_reader_start file) us \<and> play mp4 = Some (item_tracks (mp4_items (False, None) us))))) \<and>
   ts_to_mp4 (\<lambda>m _. \<forall>k. m \<noteq> Writing k) (\<lambda>_ _. True) file (Some file) 640 480 [] = Inl Recording_changed"
proof -
  let ?file = "concat (snd (ts_run ts_mux_init (map to_op demo_film)))"
  obtain mp4 where m: "ts_to_mp4 (\<lambda>_ _. True) (\<lambda>_ _. True) ?file (Some ?file) 640 480 [] = Inr mp4"
    using recording_film [OF demo_ok, of ts_mux_init 640 480 "[]"] by blast
  show ?thesis
    using conversion_answers [where mem = "\<lambda>_ _. True" and wr = "\<lambda>_ _. True" and ?file = ?file and again = "Some ?file" and width = 640 and height = 480 and chapters = "[]"] m refused_to_write [OF m demo_needs_memory]
    unfolding Let_def m by simp
qed

end
